(* ===== verification/Prelude.thy ===== *)
theory Prelude
  imports Main "HOL-Library.Word"
begin

text \<open>
  Shared vocabulary of the development: the machine integers of \<open>include/types.h\<close>, the
  outcome of a C function that can fail (a failed \<open>ASSERT\<close> or \<open>PANIC\<close>, an access or a
  fall-through that C leaves undefined, a loop that does not end), sequencing of such
  functions, and the facts on 32-bit words that every component uses.
\<close>

unbundle bit_operations_syntax

section \<open>Machine integers\<close>

type_synonym u8 = "8 word"
type_synonym u16 = "16 word"
type_synonym u32 = "32 word"
type_synonym u64 = "64 word"

text \<open>The null pointer of \<open>types.h\<close>.\<close>

abbreviation (input) NULL :: u32 where
  "NULL \<equiv> 0"

section \<open>Outcomes\<close>

text \<open>
  \<open>Panic f c\<close>: the assertion \<open>c\<close> of function \<open>f\<close> failed, so \<open>panic_spin\<close> printed it and
  spins with interrupts off. \<open>Undefined f\<close>: the execution reached behaviour that C does not
  define, in function \<open>f\<close>. \<open>Diverges f\<close>: a loop of \<open>f\<close> does not end. \<open>PageFault a\<close>: the
  address \<open>a\<close> has no translation. \<open>Blocked f\<close>: the caller of \<open>f\<close> was taken off the processor,
  and what happens until it is back is described by the step relation of \<open>Sync\<close>.
\<close>

datatype fault =
    Panic string string
  | Undefined string
  | Diverges string
  | Blocked string
  | PageFault u32

type_synonym 'a outcome = "fault + 'a"

definition rbind :: "'a outcome \<Rightarrow> ('a \<Rightarrow> 'b outcome) \<Rightarrow> 'b outcome" where
  "rbind r f = (case r of Inl e \<Rightarrow> Inl e | Inr x \<Rightarrow> f x)"

definition c_assert :: "string \<Rightarrow> string \<Rightarrow> bool \<Rightarrow> unit outcome" where
  "c_assert fn txt c = (if c then Inr () else Inl (Panic fn txt))"

text \<open>A loop modelled with \<open>partial_function (option)\<close> diverges where it has no value.\<close>

definition terminates :: "string \<Rightarrow> 'a option \<Rightarrow> 'a outcome" where
  "terminates fn r = (case r of None \<Rightarrow> Inl (Diverges fn) | Some x \<Rightarrow> Inr x)"

lemma rbind_simps [simp]:
  "rbind (Inl e) f = Inl e"
  "rbind (Inr x) f = f x"
  by (simp_all add: rbind_def)

lemma rbind_eq_Inr [simp]:
  "rbind r f = Inr y \<longleftrightarrow> (\<exists>x. r = Inr x \<and> f x = Inr y)"
  by (cases r) auto

lemma rbind_eq_Inl:
  "rbind r f = Inl e \<longleftrightarrow> r = Inl e \<or> (\<exists>x. r = Inr x \<and> f x = Inl e)"
  by (cases r) auto

lemma c_assert_simps [simp]:
  "c_assert fn txt True = Inr ()"
  "c_assert fn txt False = Inl (Panic fn txt)"
  by (simp_all add: c_assert_def)

lemma c_assert_eq_Inr [simp]: "c_assert fn txt c = Inr u \<longleftrightarrow> c"
  by (simp add: c_assert_def)

lemma c_assert_eq_Inl [simp]: "c_assert fn txt c = Inl e \<longleftrightarrow> \<not> c \<and> e = Panic fn txt"
  by (auto simp: c_assert_def)

lemma terminates_simps [simp]:
  "terminates fn None = Inl (Diverges fn)"
  "terminates fn (Some x) = Inr x"
  by (simp_all add: terminates_def)

lemma terminates_eq_Inr [simp]: "terminates fn r = Inr x \<longleftrightarrow> r = Some x"
  by (cases r) auto

section \<open>Facts on words\<close>

text \<open>Rewrites from words to natural numbers.\<close>

named_theorems to_nat \<open>rules that read a word expression as a natural number\<close>

lemma unat_inc32: "unat (x :: u32) < 2 ^ 32 - 1 \<Longrightarrow> unat (x + 1) = Suc (unat x)"
  by (simp add: unat_word_ariths)

lemma unat_of_nat32: "n < 2 ^ 32 \<Longrightarrow> unat (of_nat n :: u32) = n"
  by (simp add: unat_of_nat)

lemma of_nat32_eq_iff:
  "i < 2 ^ 32 \<Longrightarrow> j < 2 ^ 32 \<Longrightarrow> (of_nat i :: u32) = of_nat j \<longleftrightarrow> i = j"
  by (metis unat_of_nat32)

lemma unat_add32:
  "unat (x :: u32) + unat y < 2 ^ 32 \<Longrightarrow> unat (x + y) = unat x + unat y"
  by (simp add: unat_word_ariths)

lemma unat_mult32:
  "unat (x :: u32) * unat y < 2 ^ 32 \<Longrightarrow> unat (x * y) = unat x * unat y"
  by (simp add: unat_word_ariths)

lemma unat_div32: "unat ((x :: u32) div y) = unat x div unat y"
  by (simp add: unat_div)

lemma unat_mod32: "unat ((x :: u32) mod y) = unat x mod unat y"
  by (simp add: unat_mod)

lemmas unat32_simps = unat_div32 unat_mod32 unat_of_nat32

declare unat32_simps [to_nat]

lemma unat_bound32: "unat (x :: u32) < 4294967296"
  using unsigned_less [of x] by simp

lemma add_offset_eq_iff:
  "i < 2 ^ 32 \<Longrightarrow> j < 2 ^ 32 \<Longrightarrow> (p :: u32) + of_nat i = p + of_nat j \<longleftrightarrow> i = j"
  using of_nat32_eq_iff by simp

lemma offset_Suc: "(p :: u32) + of_nat (Suc n) = p + 1 + of_nat n"
  by (simp add: add.assoc)

lemma of_nat32_mod: "(of_nat (n mod 2 ^ 32) :: u32) = of_nat n"
  by (rule word_unat_eq_iff [THEN iffD2]) (simp add: unat_of_nat)

lemma offset_exists: "\<exists>i < 2 ^ 32. (a :: u32) = p + of_nat i"
proof (intro exI conjI)
  show "unat (a - p) < 2 ^ 32" using unsigned_less [of "a - p"] by simp
  show "a = p + of_nat (unat (a - p))" by simp
qed

section \<open>Masks and shifts\<close>

lemma unat_drop_bit32 [to_nat]: "unat (drop_bit n (x :: u32)) = unat x div 2 ^ n"
  by (subst unat_drop_bit_eq) (rule drop_bit_eq_div)

lemma unat_and_mask [to_nat]: "unat ((x :: u32) AND mask n) = unat x mod 2 ^ n"
  unfolding take_bit_eq_mask [symmetric] unsigned_take_bit_eq by (rule take_bit_eq_mod)

lemma unat_exp32:
  assumes "n < 32"
  shows "unat ((2 :: u32) ^ n) = 2 ^ n"
proof -
  have "(2 :: nat) ^ n < 2 ^ 32" using assms by (rule power_strict_increasing) simp
  from unat_of_nat32 [OF this] show ?thesis by simp
qed

lemma and_not_mask_eq: "(x :: u32) AND NOT (mask n) = push_bit n (drop_bit n x)"
  by (rule bit_word_eqI) (auto simp: bit_simps)

lemma unat_and_not_mask [to_nat]:
  assumes "n < 32"
  shows "unat ((x :: u32) AND NOT (mask n)) = unat x div 2 ^ n * 2 ^ n"
proof -
  have "unat x div 2 ^ n * 2 ^ n < 2 ^ 32"
    using unat_bound32 [of x] by (simp add: order_le_less_trans [OF div_times_less_eq_dividend])
  then have "unat (drop_bit n x * 2 ^ n) = unat x div 2 ^ n * 2 ^ n"
    using unat_exp32 [OF assms] unat_drop_bit32 [of n x] by (subst unat_mult32) simp_all
  then show ?thesis unfolding and_not_mask_eq push_bit_eq_mult .
qed

text \<open>The masks the kernel writes as literals.\<close>

lemma mask_literals:
  "(0xfffff000 :: u32) = NOT (mask 12)"
  "(0xffc00000 :: u32) = NOT (mask 22)"
  "(0xfff :: u32) = mask 12"
  by (simp_all add: mask_eq_exp_minus_1)

lemma unat_frame: "unat ((x :: u32) AND 0xfffff000) = unat x div 4096 * 4096"
  unfolding mask_literals by (simp add: unat_and_not_mask)

lemma unat_offset: "unat ((x :: u32) AND 0xfff) = unat x mod 4096"
  unfolding mask_literals by (simp add: unat_and_mask)

lemma frame_plus_offset: "((x :: u32) AND 0xfffff000) + (x AND 0xfff) = x"
proof -
  have "unat x div 4096 * 4096 + unat x mod 4096 < 2 ^ 32" using unat_bound32 [of x] by simp
  then show ?thesis
    by (intro word_unat_eq_iff [THEN iffD2]) (simp add: unat_add32 unat_frame unat_offset)
qed

lemma word32_eqI: "unat (x :: u32) = unat y \<Longrightarrow> x = y"
  by (rule word_unat_eq_iff [THEN iffD2])

end
