(* ===== verification/Interrupt.thy ===== *)
theory Interrupt
  imports Prelude
begin

text \<open>
  \<open>src/kernel/interrupt.c\<close>: the interrupt flag of the processor and the functions that read,
  clear, set and restore it (the descriptor table, the handlers and the controllers are in \<open>Idt\<close>).
  The state is an extensible record: the components that run with interrupts off extend it, and
  the functions here work on every extension.
\<close>

section \<open>The interrupt flag\<close>

text \<open>
  \<open>kmsg\<close> records the calls of \<open>printf\<close> the kernel makes, format and numeric arguments; how
  a format turns into text is the business of \<open>lib/vsprintf.c\<close>.
\<close>

record cpu =
  eflags :: u32
  kmsg :: "(string \<times> u32 list) list"

definition kprintf :: "string \<Rightarrow> u32 list \<Rightarrow> 'a cpu_scheme \<Rightarrow> 'a cpu_scheme" where
  "kprintf fmt args s = s\<lparr>kmsg := kmsg s @ [(fmt, args)]\<rparr>"

datatype intr_status = INTR_OFF | INTR_ON

text \<open>The instructions \<open>sti\<close> and \<open>cli\<close> set and clear bit 9 of \<open>eflags\<close>.\<close>

definition sti :: "'a cpu_scheme \<Rightarrow> 'a cpu_scheme" where
  "sti s = s\<lparr>eflags := eflags s OR 0x200\<rparr>"

definition cli :: "'a cpu_scheme \<Rightarrow> 'a cpu_scheme" where
  "cli s = s\<lparr>eflags := eflags s AND NOT 0x200\<rparr>"

definition intr_get_status :: "'a cpu_scheme \<Rightarrow> intr_status" where
  "intr_get_status s = (if 0x200 AND eflags s \<noteq> 0 then INTR_ON else INTR_OFF)"

definition intr_enable :: "'a cpu_scheme \<Rightarrow> intr_status \<times> 'a cpu_scheme" where
  "intr_enable s = (if INTR_ON = intr_get_status s then (INTR_ON, s) else (INTR_OFF, sti s))"

definition intr_disable :: "'a cpu_scheme \<Rightarrow> intr_status \<times> 'a cpu_scheme" where
  "intr_disable s = (if INTR_ON = intr_get_status s then (INTR_ON, cli s) else (INTR_OFF, s))"

definition intr_set_status :: "intr_status \<Rightarrow> 'a cpu_scheme \<Rightarrow> intr_status \<times> 'a cpu_scheme" where
  "intr_set_status status s = (if status = INTR_ON then intr_enable s else intr_disable s)"

lemma bit_0x200: "bit (0x200 :: u32) i \<longleftrightarrow> i = 9"
proof -
  have eq: "(0x200 :: u32) = 2 ^ 9" by simp
  show ?thesis unfolding eq bit_exp_iff by auto
qed

lemma and_0x200_iff: "(0x200 AND (x :: u32) \<noteq> 0) \<longleftrightarrow> bit x 9"
proof -
  have bits: "bit ((0x200 :: u32) AND x) i \<longleftrightarrow> i = 9 \<and> bit x 9" for i
    unfolding bit_and_iff bit_0x200 by blast
  show ?thesis
  proof
    assume "0x200 AND x \<noteq> 0"
    then obtain i where "bit (0x200 AND x) i" using bit_eqI [of "0x200 AND x" 0] by auto
    then show "bit x 9" using bits by simp
  next
    assume "bit x 9"
    then have "bit (0x200 AND x) 9" using bits by simp
    then show "0x200 AND x \<noteq> 0" by auto
  qed
qed

lemma intr_get_status_eq: "intr_get_status s = (if bit (eflags s) 9 then INTR_ON else INTR_OFF)"
  by (simp add: intr_get_status_def and_0x200_iff)

lemma eflags_sti [simp]: "bit (eflags (sti s)) i \<longleftrightarrow> i = 9 \<or> bit (eflags s) i"
proof -
  have eq: "eflags (sti s) = eflags s OR 0x200" by (simp add: sti_def)
  show ?thesis unfolding eq bit_or_iff bit_0x200 by blast
qed

lemma eflags_cli [simp]: "bit (eflags (cli s)) i \<longleftrightarrow> i \<noteq> 9 \<and> bit (eflags s) i"
proof -
  have eq: "eflags (cli s) = eflags s AND NOT 0x200" by (simp add: cli_def)
  show ?thesis unfolding eq bit_and_iff bit_not_iff bit_0x200
    using bit_imp_le_length [of "eflags s" i] by auto
qed

lemma intr_status_sti [simp]: "intr_get_status (sti s) = INTR_ON"
  by (simp add: intr_get_status_eq)

lemma intr_status_cli [simp]: "intr_get_status (cli s) = INTR_OFF"
  by (simp add: intr_get_status_eq)

lemma sti_cli: "bit (eflags s) 9 \<Longrightarrow> sti (cli s) = s"
proof -
  assume "bit (eflags s) 9"
  then have "eflags (sti (cli s)) = eflags s"
    by (intro bit_word_eqI) auto
  then show ?thesis by (simp add: sti_def cli_def)
qed

lemma cli_off: "\<not> bit (eflags s) 9 \<Longrightarrow> cli s = s"
proof -
  assume "\<not> bit (eflags s) 9"
  then have "eflags (cli s) = eflags s" by (intro bit_word_eqI) auto
  then show ?thesis by (simp add: cli_def)
qed

text \<open>
  The idiom of the kernel: \<open>old = intr_disable(); ...; intr_set_status(old)\<close>. Inside, the
  flag is off; afterwards every bit of \<open>eflags\<close> is what it was.
\<close>

lemma intr_disable_off: "intr_get_status (snd (intr_disable s)) = INTR_OFF"
  by (simp add: intr_disable_def) (metis intr_status.exhaust)

lemma intr_disable_eq: "intr_disable s = (intr_get_status s, cli s)"
  by (cases "bit (eflags s) 9") (simp_all add: intr_disable_def intr_get_status_eq cli_off)

lemma intr_enable_on: "intr_get_status (snd (intr_enable s)) = INTR_ON"
  by (simp add: intr_enable_def)

lemma intr_set_status_result:
  "fst (intr_set_status st s) = intr_get_status s"
  "intr_get_status (snd (intr_set_status st s)) = st"
  by (cases st; simp add: intr_set_status_def intr_enable_def intr_disable_eq;
      metis intr_status.exhaust)+

lemma intr_restore:
  "eflags s' = eflags (cli s) \<Longrightarrow> eflags (snd (intr_set_status (fst (intr_disable s)) s')) = eflags s"
proof -
  assume s': "eflags s' = eflags (cli s)"
  show ?thesis
  proof (cases "bit (eflags s) 9")
    case True
    have "eflags (sti s') = eflags (sti (cli s))" using s' by (simp add: sti_def)
    then show ?thesis
      using True s' by (simp add: intr_disable_eq intr_set_status_def intr_enable_def
          intr_get_status_eq sti_cli)
  next
    case False
    then show ?thesis
      using s' cli_off [of s] cli_off [of s']
      by (simp add: intr_disable_eq intr_set_status_def intr_get_status_eq)
  qed
qed

end
