(* ===== verification/DList.thy ===== *)
theory DList
  imports Interrupt
begin

text \<open>
  The intrusive doubly linked lists of \<open>src/kernel/list.c\<close>. The state has one map per field
  of \<open>struct list_elem\<close>, from the address of an element to the pointer it holds; a list at
  address \<open>l\<close> has its head element at \<open>l\<close> and its tail element at \<open>l + 8\<close>. Both are
  sentinels. \<open>is_list s l xs\<close> states that the list at \<open>l\<close> holds the elements \<open>xs\<close> in order;
  every operation is shown to refine an operation on \<open>xs\<close>, and the locale
  \<open>intrusive_queue\<close> is the contract the scheduler and the semaphores rely on.
\<close>

section \<open>The code\<close>

record links = cpu +
  lprev :: "u32 \<Rightarrow> u32"
  lnext :: "u32 \<Rightarrow> u32"

definition head_of :: "u32 \<Rightarrow> u32" where
  "head_of l = l"

definition tail_of :: "u32 \<Rightarrow> u32" where
  "tail_of l = l + 8"

definition set_next :: "u32 \<Rightarrow> u32 \<Rightarrow> 'a links_scheme \<Rightarrow> 'a links_scheme" where
  "set_next a v s = s\<lparr>lnext := (lnext s)(a := v)\<rparr>"

definition set_prev :: "u32 \<Rightarrow> u32 \<Rightarrow> 'a links_scheme \<Rightarrow> 'a links_scheme" where
  "set_prev a v s = s\<lparr>lprev := (lprev s)(a := v)\<rparr>"

definition list_init :: "u32 \<Rightarrow> 'a links_scheme \<Rightarrow> 'a links_scheme" where
  "list_init l s =
     set_next (tail_of l) NULL
       (set_prev (tail_of l) (head_of l)
         (set_next (head_of l) (tail_of l)
           (set_prev (head_of l) NULL s)))"

definition list_insert_before :: "u32 \<Rightarrow> u32 \<Rightarrow> 'a links_scheme \<Rightarrow> 'a links_scheme" where
  "list_insert_before before elem s =
     (let (old_status, s1) = intr_disable s;
          s2 = set_next (lprev s1 before) elem s1;
          s3 = set_prev elem (lprev s2 before) s2;
          s4 = set_next elem before s3;
          s5 = set_prev before elem s4
      in snd (intr_set_status old_status s5))"

definition list_push :: "u32 \<Rightarrow> u32 \<Rightarrow> 'a links_scheme \<Rightarrow> 'a links_scheme" where
  "list_push plist elem s = list_insert_before (lnext s (head_of plist)) elem s"

definition list_append :: "u32 \<Rightarrow> u32 \<Rightarrow> 'a links_scheme \<Rightarrow> 'a links_scheme" where
  "list_append plist elem s = list_insert_before (tail_of plist) elem s"

definition list_remove :: "u32 \<Rightarrow> 'a links_scheme \<Rightarrow> 'a links_scheme" where
  "list_remove pelem s =
     (let (old_status, s1) = intr_disable s;
          s2 = set_next (lprev s1 pelem) (lnext s1 pelem) s1;
          s3 = set_prev (lnext s2 pelem) (lprev s2 pelem) s2
      in snd (intr_set_status old_status s3))"

definition list_pop :: "u32 \<Rightarrow> 'a links_scheme \<Rightarrow> u32 \<times> 'a links_scheme" where
  "list_pop plist s = (let elem = lnext s (head_of plist) in (elem, list_remove elem s))"

partial_function (option) elem_find_loop :: "'a links_scheme \<Rightarrow> u32 \<Rightarrow> u32 \<Rightarrow> u32 \<Rightarrow> bool option" where
  "elem_find_loop s tail obj_elem elem =
     (if elem \<noteq> tail
      then if elem = obj_elem then Some True else elem_find_loop s tail obj_elem (lnext s elem)
      else Some False)"

definition elem_find :: "'a links_scheme \<Rightarrow> u32 \<Rightarrow> u32 \<Rightarrow> bool option" where
  "elem_find s plist obj_elem =
     elem_find_loop s (tail_of plist) obj_elem (lnext s (head_of plist))"

definition list_empty :: "'a links_scheme \<Rightarrow> u32 \<Rightarrow> bool" where
  "list_empty s plist \<longleftrightarrow> lnext s (head_of plist) = tail_of plist"

partial_function (option) list_traversal_loop ::
  "'a links_scheme \<Rightarrow> u32 \<Rightarrow> (u32 \<Rightarrow> u32 \<Rightarrow> bool) \<Rightarrow> u32 \<Rightarrow> u32 \<Rightarrow> u32 option" where
  "list_traversal_loop s tail func arg elem =
     (if elem \<noteq> tail
      then if func elem arg then Some elem else list_traversal_loop s tail func arg (lnext s elem)
      else Some NULL)"

definition list_traversal ::
  "'a links_scheme \<Rightarrow> u32 \<Rightarrow> (u32 \<Rightarrow> u32 \<Rightarrow> bool) \<Rightarrow> u32 \<Rightarrow> u32 option" where
  "list_traversal s plist func arg =
     (let elem = lnext s (head_of plist)
      in if list_empty s plist then Some NULL
         else list_traversal_loop s (tail_of plist) func arg elem)"

partial_function (option) list_len_loop :: "'a links_scheme \<Rightarrow> u32 \<Rightarrow> u32 \<Rightarrow> u32 \<Rightarrow> u32 option" where
  "list_len_loop s tail elem n =
     (if elem \<noteq> tail then list_len_loop s tail (lnext s elem) (n + 1) else Some n)"

definition list_len :: "'a links_scheme \<Rightarrow> u32 \<Rightarrow> u32 option" where
  "list_len s plist = list_len_loop s (tail_of plist) (lnext s (head_of plist)) 0"

text \<open>\<open>elem2entry\<close>: from an element to the structure that contains it at an offset.\<close>

definition elem2entry :: "u32 \<Rightarrow> u32 \<Rightarrow> u32" where
  "elem2entry off elem = elem - off"

section \<open>Interrupts are restored, so an operation only changes links\<close>

lemma set_next_simps [simp]:
  "lnext (set_next a v s) = (lnext s)(a := v)"
  "lprev (set_next a v s) = lprev s"
  "eflags (set_next a v s) = eflags s"
  by (simp_all add: set_next_def)

lemma set_prev_simps [simp]:
  "lprev (set_prev a v s) = (lprev s)(a := v)"
  "lnext (set_prev a v s) = lnext s"
  "eflags (set_prev a v s) = eflags s"
  by (simp_all add: set_prev_def)

lemma cli_links [simp]: "lnext (cli s) = lnext s" "lprev (cli s) = lprev s"
  by (simp_all add: cli_def)

lemma sti_links: "sti (s\<lparr>lnext := n, lprev := p\<rparr>) = (sti s)\<lparr>lnext := n, lprev := p\<rparr>"
  by (cases s) (simp add: sti_def)

lemma intr_get_status_links [simp]:
  "intr_get_status (s\<lparr>lnext := n, lprev := p\<rparr>) = intr_get_status s"
  by (simp add: intr_get_status_def)

lemma intr_restore_links:
  "snd (intr_set_status (intr_get_status s) ((cli s)\<lparr>lnext := n, lprev := p\<rparr>)) =
   s\<lparr>lnext := n, lprev := p\<rparr>"
proof (cases "bit (eflags s) 9")
  case True
  then have "sti (cli s) = s" by (rule sti_cli)
  with True show ?thesis
    by (simp add: intr_set_status_def intr_enable_def sti_links intr_get_status_eq [of s])
next
  case False
  then show ?thesis
    using cli_off [OF False]
    by (simp add: intr_set_status_def intr_get_status_eq intr_disable_def)
qed

lemma list_insert_before_eq:
  "list_insert_before before elem s =
     s\<lparr>lnext := (lnext s)(lprev s before := elem, elem := before),
       lprev := (lprev s)(elem := lprev s before, before := elem)\<rparr>"
  unfolding list_insert_before_def intr_disable_eq Let_def prod.case
  by (subst intr_restore_links [symmetric]) (simp add: set_next_def set_prev_def)

lemma list_remove_eq:
  "list_remove e s =
     s\<lparr>lnext := (lnext s)(lprev s e := lnext s e),
       lprev := (lprev s)(lnext s e := lprev s e)\<rparr>"
  unfolding list_remove_def intr_disable_eq Let_def prod.case
  by (subst intr_restore_links [symmetric]) (simp add: set_next_def set_prev_def)

section \<open>Lists in memory\<close>

text \<open>
  \<open>dseg s a xs b\<close>: following \<open>next\<close> from \<open>a\<close> leads through \<open>xs\<close> to \<open>b\<close>, and every \<open>prev\<close>
  pointer on the way leads back.
\<close>

fun dseg :: "'a links_scheme \<Rightarrow> u32 \<Rightarrow> u32 list \<Rightarrow> u32 \<Rightarrow> bool" where
  "dseg s a [] b \<longleftrightarrow> lnext s a = b \<and> lprev s b = a"
| "dseg s a (x # xs) b \<longleftrightarrow> lnext s a = x \<and> lprev s x = a \<and> dseg s x xs b"

definition list_nodes :: "u32 \<Rightarrow> u32 list \<Rightarrow> u32 set" where
  "list_nodes l xs = insert (head_of l) (insert (tail_of l) (set xs))"

definition is_list :: "'a links_scheme \<Rightarrow> u32 \<Rightarrow> u32 list \<Rightarrow> bool" where
  "is_list s l xs \<longleftrightarrow> dseg s (head_of l) xs (tail_of l) \<and> distinct (head_of l # tail_of l # xs)"

definition same_links :: "u32 set \<Rightarrow> 'a links_scheme \<Rightarrow> 'b links_scheme \<Rightarrow> bool" where
  "same_links A s s' \<longleftrightarrow> (\<forall>a \<in> A. lnext s' a = lnext s a \<and> lprev s' a = lprev s a)"

lemma dseg_append:
  "dseg s a (xs @ y # ys) b \<longleftrightarrow> dseg s a xs y \<and> dseg s y ys b"
  by (induction xs arbitrary: a) auto

lemma dseg_cong:
  "(\<And>x. x \<in> insert a (set xs) \<Longrightarrow> lnext s' x = lnext s x) \<Longrightarrow>
   (\<And>x. x \<in> insert b (set xs) \<Longrightarrow> lprev s' x = lprev s x) \<Longrightarrow>
   dseg s' a xs b \<longleftrightarrow> dseg s a xs b"
  by (induction xs arbitrary: a) auto

lemma is_list_same_links:
  "is_list s l xs \<Longrightarrow> same_links (list_nodes l xs) s s' \<Longrightarrow> is_list s' l xs"
  unfolding is_list_def same_links_def list_nodes_def
  using dseg_cong [of "head_of l" xs s' s "tail_of l"] by auto

lemma head_neq_tail [simp]: "head_of l \<noteq> tail_of l" "tail_of l \<noteq> head_of l"
proof -
  have "l + 8 \<noteq> l + 0" by (simp only: add_left_cancel) simp
  then show "head_of l \<noteq> tail_of l" "tail_of l \<noteq> head_of l"
    by (auto simp: head_of_def tail_of_def)
qed

lemma is_list_distinct:
  "is_list s l xs \<Longrightarrow> distinct xs \<and> head_of l \<notin> set xs \<and> tail_of l \<notin> set xs"
  by (simp add: is_list_def)

lemma dseg_first: "dseg s a xs b \<Longrightarrow> lnext s a = hd (xs @ [b])"
  by (cases xs) auto

lemma dseg_last: "dseg s a xs b \<Longrightarrow> lprev s b = last (a # xs)"
  by (induction xs arbitrary: a) auto

section \<open>The operations refine operations on sequences\<close>

lemma list_init_is_list: "is_list (list_init l s) l []"
  by (simp add: is_list_def list_init_def)

text \<open>The general insertion: between \<open>xs\<close> and \<open>ys\<close>.\<close>

lemma insert_before_is_list:
  assumes l: "is_list s l (xs @ ys)" and e: "e \<notin> list_nodes l (xs @ ys)"
    and before: "before = hd (ys @ [tail_of l])"
  shows "is_list (list_insert_before before e s) l (xs @ e # ys)"
proof -
  let ?s' = "list_insert_before before e s" and ?b = "before"
  let ?a = "last (head_of l # xs)"
  obtain zs where zs: "ys @ [tail_of l] = ?b # zs" using before by (cases ys) auto
  have dist: "distinct (head_of l # xs @ ?b # zs)"
    using l unfolding is_list_def zs [symmetric] by auto
  have fresh: "e \<noteq> head_of l" "e \<notin> set xs" "e \<noteq> ?b" "e \<notin> set zs"
    using e zs unfolding list_nodes_def by (auto simp: append_eq_Cons_conv split: list.splits)
  have seg_left: "dseg s (head_of l) xs ?b"
    using l before by (cases ys) (simp_all add: is_list_def dseg_append)
  then have prev: "lprev s ?b = ?a" by (rule dseg_last)
  have "dseg ?s' (head_of l) xs e"
    using seg_left dist fresh prev
  proof (induction xs rule: rev_induct)
    case Nil
    then show ?case by (simp add: list_insert_before_eq)
  next
    case (snoc x xs)
    have "dseg s (head_of l) xs x" using snoc.prems(1) by (simp add: dseg_append)
    moreover have "x \<noteq> e" "x \<noteq> ?b" "x \<notin> set xs" "head_of l \<noteq> x" "?b \<notin> set xs" "head_of l \<noteq> ?b"
      using snoc.prems by auto
    moreover have prev_x: "lprev s ?b = x" using snoc.prems(7) by simp
    ultimately have "dseg ?s' (head_of l) xs x"
      using snoc.prems(3,4)
      by (subst dseg_cong [of "head_of l" xs ?s' s]) (auto simp: list_insert_before_eq)
    moreover have "x \<noteq> e" using snoc.prems(4) by auto
    ultimately show ?case
      using snoc.prems(5) prev_x by (simp add: dseg_append list_insert_before_eq)
  qed
  moreover have "dseg ?s' e ys (tail_of l)"
  proof (cases ys)
    case Nil
    then show ?thesis using before fresh by (simp add: list_insert_before_eq)
  next
    case (Cons y ys')
    then have y: "y = ?b" using before by simp
    have "dseg s y ys' (tail_of l)"
      using l Cons by (simp add: is_list_def dseg_append)
    moreover have "?a \<in> set (head_of l # xs)" by (simp add: last_in_set)
    then have "?a \<notin> set (y # ys')" using dist zs Cons by (auto simp del: last.simps)
    ultimately have "dseg ?s' y ys' (tail_of l)"
      using dist fresh zs Cons prev
      by (subst dseg_cong [of y ys' ?s' s]) (auto simp: list_insert_before_eq simp del: last.simps)
    then show ?thesis using Cons fresh y by (simp add: list_insert_before_eq)
  qed
  ultimately have "dseg ?s' (head_of l) (xs @ e # ys) (tail_of l)" by (simp add: dseg_append)
  then show ?thesis
    using l e unfolding is_list_def list_nodes_def by auto
qed

lemma dseg_change_end:
  "dseg s a xs e \<Longrightarrow> (\<And>x. x \<in> set (butlast (a # xs)) \<Longrightarrow> lnext s' x = lnext s x) \<Longrightarrow>
   (\<And>x. x \<in> set xs \<Longrightarrow> lprev s' x = lprev s x) \<Longrightarrow>
   lnext s' (last (a # xs)) = b \<Longrightarrow> lprev s' b = last (a # xs) \<Longrightarrow> dseg s' a xs b"
proof (induction xs arbitrary: a)
  case Nil
  then show ?case by simp
next
  case (Cons x xs)
  have "dseg s' x xs b"
    using Cons.prems by (intro Cons.IH) auto
  then show ?case using Cons.prems by simp
qed

lemma butlast_not_last: "distinct xs \<Longrightarrow> x \<in> set (butlast xs) \<Longrightarrow> x \<noteq> last xs"
  by (metis append_butlast_last_id distinct_append in_set_butlastD disjoint_insert(1)
      empty_iff list.set(2) list.size(3) length_pos_if_in_set less_irrefl list.set_intros(1) IntI)

lemma remove_is_list:
  assumes l: "is_list s l (xs @ e # ys)"
  shows "is_list (list_remove e s) l (xs @ ys)"
proof -
  let ?s' = "list_remove e s" and ?a = "last (head_of l # xs)"
  define b where "b = hd (ys @ [tail_of l])"
  have left: "dseg s (head_of l) xs e" and right: "dseg s e ys (tail_of l)"
    using l by (simp_all add: is_list_def dseg_append)
  have prev: "lprev s e = ?a" using left by (rule dseg_last)
  have succ: "lnext s e = b" using right unfolding b_def by (rule dseg_first)
  have dist: "distinct (head_of l # xs @ e # ys @ [tail_of l])"
    using l unfolding is_list_def by auto
  have b_in: "b \<in> set (ys @ [tail_of l])" unfolding b_def by (cases ys) auto
  have a_in: "?a \<in> set (head_of l # xs)" by (rule last_in_set) simp
  have seg: "dseg ?s' (head_of l) xs b"
  proof (rule dseg_change_end [OF left])
    show "lnext ?s' x = lnext s x" if "x \<in> set (butlast (head_of l # xs))" for x
      using butlast_not_last [OF _ that] dist prev by (simp add: list_remove_eq)
    show "lprev ?s' x = lprev s x" if "x \<in> set xs" for x
      using that b_in dist succ by (auto simp: list_remove_eq)
  qed (simp_all add: list_remove_eq prev succ)
  have "dseg ?s' (head_of l) (xs @ ys) (tail_of l)"
  proof (cases ys)
    case Nil
    then show ?thesis using seg by (simp add: b_def)
  next
    case (Cons y ys')
    have y: "y = b" using Cons by (simp add: b_def)
    have "dseg ?s' y ys' (tail_of l)"
      using right Cons dist a_in y prev succ
      by (subst dseg_cong [of y ys' ?s' s]) (auto simp: list_remove_eq simp del: last.simps)
    with seg Cons y show ?thesis by (simp add: dseg_append)
  qed
  then show ?thesis using l by (simp add: is_list_def)
qed

section \<open>Frames: what an operation leaves alone\<close>

lemma same_linksI:
  "(\<And>a. a \<in> A \<Longrightarrow> lnext s' a = lnext s a \<and> lprev s' a = lprev s a) \<Longrightarrow> same_links A s s'"
  by (simp add: same_links_def)

lemma same_links_trans: "same_links A s s' \<Longrightarrow> same_links A s' s'' \<Longrightarrow> same_links A s s''"
  by (simp add: same_links_def)

lemma before_prev_in_nodes:
  assumes "is_list s l (xs @ ys)" and "before = hd (ys @ [tail_of l])"
  shows "before \<in> list_nodes l (xs @ ys)" and "lprev s before \<in> list_nodes l (xs @ ys)"
proof -
  show "before \<in> list_nodes l (xs @ ys)"
    using assms(2) by (cases ys) (auto simp: list_nodes_def)
  have "dseg s (head_of l) xs before"
    using assms by (cases ys) (simp_all add: is_list_def dseg_append)
  then have "lprev s before = last (head_of l # xs)" by (rule dseg_last)
  also have "\<dots> \<in> set (head_of l # xs)" by (rule last_in_set) simp
  finally show "lprev s before \<in> list_nodes l (xs @ ys)" by (auto simp: list_nodes_def)
qed

lemma insert_before_frame:
  assumes "is_list s l (xs @ ys)" and "before = hd (ys @ [tail_of l])"
    and "A \<inter> insert e (list_nodes l (xs @ ys)) = {}"
  shows "same_links A s (list_insert_before before e s)"
  using before_prev_in_nodes [OF assms(1,2)] assms(3)
  by (intro same_linksI) (auto simp: list_insert_before_eq)

lemma remove_frame:
  assumes "is_list s l (xs @ e # ys)" and "A \<inter> list_nodes l (xs @ e # ys) = {}"
  shows "same_links A s (list_remove e s)"
proof -
  have left: "dseg s (head_of l) xs e" and right: "dseg s e ys (tail_of l)"
    using assms(1) by (simp_all add: is_list_def dseg_append)
  have "lprev s e = last (head_of l # xs)" using left by (rule dseg_last)
  also have "\<dots> \<in> set (head_of l # xs)" by (rule last_in_set) simp
  finally have "lprev s e \<in> list_nodes l (xs @ e # ys)" by (auto simp: list_nodes_def)
  moreover have "lnext s e \<in> list_nodes l (xs @ e # ys)"
    using dseg_first [OF right] by (cases ys) (auto simp: list_nodes_def)
  ultimately show ?thesis
    using assms(2) by (intro same_linksI) (auto simp: list_remove_eq)
qed

section \<open>Push, append, pop, search\<close>

lemma push_is_list:
  "is_list s l xs \<Longrightarrow> e \<notin> list_nodes l xs \<Longrightarrow> is_list (list_push l e s) l (e # xs)"
  using insert_before_is_list [of s l "[]" xs e "lnext s (head_of l)"]
  by (simp add: list_push_def is_list_def dseg_first)

lemma append_is_list:
  "is_list s l xs \<Longrightarrow> e \<notin> list_nodes l xs \<Longrightarrow> is_list (list_append l e s) l (xs @ [e])"
  using insert_before_is_list [of s l xs "[]" e "tail_of l"] by (simp add: list_append_def)

lemma pop_is_list:
  "is_list s l (x # xs) \<Longrightarrow> fst (list_pop l s) = x \<and> is_list (snd (list_pop l s)) l xs"
  using remove_is_list [of s l "[]" x xs] by (simp add: list_pop_def Let_def is_list_def)

text \<open>
  On an empty list \<open>list_pop\<close> takes the tail sentinel for an element: it returns it, clears
  the \<open>next\<close> pointer of the head and writes the \<open>prev\<close> field of address 0. Every caller in
  the kernel checks \<open>list_empty\<close> first.
\<close>

lemma pop_empty_corrupts:
  assumes "is_list s l []" and "lnext s (tail_of l) = NULL"
  shows "fst (list_pop l s) = tail_of l" and "lnext (snd (list_pop l s)) (head_of l) = NULL"
    and "lprev (snd (list_pop l s)) NULL = head_of l"
  using assms by (auto simp: list_pop_def Let_def is_list_def list_remove_eq)

lemma push_frame:
  "is_list s l xs \<Longrightarrow> A \<inter> insert e (list_nodes l xs) = {} \<Longrightarrow> same_links A s (list_push l e s)"
  using insert_before_frame [of s l "[]" xs "lnext s (head_of l)" A e]
  by (simp add: list_push_def is_list_def dseg_first)

lemma append_frame:
  "is_list s l xs \<Longrightarrow> A \<inter> insert e (list_nodes l xs) = {} \<Longrightarrow> same_links A s (list_append l e s)"
  using insert_before_frame [of s l xs "[]" "tail_of l" A e] by (simp add: list_append_def)

lemma pop_frame:
  "is_list s l (x # xs) \<Longrightarrow> A \<inter> list_nodes l (x # xs) = {} \<Longrightarrow> same_links A s (snd (list_pop l s))"
  using remove_frame [of s l "[]" x xs A] by (simp add: list_pop_def Let_def is_list_def)

lemma list_empty_iff: "is_list s l xs \<Longrightarrow> list_empty s l \<longleftrightarrow> xs = []"
  by (cases xs) (auto simp: list_empty_def is_list_def)

lemma elem_find_loop_dseg:
  "dseg s a xs t \<Longrightarrow> t \<notin> set xs \<Longrightarrow> elem_find_loop s t e (lnext s a) = Some (e \<in> set xs)"
proof (induction xs arbitrary: a)
  case Nil
  then show ?case by (subst elem_find_loop.simps) simp
next
  case (Cons x xs)
  then show ?case by (subst elem_find_loop.simps) auto
qed

lemma elem_find_is_list: "is_list s l xs \<Longrightarrow> elem_find s l e = Some (e \<in> set xs)"
  by (simp add: elem_find_def is_list_def elem_find_loop_dseg)

lemma list_traversal_loop_dseg:
  "dseg s a xs t \<Longrightarrow> t \<notin> set xs \<Longrightarrow>
   list_traversal_loop s t f arg (lnext s a) =
     Some (case filter (\<lambda>x. f x arg) xs of [] \<Rightarrow> NULL | x # _ \<Rightarrow> x)"
proof (induction xs arbitrary: a)
  case Nil
  then show ?case by (subst list_traversal_loop.simps) simp
next
  case (Cons x xs)
  then show ?case by (subst list_traversal_loop.simps) auto
qed

lemma list_traversal_is_list:
  "is_list s l xs \<Longrightarrow> list_traversal s l f arg =
     Some (case filter (\<lambda>x. f x arg) xs of [] \<Rightarrow> NULL | x # _ \<Rightarrow> x)"
  using list_empty_iff [of s l xs]
  by (auto simp: list_traversal_def is_list_def list_traversal_loop_dseg)

lemma list_len_loop_dseg:
  "dseg s a xs t \<Longrightarrow> t \<notin> set xs \<Longrightarrow>
   list_len_loop s t (lnext s a) n = Some (n + of_nat (length xs))"
proof (induction xs arbitrary: a n)
  case Nil
  then show ?case by (subst list_len_loop.simps) simp
next
  case (Cons x xs)
  then show ?case by (subst list_len_loop.simps) (auto simp: add.assoc)
qed

lemma list_len_is_list: "is_list s l xs \<Longrightarrow> list_len s l = Some (of_nat (length xs))"
  using list_len_loop_dseg [of s "head_of l" xs "tail_of l" 0]
  by (simp add: list_len_def is_list_def)

section \<open>The contract of an intrusive queue\<close>

lemma list_nodes_simps [simp]:
  "list_nodes l (x # xs) = insert x (list_nodes l xs)"
  "list_nodes l (xs @ ys) = list_nodes l xs \<union> set ys"
  by (auto simp: list_nodes_def)

lemma list_nodes_set: "set xs \<subseteq> list_nodes l xs"
  by (auto simp: list_nodes_def)

text \<open>
  What the scheduler and the semaphores use of the lists: \<open>rep s q xs\<close> says that queue \<open>q\<close>
  holds \<open>xs\<close> in state \<open>s\<close>, \<open>nodes q xs\<close> is the memory it occupies. An operation on one
  queue changes its own sequence and keeps every queue that occupies other memory.
\<close>

locale intrusive_queue =
  fixes rep :: "'s \<Rightarrow> u32 \<Rightarrow> u32 list \<Rightarrow> bool"
    and nodes :: "u32 \<Rightarrow> u32 list \<Rightarrow> u32 set"
    and enq :: "u32 \<Rightarrow> u32 \<Rightarrow> 's \<Rightarrow> 's"
    and jump :: "u32 \<Rightarrow> u32 \<Rightarrow> 's \<Rightarrow> 's"
    and deq :: "u32 \<Rightarrow> 's \<Rightarrow> u32 \<times> 's"
    and is_empty :: "'s \<Rightarrow> u32 \<Rightarrow> bool"
    and mem :: "'s \<Rightarrow> u32 \<Rightarrow> u32 \<Rightarrow> bool option"
  assumes nodes_Cons: "nodes q (x # xs) = insert x (nodes q xs)"
    and nodes_snoc: "nodes q (xs @ [x]) = insert x (nodes q xs)"
    and rep_fresh: "rep s q (x # xs) \<Longrightarrow> x \<notin> nodes q xs"
    and rep_enq: "rep s q xs \<Longrightarrow> e \<notin> nodes q xs \<Longrightarrow> rep (enq q e s) q (xs @ [e])"
    and rep_jump: "rep s q xs \<Longrightarrow> e \<notin> nodes q xs \<Longrightarrow> rep (jump q e s) q (e # xs)"
    and rep_deq: "rep s q (x # xs) \<Longrightarrow> rep (snd (deq q s)) q xs"
    and deq_elem: "rep s q (x # xs) \<Longrightarrow> fst (deq q s) = x"
    and empty_iff: "rep s q xs \<Longrightarrow> is_empty s q \<longleftrightarrow> xs = []"
    and mem_iff: "rep s q xs \<Longrightarrow> mem s q e = Some (e \<in> set xs)"
    and enq_other: "rep s q xs \<Longrightarrow> rep s r ys \<Longrightarrow>
      nodes r ys \<inter> insert e (nodes q xs) = {} \<Longrightarrow> rep (enq q e s) r ys"
    and jump_other: "rep s q xs \<Longrightarrow> rep s r ys \<Longrightarrow>
      nodes r ys \<inter> insert e (nodes q xs) = {} \<Longrightarrow> rep (jump q e s) r ys"
    and deq_other: "rep s q (x # xs) \<Longrightarrow> rep s r ys \<Longrightarrow>
      nodes r ys \<inter> nodes q (x # xs) = {} \<Longrightarrow> rep (snd (deq q s)) r ys"
begin

text \<open>Putting an element at the end and taking the first one: round robin.\<close>

lemma rotate:
  assumes "rep s q xs" and "e \<notin> nodes q xs"
  shows "\<not> is_empty (enq q e s) q"
    and "fst (deq q (enq q e s)) = hd (xs @ [e])"
    and "rep (snd (deq q (enq q e s))) q (tl (xs @ [e]))"
proof -
  have r: "rep (enq q e s) q (hd (xs @ [e]) # tl (xs @ [e]))"
    using rep_enq [OF assms] by simp
  show "\<not> is_empty (enq q e s) q" using empty_iff [OF r] by simp
  show "fst (deq q (enq q e s)) = hd (xs @ [e])" using r by (rule deq_elem)
  show "rep (snd (deq q (enq q e s))) q (tl (xs @ [e]))" using r by (rule rep_deq)
qed

lemma rotate_other:
  assumes "rep s q xs" and "e \<notin> nodes q xs" and "rep s r ys"
    and "nodes r ys \<inter> insert e (nodes q xs) = {}"
  shows "rep (snd (deq q (enq q e s))) r ys"
proof (rule deq_other)
  show "rep (enq q e s) q (hd (xs @ [e]) # tl (xs @ [e]))"
    using rep_enq [OF assms(1,2)] by simp
  show "rep (enq q e s) r ys" using assms by (intro enq_other)
  show "nodes r ys \<inter> nodes q (hd (xs @ [e]) # tl (xs @ [e])) = {}"
    using assms(4) nodes_snoc by simp
qed

text \<open>Moving the first element of one queue to the front of another: waking a waiter.\<close>

lemma transfer:
  assumes "rep s w (x # ws)" and "rep s r rs" and "nodes r rs \<inter> nodes w (x # ws) = {}"
  shows "rep (jump r x (snd (deq w s))) r (x # rs)"
    and "rep (jump r x (snd (deq w s))) w ws"
proof -
  have r: "rep (snd (deq w s)) r rs" using assms by (rule deq_other)
  have w: "rep (snd (deq w s)) w ws" using assms(1) by (rule rep_deq)
  have x: "x \<notin> nodes r rs" using assms(3) nodes_Cons by auto
  show "rep (jump r x (snd (deq w s))) r (x # rs)" using r x by (rule rep_jump)
  show "rep (jump r x (snd (deq w s))) w ws"
    using r w
  proof (rule jump_other)
    show "nodes w ws \<inter> insert x (nodes r rs) = {}"
      using assms(3) rep_fresh [OF assms(1)] nodes_Cons by auto
  qed
qed

lemma transfer_other:
  assumes "rep s w (x # ws)" and "rep s r rs" and "nodes r rs \<inter> nodes w (x # ws) = {}"
    and "rep s v vs" and "nodes v vs \<inter> nodes w (x # ws) = {}" and "nodes v vs \<inter> nodes r rs = {}"
  shows "rep (jump r x (snd (deq w s))) v vs"
proof (rule jump_other)
  show "rep (snd (deq w s)) r rs" using assms(1-3) by (rule deq_other)
  show "rep (snd (deq w s)) v vs" using assms(1,4,5) by (rule deq_other)
  show "nodes v vs \<inter> insert x (nodes r rs) = {}" using assms(5,6) nodes_Cons by auto
qed

end

interpretation lq: intrusive_queue is_list list_nodes list_append list_push list_pop list_empty elem_find
proof unfold_locales
  fix s :: "'a links_scheme" and q r e x :: u32 and xs ys :: "u32 list"
  show "is_list s q (x # xs) \<Longrightarrow> x \<notin> list_nodes q xs"
    by (auto simp: is_list_def list_nodes_def)
  show "is_list s q xs \<Longrightarrow> is_list s r ys \<Longrightarrow>
      list_nodes r ys \<inter> insert e (list_nodes q xs) = {} \<Longrightarrow> is_list (list_append q e s) r ys"
    by (rule is_list_same_links [OF _ append_frame])
  show "is_list s q xs \<Longrightarrow> is_list s r ys \<Longrightarrow>
      list_nodes r ys \<inter> insert e (list_nodes q xs) = {} \<Longrightarrow> is_list (list_push q e s) r ys"
    by (rule is_list_same_links [OF _ push_frame])
  show "is_list s q (x # xs) \<Longrightarrow> is_list s r ys \<Longrightarrow>
      list_nodes r ys \<inter> list_nodes q (x # xs) = {} \<Longrightarrow> is_list (snd (list_pop q s)) r ys"
    by (rule is_list_same_links [OF _ pop_frame])
qed (auto simp: append_is_list push_is_list pop_is_list list_empty_iff elem_find_is_list)

end
