(* ===== verification/CMem.thy ===== *)
theory CMem
  imports Prelude
begin

text \<open>
  Byte-addressed memory as C code sees it: a total map from 32-bit addresses to bytes.
  \<open>store_bytes\<close> writes a list of bytes upwards from an address, \<open>region\<close> is a range of
  addresses (wrapping at the end of the address space), \<open>bytes_at\<close> reads a list back.
\<close>

type_synonym mem = "u32 \<Rightarrow> u8"

fun store_bytes :: "mem \<Rightarrow> u32 \<Rightarrow> u8 list \<Rightarrow> mem" where
  "store_bytes m p [] = m"
| "store_bytes m p (b # bs) = store_bytes (m(p := b)) (p + 1) bs"

definition region :: "u32 \<Rightarrow> nat \<Rightarrow> u32 set" where
  "region p n = {p + of_nat i | i. i < n}"

definition bytes_at :: "mem \<Rightarrow> u32 \<Rightarrow> nat \<Rightarrow> u8 list" where
  "bytes_at m p n = map (\<lambda>i. m (p + of_nat i)) [0..<n]"

lemma region_image: "region p n = (\<lambda>i. p + of_nat i) ` {..<n}"
  by (auto simp: region_def)

lemma region_0 [simp]: "region p 0 = {}"
  by (simp add: region_def)

lemma region_Suc: "region p (Suc n) = insert p (region (p + 1) n)"
proof -
  have "(\<lambda>i. p + of_nat i) ` {..<Suc n} = insert p ((\<lambda>i. p + of_nat (Suc i)) ` {..<n})"
    by (simp only: lessThan_Suc_eq_insert_0 image_insert image_image) simp
  then show ?thesis by (simp add: region_image add.assoc)
qed

lemma region_snoc: "region p (Suc n) = insert (p + of_nat n) (region p n)"
  by (auto simp: region_def less_Suc_eq)

lemma region_mono: "m \<le> n \<Longrightarrow> region p m \<subseteq> region p n"
  by (auto simp: region_def)

lemma in_regionI [intro]: "i < n \<Longrightarrow> p + of_nat i \<in> region p n"
  by (auto simp: region_def)

lemma region_start [simp]: "0 < n \<Longrightarrow> p \<in> region p n"
  by (force simp: region_def)

lemma region_tail_subset: "region (p + 1) n \<subseteq> region p (Suc n)"
  by (auto simp: region_Suc)

lemma start_notin_tail: "n < 2 ^ 32 \<Longrightarrow> p \<notin> region (p + 1) n"
proof
  assume n: "n < 2 ^ 32" and "p \<in> region (p + 1) n"
  then obtain i where i: "i < n" and "p = p + 1 + of_nat i"
    by (auto simp: region_def)
  then have "p + of_nat 0 = p + of_nat (Suc i)" by (simp add: add.assoc)
  then show False using add_offset_eq_iff [of 0 "Suc i" p] i n by simp
qed

lemma start_notin_regionD: "p \<notin> region q (Suc n) \<Longrightarrow> p \<noteq> q \<and> p \<notin> region (q + 1) n"
  by (simp add: region_Suc)

lemma region_offset:
  "i < 2 ^ 32 \<Longrightarrow> n \<le> 2 ^ 32 \<Longrightarrow> p + of_nat i \<in> region p n \<longleftrightarrow> i < n"
  unfolding region_def using add_offset_eq_iff by (auto simp: order_less_le_trans)

lemma region_atLeastLessThan:
  assumes "unat p + n \<le> 2 ^ 32"
  shows "a \<in> region p n \<longleftrightarrow> unat p \<le> unat a \<and> unat a < unat p + n"
proof
  assume "a \<in> region p n"
  then obtain i where "i < n" "a = p + of_nat i" by (auto simp: region_def)
  moreover from this assms have "unat (p + of_nat i) = unat p + i" by (subst unat_add32) (simp_all add: unat_of_nat32)
  ultimately show "unat p \<le> unat a \<and> unat a < unat p + n" by simp
next
  assume a: "unat p \<le> unat a \<and> unat a < unat p + n"
  then have "a = p + of_nat (unat a - unat p)" by (simp add: of_nat_diff)
  moreover have "unat a - unat p < n" using a by arith
  ultimately show "a \<in> region p n" by (metis in_regionI)
qed

lemma regions_apart:
  "unat p + n \<le> unat q \<Longrightarrow> unat q + k \<le> 2 ^ 32 \<Longrightarrow> region p n \<inter> region q k = {} \<and> region q k \<inter> region p n = {}"
  by (auto simp: region_atLeastLessThan)

lemma store_bytes_outside:
  "a \<notin> region p (length bs) \<Longrightarrow> store_bytes m p bs a = m a"
proof (induction bs arbitrary: m p)
  case Nil
  then show ?case by simp
next
  case (Cons b bs)
  then have "a \<noteq> p" and "a \<notin> region (p + 1) (length bs)"
    by (auto simp: region_Suc)
  with Cons.IH show ?case by simp
qed

lemma store_bytes_append:
  "store_bytes m p (bs @ cs) = store_bytes (store_bytes m p bs) (p + of_nat (length bs)) cs"
  by (induction bs arbitrary: m p) (simp_all add: add.assoc)

lemma store_bytes_inside:
  "i < length bs \<Longrightarrow> length bs \<le> 2 ^ 32 \<Longrightarrow> store_bytes m p bs (p + of_nat i) = bs ! i"
proof (induction bs arbitrary: m p i)
  case Nil
  then show ?case by simp
next
  case (Cons b bs)
  have len: "length bs < 2 ^ 32" using Cons.prems by simp
  show ?case
  proof (cases i)
    case 0
    with start_notin_tail [OF len] show ?thesis
      by (simp add: store_bytes_outside)
  next
    case (Suc j)
    with Cons.prems have "store_bytes (m(p := b)) (p + 1) bs (p + 1 + of_nat j) = bs ! j"
      by (intro Cons.IH) auto
    with Suc show ?thesis by (simp add: add.assoc)
  qed
qed

lemma length_bytes_at [simp]: "length (bytes_at m p n) = n"
  by (simp add: bytes_at_def)

lemma bytes_at_Suc: "bytes_at m p (Suc n) = m p # bytes_at m (p + 1) n"
  unfolding bytes_at_def by (subst map_upt_Suc) (simp add: add.assoc)

lemma bytes_at_0 [simp]: "bytes_at m p 0 = []"
  by (simp add: bytes_at_def)

lemma bytes_at_store:
  "length bs \<le> 2 ^ 32 \<Longrightarrow> bytes_at (store_bytes m p bs) p (length bs) = bs"
  by (rule nth_equalityI) (simp_all add: bytes_at_def store_bytes_inside)

lemma bytes_at_cong:
  "(\<And>a. a \<in> region p n \<Longrightarrow> m a = m' a) \<Longrightarrow> bytes_at m p n = bytes_at m' p n"
  by (simp add: bytes_at_def in_regionI)

lemma bytes_at_store_disjoint:
  "region p n \<inter> region q (length bs) = {} \<Longrightarrow>
   bytes_at (store_bytes m q bs) p n = bytes_at m p n"
  by (rule bytes_at_cong) (auto intro: store_bytes_outside)

section \<open>32-bit accesses\<close>

text \<open>The processor is little-endian.\<close>

definition load32 :: "mem \<Rightarrow> u32 \<Rightarrow> u32" where
  "load32 m a =
     ucast (m a) OR push_bit 8 (ucast (m (a + 1)))
       OR push_bit 16 (ucast (m (a + 2))) OR push_bit 24 (ucast (m (a + 3)))"

definition store32 :: "mem \<Rightarrow> u32 \<Rightarrow> u32 \<Rightarrow> mem" where
  "store32 m a w =
     m(a := ucast w, a + 1 := ucast (drop_bit 8 w),
       a + 2 := ucast (drop_bit 16 w), a + 3 := ucast (drop_bit 24 w))"

lemma region4: "region a 4 = {a, a + 1, a + 2, a + 3}"
  by (simp add: numeral_eq_Suc region_Suc add.assoc)

lemma load32_store32_same: "load32 (store32 m a w) a = w"
proof -
  have "load32 (store32 m a w) a = ucast (ucast w :: u8) OR push_bit 8 (ucast (ucast (drop_bit 8 w) :: u8))
      OR push_bit 16 (ucast (ucast (drop_bit 16 w) :: u8)) OR push_bit 24 (ucast (ucast (drop_bit 24 w) :: u8))"
    by (simp add: load32_def store32_def)
  also have "\<dots> = w"
  proof (rule bit_word_eqI)
    fix n :: nat
    consider "n < 8" | "8 \<le> n" "n < 16" | "16 \<le> n" "n < 24" | "24 \<le> n" by linarith
    then show "bit ((ucast (ucast w :: u8) :: u32) OR push_bit 8 (ucast (ucast (drop_bit 8 w) :: u8))
        OR push_bit 16 (ucast (ucast (drop_bit 16 w) :: u8))
        OR push_bit 24 (ucast (ucast (drop_bit 24 w) :: u8))) n = bit w n"
      if "n < LENGTH(32)"
      using that by cases (auto simp: bit_simps)
  qed
  finally show ?thesis .
qed

lemma load32_cong: "(\<And>b. b \<in> region a 4 \<Longrightarrow> m' b = m b) \<Longrightarrow> load32 m' a = load32 m a"
  by (simp add: load32_def region4)

lemma store32_outside: "b \<notin> region a 4 \<Longrightarrow> store32 m a w b = m b"
  by (simp add: store32_def region4)

lemma load32_store32_other:
  "region a 4 \<inter> region b 4 = {} \<Longrightarrow> load32 (store32 m b w) a = load32 m a"
  by (rule load32_cong) (auto intro: store32_outside)

definition aligned4 :: "u32 \<Rightarrow> bool" where
  "aligned4 a \<longleftrightarrow> unat a mod 4 = 0"

lemma aligned4_offset:
  assumes "aligned4 a" and "i < 4"
  shows "unat (a + of_nat i) = unat a + i"
proof -
  have "x + i < 4294967296" if "x mod 4 = 0" "x < 4294967296" for x :: nat
    using that assms(2) by presburger
  then have "unat a + i < 2 ^ 32" using assms(1) unat_bound32 [of a] by (simp add: aligned4_def)
  moreover have "unat (of_nat i :: u32) = i" using assms(2) by (simp add: unat_of_nat32)
  ultimately show ?thesis by (simp add: unat_add32)
qed

lemma aligned4_disjoint:
  assumes "aligned4 a" and "aligned4 b" and "a \<noteq> b"
  shows "region a 4 \<inter> region b 4 = {}"
proof (rule ccontr)
  assume "region a 4 \<inter> region b 4 \<noteq> {}"
  then obtain i j where ij: "i < 4" "j < 4" "a + of_nat i = b + of_nat j"
    by (auto simp: region_def)
  then have "unat a + i = unat b + j"
    using aligned4_offset assms(1,2) by metis
  moreover have "x = y" if "x + i = y + j" "x mod 4 = 0" "y mod 4 = 0" for x y :: nat
    using that ij(1,2) by presburger
  ultimately have "unat a = unat b" using assms(1,2) by (simp add: aligned4_def)
  with assms(3) show False by (simp add: word_unat_eq_iff)
qed

lemma load32_store32_aligned:
  "aligned4 a \<Longrightarrow> aligned4 b \<Longrightarrow>
   load32 (store32 m b w) a = (if a = b then w else load32 m a)"
  using load32_store32_same load32_store32_other [OF aligned4_disjoint] by simp

end
