(* ===== verification/Paging.thy ===== *)
theory Paging
  imports DList CMem
begin

text \<open>
  The paging side of \<open>src/kernel/memory.c\<close>: the index macros, the addresses of the page
  directory entry and of the page table entry of a virtual address (through the directory's
  last entry, which maps the directory itself), \<open>vaddr_to_paddr\<close>, and the activation of an
  address space from \<open>src/kernel/process.c\<close>. \<open>phys\<close> is physical memory in bytes and \<open>mmu\<close>
  the two-level translation of the processor for 4 KB pages, so a pointer that the code
  dereferences is a virtual address that has to translate.
\<close>

section \<open>Machine: physical memory and translation\<close>

record paging = links +
  phys :: mem
  cr3 :: u32

definition page_frame :: "u32 \<Rightarrow> u32" where
  "page_frame e = e AND 0xfffff000"

definition PG_SIZE :: u32 where
  "PG_SIZE = 4096"

definition PDE_IDX :: "u32 \<Rightarrow> u32" where
  "PDE_IDX addr = drop_bit 22 (addr AND 0xffc00000)"

definition PTE_IDX :: "u32 \<Rightarrow> u32" where
  "PTE_IDX addr = drop_bit 12 (addr AND 0x003ff000)"

definition present :: "u32 \<Rightarrow> bool" where
  "present e \<longleftrightarrow> e AND 1 \<noteq> 0"

definition pde_addr :: "u32 \<Rightarrow> u32 \<Rightarrow> u32" where
  "pde_addr cr v = page_frame cr + PDE_IDX v * 4"

definition pte_addr :: "mem \<Rightarrow> u32 \<Rightarrow> u32 \<Rightarrow> u32" where
  "pte_addr m cr v = page_frame (load32 m (pde_addr cr v)) + PTE_IDX v * 4"

definition mmu :: "mem \<Rightarrow> u32 \<Rightarrow> u32 \<Rightarrow> u32 option" where
  "mmu m cr v =
     (if present (load32 m (pde_addr cr v)) \<and> present (load32 m (pte_addr m cr v))
      then Some (page_frame (load32 m (pte_addr m cr v)) + (v AND 0xfff)) else None)"

definition translate :: "'a paging_scheme \<Rightarrow> u32 \<Rightarrow> u32 outcome" where
  "translate s v = (case mmu (phys s) (cr3 s) v of None \<Rightarrow> Inl (PageFault v) | Some p \<Rightarrow> Inr p)"

definition vload32 :: "'a paging_scheme \<Rightarrow> u32 \<Rightarrow> u32 outcome" where
  "vload32 s v = rbind (translate s v) (\<lambda>p. Inr (load32 (phys s) p))"

definition vstore32 :: "u32 \<Rightarrow> u32 \<Rightarrow> 'a paging_scheme \<Rightarrow> 'a paging_scheme outcome" where
  "vstore32 v w s = rbind (translate s v) (\<lambda>p. Inr (s\<lparr>phys := store32 (phys s) p w\<rparr>))"

definition vload8 :: "'a paging_scheme \<Rightarrow> u32 \<Rightarrow> u8 outcome" where
  "vload8 s v = rbind (translate s v) (\<lambda>p. Inr (phys s p))"

definition vstore8 :: "u32 \<Rightarrow> u8 \<Rightarrow> 'a paging_scheme \<Rightarrow> 'a paging_scheme outcome" where
  "vstore8 v b s = rbind (translate s v) (\<lambda>p. Inr (s\<lparr>phys := (phys s)(p := b)\<rparr>))"

section \<open>The code\<close>

definition pte_ptr :: "u32 \<Rightarrow> u32" where
  "pte_ptr vaddr = 0xffc00000 + drop_bit 10 (vaddr AND 0xffc00000) + PTE_IDX vaddr * 4"

definition pde_ptr :: "u32 \<Rightarrow> u32" where
  "pde_ptr vaddr = 0xfffff000 + PDE_IDX vaddr * 4"

definition vaddr_to_paddr :: "'a paging_scheme \<Rightarrow> u32 \<Rightarrow> u32 outcome" where
  "vaddr_to_paddr s vaddr =
     rbind (vload32 s (pte_ptr vaddr)) (\<lambda>pte. Inr ((pte AND 0xfffff000) + (vaddr AND 0x00000fff)))"

text \<open>The loops of \<open>memset\<close> and \<open>memcpy\<close> (\<open>lib/string.c\<close>) on translated addresses.\<close>

fun vmemset :: "u32 \<Rightarrow> u8 \<Rightarrow> nat \<Rightarrow> 'a paging_scheme \<Rightarrow> 'a paging_scheme outcome" where
  "vmemset ptr ch 0 s = Inr s"
| "vmemset ptr ch (Suc k) s = rbind (vstore8 ptr ch s) (vmemset (ptr + 1) ch k)"

fun vmemcpy :: "u32 \<Rightarrow> u32 \<Rightarrow> nat \<Rightarrow> 'a paging_scheme \<Rightarrow> 'a paging_scheme outcome" where
  "vmemcpy ptr src 0 s = Inr s"
| "vmemcpy ptr src (Suc k) s =
     rbind (vload8 s src) (\<lambda>b. rbind (vstore8 ptr b s) (vmemcpy (ptr + 1) (src + 1) k))"

definition set_cr3 :: "u32 \<Rightarrow> 'a paging_scheme \<Rightarrow> 'a paging_scheme" where
  "set_cr3 pde s = (kprintf ''pde: 0x%x\<newline>'' [pde] s)\<lparr>cr3 := pde\<rparr>"

text \<open>\<open>page_dir_activate\<close>, for the \<open>pgdir\<close> field of the thread that will run.\<close>

definition page_dir_activate :: "u32 \<Rightarrow> 'a paging_scheme \<Rightarrow> 'a paging_scheme outcome" where
  "page_dir_activate pgdir s =
     rbind (if pgdir \<noteq> NULL then vaddr_to_paddr s pgdir else Inr 0x100000)
       (\<lambda>pagedir_phy_addr.
          Inr (kprintf ''-----change cr3 finished!-----\<newline>'' []
            (set_cr3 pagedir_phy_addr
              (kprintf ''-----change cr3 beginning!-----\<newline>'' []
                (kprintf ''pagedir_phy_addr: %x\<newline>'' [pagedir_phy_addr] s)))))"

section \<open>Indices\<close>

lemma unat_PDE_IDX [to_nat]: "unat (PDE_IDX v) = unat v div 2 ^ 22"
  unfolding PDE_IDX_def mask_literals unat_drop_bit32 by (simp add: unat_and_not_mask)

lemma unat_PTE_IDX [to_nat]: "unat (PTE_IDX v) = unat v div 2 ^ 12 mod 2 ^ 10"
proof -
  have "(0x003ff000 :: u32) = mask 22 AND NOT (mask 12)" by (simp add: mask_eq_exp_minus_1)
  then have "v AND 0x003ff000 = (v AND mask 22) AND NOT (mask 12)" by (simp only: and.assoc)
  moreover have "unat v mod 2 ^ 22 div 2 ^ 12 = unat v div 2 ^ 12 mod 2 ^ 10"
    using mod_mult2_eq [of "unat v" "2 ^ 12" "2 ^ 10"] by simp
  ultimately show ?thesis
    unfolding PTE_IDX_def unat_drop_bit32 by (simp add: unat_and_not_mask unat_and_mask)
qed

lemma PDE_IDX_bound: "unat (v :: u32) div 2 ^ 22 < 1024"
  using unat_bound32 [of v] by (simp add: less_mult_imp_div_less)

lemma unat_pte_ptr [to_nat]:
  "unat (pte_ptr v) = 0xffc00000 + unat v div 2 ^ 22 * 2 ^ 12 + unat v div 2 ^ 12 mod 2 ^ 10 * 4"
proof -
  have dir: "unat (drop_bit 10 (v AND 0xffc00000)) = unat v div 2 ^ 22 * 2 ^ 12"
    unfolding mask_literals unat_drop_bit32 by (simp add: unat_and_not_mask)
  have tab: "unat (PTE_IDX v * 4) = unat v div 2 ^ 12 mod 2 ^ 10 * 4"
    by (subst unat_mult32) (simp_all add: unat_PTE_IDX)
  have "unat (0xffc00000 + drop_bit 10 (v AND 0xffc00000)) = 0xffc00000 + unat v div 2 ^ 22 * 2 ^ 12"
    using PDE_IDX_bound [of v] by (subst unat_add32) (simp_all only: dir, simp_all)
  then show ?thesis
    unfolding pte_ptr_def using PDE_IDX_bound [of v] tab by (subst unat_add32) simp_all
qed

lemma unat_pde_ptr [to_nat]: "unat (pde_ptr v) = 0xfffff000 + unat v div 2 ^ 22 * 4"
proof -
  have "unat (PDE_IDX v * 4) = unat v div 2 ^ 22 * 4"
    using PDE_IDX_bound [of v] by (subst unat_mult32) (simp_all add: unat_PDE_IDX)
  then show ?thesis
    unfolding pde_ptr_def using PDE_IDX_bound [of v] by (subst unat_add32) simp_all
qed

lemma idx_arith:
  assumes "d < 1024" and "t < (1024 :: nat)"
  shows "(0xffc00000 + d * 2 ^ 12 + t * 4) div 2 ^ 22 = 1023"
    and "(0xffc00000 + d * 2 ^ 12 + t * 4) div 2 ^ 12 mod 2 ^ 10 = d"
    and "(0xffc00000 + d * 2 ^ 12 + t * 4) mod 4096 = t * 4"
proof -
  show "(0xffc00000 + d * 2 ^ 12 + t * 4) div 2 ^ 22 = 1023"
    using assms by (intro div_nat_eqI) auto
  have q: "(0xffc00000 + d * 2 ^ 12 + t * 4) div 2 ^ 12 = 1047552 + d"
    using assms by (intro div_nat_eqI) auto
  have "(1047552 + d) mod 2 ^ 10 = d"
    using assms(1) mod_mult_self1 [of d 1023 1024] by (simp add: add.commute)
  then show "(0xffc00000 + d * 2 ^ 12 + t * 4) div 2 ^ 12 mod 2 ^ 10 = d" unfolding q .
  have "0xffc00000 + d * 2 ^ 12 + t * 4 = t * 4 + (1047552 + d) * 4096" by simp
  then show "(0xffc00000 + d * 2 ^ 12 + t * 4) mod 4096 = t * 4"
    using assms(2) mod_mult_self1 [of "t * 4" "1047552 + d" 4096] by (simp only:) simp
qed

lemma pde_ptr_nat: "unat (pde_ptr v) = 0xffc00000 + 1023 * 2 ^ 12 + unat v div 2 ^ 22 * 4"
  by (simp add: unat_pde_ptr)

lemma pde_ptr_fields:
  "PDE_IDX (pde_ptr v) = 1023" "PTE_IDX (pde_ptr v) = 1023"
  "pde_ptr v AND 0xfff = PDE_IDX v * 4"
proof -
  have d: "unat v div 2 ^ 22 < 1024" by (rule PDE_IDX_bound)
  have m: "unat (PDE_IDX v * 4) = unat v div 2 ^ 22 * 4"
    using d by (subst unat_mult32) (simp_all add: unat_PDE_IDX)
  note idx = idx_arith [OF _ d, of 1023]
  show "PDE_IDX (pde_ptr v) = 1023"
    by (rule word32_eqI) (simp only: unat_PDE_IDX pde_ptr_nat idx, simp)
  show "PTE_IDX (pde_ptr v) = 1023"
    by (rule word32_eqI) (simp only: unat_PTE_IDX pde_ptr_nat idx, simp)
  show "pde_ptr v AND 0xfff = PDE_IDX v * 4"
    by (rule word32_eqI) (simp only: unat_offset pde_ptr_nat idx m)
qed

lemma pte_ptr_fields:
  "PDE_IDX (pte_ptr v) = 1023" "PTE_IDX (pte_ptr v) = PDE_IDX v"
  "pte_ptr v AND 0xfff = PTE_IDX v * 4"
proof -
  have d: "unat v div 2 ^ 22 < 1024" by (rule PDE_IDX_bound)
  have t: "unat v div 2 ^ 12 mod 2 ^ 10 < 1024" by simp
  have m: "unat (PTE_IDX v * 4) = unat v div 2 ^ 12 mod 2 ^ 10 * 4"
    by (subst unat_mult32) (simp_all add: unat_PTE_IDX)
  note idx = idx_arith [OF d t]
  show "PDE_IDX (pte_ptr v) = 1023"
    by (rule word32_eqI) (simp only: unat_PDE_IDX unat_pte_ptr idx, simp)
  show "PTE_IDX (pte_ptr v) = PDE_IDX v"
    by (rule word32_eqI) (simp only: unat_PTE_IDX unat_PDE_IDX unat_pte_ptr idx)
  show "pte_ptr v AND 0xfff = PTE_IDX v * 4"
    by (rule word32_eqI) (simp only: unat_offset unat_pte_ptr idx m)
qed

section \<open>The recursive mapping\<close>

text \<open>
  The loader points the last entry of the page directory at the directory itself and
  \<open>create_page_dir\<close> does the same for a process. Under this condition the two pointers of the
  code translate to the entries they are meant to reach.
\<close>

definition self_map :: "mem \<Rightarrow> u32 \<Rightarrow> bool" where
  "self_map m cr \<longleftrightarrow>
     present (load32 m (page_frame cr + 1023 * 4)) \<and>
     page_frame (load32 m (page_frame cr + 1023 * 4)) = page_frame cr"

lemma mmu_pde_ptr: "self_map m cr \<Longrightarrow> mmu m cr (pde_ptr v) = Some (pde_addr cr v)"
  by (simp add: self_map_def mmu_def pte_addr_def pde_addr_def pde_ptr_fields)

lemma mmu_pte_ptr:
  "self_map m cr \<Longrightarrow> mmu m cr (pte_ptr v) =
     (if present (load32 m (pde_addr cr v)) then Some (pte_addr m cr v) else None)"
  by (simp add: self_map_def mmu_def pte_addr_def pde_addr_def pte_ptr_fields)

lemma vload32_pde_ptr:
  "self_map (phys s) (cr3 s) \<Longrightarrow> vload32 s (pde_ptr v) = Inr (load32 (phys s) (pde_addr (cr3 s) v))"
  by (simp add: vload32_def translate_def mmu_pde_ptr)

lemma vload32_pte_ptr:
  "self_map (phys s) (cr3 s) \<Longrightarrow> vload32 s (pte_ptr v) =
     (if present (load32 (phys s) (pde_addr (cr3 s) v))
      then Inr (load32 (phys s) (pte_addr (phys s) (cr3 s) v)) else Inl (PageFault (pte_ptr v)))"
  by (simp add: vload32_def translate_def mmu_pte_ptr)

lemma vaddr_to_paddr_mapped:
  "self_map (phys s) (cr3 s) \<Longrightarrow> mmu (phys s) (cr3 s) v = Some p \<Longrightarrow> vaddr_to_paddr s v = Inr p"
  by (auto simp: vaddr_to_paddr_def vload32_pte_ptr mmu_def page_frame_def split: if_splits)

lemma vaddr_to_paddr_no_table:
  "self_map (phys s) (cr3 s) \<Longrightarrow> \<not> present (load32 (phys s) (pde_addr (cr3 s) v)) \<Longrightarrow>
   vaddr_to_paddr s v = Inl (PageFault (pte_ptr v))"
  by (simp add: vaddr_to_paddr_def vload32_pte_ptr)

text \<open>
  C31: the walk in software is the walk in hardware. When the directory maps itself, \<open>vaddr_to_paddr\<close>,
  which reads the page table through the last 4 MB of the address space, gives the address that
  the processor translates to. Where the processor faults they differ: without a page table the
  read itself faults, and with a table whose entry is not present the function returns the
  address that the bits of the entry give, because it does not test the present bit.
\<close>

theorem vaddr_to_paddr_is_walk:
  assumes "self_map (phys s) (cr3 s)"
  shows "vaddr_to_paddr s v =
    (case translate s v of Inr p \<Rightarrow> Inr p
     | Inl _ \<Rightarrow> if present (load32 (phys s) (pde_addr (cr3 s) v))
         then Inr (page_frame (load32 (phys s) (pte_addr (phys s) (cr3 s) v)) + (v AND 0xfff))
         else Inl (PageFault (pte_ptr v)))"
proof (cases "mmu (phys s) (cr3 s) v")
  case (Some p)
  then show ?thesis using vaddr_to_paddr_mapped [OF assms] by (simp add: translate_def)
next
  case None
  then show ?thesis
    using vload32_pte_ptr [OF assms, of v] by (simp add: translate_def vaddr_to_paddr_def page_frame_def)
qed

text \<open>A memory whose directory has the entry for itself and no other.\<close>

definition sample_paging :: paging where
  "sample_paging = \<lparr>eflags = 0x202, kmsg = [], lprev = (\<lambda>_. 0), lnext = (\<lambda>_. 0),
     phys = store32 (\<lambda>_. 0) 0x100ffc 0x100007, cr3 = 0x100000\<rparr>"

lemma vaddr_to_paddr_is_walk_witness:
  "vaddr_to_paddr sample_paging 0xfffffffc = Inr 0x100ffc \<and>
   vaddr_to_paddr sample_paging 0x8048000 = Inl (PageFault 0xffc20120)"
proof -
  have top: "load32 (phys sample_paging) (0x100000 + 1023 * 4) = 0x100007"
    using load32_store32_same [of "\<lambda>_. 0" "0x100ffc" "0x100007"] by (simp add: sample_paging_def)
  then have self: "self_map (phys sample_paging) (cr3 sample_paging)"
    by (simp add: self_map_def page_frame_def present_def sample_paging_def)
  have idx: "PDE_IDX 0xfffffffc = 1023" "PTE_IDX 0xfffffffc = 1023" "PDE_IDX 0x8048000 = 32"
    by (simp_all add: PDE_IDX_def PTE_IDX_def)
  have "load32 (phys sample_paging) (pde_addr 0x100000 0xfffffffc) = 0x100007"
    using top by (simp add: pde_addr_def page_frame_def idx)
  moreover have "load32 (phys sample_paging) (pte_addr (phys sample_paging) 0x100000 0xfffffffc) = 0x100007"
    unfolding pte_addr_def calculation using top by (simp add: page_frame_def idx)
  ultimately have "translate sample_paging 0xfffffffc = Inr 0x100ffc"
    by (simp add: translate_def mmu_def present_def page_frame_def sample_paging_def)
  moreover have empty: "load32 (phys sample_paging) (pde_addr (cr3 sample_paging) 0x8048000) = 0"
    by (simp add: pde_addr_def page_frame_def idx sample_paging_def load32_def store32_def)
  then have "translate sample_paging 0x8048000 = Inl (PageFault 0x8048000)"
    by (simp add: translate_def mmu_def present_def)
  moreover have "pte_ptr 0x8048000 = 0xffc20120" by (simp add: pte_ptr_def PTE_IDX_def)
  ultimately show ?thesis
    using vaddr_to_paddr_is_walk [OF self, of "0xfffffffc"] vaddr_to_paddr_is_walk [OF self, of "0x8048000"] empty
    by (simp add: present_def)
qed

end
