(* ===== verification/LibString.thy ===== *)
theory LibString
  imports CMem
begin

text \<open>
  The routines of \<open>src/lib/string.c\<close> over byte memory. A \<open>char\<close> is signed on this target
  (gcc, i386), so comparisons of characters go through \<open>sint\<close> and the widening to \<open>int\<close>
  through \<open>scast\<close>. A loop that looks for the terminator has the value \<open>None\<close> when memory
  holds no zero byte; loops with a counter are recursions on it. \<open>cstr m p cs\<close> states that
  memory \<open>m\<close> holds the C string \<open>cs\<close> at \<open>p\<close>.
\<close>

section \<open>The routines\<close>

definition EOS :: u8 where
  "EOS = 0"

partial_function (option) strcpy_loop :: "mem \<Rightarrow> u32 \<Rightarrow> u32 \<Rightarrow> mem option" where
  "strcpy_loop m ptr src =
     (let m' = m(ptr := m src)
      in if m' src = EOS then Some m' else strcpy_loop m' (ptr + 1) (src + 1))"

definition strcpy :: "mem \<Rightarrow> u32 \<Rightarrow> u32 \<Rightarrow> (mem \<times> u32) option" where
  "strcpy m dest src = map_option (\<lambda>m'. (m', dest)) (strcpy_loop m dest src)"

text \<open>The loop of \<open>strncpy\<close> also tells whether it returned from inside.\<close>

fun strncpy_loop :: "mem \<Rightarrow> u32 \<Rightarrow> u32 \<Rightarrow> nat \<Rightarrow> mem \<times> bool" where
  "strncpy_loop m ptr src 0 = (m, False)"
| "strncpy_loop m ptr src (Suc k) =
     (let m' = m(ptr := m src)
      in if m' src = EOS then (m', True) else strncpy_loop m' (ptr + 1) (src + 1) k)"

definition strncpy :: "mem \<Rightarrow> u32 \<Rightarrow> u32 \<Rightarrow> u32 \<Rightarrow> mem \<times> u32" where
  "strncpy m dest src count =
     (case strncpy_loop m dest src (unat count) of
        (m', True) \<Rightarrow> (m', dest)
      | (m', False) \<Rightarrow> (m'(dest + (count - 1) := EOS), dest))"

text \<open>The loop shared by \<open>strlen\<close> and \<open>strcat\<close>: the address of the terminator.\<close>

partial_function (option) find_eos :: "mem \<Rightarrow> u32 \<Rightarrow> u32 option" where
  "find_eos m ptr = (if m ptr \<noteq> EOS then find_eos m (ptr + 1) else Some ptr)"

definition strcat :: "mem \<Rightarrow> u32 \<Rightarrow> u32 \<Rightarrow> (mem \<times> u32) option" where
  "strcat m dest src =
     (case find_eos m dest of
        None \<Rightarrow> None
      | Some ptr \<Rightarrow> map_option (\<lambda>m'. (m', dest)) (strcpy_loop m ptr src))"

fun strnlen_loop :: "mem \<Rightarrow> u32 \<Rightarrow> nat \<Rightarrow> u32" where
  "strnlen_loop m ptr 0 = ptr"
| "strnlen_loop m ptr (Suc k) = (if m ptr \<noteq> EOS then strnlen_loop m (ptr + 1) k else ptr)"

definition strnlen :: "mem \<Rightarrow> u32 \<Rightarrow> u32 \<Rightarrow> u32" where
  "strnlen m str maxlen = strnlen_loop m str (unat maxlen) - str"

definition strlen :: "mem \<Rightarrow> u32 \<Rightarrow> u32 option" where
  "strlen m str = map_option (\<lambda>ptr. ptr - str) (find_eos m str)"

text \<open>The value of \<open>a < b ? -1 : a > b\<close> on signed characters.\<close>

definition char_order :: "u8 \<Rightarrow> u8 \<Rightarrow> int" where
  "char_order a b = (if sint a < sint b then -1 else if sint a > sint b then 1 else 0)"

partial_function (option) strcmp_loop :: "mem \<Rightarrow> u32 \<Rightarrow> u32 \<Rightarrow> (u32 \<times> u32) option" where
  "strcmp_loop m lhs rhs =
     (if m lhs = m rhs \<and> m lhs \<noteq> EOS \<and> m rhs \<noteq> EOS
      then strcmp_loop m (lhs + 1) (rhs + 1) else Some (lhs, rhs))"

definition strcmp :: "mem \<Rightarrow> u32 \<Rightarrow> u32 \<Rightarrow> int option" where
  "strcmp m lhs rhs = map_option (\<lambda>(l, r). char_order (m l) (m r)) (strcmp_loop m lhs rhs)"

partial_function (option) strchr :: "mem \<Rightarrow> u32 \<Rightarrow> u32 \<Rightarrow> u32 option" where
  "strchr m ptr ch =
     (if (scast (m ptr) :: u32) = ch then Some ptr
      else if m ptr = EOS then Some NULL
      else strchr m (ptr + 1) ch)"

partial_function (option) strrchr_loop :: "mem \<Rightarrow> u32 \<Rightarrow> u32 \<Rightarrow> u32 \<Rightarrow> u32 option" where
  "strrchr_loop m found ptr ch =
     (let found' = (if (scast (m ptr) :: u32) = ch then ptr else found)
      in if m ptr = EOS then Some found' else strrchr_loop m found' (ptr + 1) ch)"

definition strrchr :: "mem \<Rightarrow> u32 \<Rightarrow> u32 \<Rightarrow> u32 option" where
  "strrchr m str ch = strrchr_loop m NULL str ch"

fun memcmp_loop :: "mem \<Rightarrow> u32 \<Rightarrow> u32 \<Rightarrow> nat \<Rightarrow> u32 \<times> u32 \<times> nat" where
  "memcmp_loop m lptr rptr 0 = (lptr, rptr, 0)"
| "memcmp_loop m lptr rptr (Suc k) =
     (if m lptr = m rptr then memcmp_loop m (lptr + 1) (rptr + 1) k else (lptr, rptr, Suc k))"

definition memcmp :: "mem \<Rightarrow> u32 \<Rightarrow> u32 \<Rightarrow> u32 \<Rightarrow> int" where
  "memcmp m lhs rhs count =
     (case memcmp_loop m lhs rhs (unat count) of
        (lptr, rptr, k) \<Rightarrow> if k = 0 then 0 else char_order (m lptr) (m rptr))"

fun memset_loop :: "mem \<Rightarrow> u32 \<Rightarrow> u8 \<Rightarrow> nat \<Rightarrow> mem" where
  "memset_loop m ptr ch 0 = m"
| "memset_loop m ptr ch (Suc k) = memset_loop (m(ptr := ch)) (ptr + 1) ch k"

definition memset :: "mem \<Rightarrow> u32 \<Rightarrow> u32 \<Rightarrow> u32 \<Rightarrow> mem \<times> u32" where
  "memset m dest ch count = (memset_loop m dest (ucast ch) (unat count), dest)"

fun memcpy_loop :: "mem \<Rightarrow> u32 \<Rightarrow> u32 \<Rightarrow> nat \<Rightarrow> mem" where
  "memcpy_loop m ptr src 0 = m"
| "memcpy_loop m ptr src (Suc k) = memcpy_loop (m(ptr := m src)) (ptr + 1) (src + 1) k"

definition memcpy :: "mem \<Rightarrow> u32 \<Rightarrow> u32 \<Rightarrow> u32 \<Rightarrow> mem \<times> u32" where
  "memcpy m dest src count = (memcpy_loop m dest src (unat count), dest)"

text \<open>\<open>memchr\<close> has no \<open>return\<close> after its loop: a caller that reads the result of an
  unsuccessful search has undefined behaviour.\<close>

fun memchr_loop :: "mem \<Rightarrow> u32 \<Rightarrow> u32 \<Rightarrow> nat \<Rightarrow> u32 outcome" where
  "memchr_loop m ptr ch 0 = Inl (Undefined ''memchr'')"
| "memchr_loop m ptr ch (Suc k) =
     (if (scast (m ptr) :: u32) = ch then Inr ptr else memchr_loop m (ptr + 1) ch k)"

definition memchr :: "mem \<Rightarrow> u32 \<Rightarrow> u32 \<Rightarrow> u32 \<Rightarrow> u32 outcome" where
  "memchr m str ch count = memchr_loop m str ch (unat count)"

definition is_separator :: "u8 \<Rightarrow> bool" where
  "is_separator c \<longleftrightarrow> c = 0x2f \<or> c = 0x5c"

partial_function (option) strsep :: "mem \<Rightarrow> u32 \<Rightarrow> u32 option" where
  "strsep m ptr =
     (if is_separator (m ptr) then Some ptr
      else if m ptr = EOS then Some NULL
      else strsep m (ptr + 1))"

partial_function (option) strrsep_loop :: "mem \<Rightarrow> u32 \<Rightarrow> u32 \<Rightarrow> u32 option" where
  "strrsep_loop m found ptr =
     (let found' = (if is_separator (m ptr) then ptr else found)
      in if m ptr = EOS then Some found' else strrsep_loop m found' (ptr + 1))"

definition strrsep :: "mem \<Rightarrow> u32 \<Rightarrow> u32 option" where
  "strrsep m str = strrsep_loop m NULL str"

section \<open>C strings in memory\<close>

fun cstr :: "mem \<Rightarrow> u32 \<Rightarrow> u8 list \<Rightarrow> bool" where
  "cstr m p [] \<longleftrightarrow> m p = EOS"
| "cstr m p (c # cs) \<longleftrightarrow> m p = c \<and> c \<noteq> EOS \<and> cstr m (p + 1) cs"

lemma cstr_nth:
  "cstr m p cs \<Longrightarrow> i < length cs \<Longrightarrow> m (p + of_nat i) = cs ! i \<and> cs ! i \<noteq> EOS"
proof (induction cs arbitrary: p i)
  case Nil
  then show ?case by simp
next
  case (Cons c cs)
  then show ?case
  proof (cases i)
    case 0
    with Cons.prems show ?thesis by simp
  next
    case (Suc j)
    with Cons.IH [of "p + 1" j] Cons.prems show ?thesis by (simp add: add.assoc)
  qed
qed

lemma cstr_end: "cstr m p cs \<Longrightarrow> m (p + of_nat (length cs)) = EOS"
  by (induction cs arbitrary: p) (simp_all add: offset_Suc del: of_nat_Suc)

lemma cstr_no_EOS: "cstr m p cs \<Longrightarrow> EOS \<notin> set cs"
  by (induction cs arbitrary: p) auto

lemma cstr_length:
  assumes "cstr m p cs"
  shows "length cs < 2 ^ 32"
proof (rule ccontr)
  assume "\<not> length cs < 2 ^ 32"
  then have lt: "length cs mod 2 ^ 32 < length cs"
    by (meson less_le_trans mod_less_divisor not_less zero_less_numeral zero_less_power)
  have "(of_nat (length cs) :: u32) = of_nat (length cs mod 2 ^ 32)"
    by (rule of_nat32_mod [symmetric])
  with cstr_nth [OF assms lt] cstr_end [OF assms] show False by simp
qed

lemma cstr_cong:
  assumes "cstr m p cs" and "\<And>a. a \<in> region p (Suc (length cs)) \<Longrightarrow> m' a = m a"
  shows "cstr m' p cs"
  using assms
proof (induction cs arbitrary: p)
  case Nil
  then show ?case by simp
next
  case (Cons c cs)
  have "cstr m' (p + 1) cs"
  proof (rule Cons.IH)
    show "cstr m (p + 1) cs" using Cons.prems(1) by simp
    show "m' a = m a" if "a \<in> region (p + 1) (Suc (length cs))" for a
      using Cons.prems(2) [of a] that by (simp add: region_Suc [of p])
  qed
  moreover have "m' p = m p" using Cons.prems(2) [of p] by simp
  ultimately show ?case using Cons.prems(1) by simp
qed

lemma cstr_update_outside:
  "cstr m p cs \<Longrightarrow> a \<notin> region p (Suc (length cs)) \<Longrightarrow> cstr (m(a := b)) p cs"
  by (erule cstr_cong) auto

lemma cstr_bytes_at: "cstr m p cs \<Longrightarrow> bytes_at m p (length cs) = cs"
  by (rule nth_equalityI) (simp_all add: bytes_at_def cstr_nth)

lemma cstr_exists:
  assumes "m a = EOS"
  shows "\<exists>cs. cstr m p cs"
proof -
  obtain k :: nat where "m (p + of_nat k) = EOS"
    using offset_exists [of a p] assms by auto
  then show ?thesis
  proof (induction k arbitrary: p)
    case 0
    then have "cstr m p []" by simp
    then show ?case ..
  next
    case (Suc k)
    then have "m (p + 1 + of_nat k) = EOS" by (simp only: offset_Suc)
    then obtain cs where cs: "cstr m (p + 1) cs" using Suc.IH by blast
    show ?case
    proof (cases "m p = EOS")
      case True
      then have "cstr m p []" by simp
      then show ?thesis ..
    next
      case False
      with cs have "cstr m p (m p # cs)" by simp
      then show ?thesis ..
    qed
  qed
qed

lemma cstr_store:
  "EOS \<notin> set cs \<Longrightarrow> length cs < 2 ^ 32 \<Longrightarrow> cstr (store_bytes m p (cs @ [EOS])) p cs"
proof (induction cs arbitrary: m p)
  case Nil
  then show ?case by simp
next
  case (Cons c cs)
  have "p \<notin> region (p + 1) (length (cs @ [EOS]))"
    using Cons.prems by (intro start_notin_tail) simp
  then have "store_bytes (m(p := c)) (p + 1) (cs @ [EOS]) p = c"
    by (simp add: store_bytes_outside)
  with Cons show ?case by auto
qed

section \<open>Correctness\<close>

lemma find_eos_cstr: "cstr m p cs \<Longrightarrow> find_eos m p = Some (p + of_nat (length cs))"
proof (induction cs arbitrary: p)
  case Nil
  then show ?case by (subst find_eos.simps) simp
next
  case (Cons c cs)
  then show ?case by (subst find_eos.simps) (simp add: add.assoc)
qed

lemma find_eos_SomeD:
  assumes "find_eos m p = Some q"
  shows "m q = EOS"
proof (rule find_eos.raw_induct [where P = "\<lambda>m p q. m q = EOS", OF _ assms])
  fix f :: "mem \<Rightarrow> u32 \<Rightarrow> u32 option" and m p q
  assume "\<And>m p q. f m p = Some q \<Longrightarrow> m q = EOS"
    and "(if m p \<noteq> EOS then f m (p + 1) else Some p) = Some q"
  then show "m q = EOS" by (auto split: if_splits)
qed

lemma strlen_cstr: "cstr m p cs \<Longrightarrow> strlen m p = Some (of_nat (length cs))"
  by (simp add: strlen_def find_eos_cstr)

lemma strlen_None_iff: "strlen m p = None \<longleftrightarrow> (\<forall>a. m a \<noteq> EOS)"
proof
  assume none: "strlen m p = None"
  show "\<forall>a. m a \<noteq> EOS"
  proof (rule allI, rule notI)
    fix a
    assume "m a = EOS"
    then obtain cs where "cstr m p cs" using cstr_exists by blast
    from strlen_cstr [OF this] none show False by simp
  qed
next
  assume "\<forall>a. m a \<noteq> EOS"
  then show "strlen m p = None"
    unfolding strlen_def using find_eos_SomeD by (cases "find_eos m p") auto
qed

lemma strnlen_loop_cstr:
  "cstr m p cs \<Longrightarrow> strnlen_loop m p k = p + of_nat (min (length cs) k)"
proof (induction k arbitrary: p cs)
  case 0
  then show ?case by simp
next
  case (Suc k)
  then show ?case by (cases cs) (auto simp: add.assoc)
qed

lemma strnlen_cstr: "cstr m p cs \<Longrightarrow> unat (strnlen m p n) = min (length cs) (unat n)"
  using cstr_length [of m p cs] by (simp add: strnlen_def strnlen_loop_cstr unat_of_nat32)

lemma strcpy_loop_cstr:
  "cstr m s cs \<Longrightarrow> region d (Suc (length cs)) \<inter> region s (Suc (length cs)) = {} \<Longrightarrow>
   strcpy_loop m d s = Some (store_bytes m d (cs @ [EOS]))"
proof (induction cs arbitrary: m d s)
  case Nil
  then show ?case by (subst strcpy_loop.simps) (simp add: Let_def region_Suc)
next
  case (Cons c cs)
  let ?n = "Suc (length cs)"
  from Cons.prems(2) have ds: "d \<noteq> s" "d \<notin> region (s + 1) ?n" "s \<notin> region (d + 1) ?n"
    and disj: "region (d + 1) ?n \<inter> region (s + 1) ?n = {}"
    by (auto simp: region_Suc)
  from Cons.prems(1) ds(2) have "cstr (m(d := m s)) (s + 1) cs"
    by (simp add: cstr_update_outside)
  then have "strcpy_loop (m(d := m s)) (d + 1) (s + 1) =
      Some (store_bytes (m(d := m s)) (d + 1) (cs @ [EOS]))"
    using disj by (rule Cons.IH)
  with Cons.prems(1) ds(1) show ?case
    by (subst strcpy_loop.simps) (simp add: Let_def fun_upd_def)
qed

lemma strcpy_cstr:
  "cstr m s cs \<Longrightarrow> region d (Suc (length cs)) \<inter> region s (Suc (length cs)) = {} \<Longrightarrow>
   strcpy m d s = Some (store_bytes m d (cs @ [EOS]), d)"
  by (simp add: strcpy_def strcpy_loop_cstr)

lemma strncpy_loop_cstr:
  "cstr m s cs \<Longrightarrow> region d k \<inter> region s (Suc (length cs)) = {} \<Longrightarrow>
   strncpy_loop m d s k =
     (if length cs < k then (store_bytes m d (cs @ [EOS]), True)
      else (store_bytes m d (take k cs), False))"
proof (induction k arbitrary: m d s cs)
  case 0
  then show ?case by simp
next
  case (Suc k)
  from Suc.prems(2) have ds: "d \<noteq> s" "d \<notin> region (s + 1) (length cs)"
    by (auto simp: region_Suc)
  show ?case
  proof (cases cs)
    case Nil
    with Suc.prems(1) ds show ?thesis by (simp add: Let_def)
  next
    case (Cons c cs')
    with Suc.prems(1) ds have "cstr (m(d := m s)) (s + 1) cs'"
      by (simp add: cstr_update_outside)
    moreover from Suc.prems(2) Cons have "region (d + 1) k \<inter> region (s + 1) (Suc (length cs')) = {}"
      by (auto simp: region_Suc)
    ultimately have "strncpy_loop (m(d := m s)) (d + 1) (s + 1) k =
        (if length cs' < k then (store_bytes (m(d := m s)) (d + 1) (cs' @ [EOS]), True)
         else (store_bytes (m(d := m s)) (d + 1) (take k cs'), False))"
      by (rule Suc.IH)
    with Suc.prems(1) Cons ds(1) show ?thesis by (auto simp: Let_def)
  qed
qed

text \<open>
  With room for the terminator \<open>strncpy\<close> copies the string; without, it copies \<open>count - 1\<close>
  bytes and terminates them. With \<open>count = 0\<close> it writes the byte before \<open>dest\<close>.
\<close>

lemma store_bytes_last:
  "length bs < 2 ^ 32 \<Longrightarrow> (store_bytes m p (bs @ [b]))(p + of_nat (length bs) := c) =
   store_bytes m p (bs @ [c])"
  by (simp add: store_bytes_append)

lemma strncpy_cstr:
  assumes s: "cstr m s cs" and disj: "region d (unat n) \<inter> region s (Suc (length cs)) = {}"
    and n: "0 < n"
  shows "strncpy m d s n = (store_bytes m d (take (unat n - 1) cs @ [EOS]), d)"
proof (cases "length cs < unat n")
  case True
  then show ?thesis
    using strncpy_loop_cstr [OF s disj] by (simp add: strncpy_def)
next
  case False
  let ?k = "unat n - 1"
  have k: "unat n = Suc ?k" using n unat_gt_0 [of n] word_gt_0 [of n] by simp
  have "?k < length cs" using False k by linarith
  then have "take (Suc ?k) cs = take ?k cs @ [cs ! ?k]" by (rule take_Suc_conv_app_nth)
  then have last: "take (unat n) cs = take ?k cs @ [cs ! ?k]" unfolding k [symmetric] .
  have "(of_nat (Suc ?k) :: u32) = n" unfolding k [symmetric] by simp
  then have off: "n - 1 = (of_nat ?k :: u32)" by (metis add_diff_cancel_left' of_nat_Suc)
  have len: "length (take ?k cs) = ?k" using False by simp
  have "strncpy m d s n = ((store_bytes m d (take (unat n) cs))(d + (n - 1) := EOS), d)"
    using strncpy_loop_cstr [OF s disj] False by (simp add: strncpy_def)
  also have "\<dots> = (store_bytes m d (take ?k cs @ [EOS]), d)"
    unfolding last off
    using store_bytes_last [of "take ?k cs" m d "cs ! ?k" EOS] unat_bound32 [of n]
    unfolding len by simp
  finally show ?thesis .
qed

lemma strncpy_zero: "strncpy m d s 0 = (m(d - 1 := EOS), d)"
  by (simp add: strncpy_def)

lemma region_add:
  "region p (m + n) = region p m \<union> region (p + of_nat m) n"
proof (induction n)
  case 0
  then show ?case by simp
next
  case (Suc n)
  then show ?case by (simp add: region_snoc add.assoc)
qed

lemma strcat_cstr:
  assumes d: "cstr m d ds" and s: "cstr m s cs"
    and disj: "region d (length ds + Suc (length cs)) \<inter> region s (Suc (length cs)) = {}"
  shows "strcat m d s = Some (store_bytes m (d + of_nat (length ds)) (cs @ [EOS]), d)"
proof -
  have "region (d + of_nat (length ds)) (Suc (length cs)) \<inter> region s (Suc (length cs)) = {}"
    using disj unfolding region_add by blast
  then show ?thesis
    using find_eos_cstr [OF d] strcpy_loop_cstr [OF s] by (simp add: strcat_def)
qed

lemma store_bytes_at: "bytes_at m p (length bs) = bs \<Longrightarrow> store_bytes m p bs = m"
proof (induction bs arbitrary: p)
  case Nil
  then show ?case by simp
next
  case (Cons b bs)
  then show ?case by (auto simp: bytes_at_Suc fun_upd_idem)
qed

lemma strcat_string:
  assumes d: "cstr m d ds" and s: "cstr m s cs" and len: "length ds + length cs < 2 ^ 32"
    and disj: "region d (length ds + Suc (length cs)) \<inter> region s (Suc (length cs)) = {}"
  shows "\<exists>m'. strcat m d s = Some (m', d) \<and> cstr m' d (ds @ cs) \<and>
    (\<forall>a. a \<notin> region d (length ds + Suc (length cs)) \<longrightarrow> m' a = m a)"
proof (intro exI conjI)
  let ?m' = "store_bytes m d ((ds @ cs) @ [EOS])"
  have eq: "store_bytes m (d + of_nat (length ds)) (cs @ [EOS]) = ?m'"
    using store_bytes_at [OF cstr_bytes_at [OF d]] by (simp add: store_bytes_append)
  show "strcat m d s = Some (?m', d)"
    using strcat_cstr [OF d s disj] eq by simp
  show "cstr ?m' d (ds @ cs)"
    using len cstr_no_EOS [OF d] cstr_no_EOS [OF s] by (intro cstr_store) auto
  show "\<forall>a. a \<notin> region d (length ds + Suc (length cs)) \<longrightarrow> ?m' a = m a"
    by (simp add: store_bytes_outside)
qed

section \<open>Comparison and search\<close>

text \<open>The order \<open>strcmp\<close> computes: the first difference decides, by signed characters.\<close>

fun str_order :: "u8 list \<Rightarrow> u8 list \<Rightarrow> int" where
  "str_order [] [] = 0"
| "str_order [] (d # ds) = char_order EOS d"
| "str_order (c # cs) [] = char_order c EOS"
| "str_order (c # cs) (d # ds) = (if c = d then str_order cs ds else char_order c d)"

lemma char_order_eq_0 [simp]: "char_order a b = 0 \<longleftrightarrow> a = b"
  by (auto simp: char_order_def intro: signed_word_eqI)

lemma char_order_swap: "char_order b a = - char_order a b"
  by (simp add: char_order_def)

lemma str_order_eq_0:
  "EOS \<notin> set cs \<Longrightarrow> EOS \<notin> set ds \<Longrightarrow> str_order cs ds = 0 \<longleftrightarrow> cs = ds"
  by (induction cs ds rule: str_order.induct) auto

lemma str_order_swap: "str_order ds cs = - str_order cs ds"
proof (induction cs ds rule: str_order.induct)
  case (4 c cs d ds)
  then show ?case using char_order_swap [of d c] by simp
next
  case (2 d ds)
  show ?case unfolding str_order.simps by (rule char_order_swap)
next
  case (3 c cs)
  show ?case unfolding str_order.simps by (rule char_order_swap)
qed simp

lemma strcmp_unfold:
  "strcmp m l r =
     (if m l = m r \<and> m l \<noteq> EOS \<and> m r \<noteq> EOS then strcmp m (l + 1) (r + 1)
      else Some (char_order (m l) (m r)))"
  unfolding strcmp_def by (subst strcmp_loop.simps) simp

lemma strcmp_cstr: "cstr m l cs \<Longrightarrow> cstr m r ds \<Longrightarrow> strcmp m l r = Some (str_order cs ds)"
proof (induction cs ds arbitrary: l r rule: str_order.induct)
  case 1
  then show ?case by (subst strcmp_unfold) simp
next
  case (2 d ds)
  then show ?case by (subst strcmp_unfold) auto
next
  case (3 c cs)
  then show ?case by (subst strcmp_unfold) auto
next
  case (4 c cs d ds)
  then show ?case by (subst strcmp_unfold) auto
qed

text \<open>The first and the last position of a string, terminator included, that satisfies a test.\<close>

fun first_hit :: "(u8 \<Rightarrow> bool) \<Rightarrow> u8 list \<Rightarrow> u32 \<Rightarrow> u32" where
  "first_hit P [] p = NULL"
| "first_hit P (c # cs) p = (if P c then p else first_hit P cs (p + 1))"

fun last_hit :: "(u8 \<Rightarrow> bool) \<Rightarrow> u32 \<Rightarrow> u8 list \<Rightarrow> u32 \<Rightarrow> u32" where
  "last_hit P f [] p = f"
| "last_hit P f (c # cs) p = last_hit P (if P c then p else f) cs (p + 1)"

lemma first_hit_nth:
  "i < length cs \<Longrightarrow> P (cs ! i) \<Longrightarrow> (\<And>j. j < i \<Longrightarrow> \<not> P (cs ! j)) \<Longrightarrow>
   first_hit P cs p = p + of_nat i"
proof (induction cs arbitrary: p i)
  case Nil
  then show ?case by simp
next
  case (Cons c cs)
  show ?case
  proof (cases i)
    case 0
    with Cons.prems show ?thesis by simp
  next
    case (Suc j)
    have "first_hit P cs (p + 1) = p + 1 + of_nat j"
      using Cons.prems Suc by (intro Cons.IH) force+
    moreover have "\<not> P c" using Cons.prems(3) [of 0] Suc by simp
    ultimately show ?thesis using Suc by (simp add: add.assoc)
  qed
qed

lemma first_hit_none: "\<forall>c \<in> set cs. \<not> P c \<Longrightarrow> first_hit P cs p = NULL"
  by (induction cs arbitrary: p) auto

lemma last_hit_append: "last_hit P f (cs @ ds) p = last_hit P (last_hit P f cs p) ds (p + of_nat (length cs))"
  by (induction cs arbitrary: p f) (simp_all add: add.assoc)

lemma last_hit_none: "\<forall>c \<in> set cs. \<not> P c \<Longrightarrow> last_hit P f cs p = f"
  by (induction cs arbitrary: p f) auto

lemma strchr_cstr:
  "cstr m p cs \<Longrightarrow> strchr m p ch = Some (first_hit (\<lambda>c. scast c = ch) (cs @ [EOS]) p)"
proof (induction cs arbitrary: p)
  case Nil
  then show ?case by (subst strchr.simps) simp
next
  case (Cons c cs)
  then show ?case by (subst strchr.simps) auto
qed

lemma strsep_cstr: "cstr m p cs \<Longrightarrow> strsep m p = Some (first_hit is_separator (cs @ [EOS]) p)"
proof (induction cs arbitrary: p)
  case Nil
  then show ?case by (subst strsep.simps) simp
next
  case (Cons c cs)
  then show ?case by (subst strsep.simps) auto
qed

lemma strrchr_loop_cstr:
  "cstr m p cs \<Longrightarrow> strrchr_loop m f p ch = Some (last_hit (\<lambda>c. scast c = ch) f (cs @ [EOS]) p)"
proof (induction cs arbitrary: p f)
  case Nil
  then show ?case by (subst strrchr_loop.simps) (simp add: Let_def)
next
  case (Cons c cs)
  then show ?case by (subst strrchr_loop.simps) (auto simp: Let_def)
qed

lemma strrsep_loop_cstr:
  "cstr m p cs \<Longrightarrow> strrsep_loop m f p = Some (last_hit is_separator f (cs @ [EOS]) p)"
proof (induction cs arbitrary: p f)
  case Nil
  then show ?case by (subst strrsep_loop.simps) (simp add: Let_def)
next
  case (Cons c cs)
  then show ?case by (subst strrsep_loop.simps) (auto simp: Let_def)
qed

lemma strrchr_cstr:
  "cstr m p cs \<Longrightarrow> strrchr m p ch = Some (last_hit (\<lambda>c. scast c = ch) NULL (cs @ [EOS]) p)"
  by (simp add: strrchr_def strrchr_loop_cstr)

lemma strrsep_cstr: "cstr m p cs \<Longrightarrow> strrsep m p = Some (last_hit is_separator NULL (cs @ [EOS]) p)"
  by (simp add: strrsep_def strrsep_loop_cstr)

section \<open>Counted memory operations\<close>

lemma memset_loop_eq: "memset_loop m p c k = store_bytes m p (replicate k c)"
  by (induction k arbitrary: m p) simp_all

lemma memset_eq: "memset m d ch n = (store_bytes m d (replicate (unat n) (ucast ch)), d)"
  by (simp add: memset_def memset_loop_eq)

lemma memcpy_loop_disjoint:
  "region d k \<inter> region s k = {} \<Longrightarrow> memcpy_loop m d s k = store_bytes m d (bytes_at m s k)"
proof (induction k arbitrary: m d s)
  case 0
  then show ?case by simp
next
  case (Suc k)
  then have "region (d + 1) k \<inter> region (s + 1) k = {}" and "d \<notin> region (s + 1) k"
    by (auto simp: region_Suc)
  then have "memcpy_loop (m(d := m s)) (d + 1) (s + 1) k =
      store_bytes (m(d := m s)) (d + 1) (bytes_at m (s + 1) k)"
    using Suc.IH [of "d + 1" "s + 1" "m(d := m s)"]
      bytes_at_cong [of "s + 1" k "m(d := m s)" m] by fastforce
  then show ?case by (simp add: bytes_at_Suc)
qed

lemma memcpy_disjoint:
  "region d (unat n) \<inter> region s (unat n) = {} \<Longrightarrow>
   memcpy m d s n = (store_bytes m d (bytes_at m s (unat n)), d)"
  by (simp add: memcpy_def memcpy_loop_disjoint)

lemma memcmp_loop_eq:
  "memcmp_loop m l r k = (l', r', j) \<Longrightarrow>
   j \<le> k \<and> (j = 0 \<longleftrightarrow> bytes_at m l k = bytes_at m r k) \<and> (j \<noteq> 0 \<longrightarrow> m l' \<noteq> m r')"
proof (induction k arbitrary: l r)
  case 0
  then show ?case by simp
next
  case (Suc k)
  show ?case
  proof (cases "m l = m r")
    case True
    with Suc.prems have "memcmp_loop m (l + 1) (r + 1) k = (l', r', j)" by simp
    from Suc.IH [OF this] True show ?thesis by (auto simp: bytes_at_Suc)
  next
    case False
    with Suc.prems show ?thesis by (auto simp: bytes_at_Suc)
  qed
qed

lemma memcmp_eq_0: "memcmp m l r n = 0 \<longleftrightarrow> bytes_at m l (unat n) = bytes_at m r (unat n)"
proof -
  obtain l' r' j where eq: "memcmp_loop m l r (unat n) = (l', r', j)" by (metis prod_cases3)
  from memcmp_loop_eq [OF this] eq show ?thesis by (auto simp: memcmp_def)
qed

lemma memchr_loop_hit:
  "i < k \<Longrightarrow> scast (m (p + of_nat i)) = ch \<Longrightarrow> (\<And>j. j < i \<Longrightarrow> scast (m (p + of_nat j)) \<noteq> ch) \<Longrightarrow>
   memchr_loop m p ch k = Inr (p + of_nat i)"
proof (induction k arbitrary: p i)
  case 0
  then show ?case by simp
next
  case (Suc k)
  show ?case
  proof (cases i)
    case 0
    with Suc.prems show ?thesis by simp
  next
    case (Suc j)
    have "memchr_loop m (p + 1) ch k = Inr (p + 1 + of_nat j)"
    proof (rule Suc.IH)
      show "j < k" using Suc.prems(1) Suc by simp
      show "scast (m (p + 1 + of_nat j)) = ch"
        using Suc.prems(2) unfolding Suc offset_Suc .
      show "scast (m (p + 1 + of_nat j')) \<noteq> ch" if "j' < j" for j'
        using Suc.prems(3) [of "Suc j'"] that unfolding Suc offset_Suc by simp
    qed
    moreover have "scast (m p) \<noteq> ch" using Suc.prems(3) [of 0] Suc by simp
    ultimately show ?thesis unfolding Suc offset_Suc by simp
  qed
qed

lemma memchr_loop_miss:
  "(\<And>j. j < k \<Longrightarrow> scast (m (p + of_nat j)) \<noteq> ch) \<Longrightarrow>
   memchr_loop m p ch k = Inl (Undefined ''memchr'')"
proof (induction k arbitrary: p)
  case 0
  then show ?case by simp
next
  case (Suc k)
  have "memchr_loop m (p + 1) ch k = Inl (Undefined ''memchr'')"
  proof (rule Suc.IH)
    show "scast (m (p + 1 + of_nat j)) \<noteq> ch" if "j < k" for j
      using Suc.prems [of "Suc j"] that unfolding offset_Suc by simp
  qed
  moreover have "scast (m p) \<noteq> ch" using Suc.prems [of 0] by simp
  ultimately show ?case by simp
qed

lemma memchr_outcome:
  "memchr m p ch n =
     (if \<exists>i < unat n. scast (m (p + of_nat i)) = ch
      then Inr (p + of_nat (LEAST i. scast (m (p + of_nat i)) = ch))
      else Inl (Undefined ''memchr''))"
proof (cases "\<exists>i < unat n. scast (m (p + of_nat i)) = ch")
  case True
  let ?P = "\<lambda>i. scast (m (p + of_nat i)) = ch"
  from True obtain i where i: "i < unat n" "?P i" by blast
  define k where "k = (LEAST i. ?P i)"
  have k: "?P k" unfolding k_def by (rule LeastI [of ?P, OF i(2)])
  have "k \<le> i" unfolding k_def by (rule Least_le [of ?P, OF i(2)])
  then have "memchr_loop m p ch (unat n) = Inr (p + of_nat k)"
    using i(1) k not_less_Least [of _ ?P] by (intro memchr_loop_hit) (auto simp: k_def)
  with True show ?thesis by (simp add: memchr_def k_def)
next
  case False
  then show ?thesis by (auto simp: memchr_def intro: memchr_loop_miss)
qed

section \<open>When \<open>strcpy\<close> returns\<close>

lemma strcpy_loop_ahead:
  assumes "cstr m s cs" and "k < 2 ^ 32" and "length cs < k"
  shows "strcpy_loop m (s + of_nat k) s \<noteq> None"
  using assms
proof (induction cs arbitrary: m s)
  case Nil
  then have "s + of_nat k \<noteq> s" using add_offset_eq_iff [of k 0 s] by simp
  with Nil show ?case by (subst strcpy_loop.simps) (simp add: Let_def)
next
  case (Cons c cs)
  let ?m = "m(s + of_nat k := m s)"
  have "s + of_nat k \<notin> region s (Suc (length (c # cs)))"
  proof
    assume "s + of_nat k \<in> region s (Suc (length (c # cs)))"
    then obtain i where "i < Suc (length (c # cs))" "s + of_nat k = s + of_nat i" by (auto simp: region_def)
    then show False using Cons.prems(2,3) add_offset_eq_iff [of k i s] by simp
  qed
  then have m: "cstr ?m s (c # cs)" using Cons.prems(1) by (rule_tac cstr_update_outside)
  then have "strcpy_loop ?m (s + 1 + of_nat k) (s + 1) \<noteq> None"
    using Cons.prems(2,3) by (intro Cons.IH) (simp_all del: fun_upd_apply)
  moreover have "s + of_nat k + 1 = s + 1 + of_nat k" by simp
  moreover have "?m s \<noteq> EOS" using m by auto
  ultimately show ?case unfolding strcpy_loop.simps [of m "s + of_nat k" s] Let_def by (simp add: \<open>s + of_nat k + 1 = s + 1 + of_nat k\<close> del: fun_upd_apply)
qed

lemma strcpy_loop_onto_itself: "cstr m s cs \<Longrightarrow> strcpy_loop m s s \<noteq> None"
proof (induction cs arbitrary: s)
  case Nil
  then show ?case by (subst strcpy_loop.simps) (simp add: Let_def)
next
  case (Cons c cs)
  then have c: "m s \<noteq> EOS" "cstr m (s + 1) cs" by auto
  have m: "m(s := m s) = m" by simp
  show ?case unfolding strcpy_loop.simps [of m s s] Let_def m using c Cons.IH by simp
qed

text \<open>A destination inside the string: the terminator is overwritten before it is read.\<close>

lemma strcpy_loop_inside:
  assumes "strcpy_loop m d s = Some m'" and "0 < k" and "k < 2 ^ 32" and "d = s + of_nat k"
  shows "\<exists>i < k. m (s + of_nat i) = EOS"
proof -
  have "d = s + of_nat k \<longrightarrow> (\<exists>i < k. m (s + of_nat i) = EOS)"
  proof (rule strcpy_loop.raw_induct [where P = "\<lambda>m d s m'. d = s + of_nat k \<longrightarrow> (\<exists>i < k. m (s + of_nat i) = EOS)", OF _ assms(1)])
    fix f :: "mem \<Rightarrow> u32 \<Rightarrow> u32 \<Rightarrow> mem option" and m d s m'
    assume IH: "\<And>m d s m'. f m d s = Some m' \<Longrightarrow> d = s + of_nat k \<longrightarrow> (\<exists>i < k. m (s + of_nat i) = EOS)"
      and run: "(let m' = m(d := m s) in if m' s = EOS then Some m' else f m' (d + 1) (s + 1)) = Some m'"
    show "d = s + of_nat k \<longrightarrow> (\<exists>i < k. m (s + of_nat i) = EOS)"
    proof
      assume d: "d = s + of_nat k"
      have ds: "d \<noteq> s" unfolding d using assms(2,3) add_offset_eq_iff [of k 0 s] by simp
      show "\<exists>i < k. m (s + of_nat i) = EOS"
      proof (cases "m s = EOS")
        case True
        then show ?thesis using assms(2) by (intro exI [of _ 0]) simp
      next
        case False
        then have "f (m(d := m s)) (d + 1) (s + 1) = Some m'" using run ds by (simp add: Let_def)
        moreover have "d + 1 = s + 1 + of_nat k" by (simp add: d)
        ultimately obtain i where i: "i < k" "(m(d := m s)) (s + 1 + of_nat i) = EOS" using IH by blast
        have step: "s + 1 + of_nat i = s + of_nat (Suc i)" by (simp only: offset_Suc)
        then have "s + 1 + of_nat i \<noteq> d" using i(2) False by auto
        then have "Suc i \<noteq> k" "m (s + of_nat (Suc i)) = EOS" using i(2) d step by auto
        then show ?thesis using i(1) by (intro exI [of _ "Suc i"]) simp
      qed
    qed
  qed
  then show ?thesis using assms(4) by simp
qed


definition sample_text :: mem where
  "sample_text = store_bytes (\<lambda>_. 0) 0x100 [0x61, 0x62]"


end
