(* ===== verification/Bitmap.thy ===== *)
theory Bitmap
  imports LibString
begin

text \<open>
  The bitmap allocator of \<open>src/lib/bitmap.c\<close>. The bits live in byte memory at the address
  \<open>bm_bits\<close>; \<open>bm_length\<close> is the size in bytes. \<open>bit_set\<close> reads one bit of the abstract
  bit sequence, also beyond the end of the bitmap, because the search of the code does.
\<close>

section \<open>The code\<close>

record bitmap =
  bm_length :: u32
  bm_bits :: u32

definition bitmap_init :: "mem \<Rightarrow> bitmap \<Rightarrow> mem" where
  "bitmap_init m bm = fst (memset m (bm_bits bm) 0 (bm_length bm))"

text \<open>The result is the \<open>int\<close> of the C function: zero, or the one bit that is set.\<close>

definition bitmap_get_bit :: "mem \<Rightarrow> bitmap \<Rightarrow> u32 \<Rightarrow> u32" where
  "bitmap_get_bit m bm bit_index =
     (let index0 = bit_index div 8; index1 = bit_index mod 8
      in ucast (m (bm_bits bm + index0)) AND push_bit (unat index1) 1)"

definition bitmap_set_bit :: "mem \<Rightarrow> bitmap \<Rightarrow> u32 \<Rightarrow> u8 \<Rightarrow> mem" where
  "bitmap_set_bit m bm bit_index value =
     (let index0 = bit_index div 8; index1 = bit_index mod 8; a = bm_bits bm + index0
      in if value \<noteq> 0
         then m(a := m a OR push_bit (unat index1) 1)
         else m(a := m a AND NOT (push_bit (unat index1) 1)))"

text \<open>The first loop: skip full bytes. It reads the byte before it checks the length.\<close>

function scan_bytes :: "mem \<Rightarrow> bitmap \<Rightarrow> u32 \<Rightarrow> u32" where
  "scan_bytes m bm idx =
     (if m (bm_bits bm + idx) = 0xff \<and> idx < bm_length bm
      then scan_bytes m bm (idx + 1) else idx)"
  by pat_completeness auto
termination
proof (relation "measure (\<lambda>(m, bm, idx). unat (bm_length bm) - unat idx)", simp)
  fix m :: mem and bm :: bitmap and idx :: u32
  assume "m (bm_bits bm + idx) = 0xff \<and> idx < bm_length bm"
  then have "unat idx < unat (bm_length bm)" by (simp add: word_less_nat_alt)
  moreover from this have "unat (idx + 1) = Suc (unat idx)"
    using unat_bound32 [of "bm_length bm"] by (intro unat_inc32) simp
  ultimately show "((m, bm, idx + 1), (m, bm, idx))
      \<in> measure (\<lambda>(m, bm, idx). unat (bm_length bm) - unat idx)"
    by simp
qed

text \<open>The second loop: the first clear bit of a byte, \<open>(u8)(1 << idx_bit)\<close> as in the code.\<close>

function scan_bits :: "u8 \<Rightarrow> nat \<Rightarrow> nat" where
  "scan_bits b idx_bit =
     (if (ucast (push_bit idx_bit (1 :: u32)) :: u8) AND b \<noteq> 0
      then scan_bits b (Suc idx_bit) else idx_bit)"
  by pat_completeness auto

lemma ucast_bit_small: "(ucast (push_bit k (1 :: u32)) :: u8) AND b \<noteq> 0 \<longleftrightarrow> k < 8 \<and> bit b k"
proof
  assume "k < 8 \<and> bit b k"
  then have "bit ((ucast (push_bit k (1 :: u32)) :: u8) AND b) k"
    by (simp add: bit_simps)
  then show "(ucast (push_bit k (1 :: u32)) :: u8) AND b \<noteq> 0" by auto
next
  assume "(ucast (push_bit k (1 :: u32)) :: u8) AND b \<noteq> 0"
  then obtain i where "bit ((ucast (push_bit k (1 :: u32)) :: u8) AND b) i"
    using bit_eqI [of "(ucast (push_bit k (1 :: u32)) :: u8) AND b" 0] by auto
  then show "k < 8 \<and> bit b k"
    by (auto simp: bit_simps bit_1_iff)
qed

termination scan_bits
proof (relation "measure (\<lambda>(b, k). 8 - k)")
  fix b k
  assume "(ucast (push_bit k (1 :: u32)) :: u8) AND b \<noteq> 0"
  then have "k < 8" using ucast_bit_small by blast
  then show "((b, Suc k), (b, k)) \<in> measure (\<lambda>(b, k). 8 - k)" by simp
qed simp

declare scan_bytes.simps [simp del] scan_bits.simps [simp del]

text \<open>The third loop, with \<open>bit_left\<close> as the recursion argument.\<close>

fun search_run :: "mem \<Rightarrow> bitmap \<Rightarrow> u32 \<Rightarrow> u32 \<Rightarrow> u32 \<Rightarrow> nat \<Rightarrow> u32" where
  "search_run m bm n next_bit count 0 = - 1"
| "search_run m bm n next_bit count (Suc bit_left) =
     (let count' = (if bitmap_get_bit m bm next_bit = 0 then count + 1 else 0)
      in if count' = n then next_bit - n + 1
         else search_run m bm n (next_bit + 1) count' bit_left)"

definition bitmap_request_bits :: "mem \<Rightarrow> bitmap \<Rightarrow> u32 \<Rightarrow> u32 outcome" where
  "bitmap_request_bits m bm n =
     (let idx_byte = scan_bytes m bm 0
      in rbind (c_assert ''bitmap_request_bits'' ''idx_byte < bitmap->length'' (idx_byte < bm_length bm))
        (\<lambda>_. if idx_byte = bm_length bm then Inr (- 1)
             else
               (let idx_bit = scan_bits (m (bm_bits bm + idx_byte)) 0;
                    bit_idx_start = idx_byte * 8 + of_nat idx_bit
                in if n = 1 then Inr bit_idx_start
                   else Inr (search_run m bm n (bit_idx_start + 1) 1
                               (unat (bm_length bm * 8 - bit_idx_start))))))"

section \<open>Bits\<close>

definition bit_set :: "mem \<Rightarrow> bitmap \<Rightarrow> nat \<Rightarrow> bool" where
  "bit_set m bm i \<longleftrightarrow> bit (m (bm_bits bm + of_nat (i div 8))) (i mod 8)"

definition bm_bits_count :: "bitmap \<Rightarrow> nat" where
  "bm_bits_count bm = 8 * unat (bm_length bm)"

definition run_clear :: "mem \<Rightarrow> bitmap \<Rightarrow> nat \<Rightarrow> nat \<Rightarrow> bool" where
  "run_clear m bm t n \<longleftrightarrow> (\<forall>i < n. \<not> bit_set m bm (t + i))"

lemma of_nat_div8: "i < 2 ^ 32 \<Longrightarrow> (of_nat i :: u32) div 8 = of_nat (i div 8)"
  by (rule word_unat_eq_iff [THEN iffD2]) (simp add: unat_div32 unat_of_nat32)

lemma unat_mod8: "i < 2 ^ 32 \<Longrightarrow> unat ((of_nat i :: u32) mod 8) = i mod 8"
  by (simp add: unat_mod32 unat_of_nat32)

lemma get_bit_iff:
  "i < 2 ^ 32 \<Longrightarrow> bitmap_get_bit m bm (of_nat i) \<noteq> 0 \<longleftrightarrow> bit_set m bm i"
proof -
  assume i: "i < 2 ^ 32"
  let ?b = "m (bm_bits bm + of_nat (i div 8))" and ?k = "i mod 8"
  have "(ucast ?b :: u32) AND push_bit ?k 1 \<noteq> 0 \<longleftrightarrow> bit ?b ?k"
  proof
    assume "bit ?b ?k"
    then have "bit ((ucast ?b :: u32) AND push_bit ?k 1) ?k"
      by (simp add: bit_simps)
    then show "(ucast ?b :: u32) AND push_bit ?k 1 \<noteq> 0" by auto
  next
    assume "(ucast ?b :: u32) AND push_bit ?k 1 \<noteq> 0"
    then obtain j where "bit ((ucast ?b :: u32) AND push_bit ?k 1) j"
      using bit_eqI [of "(ucast ?b :: u32) AND push_bit ?k 1" 0] by auto
    then show "bit ?b ?k" by (auto simp: bit_simps bit_1_iff)
  qed
  then show ?thesis
    by (simp only: bitmap_get_bit_def Let_def of_nat_div8 [OF i] unat_mod8 [OF i] bit_set_def)
qed

lemma set_bit_other_byte:
  "a \<noteq> bm_bits bm + i div 8 \<Longrightarrow> bitmap_set_bit m bm i v a = m a"
  by (simp add: bitmap_set_bit_def Let_def)

lemma bit_set_after_set:
  assumes i: "i < 2 ^ 32" and j: "j < 2 ^ 32"
  shows "bit_set (bitmap_set_bit m bm (of_nat i) v) bm j =
    (if j = i then v \<noteq> 0 else bit_set m bm j)"
proof (cases "j div 8 = i div 8")
  case True
  have "j = i \<longleftrightarrow> j mod 8 = i mod 8"
    using True by (metis div_mult_mod_eq)
  then show ?thesis
    unfolding bit_set_def bitmap_set_bit_def Let_def of_nat_div8 [OF i] unat_mod8 [OF i] True
    by (auto simp: bit_simps bit_1_iff)
next
  case False
  then have "(of_nat (j div 8) :: u32) \<noteq> of_nat (i div 8)"
    using i j by (subst of_nat32_eq_iff) auto
  then have "bm_bits bm + of_nat (j div 8) \<noteq> bm_bits bm + (of_nat i :: u32) div 8"
    using of_nat_div8 [OF i] by simp
  then have "bitmap_set_bit m bm (of_nat i) v (bm_bits bm + of_nat (j div 8)) =
      m (bm_bits bm + of_nat (j div 8))"
    by (rule set_bit_other_byte)
  moreover have "j \<noteq> i" using False by auto
  ultimately show ?thesis unfolding bit_set_def by simp
qed

lemma bitmap_init_clear:
  assumes "i < bm_bits_count bm"
  shows "\<not> bit_set (bitmap_init m bm) bm i"
proof -
  let ?n = "unat (bm_length bm)"
  have "i div 8 < ?n" using assms by (simp add: bm_bits_count_def less_mult_imp_div_less)
  then have "bitmap_init m bm (bm_bits bm + of_nat (i div 8)) = 0"
    using store_bytes_inside [of "i div 8" "replicate ?n 0" m "bm_bits bm"] unat_bound32 [of "bm_length bm"]
    by (simp add: bitmap_init_def memset_eq)
  then show ?thesis by (simp add: bit_set_def)
qed

lemma bitmap_init_outside:
  "a \<notin> region (bm_bits bm) (unat (bm_length bm)) \<Longrightarrow> bitmap_init m bm a = m a"
  by (simp add: bitmap_init_def memset_eq store_bytes_outside)

section \<open>The loops\<close>

lemma scan_bytes_spec:
  assumes "\<forall>j < unat idx. m (bm_bits bm + of_nat j) = 0xff" and "idx \<le> bm_length bm"
  shows "(\<forall>j < unat (scan_bytes m bm idx). m (bm_bits bm + of_nat j) = 0xff) \<and>
    scan_bytes m bm idx \<le> bm_length bm \<and>
    (scan_bytes m bm idx < bm_length bm \<longrightarrow> m (bm_bits bm + scan_bytes m bm idx) \<noteq> 0xff)"
  using assms
proof (induction m bm idx rule: scan_bytes.induct)
  case (1 m bm idx)
  show ?case
  proof (cases "m (bm_bits bm + idx) = 0xff \<and> idx < bm_length bm")
    case True
    then have lt: "unat idx < unat (bm_length bm)" by (simp add: word_less_nat_alt)
    then have inc: "unat (idx + 1) = Suc (unat idx)"
      using unat_bound32 [of "bm_length bm"] by (intro unat_inc32) simp
    have "\<forall>j < unat (idx + 1). m (bm_bits bm + of_nat j) = 0xff"
      unfolding inc using "1.prems"(1) True by (auto simp: less_Suc_eq)
    moreover have "idx + 1 \<le> bm_length bm"
      using lt inc by (simp add: word_le_nat_alt)
    ultimately show ?thesis using "1.IH" True by (subst (1 2 3 4) scan_bytes.simps) simp
  next
    case False
    then show ?thesis using "1.prems" by (subst (1 2 3 4) scan_bytes.simps) auto
  qed
qed

lemma scan_bits_spec:
  assumes "b \<noteq> 0xff" and "\<forall>j < k. bit b j" and "k \<le> 8"
  shows "scan_bits b k < 8 \<and> \<not> bit b (scan_bits b k) \<and> (\<forall>j < scan_bits b k. bit b j)"
  using assms
proof (induction b k rule: scan_bits.induct)
  case (1 b k)
  show ?case
  proof (cases "k < 8 \<and> bit b k")
    case True
    then have "\<forall>j < Suc k. bit b j" using "1.prems"(2) by (auto simp: less_Suc_eq)
    moreover have cond: "(ucast (push_bit k (1 :: u32)) :: u8) AND b \<noteq> 0"
      using True by (simp only: ucast_bit_small)
    ultimately have "scan_bits b (Suc k) < 8 \<and> \<not> bit b (scan_bits b (Suc k)) \<and>
        (\<forall>j < scan_bits b (Suc k). bit b j)"
      using "1.IH" [OF cond "1.prems"(1)] True by simp
    then show ?thesis using cond by (subst (1 2 3) scan_bits.simps) simp
  next
    case False
    have "k < 8"
    proof (rule ccontr)
      assume "\<not> k < 8"
      then have "\<forall>j < 8. bit b j" using "1.prems"(2,3) by simp
      then have "b = - 1" by (intro bit_word_eqI) simp
      with "1.prems"(1) show False by simp
    qed
    moreover have "\<not> (ucast (push_bit k (1 :: u32)) :: u8) AND b \<noteq> 0"
      using False by (simp only: ucast_bit_small) simp
    ultimately show ?thesis using "1.prems"(2) False
      by (subst (1 2 3) scan_bits.simps) simp
  qed
qed

text \<open>
  Before the loop looks at bit \<open>q\<close>, the last \<open>c\<close> bits are clear and every run of \<open>n\<close> clear
  bits starts at \<open>q - c\<close> or later; then the loop finds the first run that ends within its
  \<open>k\<close> remaining bits, and \<open>-1\<close> if there is none.
\<close>

definition first_run :: "mem \<Rightarrow> bitmap \<Rightarrow> nat \<Rightarrow> nat \<Rightarrow> nat \<Rightarrow> bool" where
  "first_run m bm n limit t \<longleftrightarrow> t + n \<le> limit \<and> run_clear m bm t n \<and> (\<forall>t'. run_clear m bm t' n \<longrightarrow> t \<le> t')"

lemma run_clearD: "run_clear m bm t n \<Longrightarrow> t \<le> i \<Longrightarrow> i < t + n \<Longrightarrow> \<not> bit_set m bm i"
  unfolding run_clear_def by (metis le_add_diff_inverse less_diff_conv2 add.commute nat_add_left_cancel_less)

lemma search_run_spec:
  assumes "q + k < 2 ^ 32" and "c < unat n" and "c \<le> q"
    and "\<forall>i. q - c \<le> i \<and> i < q \<longrightarrow> \<not> bit_set m bm i"
    and "\<forall>t. run_clear m bm t (unat n) \<longrightarrow> q - c \<le> t"
  shows "(\<exists>t. first_run m bm (unat n) (q + k) t \<and>
            search_run m bm n (of_nat q) (of_nat c) k = of_nat t) \<or>
         (\<forall>t. run_clear m bm t (unat n) \<longrightarrow> q + k < t + unat n) \<and>
            search_run m bm n (of_nat q) (of_nat c) k = - 1"
  using assms
proof (induction k arbitrary: q c)
  case 0
  then have "\<forall>t. run_clear m bm t (unat n) \<longrightarrow> q < t + unat n"
    by (metis add.commute le_diff_conv not_less order.strict_trans2 le_add_diff_inverse2 add_less_cancel_left)
  then show ?case by simp
next
  case (Suc k)
  have q: "q < 2 ^ 32" using Suc.prems(1) by simp
  show ?case
  proof (cases "bit_set m bm q")
    case True
    then have bit: "bitmap_get_bit m bm (of_nat q) \<noteq> 0" using get_bit_iff [OF q] by blast
    have "(0 :: u32) \<noteq> n" using Suc.prems(2) by auto
    with bit have eq: "search_run m bm n (of_nat q) (of_nat c) (Suc k) =
        search_run m bm n (of_nat (Suc q)) (of_nat 0) k"
      by (simp add: Let_def add.commute)
    have no_gap: "\<forall>i. Suc q - 0 \<le> i \<and> i < Suc q \<longrightarrow> \<not> bit_set m bm i" by auto
    have "\<forall>t. run_clear m bm t (unat n) \<longrightarrow> Suc q - 0 \<le> t"
    proof (intro allI impI)
      fix t
      assume run: "run_clear m bm t (unat n)"
      then have "q - c \<le> t" using Suc.prems(5) by blast
      then have "q < t + unat n" using Suc.prems(2,3) by linarith
      then have "\<not> t \<le> q" using run_clearD [OF run] True by blast
      then show "Suc q - 0 \<le> t" by simp
    qed
    then show ?thesis
      unfolding eq using Suc.IH [of "Suc q" 0, OF _ _ _ no_gap] Suc.prems(1,2) by simp
  next
    case False
    then have bit: "bitmap_get_bit m bm (of_nat q) = 0" using get_bit_iff [OF q] by blast
    have clear: "\<forall>i. q - c \<le> i \<and> i < Suc q \<longrightarrow> \<not> bit_set m bm i"
      using Suc.prems(4) False by (auto simp: less_Suc_eq)
    show ?thesis
    proof (cases "Suc c = unat n")
      case True
      then have n: "n = of_nat (Suc c)" by simp
      have "of_nat q - n + 1 = (of_nat (q - c) :: u32)"
        unfolding n using Suc.prems(3) by (simp add: of_nat_diff)
      then have "search_run m bm n (of_nat q) (of_nat c) (Suc k) = of_nat (q - c)"
        using bit n by (simp add: Let_def add.commute)
      moreover have "run_clear m bm (q - c) (unat n)"
        unfolding run_clear_def
      proof (intro allI impI)
        fix i
        assume "i < unat n"
        then have "q - c \<le> q - c + i \<and> q - c + i < Suc q" using True Suc.prems(3) by linarith
        then show "\<not> bit_set m bm (q - c + i)" using clear by blast
      qed
      then have "first_run m bm (unat n) (q + Suc k) (q - c)"
        unfolding first_run_def using True Suc.prems(3,5) by auto
      ultimately show ?thesis by blast
    next
      case False
      then have "(of_nat (Suc c) :: u32) \<noteq> n"
        using Suc.prems(1,2,3) unat_of_nat32 [of "Suc c"] by auto
      then have eq: "search_run m bm n (of_nat q) (of_nat c) (Suc k) =
          search_run m bm n (of_nat (Suc q)) (of_nat (Suc c)) k"
        using bit by (simp add: Let_def add.commute)
      show ?thesis
        unfolding eq using Suc.IH [of "Suc q" "Suc c"] Suc.prems False clear by simp
    qed
  qed
qed

section \<open>The request\<close>

lemma bit_0xff:
  assumes "k < 8"
  shows "bit (0xff :: u8) k"
proof -
  have eq: "(0xff :: u8) = - 1" by simp
  show ?thesis unfolding eq using assms by simp
qed

lemma full_bytes_bit_set:
  assumes "\<forall>j < k. m (bm_bits bm + of_nat j) = 0xff" and "i < 8 * k"
  shows "bit_set m bm i"
proof -
  have "i div 8 < k" using assms(2) by (simp add: less_mult_imp_div_less)
  then show ?thesis using assms(1) bit_0xff [of "i mod 8"] by (simp add: bit_set_def)
qed

text \<open>Where the first two loops stop: at the first clear bit, or at the end.\<close>

lemma request_start:
  fixes m :: mem
  assumes N: "bm_bits_count bm < 2 ^ 32"
  defines "idx \<equiv> scan_bytes m bm 0"
  defines "s \<equiv> 8 * unat idx + scan_bits (m (bm_bits bm + idx)) 0"
  shows "(\<forall>i < bm_bits_count bm. bit_set m bm i) \<and> idx = bm_length bm \<or>
    idx < bm_length bm \<and> s < bm_bits_count bm \<and> \<not> bit_set m bm s \<and> (\<forall>i < s. bit_set m bm i) \<and>
    idx * 8 + of_nat (scan_bits (m (bm_bits bm + idx)) 0) = of_nat s"
proof -
  have spec: "\<forall>j < unat idx. m (bm_bits bm + of_nat j) = 0xff" "idx \<le> bm_length bm"
    "idx < bm_length bm \<longrightarrow> m (bm_bits bm + idx) \<noteq> 0xff"
    using scan_bytes_spec [of 0 m bm] by (auto simp: idx_def)
  show ?thesis
  proof (cases "idx < bm_length bm")
    case False
    then have "idx = bm_length bm" using spec(2) by simp
    then show ?thesis using spec(1) full_bytes_bit_set by (simp add: bm_bits_count_def)
  next
    case True
    define k where "k = scan_bits (m (bm_bits bm + idx)) 0"
    have k: "k < 8" "\<not> bit (m (bm_bits bm + idx)) k" "\<forall>j < k. bit (m (bm_bits bm + idx)) j"
      using scan_bits_spec [of "m (bm_bits bm + idx)" 0] spec(3) True by (auto simp: k_def)
    have s: "s = 8 * unat idx + k" by (simp add: s_def k_def)
    have "unat idx < unat (bm_length bm)" using True by (simp add: word_less_nat_alt)
    then have "s < bm_bits_count bm" using k(1) s by (simp add: bm_bits_count_def)
    moreover have "\<not> bit_set m bm s" using k(1,2) s by (simp add: bit_set_def)
    moreover have "\<forall>i < s. bit_set m bm i"
    proof (intro allI impI)
      fix i
      assume i: "i < s"
      show "bit_set m bm i"
      proof (cases "i < 8 * unat idx")
        case True
        then show ?thesis using full_bytes_bit_set [of "unat idx" m bm] spec(1) by simp
      next
        case False
        then obtain r where r: "i = 8 * unat idx + r" using le_Suc_ex not_less by blast
        then have "r < k" using i s by simp
        then have "i div 8 = unat idx" "i mod 8 < k" using r k(1) by auto
        then show ?thesis using k(3) by (simp add: bit_set_def)
      qed
    qed
    moreover have "idx * 8 + of_nat k = of_nat s"
      by (simp add: s mult.commute)
    ultimately show ?thesis using True by (simp add: k_def)
  qed
qed

lemma request_full:
  assumes "bm_bits_count bm < 2 ^ 32" and "\<forall>i < bm_bits_count bm. bit_set m bm i"
  shows "bitmap_request_bits m bm n =
    Inl (Panic ''bitmap_request_bits'' ''idx_byte < bitmap->length'')"
  using request_start [OF assms(1), of m] assms(2) by (auto simp: bitmap_request_bits_def Let_def)

lemma request_one:
  assumes N: "bm_bits_count bm < 2 ^ 32" and free: "i < bm_bits_count bm" "\<not> bit_set m bm i"
  shows "\<exists>s. bitmap_request_bits m bm 1 = Inr (of_nat s) \<and> s < bm_bits_count bm \<and>
    \<not> bit_set m bm s \<and> (\<forall>j < s. bit_set m bm j)"
proof -
  define s where "s = 8 * unat (scan_bytes m bm 0) + scan_bits (m (bm_bits bm + scan_bytes m bm 0)) 0"
  from request_start [OF N, of m] free
  have idx: "scan_bytes m bm 0 < bm_length bm"
    and s: "s < bm_bits_count bm" "\<not> bit_set m bm s" "\<forall>j < s. bit_set m bm j"
    and start: "scan_bytes m bm 0 * 8 + of_nat (scan_bits (m (bm_bits bm + scan_bytes m bm 0)) 0) = of_nat s"
    by (auto simp: s_def)
  have "bitmap_request_bits m bm 1 = Inr (of_nat s)"
    using idx unfolding bitmap_request_bits_def Let_def start by auto
  with s show ?thesis by blast
qed

lemma request_many:
  assumes N: "bm_bits_count bm < 2 ^ 32 - 1" and free: "i < bm_bits_count bm" "\<not> bit_set m bm i"
    and n: "1 < unat n"
  shows "(\<exists>t. first_run m bm (unat n) (Suc (bm_bits_count bm)) t \<and>
            bitmap_request_bits m bm n = Inr (of_nat t)) \<or>
         (\<forall>t. run_clear m bm t (unat n) \<longrightarrow> Suc (bm_bits_count bm) < t + unat n) \<and>
            bitmap_request_bits m bm n = Inr (- 1)"
proof -
  let ?N = "bm_bits_count bm"
  define idx where "idx = scan_bytes m bm 0"
  define s where "s = 8 * unat idx + scan_bits (m (bm_bits bm + idx)) 0"
  have N32: "?N < 2 ^ 32" using N by simp
  from request_start [OF N32, of m] free
  have idx: "idx < bm_length bm" and s: "s < ?N" "\<not> bit_set m bm s" "\<forall>j < s. bit_set m bm j"
    and start: "idx * 8 + of_nat (scan_bits (m (bm_bits bm + idx)) 0) = of_nat s"
    by (auto simp: idx_def s_def)
  have len: "bm_length bm * 8 = of_nat ?N" by (simp add: bm_bits_count_def mult.commute)
  have left: "unat (bm_length bm * 8 - of_nat s) = ?N - s"
    unfolding len using s(1) N32 unat_of_nat32 [of "?N - s"] by (simp add: of_nat_diff)
  have "n \<noteq> 1" using n by auto
  with idx have eq: "bitmap_request_bits m bm n =
      Inr (search_run m bm n (of_nat (Suc s)) (of_nat 1) (?N - s))"
    unfolding bitmap_request_bits_def Let_def idx_def [symmetric] start left
    by (simp add: add.commute)
  have "\<forall>t. run_clear m bm t (unat n) \<longrightarrow> Suc s - 1 \<le> t"
  proof (intro allI impI)
    fix t
    assume "run_clear m bm t (unat n)"
    then have "\<not> bit_set m bm t" using n run_clearD [of m bm t "unat n" t] by simp
    then show "Suc s - 1 \<le> t" using s(3) by (metis diff_Suc_1 not_less)
  qed
  moreover have "\<forall>i. Suc s - 1 \<le> i \<and> i < Suc s \<longrightarrow> \<not> bit_set m bm i"
    using s(2) by (auto simp: le_less_Suc_eq)
  ultimately show ?thesis
    using search_run_spec [of "Suc s" "?N - s" 1 n m bm] s(1) N n unfolding eq by simp
qed

text \<open>What a caller gets: every outcome of a request on a bitmap that is not full.\<close>

lemma request_cases:
  assumes N: "bm_bits_count bm < 2 ^ 32 - 1" and n: "0 < unat n"
  obtains (full) "\<forall>i < bm_bits_count bm. bit_set m bm i"
      "bitmap_request_bits m bm n = Inl (Panic ''bitmap_request_bits'' ''idx_byte < bitmap->length'')"
  | (one) s where "n = 1" "bitmap_request_bits m bm n = Inr (of_nat s)"
      "first_run m bm 1 (bm_bits_count bm) s"
  | (found) t where "1 < unat n" "bitmap_request_bits m bm n = Inr (of_nat t)"
      "first_run m bm (unat n) (Suc (bm_bits_count bm)) t"
  | (none) "1 < unat n" "bitmap_request_bits m bm n = Inr (- 1)"
      "\<forall>t. run_clear m bm t (unat n) \<longrightarrow> Suc (bm_bits_count bm) < t + unat n"
proof -
  have N32: "bm_bits_count bm < 2 ^ 32" using N by simp
  show thesis
  proof (cases "\<forall>i < bm_bits_count bm. bit_set m bm i")
    case True
    then show ?thesis using full request_full [OF N32] by blast
  next
    case False
    then obtain i where i: "i < bm_bits_count bm" "\<not> bit_set m bm i" by blast
    show ?thesis
    proof (cases "unat n = 1")
      case True
      have n1: "n = 1" using True by (intro word_unat_eq_iff [THEN iffD2]) simp
      from request_one [OF N32 i] obtain s where s: "bitmap_request_bits m bm 1 = Inr (of_nat s)"
        "s < bm_bits_count bm" "\<not> bit_set m bm s" "\<forall>j < s. bit_set m bm j" by blast
      have "first_run m bm 1 (bm_bits_count bm) s"
        unfolding first_run_def run_clear_def using s(2-4) by (auto simp: not_less [symmetric])
      with s(1) n1 show ?thesis using one by simp
    next
      case False
      with n have "1 < unat n" by simp
      then show ?thesis using request_many [OF N i] found none by blast
    qed
  qed
qed

end
