(* ===== verification/Thread.thy ===== *)
theory Thread
  imports Paging Bitmap
begin

text \<open>
  \<open>src/kernel/thread.c\<close> and what the scheduler calls: the thread control blocks, the ready
  list, \<open>schedule\<close>, \<open>thread_block\<close>, \<open>thread_unblock\<close>, \<open>process_activate\<close> of \<open>process.c\<close>,
  \<open>update_tss_esp\<close> of \<open>tss.c\<close> and the context switch of \<open>switch.asm\<close>. Control blocks live at
  page addresses; the two list tags of a control block are list elements at fixed offsets in
  it. A context switch is a change of the stack pointer, and \<open>running_thread\<close> is the page of
  the stack pointer, as in the code.
\<close>

section \<open>Data\<close>

datatype task_status =
    TASK_RUNNING
  | TASK_READY
  | TASK_BLOCKED
  | TASK_WAITING
  | TASK_HANGING
  | TASK_DIED

record virtual_addr =
  addr_bitmap :: bitmap
  addr_start :: u32

record task_struct =
  self_kstack :: u32
  status :: task_status
  tname :: "u8 list"
  priority :: u8
  ticks :: u8
  pgdir :: u32
  userprog_vaddr :: virtual_addr
  stack_magic :: u32

text \<open>What \<open>switch_to\<close> finds on the stack of a thread that has not run yet.\<close>

record thread_stack =
  ts_ebp :: u32
  ts_ebx :: u32
  ts_edi :: u32
  ts_esi :: u32
  ts_eip :: u32
  ts_unused_retaddr :: u32
  ts_function :: u32
  ts_func_arg :: u32

text \<open>
  The addresses of the two global lists and of the function \<open>kernel_thread\<close> are fields,
  because the linker chooses them. \<open>tss_esp0\<close> is the field \<open>esp0\<close> of the task state segment;
  \<open>kstacks\<close> holds the \<open>thread_stack\<close> objects by address.
\<close>

record threads = paging +
  kernel_thread_addr :: u32
  kstacks :: "u32 \<Rightarrow> thread_stack"
  esp :: u32
  tasks :: "u32 \<Rightarrow> task_struct"
  thread_ready_list :: u32
  thread_all_list :: u32
  main_thread :: u32
  thread_tag :: u32
  tss_esp0 :: u32

text \<open>Offsets of the tags in \<open>struct task_struct\<close> on i386.\<close>

definition general_tag :: "u32 \<Rightarrow> u32" where
  "general_tag p = p + 28"

definition all_list_tag :: "u32 \<Rightarrow> u32" where
  "all_list_tag p = p + 36"

definition upd_task :: "u32 \<Rightarrow> (task_struct \<Rightarrow> task_struct) \<Rightarrow> 'a threads_scheme \<Rightarrow> 'a threads_scheme" where
  "upd_task p f s = s\<lparr>tasks := (tasks s)(p := f (tasks s p))\<rparr>"

section \<open>The code\<close>

definition running_thread :: "'a threads_scheme \<Rightarrow> u32" where
  "running_thread s = esp s AND 0xfffff000"

definition update_tss_esp :: "u32 \<Rightarrow> 'a threads_scheme \<Rightarrow> 'a threads_scheme" where
  "update_tss_esp pthread s = s\<lparr>tss_esp0 := pthread + 0x1000\<rparr>"

definition process_activate :: "u32 \<Rightarrow> 'a threads_scheme \<Rightarrow> 'a threads_scheme outcome" where
  "process_activate p_thread s =
     rbind (c_assert ''process_activate'' ''p_thread != NULL'' (p_thread \<noteq> NULL))
       (\<lambda>_. rbind (page_dir_activate (pgdir (tasks s p_thread)) s)
         (\<lambda>s'. Inr (if pgdir (tasks s' p_thread) \<noteq> NULL then update_tss_esp p_thread s' else s')))"

text \<open>
  The call pushes the return address and \<open>switch_to\<close> pushes four registers before it stores
  the stack pointer; on the other stack the same 20 bytes are popped.
\<close>

definition switch_to :: "u32 \<Rightarrow> u32 \<Rightarrow> 'a threads_scheme \<Rightarrow> 'a threads_scheme" where
  "switch_to cur next s =
     (let s1 = upd_task cur (\<lambda>t. t\<lparr>self_kstack := esp s - 20\<rparr>) s
      in s1\<lparr>esp := self_kstack (tasks s1 next) + 20\<rparr>)"

definition assert_not_in :: "string \<Rightarrow> string \<Rightarrow> u32 \<Rightarrow> u32 \<Rightarrow> 'a links_scheme \<Rightarrow> unit outcome" where
  "assert_not_in fn txt l e s =
     rbind (terminates ''elem_find'' (elem_find s l e)) (\<lambda>found. c_assert fn txt (\<not> found))"

text \<open>The part of \<open>schedule\<close> before the ready list is read.\<close>

definition schedule_requeue :: "'a threads_scheme \<Rightarrow> 'a threads_scheme outcome" where
  "schedule_requeue s =
     (let cur = running_thread s
      in if status (tasks s cur) = TASK_RUNNING
         then rbind (assert_not_in ''schedule'' ''!elem_find(&thread_ready_list, &cur->general_tag)''
                       (thread_ready_list s) (general_tag cur) s)
           (\<lambda>_. Inr (upd_task cur (\<lambda>t. t\<lparr>ticks := priority t, status := TASK_READY\<rparr>)
                      (list_append (thread_ready_list s) (general_tag cur) s)))
         else Inr s)"

definition schedule_pick :: "'a threads_scheme \<Rightarrow> 'a threads_scheme outcome" where
  "schedule_pick s =
     (let cur = running_thread s
      in rbind (c_assert ''schedule'' ''!list_empty(&thread_ready_list)''
                  (\<not> list_empty s (thread_ready_list s)))
        (\<lambda>_. let (tag, s1) = list_pop (thread_ready_list s) (s\<lparr>thread_tag := NULL\<rparr>);
                 s2 = s1\<lparr>thread_tag := tag\<rparr>;
                 next = elem2entry 28 (thread_tag s2);
                 s3 = upd_task next (\<lambda>t. t\<lparr>status := TASK_RUNNING\<rparr>) s2
             in rbind (process_activate next s3) (\<lambda>s4. Inr (switch_to cur next s4))))"

definition schedule :: "'a threads_scheme \<Rightarrow> 'a threads_scheme outcome" where
  "schedule s = rbind (schedule_requeue s) schedule_pick"

text \<open>
  \<open>thread_block\<close> up to the switch: the old interrupt status stays on the stack of the blocked
  thread, and \<open>thread_block_resume\<close> is what that thread executes when it runs again.
\<close>

definition blockable :: "task_status \<Rightarrow> bool" where
  "blockable st \<longleftrightarrow> st = TASK_BLOCKED \<or> st = TASK_WAITING \<or> st = TASK_HANGING"

definition thread_block :: "task_status \<Rightarrow> 'a threads_scheme \<Rightarrow> (intr_status \<times> 'a threads_scheme) outcome" where
  "thread_block st s =
     rbind (c_assert ''thread_block'' ''status is BLOCKED, WAITING or HANGING'' (blockable st))
       (\<lambda>_. let (old_status, s1) = intr_disable s;
                s2 = upd_task (running_thread s1) (\<lambda>t. t\<lparr>status := st\<rparr>) s1
            in rbind (schedule s2) (\<lambda>s3. Inr (old_status, s3)))"

definition thread_block_resume :: "intr_status \<Rightarrow> 'a threads_scheme \<Rightarrow> 'a threads_scheme" where
  "thread_block_resume old_status s = snd (intr_set_status old_status s)"

definition thread_unblock :: "u32 \<Rightarrow> 'a threads_scheme \<Rightarrow> 'a threads_scheme outcome" where
  "thread_unblock pthread s =
     (let (old_status, s1) = intr_disable s
      in rbind (c_assert ''thread_unblock'' ''status is BLOCKED, WAITING or HANGING''
                  (blockable (status (tasks s1 pthread))))
        (\<lambda>_. rbind (assert_not_in ''thread_unblock'' ''thread is not blocked, but in ready_list''
                      (thread_ready_list s1) (general_tag pthread) s1)
          (\<lambda>_. let s2 = list_push (thread_ready_list s1) (general_tag pthread) s1;
                   s3 = upd_task pthread (\<lambda>t. t\<lparr>status := TASK_READY\<rparr>) s2
               in Inr (snd (intr_set_status old_status s3)))))"

text \<open>
  Creation of a thread. \<open>memset\<close> clears the control block, the two tags included. A name
  that does not fit its 16 bytes overwrites what follows the field, which C leaves undefined.
\<close>

definition zero_task :: task_struct where
  "zero_task = \<lparr>self_kstack = 0, status = TASK_RUNNING, tname = replicate 16 0, priority = 0,
     ticks = 0, pgdir = 0,
     userprog_vaddr = \<lparr>addr_bitmap = \<lparr>bm_length = 0, bm_bits = 0\<rparr>, addr_start = 0\<rparr>,
     stack_magic = 0\<rparr>"

definition memset_task :: "u32 \<Rightarrow> 'a threads_scheme \<Rightarrow> 'a threads_scheme" where
  "memset_task p s =
     upd_task p (\<lambda>_. zero_task)
       (set_prev (general_tag p) 0 (set_next (general_tag p) 0
         (set_prev (all_list_tag p) 0 (set_next (all_list_tag p) 0 s))))"

definition init_thread :: "u32 \<Rightarrow> u8 list \<Rightarrow> u32 \<Rightarrow> 'a threads_scheme \<Rightarrow> 'a threads_scheme outcome" where
  "init_thread pthread name prio s =
     (let s1 = memset_task pthread s
      in if length name < 16
         then Inr (upd_task pthread (\<lambda>t. t\<lparr>
                tname := name @ replicate (16 - length name) 0,
                status := (if pthread = main_thread s1 then TASK_RUNNING else TASK_READY),
                self_kstack := pthread + PG_SIZE,
                priority := ucast prio, ticks := ucast prio,
                pgdir := NULL, stack_magic := 0x19870916\<rparr>) s1)
         else Inl (Undefined ''init_thread''))"

text \<open>
  \<open>self_kstack\<close> is a pointer to 4-byte words, so subtracting \<open>sizeof\<close> moves it by four times
  the size: \<open>sizeof(struct intr_stack)\<close> is 76 and \<open>sizeof(struct thread_stack)\<close> is 32.
\<close>

definition thread_create :: "u32 \<Rightarrow> u32 \<Rightarrow> u32 \<Rightarrow> 'a threads_scheme \<Rightarrow> 'a threads_scheme" where
  "thread_create pthread function func_arg s =
     (let s1 = upd_task pthread (\<lambda>t. t\<lparr>self_kstack := self_kstack t - 4 * 76\<rparr>) s;
          s2 = upd_task pthread (\<lambda>t. t\<lparr>self_kstack := self_kstack t - 4 * 32\<rparr>) s1;
          a = self_kstack (tasks s2 pthread)
      in s2\<lparr>kstacks := (kstacks s2)(a := (kstacks s2 a)\<lparr>ts_ebp := 0, ts_ebx := 0, ts_esi := 0,
            ts_edi := 0, ts_eip := kernel_thread_addr s2, ts_function := function,
            ts_func_arg := func_arg\<rparr>)\<rparr>)"

definition make_main_thread :: "'a threads_scheme \<Rightarrow> 'a threads_scheme outcome" where
  "make_main_thread s =
     (let s1 = s\<lparr>main_thread := running_thread s\<rparr>
      in rbind (init_thread (main_thread s1) [0x6d, 0x61, 0x69, 0x6e] 31 s1)
        (\<lambda>s2. rbind (assert_not_in ''make_main_thread''
                        ''!elem_find(&thread_all_list, &main_thread->all_list_tag)''
                        (thread_all_list s2) (all_list_tag (main_thread s2)) s2)
          (\<lambda>_. Inr (list_append (thread_all_list s2) (all_list_tag (main_thread s2)) s2))))"

definition thread_init :: "'a threads_scheme \<Rightarrow> 'a threads_scheme outcome" where
  "thread_init s =
     rbind (make_main_thread (list_init (thread_all_list s) (list_init (thread_ready_list s) s)))
       (\<lambda>s'. Inr (kprintf ''thread_init is done.\<newline>'' [] s'))"

text \<open>The clock interrupt of \<open>src/kernel/timer.c\<close>.\<close>

definition clock_interrupt_handler :: "'a threads_scheme \<Rightarrow> 'a threads_scheme outcome" where
  "clock_interrupt_handler s =
     (let cur_thread = running_thread s
      in rbind (c_assert ''clock_interrupt_handler'' ''cur_thread->stack_magic == 0x19870916''
                  (stack_magic (tasks s cur_thread) = 0x19870916))
        (\<lambda>_. if ticks (tasks s cur_thread) = 0 then schedule s
             else Inr (upd_task cur_thread (\<lambda>t. t\<lparr>ticks := ticks t - 1\<rparr>) s)))"

section \<open>What the operations leave alone\<close>

text \<open>List operations change links only.\<close>

lemma list_append_fields [simp]:
  "eflags (list_append l e s) = eflags s" "phys (list_append l e s) = phys s"
  "cr3 (list_append l e s) = cr3 s" "esp (list_append l e s) = esp s"
  "tasks (list_append l e s) = tasks s" "thread_ready_list (list_append l e s) = thread_ready_list s"
  "thread_all_list (list_append l e s) = thread_all_list s"
  "tss_esp0 (list_append l e s) = tss_esp0 s" "kmsg (list_append l e s) = kmsg s"
  "main_thread (list_append l e s) = main_thread s" "kstacks (list_append l e s) = kstacks s"
  by (simp_all add: list_append_def list_insert_before_eq)

lemma list_push_fields [simp]:
  "eflags (list_push l e s) = eflags s" "phys (list_push l e s) = phys s"
  "cr3 (list_push l e s) = cr3 s" "esp (list_push l e s) = esp s"
  "tasks (list_push l e s) = tasks s" "thread_ready_list (list_push l e s) = thread_ready_list s"
  "thread_all_list (list_push l e s) = thread_all_list s"
  "tss_esp0 (list_push l e s) = tss_esp0 s" "kmsg (list_push l e s) = kmsg s"
  "main_thread (list_push l e s) = main_thread s" "kstacks (list_push l e s) = kstacks s"
  by (simp_all add: list_push_def list_insert_before_eq)

lemma list_pop_fields [simp]:
  "eflags (snd (list_pop l s)) = eflags s" "phys (snd (list_pop l s)) = phys s"
  "cr3 (snd (list_pop l s)) = cr3 s" "esp (snd (list_pop l s)) = esp s"
  "tasks (snd (list_pop l s)) = tasks s"
  "thread_ready_list (snd (list_pop l s)) = thread_ready_list s"
  "thread_all_list (snd (list_pop l s)) = thread_all_list s"
  "tss_esp0 (snd (list_pop l s)) = tss_esp0 s" "kmsg (snd (list_pop l s)) = kmsg s"
  "main_thread (snd (list_pop l s)) = main_thread s" "kstacks (snd (list_pop l s)) = kstacks s"
  by (simp_all add: list_pop_def Let_def list_remove_eq)

lemma upd_task_fields [simp]:
  "eflags (upd_task p f s) = eflags s" "phys (upd_task p f s) = phys s"
  "cr3 (upd_task p f s) = cr3 s" "esp (upd_task p f s) = esp s"
  "tasks (upd_task p f s) = (tasks s)(p := f (tasks s p))"
  "thread_ready_list (upd_task p f s) = thread_ready_list s"
  "thread_all_list (upd_task p f s) = thread_all_list s"
  "lnext (upd_task p f s) = lnext s" "lprev (upd_task p f s) = lprev s"
  "tss_esp0 (upd_task p f s) = tss_esp0 s" "kmsg (upd_task p f s) = kmsg s"
  "main_thread (upd_task p f s) = main_thread s" "kstacks (upd_task p f s) = kstacks s"
  by (simp_all add: upd_task_def)

text \<open>A list is where it is as long as the links are the same.\<close>

lemma is_list_cong:
  "lnext s' = lnext s \<Longrightarrow> lprev s' = lprev s \<Longrightarrow> is_list s' l xs \<longleftrightarrow> is_list s l xs"
  using is_list_same_links [of s l xs s'] is_list_same_links [of s' l xs s]
  by (auto simp: same_links_def)

lemma is_list_upd_task [simp]: "is_list (upd_task p f s) l xs \<longleftrightarrow> is_list s l xs"
  by (rule is_list_cong) simp_all

lemma vaddr_to_paddr_cong:
  "phys s' = phys s \<Longrightarrow> cr3 s' = cr3 s \<Longrightarrow> vaddr_to_paddr s' v = vaddr_to_paddr s v"
  by (simp add: vaddr_to_paddr_def vload32_def translate_def)

lemma page_dir_activate_fields:
  "page_dir_activate pd s = Inr s' \<Longrightarrow>
   phys s' = phys s \<and> esp s' = esp s \<and> tasks s' = tasks s \<and> eflags s' = eflags s \<and>
   lnext s' = lnext s \<and> lprev s' = lprev s \<and> thread_ready_list s' = thread_ready_list s \<and>
   thread_all_list s' = thread_all_list s"
  by (auto simp: page_dir_activate_def kprintf_def set_cr3_def)

lemma process_activate_ok:
  assumes "p \<noteq> NULL" and "pgdir (tasks s p) \<noteq> NULL \<Longrightarrow> vaddr_to_paddr s (pgdir (tasks s p)) = Inr cr"
    and "pgdir (tasks s p) = NULL \<Longrightarrow> cr = 0x100000"
  obtains s' where "process_activate p s = Inr s'" "cr3 s' = cr" "phys s' = phys s" "esp s' = esp s"
    "tasks s' = tasks s" "eflags s' = eflags s" "lnext s' = lnext s" "lprev s' = lprev s"
    "thread_ready_list s' = thread_ready_list s" "thread_all_list s' = thread_all_list s"
    "tss_esp0 s' = (if pgdir (tasks s p) \<noteq> NULL then p + 0x1000 else tss_esp0 s)"
proof -
  define s1 where "s1 = kprintf ''-----change cr3 finished!-----\<newline>'' [] (set_cr3 cr
    (kprintf ''-----change cr3 beginning!-----\<newline>'' []
      (kprintf ''pagedir_phy_addr: %x\<newline>'' [cr] s)))"
  have s1: "cr3 s1 = cr" "phys s1 = phys s" "esp s1 = esp s" "tasks s1 = tasks s"
    "eflags s1 = eflags s" "lnext s1 = lnext s" "lprev s1 = lprev s"
    "thread_ready_list s1 = thread_ready_list s" "thread_all_list s1 = thread_all_list s"
    "tss_esp0 s1 = tss_esp0 s"
    by (simp_all add: s1_def kprintf_def set_cr3_def)
  have "page_dir_activate (pgdir (tasks s p)) s = Inr s1"
    using assms(2,3) by (cases "pgdir (tasks s p) = NULL") (simp_all add: page_dir_activate_def s1_def)
  then have act: "process_activate p s =
      Inr (if pgdir (tasks s p) \<noteq> NULL then update_tss_esp p s1 else s1)"
    using assms(1) s1(4) by (simp add: process_activate_def)
  show thesis
    by (rule that [OF act]) (simp_all add: s1 update_tss_esp_def)
qed

end
