(* ===== verification/Sched.thy ===== *)
theory Sched
  imports Thread
begin

text \<open>
  What the scheduler guarantees: \<open>schedule\<close> switches to the first thread of the ready list and
  puts the thread it takes off the processor at its end, so it is a rotation of the sequence
  of runnable threads; \<open>thread_block\<close> leaves the thread out of it and \<open>thread_unblock\<close> puts one
  in front. Everything is proved about the pointer code, through the queue contract.
\<close>

section \<open>Choosing the next thread\<close>

lemma elem2entry_general_tag [simp]: "elem2entry 28 (general_tag p) = p"
  by (simp add: elem2entry_def general_tag_def)

lemma general_tag_eq [simp]: "general_tag p = general_tag q \<longleftrightarrow> p = q"
  by (simp add: general_tag_def)

lemma general_tag_in_map [simp]: "general_tag p \<in> general_tag ` A \<longleftrightarrow> p \<in> A"
  by auto

text \<open>Lists in memory that \<open>A\<close> does not touch are kept.\<close>

definition keeps_lists :: "u32 set \<Rightarrow> 'a links_scheme \<Rightarrow> 'a links_scheme \<Rightarrow> bool" where
  "keeps_lists A s s' \<longleftrightarrow>
     (\<forall>l xs. is_list s l xs \<and> list_nodes l xs \<inter> A = {} \<longrightarrow> is_list s' l xs)"

lemma keeps_listsD: "keeps_lists A s s' \<Longrightarrow> is_list s l xs \<Longrightarrow> list_nodes l xs \<inter> A = {} \<Longrightarrow> is_list s' l xs"
  by (simp add: keeps_lists_def)

lemma keeps_lists_trans: "keeps_lists A s s' \<Longrightarrow> keeps_lists A s' s'' \<Longrightarrow> keeps_lists A s s''"
  by (simp add: keeps_lists_def)

lemma keeps_lists_same: "lnext s' = lnext s \<Longrightarrow> lprev s' = lprev s \<Longrightarrow> keeps_lists A s s'"
  using is_list_cong by (auto simp: keeps_lists_def)

text \<open>The translation \<open>schedule\<close> needs to activate the address space of thread \<open>t\<close>.\<close>

definition space_of :: "'a threads_scheme \<Rightarrow> u32 \<Rightarrow> u32 \<Rightarrow> bool" where
  "space_of s t cr \<longleftrightarrow>
     (if pgdir (tasks s t) = NULL then cr = 0x100000
      else vaddr_to_paddr s (pgdir (tasks s t)) = Inr cr)"

lemma schedule_pick_ok:
  assumes ready: "is_list s (thread_ready_list s) (map general_tag (n # ns))"
    and n: "n \<noteq> NULL" and cr: "space_of s n cr"
  obtains s' where "schedule_pick s = Inr s'"
    and "is_list s' (thread_ready_list s) (map general_tag ns)"
    and "keeps_lists (list_nodes (thread_ready_list s) (map general_tag (n # ns))) s s'"
    and "esp s' = (if n = running_thread s then esp s else self_kstack (tasks s n) + 20)"
    and "tasks s' = (let f = (tasks s)(n := (tasks s n)\<lparr>status := TASK_RUNNING\<rparr>); c = running_thread s
           in f(c := (f c)\<lparr>self_kstack := esp s - 20\<rparr>))"
    and "cr3 s' = cr" "phys s' = phys s" "eflags s' = eflags s"
    and "thread_ready_list s' = thread_ready_list s" "thread_all_list s' = thread_all_list s"
    and "tss_esp0 s' = (if pgdir (tasks s n) \<noteq> NULL then n + 0x1000 else tss_esp0 s)"
proof -
  let ?l = "thread_ready_list s"
  let ?s0 = "s\<lparr>thread_tag := NULL\<rparr>"
  have ready0: "is_list ?s0 ?l (general_tag n # map general_tag ns)"
    using ready is_list_cong [of ?s0 s] by simp
  define s1 where "s1 = snd (list_pop ?l ?s0)"
  have pop: "list_pop ?l ?s0 = (general_tag n, s1)"
    using lq.deq_elem [OF ready0] by (simp add: s1_def prod_eq_iff)
  have list1: "is_list s1 ?l (map general_tag ns)"
    unfolding s1_def using ready0 by (rule lq.rep_deq)
  have keep1: "keeps_lists (list_nodes ?l (map general_tag (n # ns))) s s1"
    unfolding keeps_lists_def s1_def
    using lq.deq_other [OF ready0] is_list_cong [of ?s0 s] by auto
  define s3 where "s3 = upd_task n (\<lambda>t. t\<lparr>status := TASK_RUNNING\<rparr>) (s1\<lparr>thread_tag := general_tag n\<rparr>)"
  have f1: "eflags s1 = eflags s" "phys s1 = phys s" "cr3 s1 = cr3 s" "esp s1 = esp s"
    "tasks s1 = tasks s" "thread_ready_list s1 = ?l" "thread_all_list s1 = thread_all_list s"
    "tss_esp0 s1 = tss_esp0 s"
    by (simp_all add: s1_def)
  have f3: "pgdir (tasks s3 n) = pgdir (tasks s n)" "vaddr_to_paddr s3 v = vaddr_to_paddr s v" for v
    by (simp_all add: s3_def f1) (rule vaddr_to_paddr_cong; simp add: f1)
  obtain s4 where act: "process_activate n s3 = Inr s4" "cr3 s4 = cr" "phys s4 = phys s3" "esp s4 = esp s3"
    "tasks s4 = tasks s3" "eflags s4 = eflags s3" "lnext s4 = lnext s3" "lprev s4 = lprev s3"
    "thread_ready_list s4 = thread_ready_list s3" "thread_all_list s4 = thread_all_list s3"
    "tss_esp0 s4 = (if pgdir (tasks s3 n) \<noteq> NULL then n + 0x1000 else tss_esp0 s3)"
    by (rule process_activate_ok [of n s3 cr]) (use n cr f3 in \<open>auto simp: space_of_def split: if_splits\<close>)
  define s' where "s' = switch_to (running_thread s) n s4"
  have links: "lnext s' = lnext s1" "lprev s' = lprev s1"
    by (simp_all add: s'_def switch_to_def Let_def act s3_def)
  have pick: "schedule_pick s = Inr s'"
    using pop act(1) list_empty_iff [OF ready]
    by (simp add: schedule_pick_def Let_def s3_def s'_def)
  show thesis
  proof (rule that [OF pick])
    show "is_list s' ?l (map general_tag ns)" using list1 is_list_cong [OF links] by simp
    show "keeps_lists (list_nodes ?l (map general_tag (n # ns))) s s'"
      using keeps_lists_trans [OF keep1 keeps_lists_same [OF links]] .
    show "esp s' = (if n = running_thread s then esp s else self_kstack (tasks s n) + 20)"
      by (simp add: s'_def switch_to_def Let_def act s3_def f1)
    show "tasks s' = (let f = (tasks s)(n := (tasks s n)\<lparr>status := TASK_RUNNING\<rparr>); c = running_thread s
        in f(c := (f c)\<lparr>self_kstack := esp s - 20\<rparr>))"
      by (simp add: s'_def switch_to_def Let_def act s3_def f1)
  qed (simp_all add: s'_def switch_to_def Let_def act f3 s3_def f1)
qed

lemma schedule_pick_empty:
  "is_list s (thread_ready_list s) [] \<Longrightarrow>
   schedule_pick s = Inl (Panic ''schedule'' ''!list_empty(&thread_ready_list)'')"
  by (simp add: schedule_pick_def Let_def list_empty_iff)

section \<open>The invariant\<close>

text \<open>
  \<open>spc t\<close> is the physical address of the page directory of thread \<open>t\<close>. Directories of
  processes are kernel pages, which every address space maps alike, so a page directory has
  the same translation whichever of the address spaces is active.
\<close>

definition spaces_agree :: "u32 set \<Rightarrow> (u32 \<Rightarrow> u32) \<Rightarrow> mem \<Rightarrow> (u32 \<Rightarrow> task_struct) \<Rightarrow> bool" where
  "spaces_agree T spc m tk \<longleftrightarrow>
     (\<forall>t \<in> T. if pgdir (tk t) = NULL then spc t = 0x100000
        else \<forall>u \<in> T. vaddr_to_paddr
          \<lparr>eflags = 0, kmsg = [], lprev = (\<lambda>_. 0), lnext = (\<lambda>_. 0), phys = m, cr3 = spc u\<rparr>
          (pgdir (tk t)) = Inr (spc t))"

text \<open>
  \<open>sched_inv T spc s cur rs\<close>: of the threads \<open>T\<close>, \<open>cur\<close> has the processor and \<open>rs\<close> is the
  ready list. The ready list in memory is the tags of \<open>rs\<close>, the status fields say who runs and
  who is ready, and the saved stack pointer of a thread that is off the processor is in its
  own page, which is how \<open>running_thread\<close> recognises it after the switch.
\<close>

definition sched_inv ::
  "u32 set \<Rightarrow> (u32 \<Rightarrow> u32) \<Rightarrow> 'a threads_scheme \<Rightarrow> u32 \<Rightarrow> u32 list \<Rightarrow> bool" where
  "sched_inv T spc s cur rs \<longleftrightarrow>
     running_thread s = cur \<and> insert cur (set rs) \<subseteq> T \<and> cur \<notin> set rs \<and>
     is_list s (thread_ready_list s) (map general_tag rs) \<and>
     (\<forall>t \<in> T. t \<noteq> NULL \<and> general_tag t \<notin> {head_of (thread_ready_list s), tail_of (thread_ready_list s)} \<and>
        stack_magic (tasks s t) = 0x19870916 \<and>
        (status (tasks s t) = TASK_RUNNING \<longleftrightarrow> t = cur) \<and>
        (status (tasks s t) = TASK_READY \<longleftrightarrow> t \<in> set rs) \<and>
        (t \<noteq> cur \<longrightarrow> page_frame (self_kstack (tasks s t) + 20) = t)) \<and>
     cr3 s = spc cur \<and> spaces_agree T spc (phys s) (tasks s)"

lemma spaces_agreeD:
  assumes "spaces_agree T spc (phys s) (tasks s)" and "cr3 s = spc u" and "u \<in> T" and "t \<in> T"
  shows "space_of s t (spc t)"
proof -
  have "vaddr_to_paddr s v = vaddr_to_paddr
      \<lparr>eflags = 0, kmsg = [], lprev = (\<lambda>_. 0), lnext = (\<lambda>_. 0), phys = phys s, cr3 = spc u\<rparr> v" for v
    by (simp add: vaddr_to_paddr_def vload32_def translate_def assms(2))
  then show ?thesis using assms(1,3,4) by (auto simp: spaces_agree_def space_of_def split: if_splits)
qed

lemma spaces_agree_cong:
  "(\<And>t. pgdir (tk' t) = pgdir (tk t)) \<Longrightarrow> spaces_agree T spc m tk' \<longleftrightarrow> spaces_agree T spc m tk"
  by (simp add: spaces_agree_def)

text \<open>The part of the invariant that a switch needs, with the current thread in any status.\<close>

definition can_pick ::
  "u32 set \<Rightarrow> (u32 \<Rightarrow> u32) \<Rightarrow> 'a threads_scheme \<Rightarrow> u32 \<Rightarrow> u32 list \<Rightarrow> bool" where
  "can_pick T spc s cur rs \<longleftrightarrow>
     running_thread s = cur \<and> insert cur (set rs) \<subseteq> T \<and>
     is_list s (thread_ready_list s) (map general_tag rs) \<and>
     (\<forall>t \<in> T. t \<noteq> NULL \<and> general_tag t \<notin> {head_of (thread_ready_list s), tail_of (thread_ready_list s)} \<and>
        stack_magic (tasks s t) = 0x19870916 \<and>
        status (tasks s t) \<noteq> TASK_RUNNING \<and>
        (status (tasks s t) = TASK_READY \<longleftrightarrow> t \<in> set rs) \<and>
        (t \<noteq> cur \<longrightarrow> page_frame (self_kstack (tasks s t) + 20) = t)) \<and>
     cr3 s = spc cur \<and> spaces_agree T spc (phys s) (tasks s)"

lemma map_general_tag_distinct: "is_list s l (map general_tag xs) \<Longrightarrow> distinct xs"
  using is_list_distinct by (force simp: distinct_map)

lemma schedule_pick_inv:
  assumes inv: "can_pick T spc s cur (n # ns)"
  obtains s' where "schedule_pick s = Inr s'" and "sched_inv T spc s' n ns"
    and "keeps_lists (list_nodes (thread_ready_list s) (map general_tag (n # ns))) s s'"
    and "\<And>t. priority (tasks s' t) = priority (tasks s t)" "\<And>t. ticks (tasks s' t) = ticks (tasks s t)"
    and "\<And>t. t \<noteq> n \<Longrightarrow> status (tasks s' t) = status (tasks s t)"
    and "phys s' = phys s" "eflags s' = eflags s" "thread_ready_list s' = thread_ready_list s"
    and "thread_all_list s' = thread_all_list s" "cr3 s' = spc n"
    and "tss_esp0 s' = (if pgdir (tasks s n) \<noteq> NULL then n + 0x1000 else tss_esp0 s)"
    and "\<And>t. pgdir (tasks s' t) = pgdir (tasks s t)" "\<And>t. userprog_vaddr (tasks s' t) = userprog_vaddr (tasks s t)"
proof -
  let ?l = "thread_ready_list s"
  from inv have ready: "is_list s ?l (map general_tag (n # ns))"
    and n: "n \<in> T" "n \<noteq> NULL" and cur: "cur \<in> T" "running_thread s = cur" "cr3 s = spc cur"
    and agree: "spaces_agree T spc (phys s) (tasks s)"
    unfolding can_pick_def by auto
  have space: "space_of s n (spc n)" using spaces_agreeD agree cur(3,1) n(1) .
  obtain s' where s': "schedule_pick s = Inr s'" "is_list s' ?l (map general_tag ns)"
    "keeps_lists (list_nodes ?l (map general_tag (n # ns))) s s'"
    "esp s' = (if n = cur then esp s else self_kstack (tasks s n) + 20)"
    "tasks s' = (let f = (tasks s)(n := (tasks s n)\<lparr>status := TASK_RUNNING\<rparr>)
           in f(cur := (f cur)\<lparr>self_kstack := esp s - 20\<rparr>))"
    "cr3 s' = spc n" "phys s' = phys s" "eflags s' = eflags s"
    "thread_ready_list s' = ?l" "thread_all_list s' = thread_all_list s"
    "tss_esp0 s' = (if pgdir (tasks s n) \<noteq> NULL then n + 0x1000 else tss_esp0 s)"
    by (rule schedule_pick_ok [OF ready n(2) space, unfolded cur Let_def]) (simp add: Let_def)
  have t: "pgdir (tasks s' t) = pgdir (tasks s t)" "priority (tasks s' t) = priority (tasks s t)"
    "ticks (tasks s' t) = ticks (tasks s t)" "stack_magic (tasks s' t) = stack_magic (tasks s t)"
    "status (tasks s' t) = (if t = n then TASK_RUNNING else status (tasks s t))"
    "self_kstack (tasks s' t) = (if t = cur then esp s - 20 else self_kstack (tasks s t))"
    "userprog_vaddr (tasks s' t) = userprog_vaddr (tasks s t)" for t
    by (simp_all add: s'(5) Let_def)
  have "running_thread s' = n"
    using inv n by (simp add: running_thread_def s'(4) can_pick_def page_frame_def)
  moreover have "n \<notin> set ns" using map_general_tag_distinct [OF ready] by simp
  moreover have "page_frame (self_kstack (tasks s' t) + 20) = t" if "t \<in> T" "t \<noteq> n" for t
    using inv that cur(2) by (auto simp: t can_pick_def page_frame_def running_thread_def)
  moreover have "spaces_agree T spc (phys s') (tasks s')"
    using agree spaces_agree_cong [of "tasks s'" "tasks s"] by (simp add: t s'(7))
  ultimately have "sched_inv T spc s' n ns"
    using inv s'(2,6) unfolding sched_inv_def can_pick_def t s'(9) by auto
  from that [OF s'(1) this s'(3)] show thesis using t s' by auto
qed

section \<open>The three transitions of the scheduler\<close>

lemma sched_inv_fresh:
  assumes "sched_inv T spc s cur rs" and "t \<in> T" and "t \<notin> set rs"
  shows "general_tag t \<notin> list_nodes (thread_ready_list s) (map general_tag rs)"
  using assms by (auto simp: sched_inv_def list_nodes_def)

lemma sched_inv_list: "sched_inv T spc s cur rs \<Longrightarrow> is_list s (thread_ready_list s) (map general_tag rs)"
  by (simp add: sched_inv_def)

lemma sched_inv_current:
  "sched_inv T spc s cur rs \<Longrightarrow> running_thread s = cur \<and> status (tasks s cur) = TASK_RUNNING \<and>
     cur \<in> T \<and> stack_magic (tasks s cur) = 0x19870916"
  by (auto simp: sched_inv_def)

text \<open>What a transition keeps: everything but the links of the ready list and the scheduling fields.\<close>

definition sched_frame :: "u32 set \<Rightarrow> 'a threads_scheme \<Rightarrow> 'a threads_scheme \<Rightarrow> bool" where
  "sched_frame A s s' \<longleftrightarrow>
     keeps_lists A s s' \<and> phys s' = phys s \<and> thread_ready_list s' = thread_ready_list s \<and>
     thread_all_list s' = thread_all_list s \<and>
     (\<forall>t. priority (tasks s' t) = priority (tasks s t) \<and> pgdir (tasks s' t) = pgdir (tasks s t) \<and>
        userprog_vaddr (tasks s' t) = userprog_vaddr (tasks s t))"

lemma schedule_inv:
  assumes inv: "sched_inv T spc s cur rs"
  obtains s' where "schedule s = Inr s'"
    and "sched_inv T spc s' (hd (rs @ [cur])) (tl (rs @ [cur]))"
    and "sched_frame (list_nodes (thread_ready_list s) (map general_tag (rs @ [cur]))) s s'"
    and "eflags s' = eflags s"
    and "\<And>t. ticks (tasks s' t) = (if t = cur then priority (tasks s t) else ticks (tasks s t))"
    and "cr3 s' = spc (hd (rs @ [cur]))"
    and "tss_esp0 s' = (let n = hd (rs @ [cur]) in if pgdir (tasks s n) \<noteq> NULL then n + 0x1000 else tss_esp0 s)"
    and "\<And>t. t \<notin> insert cur (set rs) \<Longrightarrow> status (tasks s' t) = status (tasks s t)"
proof -
  let ?l = "thread_ready_list s" and ?A = "list_nodes (thread_ready_list s) (map general_tag (rs @ [cur]))"
  let ?n = "hd (rs @ [cur])" and ?ns = "tl (rs @ [cur])"
  from inv have cur: "running_thread s = cur" "status (tasks s cur) = TASK_RUNNING" "cur \<in> T" "cur \<notin> set rs"
    by (auto simp: sched_inv_def)
  note ready = sched_inv_list [OF inv] and fresh = sched_inv_fresh [OF inv cur(3,4)]
  define s1 where "s1 = upd_task cur (\<lambda>t. t\<lparr>ticks := priority t, status := TASK_READY\<rparr>)
    (list_append ?l (general_tag cur) s)"
  have requeue: "schedule_requeue s = Inr s1"
    using lq.mem_iff [OF ready] cur
    by (simp add: schedule_requeue_def assert_not_in_def s1_def image_iff)
  have list1: "is_list s1 ?l (map general_tag (rs @ [cur]))"
    unfolding s1_def using lq.rep_enq [OF ready fresh] by simp
  have keep1: "keeps_lists ?A s s1"
    unfolding keeps_lists_def s1_def using lq.enq_other [OF ready, where e = "general_tag cur"] by auto
  have "can_pick T spc s1 cur (?n # ?ns)"
    using inv list1 spaces_agree_cong [of "tasks s1" "tasks s" T spc "phys s"]
    unfolding can_pick_def sched_inv_def s1_def running_thread_def by auto
  then obtain s' where s': "schedule_pick s1 = Inr s'" "sched_inv T spc s' ?n ?ns"
    "keeps_lists ?A s1 s'"
    "\<And>t. priority (tasks s' t) = priority (tasks s1 t)" "\<And>t. ticks (tasks s' t) = ticks (tasks s1 t)"
    "phys s' = phys s1" "eflags s' = eflags s1" "thread_ready_list s' = thread_ready_list s1"
    "thread_all_list s' = thread_all_list s1" "cr3 s' = spc ?n"
    "tss_esp0 s' = (if pgdir (tasks s1 ?n) \<noteq> NULL then ?n + 0x1000 else tss_esp0 s1)"
    "\<And>t. pgdir (tasks s' t) = pgdir (tasks s1 t)" "\<And>t. userprog_vaddr (tasks s' t) = userprog_vaddr (tasks s1 t)"
    "\<And>t. t \<noteq> ?n \<Longrightarrow> status (tasks s' t) = status (tasks s1 t)"
    by (rule schedule_pick_inv) (simp add: s1_def)
  have "schedule s = Inr s'" using requeue s'(1) by (simp add: schedule_def)
  moreover have "sched_frame ?A s s'"
    using keeps_lists_trans [OF keep1 s'(3)] s'(4-13) by (simp add: sched_frame_def s1_def)
  moreover have "status (tasks s' t) = status (tasks s t)" if "t \<notin> insert cur (set rs)" for t
  proof -
    have "t \<noteq> ?n" "t \<noteq> cur" using that by (cases rs; auto)+
    then show ?thesis using s'(14) by (simp add: s1_def)
  qed
  ultimately show thesis using that s'(2,5,7,10,11) by (simp add: s1_def Let_def)
qed

lemma upd_task_keeps: "keeps_lists A s (upd_task p f s)"
  by (rule keeps_lists_same) simp_all

lemma thread_block_inv:
  assumes inv: "sched_inv T spc s cur (n # ns)" and st: "blockable st"
  obtains s' where "thread_block st s = Inr (intr_get_status s, s')"
    and "sched_inv T spc s' n ns"
    and "sched_frame (list_nodes (thread_ready_list s) (map general_tag (n # ns))) s s'"
    and "intr_get_status s' = INTR_OFF" "eflags s' = eflags (cli s)"
    and "\<And>t. ticks (tasks s' t) = ticks (tasks s t)"
    and "\<And>t. t \<noteq> n \<Longrightarrow> status (tasks s' t) = (if t = cur then st else status (tasks s t))"
proof -
  let ?l = "thread_ready_list s" and ?A = "list_nodes (thread_ready_list s) (map general_tag (n # ns))"
  define s1 where "s1 = upd_task cur (\<lambda>t. t\<lparr>status := st\<rparr>) (cli s)"
  from inv have cur: "running_thread s = cur" "cur \<in> T" "cur \<notin> set (n # ns)"
    by (auto simp: sched_inv_def)
  have cli: "running_thread (cli s) = running_thread s" "tasks (cli s) = tasks s"
    "lnext (cli s) = lnext s" "lprev (cli s) = lprev s" "thread_ready_list (cli s) = ?l"
    "phys (cli s) = phys s" "cr3 (cli s) = cr3 s" "esp (cli s) = esp s" "thread_all_list (cli s) = thread_all_list s"
    by (simp_all add: cli_def running_thread_def)
  have run1: "running_thread s1 = cur" by (simp add: s1_def running_thread_def cli cur(1) [symmetric])
  have st': "st \<noteq> TASK_RUNNING" "st \<noteq> TASK_READY" using st by (auto simp: blockable_def)
  have requeue: "schedule_requeue s1 = Inr s1"
    using st' by (simp add: schedule_requeue_def Let_def run1) (simp add: s1_def)
  have "is_list s1 ?l (map general_tag (n # ns))"
    using sched_inv_list [OF inv] is_list_cong [OF cli(3,4)] by (simp add: s1_def)
  then have "can_pick T spc s1 cur (n # ns)"
    using inv st' spaces_agree_cong [of "tasks s1" "tasks s" T spc "phys s"] run1
    unfolding can_pick_def sched_inv_def s1_def by (auto simp: cli)
  then obtain s' where s': "schedule_pick s1 = Inr s'" "sched_inv T spc s' n ns"
    "keeps_lists (list_nodes (thread_ready_list s1) (map general_tag (n # ns))) s1 s'"
    "\<And>t. priority (tasks s' t) = priority (tasks s1 t)" "\<And>t. ticks (tasks s' t) = ticks (tasks s1 t)"
    "\<And>t. t \<noteq> n \<Longrightarrow> status (tasks s' t) = status (tasks s1 t)"
    "phys s' = phys s1" "eflags s' = eflags s1" "thread_ready_list s' = thread_ready_list s1"
    "thread_all_list s' = thread_all_list s1"
    "\<And>t. pgdir (tasks s' t) = pgdir (tasks s1 t)" "\<And>t. userprog_vaddr (tasks s' t) = userprog_vaddr (tasks s1 t)"
    by (rule schedule_pick_inv) blast
  have "thread_block st s = Inr (intr_get_status s, s')"
    using st cur requeue s'(1)
    by (simp add: thread_block_def schedule_def intr_disable_eq cli s1_def)
  moreover have "sched_frame ?A s s'"
  proof -
    have "keeps_lists ?A s (cli s)" by (rule keeps_lists_same) (simp_all add: cli)
    then have "keeps_lists ?A s s1" unfolding s1_def using upd_task_keeps by (rule keeps_lists_trans)
    moreover have "keeps_lists ?A s1 s'" using s'(3) by (simp add: s1_def cli)
    ultimately have "keeps_lists ?A s s'" by (rule keeps_lists_trans)
    then show ?thesis using s'(4-12) by (simp add: sched_frame_def s1_def cli)
  qed
  moreover have "eflags s' = eflags (cli s)" using s'(8) by (simp add: s1_def)
  moreover from this have "intr_get_status s' = INTR_OFF" by (simp add: intr_get_status_eq)
  ultimately show thesis using that s'(2,5,6) by (simp add: s1_def cli)
qed

lemma thread_block_nobody:
  assumes inv: "sched_inv T spc s cur []" and st: "blockable st"
  shows "thread_block st s = Inl (Panic ''schedule'' ''!list_empty(&thread_ready_list)'')"
proof -
  define s1 where "s1 = upd_task cur (\<lambda>t. t\<lparr>status := st\<rparr>) (cli s)"
  from inv have cur: "running_thread s = cur" by (simp add: sched_inv_def)
  then have run1: "running_thread s1 = cur" "running_thread (cli s) = cur"
    by (simp_all add: s1_def running_thread_def cli_def)
  have "st \<noteq> TASK_RUNNING" using st by (auto simp: blockable_def)
  then have requeue: "schedule_requeue s1 = Inr s1"
    by (simp add: schedule_requeue_def Let_def run1) (simp add: s1_def)
  have "is_list s1 (thread_ready_list s1) []"
    using sched_inv_list [OF inv] is_list_cong [of "cli s" s] by (simp add: s1_def cli_def)
  then show ?thesis
    using st requeue schedule_pick_empty [of s1]
    by (simp add: thread_block_def schedule_def intr_disable_eq run1 s1_def)
qed

lemma intr_set_status_fields [simp]:
  "tasks (snd (intr_set_status st s)) = tasks s" "phys (snd (intr_set_status st s)) = phys s"
  "cr3 (snd (intr_set_status st s)) = cr3 s" "esp (snd (intr_set_status st s)) = esp s"
  "lnext (snd (intr_set_status st s)) = lnext s" "lprev (snd (intr_set_status st s)) = lprev s"
  "thread_ready_list (snd (intr_set_status st s)) = thread_ready_list s"
  "thread_all_list (snd (intr_set_status st s)) = thread_all_list s"
  "tss_esp0 (snd (intr_set_status st s)) = tss_esp0 s"
  by (simp_all add: intr_set_status_def intr_enable_def intr_disable_def sti_def cli_def)

lemma cli_fields [simp]:
  "tasks (cli s) = tasks s" "phys (cli s) = phys s" "cr3 (cli s) = cr3 s" "esp (cli s) = esp s"
  "thread_ready_list (cli s) = thread_ready_list s" "thread_all_list (cli s) = thread_all_list s"
  "tss_esp0 (cli s) = tss_esp0 s"
  by (simp_all add: cli_def)

lemma thread_unblock_inv:
  assumes inv: "sched_inv T spc s cur rs" and t: "t \<in> T" and st: "blockable (status (tasks s t))"
  obtains s' where "thread_unblock t s = Inr s'"
    and "sched_inv T spc s' cur (t # rs)"
    and "sched_frame (list_nodes (thread_ready_list s) (map general_tag (t # rs))) s s'"
    and "eflags s' = eflags s" "tss_esp0 s' = tss_esp0 s"
    and "tasks s' = (tasks s)(t := (tasks s t)\<lparr>status := TASK_READY\<rparr>)"
proof -
  let ?l = "thread_ready_list s" and ?A = "list_nodes (thread_ready_list s) (map general_tag (t # rs))"
  have off: "t \<noteq> cur" "t \<notin> set rs"
    using inv t st unfolding sched_inv_def blockable_def by force+
  define s2 where "s2 = upd_task t (\<lambda>t. t\<lparr>status := TASK_READY\<rparr>) (list_push ?l (general_tag t) (cli s))"
  define s' where "s' = snd (intr_set_status (intr_get_status s) s2)"
  have ready: "is_list (cli s) ?l (map general_tag rs)"
    using sched_inv_list [OF inv] is_list_cong [of "cli s" s] by simp
  have fresh: "general_tag t \<notin> list_nodes ?l (map general_tag rs)"
    using sched_inv_fresh [OF inv t off(2)] .
  have run: "thread_unblock t s = Inr s'"
    using lq.mem_iff [OF ready] st off(2)
    by (simp add: thread_unblock_def intr_disable_eq assert_not_in_def s2_def s'_def image_iff)
  have list2: "is_list s2 ?l (map general_tag (t # rs))"
    unfolding s2_def using lq.rep_jump [OF ready fresh] by simp
  have links: "lnext s' = lnext s2" "lprev s' = lprev s2" by (simp_all add: s'_def)
  have list': "is_list s' ?l (map general_tag (t # rs))" using list2 is_list_cong [OF links] by simp
  have tasks': "tasks s' = (tasks s)(t := (tasks s t)\<lparr>status := TASK_READY\<rparr>)"
    by (simp add: s'_def s2_def)
  have inv': "sched_inv T spc s' cur (t # rs)"
    using inv list' off t spaces_agree_cong [of "tasks s'" "tasks s" T spc "phys s"]
    unfolding sched_inv_def tasks' running_thread_def by (auto simp: s'_def s2_def)
  have "is_list s2 l xs" if "is_list s l xs" and "list_nodes l xs \<inter> ?A = {}" for l xs
    using that lq.jump_other [OF ready, of l xs "general_tag t"] is_list_cong [of "cli s" s]
    unfolding s2_def by auto
  then have "keeps_lists ?A s s2" unfolding keeps_lists_def by blast
  then have "keeps_lists ?A s s'" using keeps_lists_same [OF links] by (rule keeps_lists_trans)
  then have frame: "sched_frame ?A s s'" by (simp add: sched_frame_def tasks') (simp add: s'_def s2_def)
  have "eflags s' = eflags s"
    unfolding s'_def by (rule intr_restore [of s2 s, unfolded intr_disable_eq fst_conv]) (simp add: s2_def)
  from that [OF run inv' frame this _ tasks'] show thesis by (simp add: s'_def s2_def)
qed

text \<open>A thread that is running or ready must not be unblocked.\<close>

lemma thread_unblock_running:
  "\<not> blockable (status (tasks s t)) \<Longrightarrow>
   thread_unblock t s = Inl (Panic ''thread_unblock'' ''status is BLOCKED, WAITING or HANGING'')"
  by (simp add: thread_unblock_def intr_disable_eq)

section \<open>Time slices\<close>

lemma clock_tick_inv:
  assumes inv: "sched_inv T spc s cur rs" and k: "ticks (tasks s cur) \<noteq> 0"
  obtains s' where "clock_interrupt_handler s = Inr s'" and "sched_inv T spc s' cur rs"
    and "tasks s' = (tasks s)(cur := (tasks s cur)\<lparr>ticks := ticks (tasks s cur) - 1\<rparr>)"
    and "eflags s' = eflags s"
proof -
  note cur = sched_inv_current [OF inv]
  define s' where "s' = upd_task cur (\<lambda>t. t\<lparr>ticks := ticks t - 1\<rparr>) s"
  have "clock_interrupt_handler s = Inr s'"
    using cur k by (simp add: clock_interrupt_handler_def s'_def)
  moreover have "sched_inv T spc s' cur rs"
    using inv spaces_agree_cong [of "tasks s'" "tasks s" T spc "phys s"]
    unfolding sched_inv_def running_thread_def by (auto simp: s'_def)
  ultimately show thesis using that by (simp add: s'_def)
qed

lemma clock_switch:
  assumes inv: "sched_inv T spc s cur rs" and k: "ticks (tasks s cur) = 0"
  shows "clock_interrupt_handler s = schedule s"
  using sched_inv_current [OF inv] k by (simp add: clock_interrupt_handler_def)

text \<open>Successive clock interrupts, with nothing else happening in between.\<close>

fun clock_run :: "nat \<Rightarrow> 'a threads_scheme \<Rightarrow> 'a threads_scheme outcome" where
  "clock_run 0 s = Inr s"
| "clock_run (Suc k) s = rbind (clock_interrupt_handler s) (clock_run k)"

lemma clock_run_add: "clock_run (m + k) s = rbind (clock_run m s) (clock_run k)"
  by (induction m arbitrary: s) (auto simp: rbind_def split: sum.splits)

text \<open>The number of interrupts until thread \<open>t\<close> is taken off the processor.\<close>

definition slice :: "'a threads_scheme \<Rightarrow> u32 \<Rightarrow> nat" where
  "slice s t = Suc (unat (ticks (tasks s t)))"

lemma unat_minus_one8: "(x :: u8) \<noteq> 0 \<Longrightarrow> unat (x - 1) = unat x - 1"
  by (simp add: unat_minus_one)

lemma clock_slice:
  assumes inv: "sched_inv T spc s cur rs"
  obtains s' where "clock_run (slice s cur) s = Inr s'"
    and "sched_inv T spc s' (hd (rs @ [cur])) (tl (rs @ [cur]))"
    and "\<And>t. t \<noteq> cur \<Longrightarrow> slice s' t = slice s t"
proof -
  have "\<exists>s'. clock_run (slice s cur) s = Inr s' \<and> sched_inv T spc s' (hd (rs @ [cur])) (tl (rs @ [cur])) \<and>
      (\<forall>t. t \<noteq> cur \<longrightarrow> slice s' t = slice s t)"
    using inv
  proof (induction "unat (ticks (tasks s cur))" arbitrary: s)
    case 0
    obtain s' where "schedule s = Inr s'" "sched_inv T spc s' (hd (rs @ [cur])) (tl (rs @ [cur]))"
      "\<And>t. ticks (tasks s' t) = (if t = cur then priority (tasks s t) else ticks (tasks s t))"
      by (rule schedule_inv [OF 0(2)]) blast
    then show ?case using 0 clock_switch [OF 0(2)] by (simp add: slice_def unat_eq_0)
  next
    case (Suc k)
    then have "ticks (tasks s cur) \<noteq> 0" by auto
    then obtain s1 where s1: "clock_interrupt_handler s = Inr s1" "sched_inv T spc s1 cur rs"
      "tasks s1 = (tasks s)(cur := (tasks s cur)\<lparr>ticks := ticks (tasks s cur) - 1\<rparr>)"
      by (rule clock_tick_inv [OF Suc.prems]) blast
    have k: "k = unat (ticks (tasks s1 cur))"
      using Suc.hyps(2) \<open>ticks (tasks s cur) \<noteq> 0\<close> s1(3) by (simp add: unat_minus_one8)
    have "slice s cur = Suc (slice s1 cur)" using Suc.hyps(2) k by (simp add: slice_def)
    moreover have "slice s1 t = slice s t" if "t \<noteq> cur" for t using that s1(3) by (simp add: slice_def)
    ultimately show ?case using Suc.hyps(1) [OF k s1(2)] s1(1) by auto
  qed
  then show thesis using that by blast
qed

lemma clock_reaches:
  assumes "sched_inv T spc s cur rs" and "k < length rs"
  shows "\<exists>s'. clock_run (\<Sum>t\<leftarrow>cur # take k rs. slice s t) s = Inr s' \<and>
    sched_inv T spc s' (rs ! k) (drop (Suc k) rs @ cur # take k rs)"
  using assms
proof (induction k arbitrary: s cur rs)
  case 0
  then obtain s' where "clock_run (slice s cur) s = Inr s'"
    "sched_inv T spc s' (hd (rs @ [cur])) (tl (rs @ [cur]))"
    using clock_slice by blast
  with 0 show ?case by (cases rs) auto
next
  case (Suc k)
  then obtain n ns where rs: "rs = n # ns" by (cases rs) auto
  obtain s1 where s1: "clock_run (slice s cur) s = Inr s1" "sched_inv T spc s1 n (ns @ [cur])"
    "\<And>t. t \<noteq> cur \<Longrightarrow> slice s1 t = slice s t"
    using clock_slice [OF Suc.prems(1)] rs by (metis append_Cons list.sel(1,3))
  have cur: "cur \<notin> set rs" using Suc.prems(1) by (simp add: sched_inv_def)
  have k: "k < length ns" using Suc.prems(2) rs by simp
  have "(\<Sum>t\<leftarrow>n # take k (ns @ [cur]). slice s1 t) = (\<Sum>t\<leftarrow>n # take k ns. slice s t)"
  proof -
    have "x \<noteq> cur" if "x \<in> set (n # take k ns)" for x
      using that cur rs by (auto dest: in_set_takeD)
    then show ?thesis using k s1(3) by (simp cong: map_cong)
  qed
  moreover have "(ns @ [cur]) ! k = rs ! Suc k" using k rs by (simp add: nth_append)
  moreover have "drop (Suc k) (ns @ [cur]) @ n # take k (ns @ [cur]) = drop (Suc (Suc k)) rs @ cur # take (Suc k) rs"
    using k rs by simp
  ultimately obtain s2 where "clock_run (\<Sum>t\<leftarrow>n # take k ns. slice s t) s1 = Inr s2"
    "sched_inv T spc s2 (rs ! Suc k) (drop (Suc (Suc k)) rs @ cur # take (Suc k) rs)"
    using Suc.IH [OF s1(2)] k by (metis length_append_singleton less_SucI)
  with s1(1) show ?case using rs by (intro exI [of _ s2]) (auto simp: clock_run_add)
qed

section \<open>Every history of scheduler calls\<close>

text \<open>
  A step is a clock interrupt, a call of \<open>schedule\<close>, \<open>thread_block\<close> or \<open>thread_unblock\<close> that
  returns (in the thread that has the processor then), or the end of a \<open>thread_block\<close> that
  restores the interrupt flag.
\<close>

inductive sched_step :: "u32 set \<Rightarrow> 'a threads_scheme \<Rightarrow> 'a threads_scheme \<Rightarrow> bool" for T where
  tick: "clock_interrupt_handler s = Inr s' \<Longrightarrow> sched_step T s s'"
| yield: "schedule s = Inr s' \<Longrightarrow> sched_step T s s'"
| block: "thread_block st s = Inr (old, s') \<Longrightarrow> sched_step T s s'"
| unblock: "t \<in> T \<Longrightarrow> thread_unblock t s = Inr s' \<Longrightarrow> sched_step T s s'"
| resume: "thread_block_resume old s = s' \<Longrightarrow> sched_step T s s'"

inductive_cases sched_stepE: "sched_step T s s'"

definition scheduled :: "u32 set \<Rightarrow> (u32 \<Rightarrow> u32) \<Rightarrow> 'a threads_scheme \<Rightarrow> bool" where
  "scheduled T spc s \<longleftrightarrow> (\<exists>cur rs. sched_inv T spc s cur rs)"

lemma scheduledI [intro]: "sched_inv T spc s cur rs \<Longrightarrow> scheduled T spc s"
  by (auto simp: scheduled_def)

lemma schedule_scheduled: "scheduled T spc s \<Longrightarrow> schedule s = Inr s' \<Longrightarrow> scheduled T spc s'"
  unfolding scheduled_def by (metis schedule_inv sum.inject(2))

lemma clock_scheduled: "scheduled T spc s \<Longrightarrow> clock_interrupt_handler s = Inr s' \<Longrightarrow> scheduled T spc s'"
  unfolding scheduled_def using clock_switch clock_tick_inv schedule_inv by (metis sum.inject(2))

lemma block_scheduled:
  assumes "sched_inv T spc s cur rs" and "thread_block st s = Inr (old, s')"
  shows "scheduled T spc s'"
proof -
  have st: "blockable st" using assms(2) by (auto simp: thread_block_def Let_def split: prod.splits)
  show ?thesis
  proof (cases rs)
    case Nil
    with thread_block_nobody st assms show ?thesis by fastforce
  next
    case (Cons n ns)
    with assms obtain s'' where "thread_block st s = Inr (intr_get_status s, s'')" "sched_inv T spc s'' n ns"
      using thread_block_inv st by blast
    with assms(2) show ?thesis by auto
  qed
qed

lemma unblock_scheduled:
  assumes "sched_inv T spc s cur rs" and "t \<in> T" and "thread_unblock t s = Inr s'"
  shows "scheduled T spc s'"
proof -
  have "blockable (status (tasks s t))"
    using assms(3) thread_unblock_running [of s t] by fastforce
  with assms obtain s'' where "thread_unblock t s = Inr s''" "sched_inv T spc s'' cur (t # rs)"
    using thread_unblock_inv by blast
  with assms(3) show ?thesis by auto
qed

lemma resume_scheduled: "sched_inv T spc s cur rs \<Longrightarrow> sched_inv T spc (thread_block_resume old s) cur rs"
  using is_list_cong [of "snd (intr_set_status old s)" s]
  by (simp add: sched_inv_def thread_block_resume_def running_thread_def)

lemma sched_step_scheduled:
  assumes "sched_step T s s'" and "scheduled T spc s"
  shows "scheduled T spc s'"
proof -
  from assms(2) obtain cur rs where inv: "sched_inv T spc s cur rs" by (auto simp: scheduled_def)
  from assms(1) show ?thesis
  proof (rule sched_stepE)
    show "clock_interrupt_handler s = Inr s' \<Longrightarrow> ?thesis" by (rule clock_scheduled [OF assms(2)])
    show "schedule s = Inr s' \<Longrightarrow> ?thesis" by (rule schedule_scheduled [OF assms(2)])
    show "thread_block st s = Inr (old, s') \<Longrightarrow> ?thesis" for st old by (rule block_scheduled [OF inv])
    show "t \<in> T \<Longrightarrow> thread_unblock t s = Inr s' \<Longrightarrow> ?thesis" for t by (rule unblock_scheduled [OF inv])
    show "thread_block_resume old s = s' \<Longrightarrow> ?thesis" for old using resume_scheduled [OF inv] by blast
  qed
qed

section \<open>Properties\<close>

text \<open>
  A state with three threads: the one at \<open>0x1000\<close> runs, \<open>0x2000\<close> is ready, \<open>0x3000\<close> is
  blocked. The ready list is at \<open>0x500\<close>.
\<close>

definition sample_task :: "u32 \<Rightarrow> task_status \<Rightarrow> u8 \<Rightarrow> task_struct" where
  "sample_task p st k = zero_task\<lparr>self_kstack := p + 0xe50, status := st, priority := 31, ticks := k,
     stack_magic := 0x19870916\<rparr>"

definition sample_threads :: threads where
  "sample_threads = \<lparr>eflags = 0x202, kmsg = [],
     lprev = (\<lambda>_. 0)(0x508 := 0x201c, 0x201c := 0x500),
     lnext = (\<lambda>_. 0)(0x500 := 0x201c, 0x201c := 0x508),
     phys = (\<lambda>_. 0), cr3 = 0x100000, kernel_thread_addr = 0xc0001500,
     kstacks = (\<lambda>_. \<lparr>ts_ebp = 0, ts_ebx = 0, ts_edi = 0, ts_esi = 0, ts_eip = 0,
       ts_unused_retaddr = 0, ts_function = 0, ts_func_arg = 0\<rparr>),
     esp = 0x1f80,
     tasks = (\<lambda>_. zero_task)(0x1000 := sample_task 0x1000 TASK_RUNNING 1,
       0x2000 := sample_task 0x2000 TASK_READY 5, 0x3000 := sample_task 0x3000 TASK_BLOCKED 7),
     thread_ready_list = 0x500, thread_all_list = 0x600, main_thread = 0x1000,
     thread_tag = 0, tss_esp0 = 0\<rparr>"

definition sample_set :: "u32 set" where
  "sample_set = {0x1000, 0x2000, 0x3000}"

lemma sample_inv: "sched_inv sample_set (\<lambda>_. 0x100000) sample_threads 0x1000 [0x2000]"
proof -
  have frames: "page_frame 0x1f80 = 0x1000" "page_frame 0x2e64 = 0x2000" "page_frame 0x3e64 = 0x3000"
    by (simp_all add: page_frame_def)
  have "is_list sample_threads 0x500 [0x201c]"
    by (simp add: is_list_def head_of_def tail_of_def sample_threads_def)
  moreover have "spaces_agree sample_set (\<lambda>_. 0x100000) (\<lambda>_. 0) (tasks sample_threads)"
    by (simp add: spaces_agree_def sample_set_def sample_threads_def sample_task_def zero_task_def)
  moreover have "running_thread sample_threads = 0x1000"
    using frames by (simp add: running_thread_def sample_threads_def page_frame_def)
  ultimately show ?thesis
    by (simp add: sched_inv_def sample_set_def sample_threads_def sample_task_def general_tag_def
        head_of_def tail_of_def frames)
qed





text \<open>
  Blocking and waking. \<open>thread_block\<close> gives the processor to the first ready thread and
  leaves the caller, in the status it asked for, out of the ready list, with interrupts off;
  \<open>thread_unblock\<close> of that thread puts it at the front of the ready list, ready, and keeps the
  interrupt flag and the running thread.
\<close>

theorem block_then_unblock:
  "sched_inv T spc s cur (n # ns) \<Longrightarrow> blockable st \<Longrightarrow>
   \<exists>s1 s2. thread_block st s = Inr (intr_get_status s, s1) \<and>
     sched_inv T spc s1 n ns \<and> status (tasks s1 cur) = st \<and> intr_get_status s1 = INTR_OFF \<and>
     thread_unblock cur s1 = Inr s2 \<and>
     sched_inv T spc s2 n (cur # ns) \<and> intr_get_status s2 = INTR_OFF"
proof -
  assume inv: "sched_inv T spc s cur (n # ns)" and st: "blockable st"
  obtain s1 where s1: "thread_block st s = Inr (intr_get_status s, s1)" "sched_inv T spc s1 n ns"
    "intr_get_status s1 = INTR_OFF"
    "\<And>t. t \<noteq> n \<Longrightarrow> status (tasks s1 t) = (if t = cur then st else status (tasks s t))"
    by (rule thread_block_inv [OF inv st]) blast
  have cur: "cur \<in> T" "cur \<noteq> n" using inv by (auto simp: sched_inv_def)
  then have st1: "status (tasks s1 cur) = st" using s1(4) by simp
  obtain s2 where "thread_unblock cur s1 = Inr s2" "sched_inv T spc s2 n (cur # ns)" "eflags s2 = eflags s1"
    by (rule thread_unblock_inv [OF s1(2) cur(1)]) (use st st1 in auto)
  with s1 st1 show ?thesis by (auto simp: intr_get_status_eq)
qed

lemma block_then_unblock_witness:
  "\<exists>s1 s2. thread_block TASK_WAITING sample_threads = Inr (INTR_ON, s1) \<and>
     running_thread s1 = 0x2000 \<and> thread_unblock 0x1000 s1 = Inr s2 \<and> running_thread s2 = 0x2000"
proof -
  have on: "intr_get_status sample_threads = INTR_ON"
    by (simp add: intr_get_status_def sample_threads_def)
  show ?thesis
    using block_then_unblock [OF sample_inv, of TASK_WAITING]
    by (auto simp: on sched_inv_def blockable_def)
qed

text \<open>
  When no thread is ready, a thread that blocks stops the kernel: the assertion of
  \<open>schedule\<close> fails. There is no idle thread.
\<close>

theorem block_last_thread_panics:
  "sched_inv T spc s cur [] \<Longrightarrow> blockable st \<Longrightarrow>
   thread_block st s = Inl (Panic ''schedule'' ''!list_empty(&thread_ready_list)'')"
  by (rule thread_block_nobody)

lemma block_last_thread_panics_witness:
  "\<exists>s1 old. thread_block TASK_BLOCKED sample_threads = Inr (old, s1) \<and>
     thread_block TASK_BLOCKED s1 = Inl (Panic ''schedule'' ''!list_empty(&thread_ready_list)'')"
proof -
  have st: "blockable TASK_BLOCKED" by (simp add: blockable_def)
  obtain s1 where "thread_block TASK_BLOCKED sample_threads = Inr (intr_get_status sample_threads, s1)"
    and "sched_inv sample_set (\<lambda>_. 0x100000) s1 0x2000 []"
    by (rule thread_block_inv [OF sample_inv st]) blast
  with block_last_thread_panics [OF _ st] show ?thesis by blast
qed

text \<open>
  C26: whatever sequence of clock interrupts, calls of \<open>schedule\<close>, \<open>thread_block\<close> and
  \<open>thread_unblock\<close> and returns from \<open>thread_block\<close> happens, the scheduler's invariant holds:
  one running thread, whose page \<open>esp\<close> points into, and a well-formed ready list that holds
  exactly the ready threads, once each.
\<close>

theorem scheduler_safe:
  "(sched_step T)\<^sup>*\<^sup>* s s' \<Longrightarrow> scheduled T spc s \<Longrightarrow> scheduled T spc s'"
  by (induction rule: rtranclp_induct) (auto intro: sched_step_scheduled)

lemma scheduler_safe_witness:
  "\<exists>s'. clock_interrupt_handler sample_threads = Inr s' \<and> scheduled sample_set (\<lambda>_. 0x100000) s'"
proof -
  have "ticks (tasks sample_threads 0x1000) \<noteq> 0" by (simp add: sample_threads_def sample_task_def)
  then obtain s' where s': "clock_interrupt_handler sample_threads = Inr s'"
    by (rule clock_tick_inv [OF sample_inv]) blast
  then have "(sched_step sample_set)\<^sup>*\<^sup>* sample_threads s'" by (auto intro: sched_step.tick)
  from scheduler_safe [OF this] s' sample_inv show ?thesis by blast
qed

end
