(* ===== verification/Sync.thy ===== *)
theory Sync
  imports Sched
begin

text \<open>
  \<open>src/kernel/sync.c\<close>: semaphores and re-entrant locks, on the scheduler of \<open>thread.c\<close>. A
  call that blocks leaves the rest of its work on the kernel stack of the thread, and the
  thread goes on from there when it has the processor again. So the state has, for every
  thread, the list of its pending steps (\<open>frames\<close>, innermost first), and a step of the machine
  runs the innermost one of the running thread. A function body between two points where an
  interrupt can come is one step, so every statement that runs with interrupts on is a step of
  its own and clock interrupts come between any two of them.
\<close>

section \<open>Data\<close>

datatype frame =
    Iret u32
  | KernelThread
  | BlockRet intr_status
  | SemaDown u32
  | SemaDownLoop u32 intr_status
  | SemaUp u32
  | AcqTest u32
  | AcqHolder u32
  | AcqCount u32
  | AcqIncr u32
  | RelTest u32
  | RelDecide u32
  | RelDecr u32
  | RelHolder u32
  | RelCount u32

text \<open>
  One map per field: \<open>sem_value\<close> by the address of a semaphore, \<open>holder\<close> and
  \<open>holder_repeat_nr\<close> by the address of a lock.
\<close>

record sync = threads +
  sem_value :: "u32 \<Rightarrow> u8"
  holder :: "u32 \<Rightarrow> u32"
  holder_repeat_nr :: "u32 \<Rightarrow> u32"
  frames :: "u32 \<Rightarrow> frame list"

text \<open>Offsets in \<open>struct lock\<close> and \<open>struct semaphore\<close>.\<close>

definition semaphore_of :: "u32 \<Rightarrow> u32" where
  "semaphore_of plock = plock + 4"

definition waiters :: "u32 \<Rightarrow> u32" where
  "waiters psema = psema + 4"

definition set_value :: "u32 \<Rightarrow> u8 \<Rightarrow> 'a sync_scheme \<Rightarrow> 'a sync_scheme" where
  "set_value psema v s = s\<lparr>sem_value := (sem_value s)(psema := v)\<rparr>"

definition set_holder :: "u32 \<Rightarrow> u32 \<Rightarrow> 'a sync_scheme \<Rightarrow> 'a sync_scheme" where
  "set_holder plock t s = s\<lparr>holder := (holder s)(plock := t)\<rparr>"

definition set_repeat :: "u32 \<Rightarrow> u32 \<Rightarrow> 'a sync_scheme \<Rightarrow> 'a sync_scheme" where
  "set_repeat plock k s = s\<lparr>holder_repeat_nr := (holder_repeat_nr s)(plock := k)\<rparr>"

text \<open>Pending steps of thread \<open>t\<close>.\<close>

definition push_frames :: "u32 \<Rightarrow> frame list \<Rightarrow> 'a sync_scheme \<Rightarrow> 'a sync_scheme" where
  "push_frames t fs s = s\<lparr>frames := (frames s)(t := fs @ frames s t)\<rparr>"

section \<open>Semaphores\<close>

definition sema_init :: "u32 \<Rightarrow> u8 \<Rightarrow> 'a sync_scheme \<Rightarrow> 'a sync_scheme" where
  "sema_init psema v s = list_init (waiters psema) (set_value psema v s)"

text \<open>
  The body of the loop of \<open>sema_dowm\<close>: with no value the thread joins the waiters and blocks,
  and what is left for it to do is the end of \<open>thread_block\<close> and the loop again.
\<close>

definition sema_dowm_loop :: "u32 \<Rightarrow> intr_status \<Rightarrow> 'a sync_scheme \<Rightarrow> 'a sync_scheme outcome" where
  "sema_dowm_loop psema old_status s =
     (if sem_value s psema = 0
      then rbind (assert_not_in ''sema_dowm'' ''!elem_find(&psema->waiters, &running_thread()->general_tag)''
                   (waiters psema) (general_tag (running_thread s)) s)
        (\<lambda>_. let s1 = list_append (waiters psema) (general_tag (running_thread s)) s
             in rbind (thread_block TASK_BLOCKED s1)
               (\<lambda>(st, s2). Inr (push_frames (running_thread s1) [BlockRet st, SemaDownLoop psema old_status] s2)))
      else let s1 = set_value psema (sem_value s psema - 1) s
        in rbind (c_assert ''sema_dowm'' ''psema->value == 0'' (sem_value s1 psema = 0))
          (\<lambda>_. Inr (snd (intr_set_status old_status s1))))"

definition sema_dowm :: "u32 \<Rightarrow> 'a sync_scheme \<Rightarrow> 'a sync_scheme outcome" where
  "sema_dowm psema s = (let (old_status, s1) = intr_disable s in sema_dowm_loop psema old_status s1)"

definition sema_up :: "u32 \<Rightarrow> 'a sync_scheme \<Rightarrow> 'a sync_scheme outcome" where
  "sema_up psema s =
     (let (old_status, s1) = intr_disable s
      in rbind (c_assert ''sema_up'' ''psema->value == 0'' (sem_value s1 psema = 0))
        (\<lambda>_. rbind (if \<not> list_empty s1 (waiters psema)
                    then let (tag, s2) = list_pop (waiters psema) s1
                         in thread_unblock (elem2entry 28 tag) s2
                    else Inr s1)
          (\<lambda>s2. let s3 = set_value psema (sem_value s2 psema + 1) s2
             in rbind (c_assert ''sema_up'' ''psema->value == 1'' (sem_value s3 psema = 1))
               (\<lambda>_. Inr (snd (intr_set_status old_status s3))))))"

section \<open>Locks\<close>

definition lock_init :: "u32 \<Rightarrow> 'a sync_scheme \<Rightarrow> 'a sync_scheme" where
  "lock_init plock s = sema_init (semaphore_of plock) 1 (set_repeat plock 0 (set_holder plock NULL s))"

text \<open>The first step of each function; \<open>exec_frame\<close> has the others.\<close>

definition lock_acquire :: "u32 \<Rightarrow> frame list" where
  "lock_acquire plock = [AcqTest plock]"

definition lock_release :: "u32 \<Rightarrow> frame list" where
  "lock_release plock = [RelTest plock]"

text \<open>
  One step of the running thread. \<open>Iret\<close> is the return from an interrupt, \<open>KernelThread\<close> the
  entry of a new thread, which enables interrupts.
\<close>

fun exec_frame :: "frame \<Rightarrow> 'a sync_scheme \<Rightarrow> 'a sync_scheme outcome" where
  "exec_frame (Iret flags) s = Inr (s\<lparr>eflags := flags\<rparr>)"
| "exec_frame KernelThread s = Inr (snd (intr_enable s))"
| "exec_frame (BlockRet st) s = Inr (thread_block_resume st s)"
| "exec_frame (SemaDown psema) s = sema_dowm psema s"
| "exec_frame (SemaDownLoop psema old_status) s = sema_dowm_loop psema old_status s"
| "exec_frame (SemaUp psema) s = sema_up psema s"
| "exec_frame (AcqTest plock) s =
     Inr (if holder s plock \<noteq> running_thread s
          then push_frames (running_thread s) [SemaDown (semaphore_of plock), AcqHolder plock] s
          else push_frames (running_thread s) [AcqIncr plock] s)"
| "exec_frame (AcqHolder plock) s =
     Inr (push_frames (running_thread s) [AcqCount plock] (set_holder plock (running_thread s) s))"
| "exec_frame (AcqCount plock) s =
     rbind (c_assert ''lock_acquire'' ''plock->holder_repeat_nr == 0'' (holder_repeat_nr s plock = 0))
       (\<lambda>_. Inr (set_repeat plock 1 s))"
| "exec_frame (AcqIncr plock) s = Inr (set_repeat plock (holder_repeat_nr s plock + 1) s)"
| "exec_frame (RelTest plock) s =
     rbind (c_assert ''lock_release'' ''plock->holder == running_thread()'' (holder s plock = running_thread s))
       (\<lambda>_. Inr (push_frames (running_thread s) [RelDecide plock] s))"
| "exec_frame (RelDecide plock) s =
     (if holder_repeat_nr s plock > 1 then Inr (push_frames (running_thread s) [RelDecr plock] s)
      else rbind (c_assert ''lock_release'' ''plock->holder_repeat_nr == 1'' (holder_repeat_nr s plock = 1))
        (\<lambda>_. Inr (push_frames (running_thread s) [RelHolder plock] s)))"
| "exec_frame (RelDecr plock) s = Inr (set_repeat plock (holder_repeat_nr s plock - 1) s)"
| "exec_frame (RelHolder plock) s =
     Inr (push_frames (running_thread s) [RelCount plock] (set_holder plock NULL s))"
| "exec_frame (RelCount plock) s =
     Inr (push_frames (running_thread s) [SemaUp (semaphore_of plock)] (set_repeat plock 0 s))"

text \<open>The running thread takes its innermost pending step.\<close>

definition run_frame :: "'a sync_scheme \<Rightarrow> 'a sync_scheme outcome option" where
  "run_frame s =
     (case frames s (running_thread s) of [] \<Rightarrow> None
      | f # fs \<Rightarrow> Some (exec_frame f (s\<lparr>frames := (frames s)(running_thread s := fs)\<rparr>)))"

text \<open>
  A clock interrupt: the processor pushes the flags on the stack of the interrupted thread and
  clears the interrupt flag.
\<close>

definition clock_interrupt :: "'a sync_scheme \<Rightarrow> 'a sync_scheme outcome" where
  "clock_interrupt s = clock_interrupt_handler (cli (push_frames (running_thread s) [Iret (eflags s)] s))"

text \<open>
  The threads \<open>T\<close> use the locks \<open>L\<close> in any order: a thread with nothing pending may call
  \<open>lock_acquire\<close> or \<open>lock_release\<close> of any lock, and the clock may interrupt whenever the
  interrupt flag is on.
\<close>

inductive sync_step :: "u32 set \<Rightarrow> 'a sync_scheme \<Rightarrow> 'a sync_scheme \<Rightarrow> bool" for L where
  run: "run_frame s = Some (Inr s') \<Longrightarrow> sync_step L s s'"
| clock: "intr_get_status s = INTR_ON \<Longrightarrow> clock_interrupt s = Inr s' \<Longrightarrow> sync_step L s s'"
| acquire: "frames s (running_thread s) = [] \<Longrightarrow> l \<in> L \<Longrightarrow>
    s' = push_frames (running_thread s) (lock_acquire l) s \<Longrightarrow> sync_step L s s'"
| release: "frames s (running_thread s) = [] \<Longrightarrow> l \<in> L \<Longrightarrow>
    s' = push_frames (running_thread s) (lock_release l) s \<Longrightarrow> sync_step L s s'"

inductive_cases sync_stepE: "sync_step L s s'"

section \<open>The scheduler does not touch the synchronisation state\<close>

lemma more_eqD:
  fixes s s' :: "'a sync_scheme"
  assumes "threads.more s' = threads.more s"
  shows "sem_value s' = sem_value s" "holder s' = holder s"
    "holder_repeat_nr s' = holder_repeat_nr s" "frames s' = frames s"
  using assms by (cases s; cases s'; simp)+

lemma list_ops_more [simp]:
  "threads.more (list_append l e s) = threads.more s"
  "threads.more (list_push l e s) = threads.more s"
  "threads.more (snd (list_pop l s)) = threads.more s"
  "threads.more (upd_task p f s) = threads.more s"
  "threads.more (cli s) = threads.more s"
  "threads.more (snd (intr_set_status st s)) = threads.more s"
  "threads.more (list_init l s) = threads.more s"
  by (simp_all add: list_append_def list_push_def list_pop_def list_insert_before_eq list_remove_eq
      upd_task_def Let_def cli_def intr_set_status_def intr_enable_def intr_disable_def sti_def
      list_init_def set_next_def set_prev_def)

lemma page_dir_activate_more: "page_dir_activate pd s = Inr s' \<Longrightarrow> threads.more s' = threads.more s"
  by (cases "pd = NULL") (auto simp: page_dir_activate_def kprintf_def set_cr3_def)

lemma process_activate_more: "process_activate p s = Inr s' \<Longrightarrow> threads.more s' = threads.more s"
proof -
  assume "process_activate p s = Inr s'"
  then obtain s1 where act: "page_dir_activate (pgdir (tasks s p)) s = Inr s1"
    and s': "s' = (if pgdir (tasks s1 p) \<noteq> NULL then update_tss_esp p s1 else s1)"
    by (auto simp: process_activate_def)
  show ?thesis using page_dir_activate_more [OF act] by (simp add: s' update_tss_esp_def)
qed

lemma schedule_requeue_more: "schedule_requeue s = Inr s' \<Longrightarrow> threads.more s' = threads.more s"
  by (cases "status (tasks s (running_thread s)) = TASK_RUNNING") (auto simp: schedule_requeue_def Let_def)

lemma schedule_pick_more: "schedule_pick s1 = Inr s' \<Longrightarrow> threads.more s' = threads.more s1"
proof -
  assume pick: "schedule_pick s1 = Inr s'"
  define s2 where "s2 = snd (list_pop (thread_ready_list s1) (s1\<lparr>thread_tag := NULL\<rparr>))"
  obtain tag where pop: "list_pop (thread_ready_list s1) (s1\<lparr>thread_tag := NULL\<rparr>) = (tag, s2)"
    by (simp add: s2_def prod_eq_iff)
  have more2: "threads.more s2 = threads.more s1" by (simp add: s2_def)
  from pick obtain s4 where act: "process_activate (elem2entry 28 tag)
      (upd_task (elem2entry 28 tag) (\<lambda>t. t\<lparr>status := TASK_RUNNING\<rparr>) (s2\<lparr>thread_tag := tag\<rparr>)) = Inr s4"
    and s': "s' = switch_to (running_thread s1) (elem2entry 28 tag) s4"
    unfolding schedule_pick_def Let_def pop prod.case by auto
  show ?thesis using process_activate_more [OF act] more2 by (simp add: s' switch_to_def Let_def)
qed

lemma schedule_more: "schedule s = Inr s' \<Longrightarrow> threads.more s' = threads.more s"
  by (auto simp: schedule_def dest!: schedule_requeue_more schedule_pick_more)

lemma thread_block_more: "thread_block st s = Inr (old, s') \<Longrightarrow> threads.more s' = threads.more s"
  by (auto simp: thread_block_def intr_disable_eq dest!: schedule_more)

lemma thread_unblock_more: "thread_unblock t s = Inr s' \<Longrightarrow> threads.more s' = threads.more s"
  by (auto simp: thread_unblock_def intr_disable_eq)

lemma clock_handler_more: "clock_interrupt_handler s = Inr s' \<Longrightarrow> threads.more s' = threads.more s"
  by (auto simp: clock_interrupt_handler_def Let_def dest!: schedule_more split: if_splits)

end
