(* ===== verification/Locks.thy ===== *)
theory Locks
  imports Sync
begin

text \<open>
  Correctness of the locks of \<open>src/kernel/sync.c\<close> under preemption. A lock is first described
  abstractly, by the phase every thread is in with respect to it, its holder, the value of its
  semaphore and its counter. The invariant of that description is kept by every abstract move,
  and every step of the machine of \<open>Sync\<close> is such a move, or leaves the lock alone. Mutual
  exclusion, the absence of failing assertions inside the locks and the absence of lost
  wake-ups follow.
\<close>

section \<open>A lock, abstractly\<close>

datatype lphase = Out | Got | Counting | Inside | Leaving | Posting

text \<open>What the holder field and the counter can be while a thread in phase \<open>p\<close> has the lock.\<close>

fun held_by :: "u32 \<Rightarrow> lphase \<Rightarrow> u32 \<Rightarrow> u32 \<Rightarrow> bool" where
  "held_by c Got h nr \<longleftrightarrow> h = NULL \<and> nr = 0"
| "held_by c Counting h nr \<longleftrightarrow> h = c \<and> nr = 0"
| "held_by c Inside h nr \<longleftrightarrow> h = c"
| "held_by c Out h nr \<longleftrightarrow> h = c"
| "held_by c Leaving h nr \<longleftrightarrow> h = NULL"
| "held_by c Posting h nr \<longleftrightarrow> h = NULL \<and> nr = 0"

text \<open>Either the lock is free, or exactly one thread has it.\<close>

definition free_lock :: "u32 set \<Rightarrow> (u32 \<Rightarrow> lphase) \<Rightarrow> u32 \<Rightarrow> u8 \<Rightarrow> u32 \<Rightarrow> bool" where
  "free_lock T ph h v nr \<longleftrightarrow> v = 1 \<and> nr = 0 \<and> h = NULL \<and> (\<forall>t \<in> T. ph t = Out)"

definition owned :: "u32 set \<Rightarrow> (u32 \<Rightarrow> lphase) \<Rightarrow> u32 \<Rightarrow> u8 \<Rightarrow> u32 \<Rightarrow> u32 \<Rightarrow> bool" where
  "owned T ph h v nr c \<longleftrightarrow> v = 0 \<and> c \<in> T \<and> (\<forall>t \<in> T. t \<noteq> c \<longrightarrow> ph t = Out) \<and> held_by c (ph c) h nr"

definition lock_ok :: "u32 set \<Rightarrow> (u32 \<Rightarrow> lphase) \<Rightarrow> u32 \<Rightarrow> u8 \<Rightarrow> u32 \<Rightarrow> bool" where
  "lock_ok T ph h v nr \<longleftrightarrow> free_lock T ph h v nr \<or> (\<exists>c. owned T ph h v nr c)"

lemma lock_ok_owner:
  "lock_ok T ph h v nr \<Longrightarrow> c \<in> T \<Longrightarrow> ph c \<noteq> Out \<or> h = c \<and> NULL \<notin> T \<Longrightarrow> owned T ph h v nr c"
proof -
  assume ok: "lock_ok T ph h v nr" and c: "c \<in> T" "ph c \<noteq> Out \<or> h = c \<and> NULL \<notin> T"
  then obtain d where d: "owned T ph h v nr d" by (auto simp: lock_ok_def free_lock_def)
  then have "d = c" using c by (cases "ph d") (auto simp: owned_def)
  with d show ?thesis by simp
qed

lemma owned_lock_ok: "owned T ph h v nr c \<Longrightarrow> lock_ok T ph h v nr"
  by (auto simp: lock_ok_def)

text \<open>The moves of a thread \<open>c\<close>.\<close>

lemma lock_ok_take:
  "lock_ok T ph h v nr \<Longrightarrow> c \<in> T \<Longrightarrow> v \<noteq> 0 \<Longrightarrow> lock_ok T (ph(c := Got)) h 0 nr \<and> v = 1"
  using owned_lock_ok [of T "ph(c := Got)" h 0 nr c] by (auto simp: lock_ok_def free_lock_def owned_def)

lemma lock_ok_hold:
  "lock_ok T ph h v nr \<Longrightarrow> c \<in> T \<Longrightarrow> ph c = Got \<Longrightarrow> lock_ok T (ph(c := Counting)) c v nr"
  using lock_ok_owner [of T ph h v nr c] by (intro owned_lock_ok [where c = c]) (simp add: owned_def)

lemma lock_ok_count:
  "lock_ok T ph h v nr \<Longrightarrow> c \<in> T \<Longrightarrow> ph c = Counting \<Longrightarrow> lock_ok T (ph(c := Out)) h v 1 \<and> nr = 0"
  using lock_ok_owner [of T ph h v nr c] owned_lock_ok [of T "ph(c := Out)" h v 1 c]
  by (simp add: owned_def)

lemma lock_ok_enter:
  "lock_ok T ph h v nr \<Longrightarrow> c \<in> T \<Longrightarrow> NULL \<notin> T \<Longrightarrow> ph c = Out \<Longrightarrow> h = c \<Longrightarrow> lock_ok T (ph(c := Inside)) h v nr"
  using lock_ok_owner [of T ph h v nr c] by (intro owned_lock_ok [where c = c]) (simp add: owned_def)

lemma lock_ok_recount:
  "lock_ok T ph h v nr \<Longrightarrow> c \<in> T \<Longrightarrow> ph c = Inside \<Longrightarrow> lock_ok T (ph(c := Out)) h v nr'"
  using lock_ok_owner [of T ph h v nr c] by (intro owned_lock_ok [where c = c]) (simp add: owned_def)

lemma lock_ok_leave:
  "lock_ok T ph h v nr \<Longrightarrow> c \<in> T \<Longrightarrow> ph c = Inside \<Longrightarrow> lock_ok T (ph(c := Leaving)) NULL v nr"
  using lock_ok_owner [of T ph h v nr c] by (intro owned_lock_ok [where c = c]) (simp add: owned_def)

lemma lock_ok_uncount:
  "lock_ok T ph h v nr \<Longrightarrow> c \<in> T \<Longrightarrow> ph c = Leaving \<Longrightarrow> lock_ok T (ph(c := Posting)) h v 0"
  using lock_ok_owner [of T ph h v nr c] by (intro owned_lock_ok [where c = c]) (simp add: owned_def)

lemma lock_ok_post:
  "lock_ok T ph h v nr \<Longrightarrow> c \<in> T \<Longrightarrow> ph c = Posting \<Longrightarrow> lock_ok T (ph(c := Out)) h 1 nr \<and> v = 0"
  using lock_ok_owner [of T ph h v nr c] by (auto simp: owned_def lock_ok_def free_lock_def)

text \<open>The phase a thread is in, read off its pending steps.\<close>

fun phase :: "u32 \<Rightarrow> frame list \<Rightarrow> lphase" where
  "phase l (Iret flags # fs) = phase l fs"
| "phase l (AcqHolder k # fs) = (if k = l then Got else Out)"
| "phase l (AcqCount k # fs) = (if k = l then Counting else Out)"
| "phase l (AcqIncr k # fs) = (if k = l then Inside else Out)"
| "phase l (RelDecide k # fs) = (if k = l then Inside else Out)"
| "phase l (RelDecr k # fs) = (if k = l then Inside else Out)"
| "phase l (RelHolder k # fs) = (if k = l then Inside else Out)"
| "phase l (RelCount k # fs) = (if k = l then Leaving else Out)"
| "phase l (SemaUp p # fs) = (if p = semaphore_of l then Posting else Out)"
| "phase l fs = Out"

section \<open>What a thread can have pending\<close>

fun interruptible :: "frame list \<Rightarrow> bool" where
  "interruptible (Iret flags # fs) = False"
| "interruptible (KernelThread # fs) = False"
| "interruptible (BlockRet st # fs) = False"
| "interruptible (SemaDownLoop p st # fs) = False"
| "interruptible fs = True"

inductive lock_stack :: "u32 set \<Rightarrow> frame list \<Rightarrow> bool" for L where
  idle: "lock_stack L []"
| entry: "lock_stack L [KernelThread]"
| acq_test: "l \<in> L \<Longrightarrow> lock_stack L [AcqTest l]"
| down: "l \<in> L \<Longrightarrow> lock_stack L [SemaDown (semaphore_of l), AcqHolder l]"
| blocked: "l \<in> L \<Longrightarrow> lock_stack L [BlockRet INTR_OFF, SemaDownLoop (semaphore_of l) old, AcqHolder l]"
| woken: "l \<in> L \<Longrightarrow> lock_stack L [SemaDownLoop (semaphore_of l) old, AcqHolder l]"
| acq_holder: "l \<in> L \<Longrightarrow> lock_stack L [AcqHolder l]"
| acq_count: "l \<in> L \<Longrightarrow> lock_stack L [AcqCount l]"
| acq_incr: "l \<in> L \<Longrightarrow> lock_stack L [AcqIncr l]"
| rel_test: "l \<in> L \<Longrightarrow> lock_stack L [RelTest l]"
| rel_decide: "l \<in> L \<Longrightarrow> lock_stack L [RelDecide l]"
| rel_decr: "l \<in> L \<Longrightarrow> lock_stack L [RelDecr l]"
| rel_holder: "l \<in> L \<Longrightarrow> lock_stack L [RelHolder l]"
| rel_count: "l \<in> L \<Longrightarrow> lock_stack L [RelCount l]"
| up: "l \<in> L \<Longrightarrow> lock_stack L [SemaUp (semaphore_of l)]"
| interrupted: "lock_stack L fs \<Longrightarrow> interruptible fs \<Longrightarrow> lock_stack L (Iret flags # fs)"

inductive_simps lock_stack_Cons: "lock_stack L (f # fs)"

definition waits_for :: "u32 \<Rightarrow> frame list \<Rightarrow> bool" where
  "waits_for l fs \<longleftrightarrow> (\<exists>old. fs = [BlockRet INTR_OFF, SemaDownLoop (semaphore_of l) old, AcqHolder l])"

definition woken_for :: "u32 \<Rightarrow> frame list \<Rightarrow> bool" where
  "woken_for l fs \<longleftrightarrow> waits_for l fs \<or> (\<exists>old. fs = [SemaDownLoop (semaphore_of l) old, AcqHolder l])"

lemma semaphore_of_eq [simp]: "semaphore_of k = semaphore_of l \<longleftrightarrow> k = l"
  by (simp add: semaphore_of_def)

lemma waits_for_unique: "waits_for k fs \<Longrightarrow> waits_for l fs \<Longrightarrow> k = l"
  by (auto simp: waits_for_def)

section \<open>The invariant\<close>

abbreviation wait_list :: "u32 \<Rightarrow> u32" where
  "wait_list l \<equiv> waiters (semaphore_of l)"

definition ends :: "u32 \<Rightarrow> u32 set" where
  "ends q = {head_of q, tail_of q}"

text \<open>No two lists share a sentinel and no sentinel is a tag of a thread.\<close>

definition layout_ok :: "u32 set \<Rightarrow> u32 set \<Rightarrow> u32 \<Rightarrow> bool" where
  "layout_ok L T ready \<longleftrightarrow>
     ends ready \<inter> general_tag ` T = {} \<and>
     (\<forall>k \<in> L. ends (wait_list k) \<inter> (ends ready \<union> general_tag ` T) = {} \<and>
        (\<forall>l \<in> L. k \<noteq> l \<longrightarrow> ends (wait_list k) \<inter> ends (wait_list l) = {}))"

definition waiting_ok :: "u32 set \<Rightarrow> 'a sync_scheme \<Rightarrow> u32 \<Rightarrow> u32 list \<Rightarrow> bool" where
  "waiting_ok T s l w \<longleftrightarrow>
     is_list s (wait_list l) (map general_tag w) \<and>
     (\<forall>t \<in> set w. t \<in> T \<and> status (tasks s t) = TASK_BLOCKED \<and> waits_for l (frames s t)) \<and>
     (sem_value s (semaphore_of l) = 1 \<and> w \<noteq> [] \<longrightarrow> (\<exists>t \<in> T - set w. woken_for l (frames s t)))"

definition sync_inv ::
  "u32 set \<Rightarrow> u32 set \<Rightarrow> (u32 \<Rightarrow> u32) \<Rightarrow> 'a sync_scheme \<Rightarrow> u32 \<Rightarrow> u32 list \<Rightarrow> (u32 \<Rightarrow> u32 list) \<Rightarrow> bool" where
  "sync_inv L T spc s cur rs ws \<longleftrightarrow>
     sched_inv T spc s cur rs \<and> layout_ok L T (thread_ready_list s) \<and>
     (\<forall>t \<in> T. lock_stack L (frames s t) \<and> (t \<noteq> cur \<longrightarrow> \<not> interruptible (frames s t)) \<and>
        status (tasks s t) \<in> {TASK_RUNNING, TASK_READY, TASK_BLOCKED} \<and>
        (status (tasks s t) = TASK_BLOCKED \<longrightarrow> (\<exists>l \<in> L. t \<in> set (ws l)))) \<and>
     (\<not> interruptible (frames s cur) \<longrightarrow> intr_get_status s = INTR_OFF) \<and>
     (\<forall>l \<in> L. waiting_ok T s l (ws l) \<and>
        lock_ok T (\<lambda>t. phase l (frames s t)) (holder s l) (sem_value s (semaphore_of l)) (holder_repeat_nr s l))"

lemma sync_invD:
  assumes "sync_inv L T spc s cur rs ws"
  shows "sched_inv T spc s cur rs" "layout_ok L T (thread_ready_list s)"
    "cur \<in> T" "running_thread s = cur" "status (tasks s cur) = TASK_RUNNING"
    "\<And>t. t \<in> T \<Longrightarrow> lock_stack L (frames s t)" "\<And>l. l \<in> L \<Longrightarrow> waiting_ok T s l (ws l)"
    "\<And>l. l \<in> L \<Longrightarrow> lock_ok T (\<lambda>t. phase l (frames s t)) (holder s l)
       (sem_value s (semaphore_of l)) (holder_repeat_nr s l)"
    "\<not> interruptible (frames s cur) \<Longrightarrow> intr_get_status s = INTR_OFF"
  using assms sched_inv_current [of T spc s cur rs] by (auto simp: sync_inv_def)

text \<open>The running thread waits for nothing.\<close>

lemma current_not_waiting:
  "sync_inv L T spc s cur rs ws \<Longrightarrow> l \<in> L \<Longrightarrow> cur \<notin> set (ws l)"
  using sync_invD(5,7) by (fastforce simp: waiting_ok_def)

lemma sched_inv_cong:
  assumes "sched_inv T spc s cur rs" and "tasks s' = tasks s" and "lnext s' = lnext s" and "lprev s' = lprev s"
    and "esp s' = esp s" and "phys s' = phys s" and "cr3 s' = cr3 s" and "thread_ready_list s' = thread_ready_list s"
  shows "sched_inv T spc s' cur rs"
  using assms is_list_cong [of s' s] by (simp add: sched_inv_def running_thread_def)

section \<open>Steps that leave the scheduler alone\<close>

lemma local_step:
  assumes inv: "sync_inv L T spc s cur rs ws"
    and same: "tasks s' = tasks s" "lnext s' = lnext s" "lprev s' = lprev s" "esp s' = esp s"
      "phys s' = phys s" "cr3 s' = cr3 s" "thread_ready_list s' = thread_ready_list s"
    and frames: "frames s' = (frames s)(cur := fs)" and stack: "lock_stack L fs"
    and off: "\<not> interruptible fs \<Longrightarrow> intr_get_status s' = INTR_OFF"
    and locks: "\<And>k. k \<in> L \<Longrightarrow> lock_ok T ((\<lambda>t. phase k (frames s t))(cur := phase k fs)) (holder s' k)
      (sem_value s' (semaphore_of k)) (holder_repeat_nr s' k)"
    and woken: "\<And>k. k \<in> L \<Longrightarrow> sem_value s' (semaphore_of k) = 1 \<Longrightarrow> ws k \<noteq> [] \<Longrightarrow>
      sem_value s (semaphore_of k) = 1 \<and> (woken_for k (frames s cur) \<longrightarrow> woken_for k fs)"
  shows "sync_inv L T spc s' cur rs ws"
proof -
  have sched: "sched_inv T spc s' cur rs" using sync_invD(1) [OF inv] same by (rule sched_inv_cong)
  have wait: "waiting_ok T s' k (ws k)" if k: "k \<in> L" for k
  proof -
    have w: "waiting_ok T s k (ws k)" and c: "cur \<notin> set (ws k)"
      using sync_invD(7) [OF inv k] current_not_waiting [OF inv k] .
    then have "\<exists>t \<in> T - set (ws k). woken_for k (frames s' t)"
      if "sem_value s' (semaphore_of k) = 1" "ws k \<noteq> []"
      using woken [OF k that] that(2) sync_invD(3) [OF inv] by (auto simp: waiting_ok_def frames)
    then show ?thesis
      using w c same is_list_cong [OF same(2,3)] by (auto simp: waiting_ok_def frames)
  qed
  have ph: "(\<lambda>t. phase k (frames s' t)) = (\<lambda>t. phase k (frames s t))(cur := phase k fs)" for k
    by (auto simp: frames)
  have "lock_ok T (\<lambda>t. phase k (frames s' t)) (holder s' k) (sem_value s' (semaphore_of k))
      (holder_repeat_nr s' k)" if "k \<in> L" for k
    unfolding ph using that by (rule locks)
  then show ?thesis
    using inv sched wait stack off unfolding sync_inv_def frames by (auto simp: same)
qed

section \<open>Lists that are apart\<close>

lemma list_nodes_tags: "list_nodes q (map general_tag xs) = ends q \<union> general_tag ` set xs"
  by (auto simp: list_nodes_def ends_def)

lemma tags_disjoint: "general_tag ` A \<inter> general_tag ` B = {} \<longleftrightarrow> A \<inter> B = {}"
  by auto

lemma nodes_apart:
  assumes "ends q \<inter> ends r = {}" and "ends q \<inter> general_tag ` T = {}" and "ends r \<inter> general_tag ` T = {}"
    and "set xs \<subseteq> T" and "set ys \<subseteq> T" and "set xs \<inter> set ys = {}"
  shows "list_nodes q (map general_tag xs) \<inter> list_nodes r (map general_tag ys) = {}"
proof -
  have un: "A \<inter> C = {} \<Longrightarrow> A \<inter> D = {} \<Longrightarrow> B \<inter> C = {} \<Longrightarrow> B \<inter> D = {} \<Longrightarrow> (A \<union> B) \<inter> (C \<union> D) = {}"
    for A B C D :: "u32 set" by blast
  have mono: "A \<inter> f ` T = {} \<Longrightarrow> set zs \<subseteq> T \<Longrightarrow> A \<inter> f ` set zs = {}"
    for A and f :: "u32 \<Rightarrow> u32" and zs by blast
  show ?thesis
    unfolding list_nodes_tags
  proof (rule un [OF assms(1)])
    show "ends q \<inter> general_tag ` set ys = {}" using assms(2,5) by (rule mono)
    show "general_tag ` set xs \<inter> ends r = {}" using mono [OF assms(3,4)] by (simp add: Int_commute)
    show "general_tag ` set xs \<inter> general_tag ` set ys = {}" using assms(6) by (simp add: tags_disjoint)
  qed
qed

lemma layout_okD:
  assumes "layout_ok L T r" and "k \<in> L"
  shows "ends (wait_list k) \<inter> ends r = {}" "ends r \<inter> general_tag ` T = {}"
    "ends (wait_list k) \<inter> general_tag ` T = {}"
    "\<And>l. l \<in> L \<Longrightarrow> k \<noteq> l \<Longrightarrow> ends (wait_list k) \<inter> ends (wait_list l) = {}"
proof -
  note layout = assms(1) [unfolded layout_ok_def]
  show "ends r \<inter> general_tag ` T = {}" using layout by (rule conjunct1)
  have k: "ends (wait_list k) \<inter> (ends r \<union> general_tag ` T) = {} \<and>
      (\<forall>l \<in> L. k \<noteq> l \<longrightarrow> ends (wait_list k) \<inter> ends (wait_list l) = {})"
    using conjunct2 [OF layout] assms(2) by (rule bspec)
  have apart: "A \<inter> (B \<union> C) = {} \<Longrightarrow> A \<inter> B = {} \<and> A \<inter> C = {}" for A B C :: "u32 set" by blast
  show "ends (wait_list k) \<inter> ends r = {}" "ends (wait_list k) \<inter> general_tag ` T = {}"
    using apart [OF conjunct1 [OF k]] by (rule conjunct1, rule conjunct2)
  show "ends (wait_list k) \<inter> ends (wait_list l) = {}" if "l \<in> L" "k \<noteq> l" for l
    using conjunct2 [OF k] that by simp
qed

lemma wait_ready_apart:
  "layout_ok L T r \<Longrightarrow> k \<in> L \<Longrightarrow> set xs \<subseteq> T \<Longrightarrow> set ys \<subseteq> T \<Longrightarrow> set xs \<inter> set ys = {} \<Longrightarrow>
   list_nodes (wait_list k) (map general_tag xs) \<inter> list_nodes r (map general_tag ys) = {}"
  using layout_okD(1-3) by (intro nodes_apart [where T = T])

lemma wait_wait_apart:
  "layout_ok L T r \<Longrightarrow> k \<in> L \<Longrightarrow> l \<in> L \<Longrightarrow> k \<noteq> l \<Longrightarrow> set xs \<subseteq> T \<Longrightarrow> set ys \<subseteq> T \<Longrightarrow> set xs \<inter> set ys = {} \<Longrightarrow>
   list_nodes (wait_list k) (map general_tag xs) \<inter> list_nodes (wait_list l) (map general_tag ys) = {}"
  using layout_okD(3,4) by (intro nodes_apart [where T = T])

lemma waiters_sets:
  assumes inv: "sync_inv L T spc s cur rs ws" and l: "l \<in> L"
  shows "set (ws l) \<subseteq> T" "set (ws l) \<inter> set rs = {}" "cur \<notin> set (ws l)" "set rs \<subseteq> T" "cur \<notin> set rs"
    "\<And>k. k \<in> L \<Longrightarrow> k \<noteq> l \<Longrightarrow> set (ws k) \<inter> set (ws l) = {}"
proof -
  have w: "t \<in> T \<and> status (tasks s t) = TASK_BLOCKED \<and> waits_for k (frames s t)" if "k \<in> L" "t \<in> set (ws k)" for k t
    using sync_invD(7) [OF inv that(1)] that(2) by (auto simp: waiting_ok_def)
  note sched = sync_invD(1) [OF inv]
  show "set (ws l) \<subseteq> T" "cur \<notin> set (ws l)" using w [OF l] current_not_waiting [OF inv l] by auto
  show "set rs \<subseteq> T" "cur \<notin> set rs" using sched by (auto simp: sched_inv_def)
  have "status (tasks s t) = TASK_READY" if "t \<in> set rs" for t
    using sched that by (auto simp: sched_inv_def)
  then show "set (ws l) \<inter> set rs = {}" using w [OF l] by fastforce
  show "set (ws k) \<inter> set (ws l) = {}" if "k \<in> L" "k \<noteq> l" for k
    using w [OF l] w [OF that(1)] that(2) waits_for_unique by blast
qed

section \<open>Blocking on a semaphore\<close>

lemma push_frames_simps [simp]:
  "tasks (push_frames t fs s) = tasks s" "lnext (push_frames t fs s) = lnext s"
  "lprev (push_frames t fs s) = lprev s" "esp (push_frames t fs s) = esp s"
  "phys (push_frames t fs s) = phys s" "cr3 (push_frames t fs s) = cr3 s"
  "thread_ready_list (push_frames t fs s) = thread_ready_list s" "eflags (push_frames t fs s) = eflags s"
  "sem_value (push_frames t fs s) = sem_value s" "holder (push_frames t fs s) = holder s"
  "holder_repeat_nr (push_frames t fs s) = holder_repeat_nr s"
  "frames (push_frames t fs s) = (frames s)(t := fs @ frames s t)"
  by (simp_all add: push_frames_def)

lemma waiting_ok_keep:
  assumes w: "waiting_ok T s k w" and cur: "cur \<notin> set w" "\<not> woken_for k (frames s cur)"
    and list: "is_list s' (wait_list k) (map general_tag w)"
    and fr: "\<And>t. t \<noteq> cur \<Longrightarrow> frames s' t = frames s t"
    and st: "\<And>t. t \<in> set w \<Longrightarrow> status (tasks s' t) = status (tasks s t)"
    and v: "sem_value s' = sem_value s"
  shows "waiting_ok T s' k w"
proof -
  have "\<exists>t \<in> T - set w. woken_for k (frames s' t)" if val: "sem_value s' (semaphore_of k) = 1" "w \<noteq> []"
  proof -
    obtain t where t: "t \<in> T - set w" "woken_for k (frames s t)"
      using w val v by (auto simp: waiting_ok_def)
    then have "t \<noteq> cur" using cur(2) by auto
    then show ?thesis using t fr by (intro bexI [of _ t]) simp_all
  qed
  moreover have "t \<noteq> cur" if "t \<in> set w" for t using cur(1) that by auto
  ultimately show ?thesis using w list fr st unfolding waiting_ok_def by auto
qed

lemma enqueue_waiter:
  assumes inv: "sync_inv L T spc s cur rs ws" and l: "l \<in> L"
    and same: "tasks s0 = tasks s" "lnext s0 = lnext s" "lprev s0 = lprev s" "esp s0 = esp s"
      "phys s0 = phys s" "cr3 s0 = cr3 s" "thread_ready_list s0 = thread_ready_list s"
  defines "s1 \<equiv> list_append (wait_list l) (general_tag cur) s0"
  shows "sched_inv T spc s1 cur rs"
    and "is_list s1 (wait_list l) (map general_tag (ws l @ [cur]))"
    and "elem_find s0 (wait_list l) (general_tag cur) = Some False"
    and "\<And>q xs. is_list s q (map general_tag xs) \<Longrightarrow>
      list_nodes q (map general_tag xs) \<inter> list_nodes (wait_list l) (map general_tag (ws l @ [cur])) = {} \<Longrightarrow>
      is_list s1 q (map general_tag xs)"
proof -
  note D = sync_invD [OF inv] and W = waiters_sets [OF inv]
  let ?w = "wait_list l" and ?r = "thread_ready_list s"
  have list0: "is_list s0 q xs \<longleftrightarrow> is_list s q xs" for q xs using is_list_cong [OF same(2,3)] .
  have wl: "is_list s0 ?w (map general_tag (ws l))" using D(7) [OF l] by (simp add: waiting_ok_def list0)
  have fresh: "general_tag cur \<notin> list_nodes ?w (map general_tag (ws l))"
    using wait_ready_apart [OF D(2) l, of "ws l" "[cur]"] W(1,3) [OF l] D(3) by (auto simp: list_nodes_tags)
  show keep1: "is_list s1 q (map general_tag xs)" if "is_list s q (map general_tag xs)"
    and "list_nodes q (map general_tag xs) \<inter> list_nodes ?w (map general_tag (ws l @ [cur])) = {}" for q xs
    unfolding s1_def using that by (intro lq.enq_other [OF wl]) (auto simp: list0)
  show "is_list s1 ?w (map general_tag (ws l @ [cur]))"
    unfolding s1_def using lq.rep_enq [OF wl fresh] by simp
  have "is_list s1 ?r (map general_tag rs)"
    using sched_inv_list [OF D(1)] wait_ready_apart [OF D(2) l, of "ws l @ [cur]" rs] W(1-5) [OF l] D(3)
    by (intro keep1) (auto simp: Int_commute)
  then show "sched_inv T spc s1 cur rs"
    using D(1) unfolding sched_inv_def by (simp add: s1_def running_thread_def same)
  show "elem_find s0 ?w (general_tag cur) = Some False"
    using lq.mem_iff [OF wl, of "general_tag cur"] W(3) [OF l] by (simp add: image_iff)
qed

lemma block_run:
  assumes inv: "sync_inv L T spc s cur (n # ns) ws" and l: "l \<in> L"
    and same: "tasks s0 = tasks s" "lnext s0 = lnext s" "lprev s0 = lprev s" "esp s0 = esp s"
      "phys s0 = phys s" "cr3 s0 = cr3 s" "thread_ready_list s0 = thread_ready_list s"
      "sem_value s0 = sem_value s" "holder s0 = holder s" "holder_repeat_nr s0 = holder_repeat_nr s"
    and frames: "frames s0 = (frames s)(cur := [AcqHolder l])" and off: "intr_get_status s0 = INTR_OFF"
    and before: "\<And>k. woken_for k (frames s cur) \<Longrightarrow> k = l" "\<And>k. phase k (frames s cur) = Out"
    and v: "sem_value s (semaphore_of l) = 0"
  obtains s' where "sema_dowm_loop (semaphore_of l) old s0 = Inr s'" and "sched_inv T spc s' n ns"
    and "layout_ok L T (thread_ready_list s')" and "intr_get_status s' = INTR_OFF"
    and "frames s' = (frames s)(cur := [BlockRet INTR_OFF, SemaDownLoop (semaphore_of l) old, AcqHolder l])"
    and "sem_value s' = sem_value s" and "holder s' = holder s" and "holder_repeat_nr s' = holder_repeat_nr s"
    and "\<forall>t. t \<noteq> n \<longrightarrow> status (tasks s' t) = (if t = cur then TASK_BLOCKED else status (tasks s t))"
    and "is_list s' (wait_list l) (map general_tag (ws l @ [cur]))"
    and "\<forall>k \<in> L. k \<noteq> l \<longrightarrow> is_list s' (wait_list k) (map general_tag (ws k))"
proof -
  note D = sync_invD [OF inv] and W = waiters_sets [OF inv]
  let ?w = "wait_list l" and ?r = "thread_ready_list s"
  define s1 where "s1 = list_append ?w (general_tag cur) s0"
  note enqueue = enqueue_waiter [OF inv l same(1-7), folded s1_def]
  note sched1 = enqueue(1) and wl1 = enqueue(2) and keep1 = enqueue(4)
  have off1: "intr_get_status s1 = INTR_OFF" using off by (simp add: intr_get_status_def s1_def)
  have bl: "blockable TASK_BLOCKED" by (simp add: blockable_def)
  obtain s2 where s2: "thread_block TASK_BLOCKED s1 = Inr (intr_get_status s1, s2)" "sched_inv T spc s2 n ns"
    "sched_frame (list_nodes (thread_ready_list s1) (map general_tag (n # ns))) s1 s2"
    "intr_get_status s2 = INTR_OFF" "eflags s2 = eflags (cli s1)"
    "\<And>t. t \<noteq> n \<Longrightarrow> status (tasks s2 t) = (if t = cur then TASK_BLOCKED else status (tasks s1 t))"
    by (rule thread_block_inv [OF sched1 bl]) blast
  have m2: "sem_value s2 = sem_value s1" "holder s2 = holder s1" "holder_repeat_nr s2 = holder_repeat_nr s1"
    "frames s2 = frames s1"
    by (rule more_eqD [OF thread_block_more [OF s2(1)]])+
  have m1: "sem_value s1 = sem_value s0" "holder s1 = holder s0" "holder_repeat_nr s1 = holder_repeat_nr s0"
    "frames s1 = frames s0"
    by (rule more_eqD; simp add: s1_def)+
  have run0: "running_thread s0 = cur" "running_thread s1 = cur"
    using D(4) by (simp_all add: running_thread_def same s1_def)
  define fs where "fs = [BlockRet INTR_OFF, SemaDownLoop (semaphore_of l) old, AcqHolder l]"
  define s' where "s' = push_frames cur [BlockRet INTR_OFF, SemaDownLoop (semaphore_of l) old] s2"
  have frames': "frames s' = (frames s)(cur := fs)" by (simp add: s'_def m1 m2 frames fs_def)
  have loop: "sema_dowm_loop (semaphore_of l) old s0 = Inr s'"
    using v enqueue(3) s2(1)
    by (simp add: sema_dowm_loop_def same assert_not_in_def run0 s1_def [symmetric] off1 s'_def)
  have ready1: "thread_ready_list s1 = ?r" by (simp add: s1_def same)
  have lists': "is_list s' q (map general_tag xs)" if "is_list s1 q (map general_tag xs)"
    and "list_nodes q (map general_tag xs) \<inter> list_nodes ?r (map general_tag (n # ns)) = {}" for q xs
    using s2(3) that is_list_cong [of s' s2] unfolding sched_frame_def keeps_lists_def ready1 by (simp add: s'_def)
  have status': "status (tasks s' t) = (if t = cur then TASK_BLOCKED else status (tasks s t))" if "t \<noteq> n" for t
    using s2(6) [OF that] by (simp add: s'_def s1_def same)
  have waitl: "is_list s' (wait_list l) (map general_tag (ws l @ [cur]))"
    using wl1 wait_ready_apart [OF D(2) l, of "ws l @ [cur]" "n # ns"] W(1-5) [OF l] D(3)
    by (intro lists') auto
  have waitk: "is_list s' (wait_list k) (map general_tag (ws k))" if k: "k \<in> L" "k \<noteq> l" for k
  proof -
    have "is_list s1 (wait_list k) (map general_tag (ws k))"
      using D(7) [OF k(1)] wait_wait_apart [OF D(2) k(1) l k(2), of "ws k" "ws l @ [cur]"]
        W(1,3) [OF l] W(1,3) [OF k(1)] W(6) [OF l k(1) k(2)] D(3)
      by (intro keep1) (auto simp: waiting_ok_def)
    then show ?thesis
      using wait_ready_apart [OF D(2) k(1), of "ws k" "n # ns"] W(1-5) [OF k(1)] by (intro lists') auto
  qed
  have sched': "sched_inv T spc s' n ns" using s2(2) by (rule sched_inv_cong) (simp_all add: s'_def)
  have layout: "layout_ok L T (thread_ready_list s')" using s2(3) D(2) by (simp add: s'_def sched_frame_def ready1)
  show thesis
    by (rule that [OF loop sched' layout _ frames' [unfolded fs_def] _ _ _ _ waitl])
      (use s2(4) status' waitk in \<open>simp_all add: s'_def m1 m2 same intr_get_status_def\<close>)
qed

lemma block_waiting:
  assumes inv: "sync_inv L T spc s cur rs ws" and l: "l \<in> L" and n: "n \<noteq> cur" "\<And>k. k \<in> L \<Longrightarrow> n \<notin> set (ws k)"
    and before: "\<And>k. woken_for k (frames s cur) \<Longrightarrow> k = l" and v: "sem_value s (semaphore_of l) = 0"
    and frames': "frames s' = (frames s)(cur := [BlockRet INTR_OFF, SemaDownLoop (semaphore_of l) old, AcqHolder l])"
    and same': "sem_value s' = sem_value s"
    and status': "\<And>t. t \<noteq> n \<Longrightarrow> status (tasks s' t) = (if t = cur then TASK_BLOCKED else status (tasks s t))"
    and listl: "is_list s' (wait_list l) (map general_tag (ws l @ [cur]))"
    and listk: "\<forall>k \<in> L. k \<noteq> l \<longrightarrow> is_list s' (wait_list k) (map general_tag (ws k))"
    and k: "k \<in> L"
  shows "waiting_ok T s' k ((ws(l := ws l @ [cur])) k)"
proof -
  note D = sync_invD [OF inv] and W = waiters_sets [OF inv]
  have waitl: "waiting_ok T s' l (ws l @ [cur])"
    unfolding waiting_ok_def
  proof (intro conjI)
    show "is_list s' (wait_list l) (map general_tag (ws l @ [cur]))" by (rule listl)
    show "\<forall>t \<in> set (ws l @ [cur]). t \<in> T \<and> status (tasks s' t) = TASK_BLOCKED \<and> waits_for l (frames s' t)"
    proof
      fix t assume t: "t \<in> set (ws l @ [cur])"
      then have "t \<noteq> n" using n(2) [OF l] n(1) by auto
      note st = status' [OF this]
      show "t \<in> T \<and> status (tasks s' t) = TASK_BLOCKED \<and> waits_for l (frames s' t)"
      proof (cases "t = cur")
        case True
        then show ?thesis using D(3) st by (simp add: frames' waits_for_def)
      next
        case False
        then show ?thesis using t D(7) [OF l] st by (auto simp: waiting_ok_def frames')
      qed
    qed
  qed (simp add: same' v)
  have waitk: "waiting_ok T s' k (ws k)" if k: "k \<in> L" "k \<noteq> l" for k
  proof (rule waiting_ok_keep [OF D(7) [OF k(1)] W(3) [OF k(1)]])
    show "\<not> woken_for k (frames s cur)" using before k(2) by blast
    show "is_list s' (wait_list k) (map general_tag (ws k))" using listk k by blast
    show "status (tasks s' t) = status (tasks s t)" if "t \<in> set (ws k)" for t
    proof -
      have "t \<noteq> n" "t \<noteq> cur" using that n(2) [OF k(1)] W(3) [OF k(1)] by auto
      then show ?thesis using status' by simp
    qed
  qed (simp_all add: frames' same')
  show ?thesis using waitl waitk k by simp
qed

lemma block_step:
  assumes inv: "sync_inv L T spc s cur (n # ns) ws" and l: "l \<in> L"
    and same: "tasks s0 = tasks s" "lnext s0 = lnext s" "lprev s0 = lprev s" "esp s0 = esp s"
      "phys s0 = phys s" "cr3 s0 = cr3 s" "thread_ready_list s0 = thread_ready_list s"
      "sem_value s0 = sem_value s" "holder s0 = holder s" "holder_repeat_nr s0 = holder_repeat_nr s"
    and frames: "frames s0 = (frames s)(cur := [AcqHolder l])" and off: "intr_get_status s0 = INTR_OFF"
    and before: "\<And>k. woken_for k (frames s cur) \<Longrightarrow> k = l" "\<And>k. phase k (frames s cur) = Out"
    and v: "sem_value s (semaphore_of l) = 0"
  obtains s' where "sema_dowm_loop (semaphore_of l) old s0 = Inr s'"
    and "sync_inv L T spc s' n ns (ws(l := ws l @ [cur]))"
proof -
  note D = sync_invD [OF inv] and W = waiters_sets [OF inv]
  obtain s' where R: "sema_dowm_loop (semaphore_of l) old s0 = Inr s'" "sched_inv T spc s' n ns"
    "layout_ok L T (thread_ready_list s')" "intr_get_status s' = INTR_OFF"
    and frames': "frames s' = (frames s)(cur := [BlockRet INTR_OFF, SemaDownLoop (semaphore_of l) old, AcqHolder l])"
    and same': "sem_value s' = sem_value s" "holder s' = holder s" "holder_repeat_nr s' = holder_repeat_nr s"
    and st: "\<forall>t. t \<noteq> n \<longrightarrow> status (tasks s' t) = (if t = cur then TASK_BLOCKED else status (tasks s t))"
    and listl: "is_list s' (wait_list l) (map general_tag (ws l @ [cur]))"
    and listk: "\<forall>k \<in> L. k \<noteq> l \<longrightarrow> is_list s' (wait_list k) (map general_tag (ws k))"
    by (rule block_run [OF assms, where old = old])
  have status': "status (tasks s' t) = (if t = cur then TASK_BLOCKED else status (tasks s t))" if "t \<noteq> n" for t
    using st that by blast
  have running': "status (tasks s' n) = TASK_RUNNING" "n \<in> T" "n \<noteq> cur"
    using sched_inv_current [OF R(2)] W(5) [OF l] by auto
  have waiting: "waiting_ok T s' k ((ws(l := ws l @ [cur])) k)" if "k \<in> L" for k
  proof (rule block_waiting [OF inv l running'(3) _ _ v frames' same'(1) _ listl listk that])
    show "n \<notin> set (ws i)" if "i \<in> L" for i using W(2) [OF that] by auto
  qed (use before(1) status' in blast)+
  have ph: "phase k (frames s' t) = phase k (frames s t)" for k t
    using before(2) by (simp add: frames')
  have "sync_inv L T spc s' n ns (ws(l := ws l @ [cur]))"
    unfolding sync_inv_def ph
  proof (intro conjI ballI impI)
    fix t assume t: "t \<in> T"
    show "lock_stack L (frames s' t)" using D(6) [OF t] l by (simp add: frames' lock_stack.blocked)
    show "\<not> interruptible (frames s' t)" if "t \<noteq> n"
      using inv t by (auto simp: sync_inv_def frames')
    show "status (tasks s' t) \<in> {TASK_RUNNING, TASK_READY, TASK_BLOCKED}"
    proof (cases "t = n")
      case True
      then show ?thesis using running'(1) by simp
    next
      case False
      then show ?thesis using inv t status' [OF False] by (simp add: sync_inv_def)
    qed
    show "\<exists>k \<in> L. t \<in> set ((ws(l := ws l @ [cur])) k)" if "status (tasks s' t) = TASK_BLOCKED"
    proof (cases "t = cur")
      case True
      then show ?thesis using l by auto
    next
      case False
      have "t \<noteq> n" using that running'(1) by auto
      then have "status (tasks s t) = TASK_BLOCKED" using that status' [of t] False by simp
      then show ?thesis using inv t by (auto simp: sync_inv_def)
    qed
  next
    fix k assume k: "k \<in> L"
    show "waiting_ok T s' k ((ws(l := ws l @ [cur])) k)" by (rule waiting [OF k])
    show "lock_ok T (\<lambda>t. phase k (frames s t)) (holder s' k) (sem_value s' (semaphore_of k)) (holder_repeat_nr s' k)"
      using D(8) [OF k] by (simp add: same')
  qed (rule R(2-4))+
  with R(1) show thesis by (rule that)
qed

lemma block_nobody:
  assumes inv: "sync_inv L T spc s cur [] ws" and l: "l \<in> L"
    and same: "tasks s0 = tasks s" "lnext s0 = lnext s" "lprev s0 = lprev s" "esp s0 = esp s"
      "phys s0 = phys s" "cr3 s0 = cr3 s" "thread_ready_list s0 = thread_ready_list s"
    and v: "sem_value s0 (semaphore_of l) = 0"
  shows "sema_dowm_loop (semaphore_of l) old s0 = Inl (Panic ''schedule'' ''!list_empty(&thread_ready_list)'')"
proof -
  note enqueue = enqueue_waiter [OF inv l same]
  have "running_thread s0 = cur" using sync_invD(4) [OF inv] by (simp add: running_thread_def same)
  moreover have "blockable TASK_BLOCKED" by (simp add: blockable_def)
  ultimately show ?thesis
    using v enqueue(3) thread_block_nobody [OF enqueue(1)]
    by (simp add: sema_dowm_loop_def assert_not_in_def)
qed

section \<open>Releasing a semaphore\<close>

lemma set_value_simps [simp]:
  "tasks (set_value p v s) = tasks s" "lnext (set_value p v s) = lnext s"
  "lprev (set_value p v s) = lprev s" "esp (set_value p v s) = esp s"
  "phys (set_value p v s) = phys s" "cr3 (set_value p v s) = cr3 s"
  "thread_ready_list (set_value p v s) = thread_ready_list s" "eflags (set_value p v s) = eflags s"
  "sem_value (set_value p v s) = (sem_value s)(p := v)" "holder (set_value p v s) = holder s"
  "holder_repeat_nr (set_value p v s) = holder_repeat_nr s" "frames (set_value p v s) = frames s"
  by (simp_all add: set_value_def)

lemma status_fields_sync [simp]:
  "sem_value (snd (intr_set_status st s)) = sem_value s" "holder (snd (intr_set_status st s)) = holder s"
  "holder_repeat_nr (snd (intr_set_status st s)) = holder_repeat_nr s"
  "frames (snd (intr_set_status st s)) = frames s"
  "sem_value (cli s) = sem_value s" "holder (cli s) = holder s"
  "holder_repeat_nr (cli s) = holder_repeat_nr s" "frames (cli s) = frames s"
  by (rule more_eqD; simp)+

lemma wake_run:
  assumes inv: "sync_inv L T spc s cur rs ws" and l: "l \<in> L" and w: "ws l = w # wl"
    and top: "frames s cur = [SemaUp (semaphore_of l)]"
  obtains s' where "sema_up (semaphore_of l) (s\<lparr>frames := (frames s)(cur := [])\<rparr>) = Inr s'"
    and "sched_inv T spc s' cur (w # rs)" and "layout_ok L T (thread_ready_list s')"
    and "holder s' = holder s" and "holder_repeat_nr s' = holder_repeat_nr s" and "frames s' = (frames s)(cur := [])"
    and "sem_value s' = (sem_value s)(semaphore_of l := 1)" and "tasks s' = (tasks s)(w := (tasks s w)\<lparr>status := TASK_READY\<rparr>)"
    and "is_list s' (wait_list l) (map general_tag wl)"
    and "\<forall>k \<in> L. k \<noteq> l \<longrightarrow> is_list s' (wait_list k) (map general_tag (ws k))"
proof -
  note D = sync_invD [OF inv] and W = waiters_sets [OF inv]
  let ?w = "wait_list l" and ?r = "thread_ready_list s"
  define s0 where "s0 = s\<lparr>frames := (frames s)(cur := [])\<rparr>"
  define s1 where "s1 = cli s0"
  have same1: "tasks s1 = tasks s" "lnext s1 = lnext s" "lprev s1 = lprev s" "esp s1 = esp s"
    "phys s1 = phys s" "cr3 s1 = cr3 s" "thread_ready_list s1 = ?r" "sem_value s1 = sem_value s"
    "holder s1 = holder s" "holder_repeat_nr s1 = holder_repeat_nr s"
    "frames s1 = (frames s)(cur := [])"
    by (simp_all add: s1_def s0_def)
  have list1: "is_list s1 q xs \<longleftrightarrow> is_list s q xs" for q xs using is_list_cong [OF same1(2,3)] .
  have v: "sem_value s (semaphore_of l) = 0"
    using lock_ok_post [OF D(8) [OF l] D(3)] top by simp
  have wl: "is_list s1 ?w (general_tag w # map general_tag wl)"
    using D(7) [OF l] by (simp add: waiting_ok_def list1 w)
  define s2 where "s2 = snd (list_pop ?w s1)"
  have pop: "list_pop ?w s1 = (general_tag w, s2)"
    using lq.deq_elem [OF wl] by (simp add: s2_def prod_eq_iff)
  have m2: "sem_value s2 = sem_value s1" "holder s2 = holder s1" "holder_repeat_nr s2 = holder_repeat_nr s1"
    "frames s2 = frames s1"
    by (rule more_eqD; simp add: s2_def)+
  have wl2: "is_list s2 ?w (map general_tag wl)" unfolding s2_def using wl by (rule lq.rep_deq)
  have keep2: "is_list s2 q (map general_tag xs)" if "is_list s q (map general_tag xs)"
    and "list_nodes q (map general_tag xs) \<inter> list_nodes ?w (map general_tag (ws l)) = {}" for q xs
    unfolding s2_def using that wl by (intro lq.deq_other [OF wl]) (auto simp: list1 w)
  have "is_list s2 ?r (map general_tag rs)"
    using sched_inv_list [OF D(1)] wait_ready_apart [OF D(2) l, of "ws l" rs] W(1-5) [OF l]
    by (intro keep2) (auto simp: Int_commute)
  then have sched2: "sched_inv T spc s2 cur rs"
    using D(1) unfolding sched_inv_def by (simp add: s2_def running_thread_def same1)
  have wT: "w \<in> T" "status (tasks s w) = TASK_BLOCKED" "waits_for l (frames s w)"
    using D(7) [OF l] by (auto simp: waiting_ok_def w)
  have bl: "blockable (status (tasks s2 w))" using wT by (simp add: s2_def same1 blockable_def)
  obtain s3 where s3: "thread_unblock w s2 = Inr s3" "sched_inv T spc s3 cur (w # rs)"
    "sched_frame (list_nodes (thread_ready_list s2) (map general_tag (w # rs))) s2 s3"
    "eflags s3 = eflags s2" "tasks s3 = (tasks s2)(w := (tasks s2 w)\<lparr>status := TASK_READY\<rparr>)"
    by (rule thread_unblock_inv [OF sched2 wT(1) bl]) blast
  have m3: "sem_value s3 = sem_value s2" "holder s3 = holder s2" "holder_repeat_nr s3 = holder_repeat_nr s2"
    "frames s3 = frames s2"
    by (rule more_eqD [OF thread_unblock_more [OF s3(1)]])+
  define s' where "s' = snd (intr_set_status (intr_get_status s0) (set_value (semaphore_of l) 1 s3))"
  have ready2: "thread_ready_list s2 = ?r" by (simp add: s2_def same1)
  have up: "sema_up (semaphore_of l) s0 = Inr s'"
    using v pop s3(1) list_empty_iff [OF wl]
    by (simp add: sema_up_def intr_disable_eq s1_def [symmetric] same1 m2 m3 s'_def)
  have m': "holder s' = holder s" "holder_repeat_nr s' = holder_repeat_nr s"
    "frames s' = (frames s)(cur := [])" "sem_value s' = (sem_value s)(semaphore_of l := 1)"
    by (simp_all add: s'_def m2 m3 same1)
  have tasks': "tasks s' = (tasks s)(w := (tasks s w)\<lparr>status := TASK_READY\<rparr>)"
    by (simp add: s'_def s3(5)) (simp add: s2_def same1)
  have lists': "is_list s' q (map general_tag xs)" if "is_list s2 q (map general_tag xs)"
    and "list_nodes q (map general_tag xs) \<inter> list_nodes ?r (map general_tag (w # rs)) = {}" for q xs
    using s3(3) that is_list_cong [of s' s3] unfolding sched_frame_def keeps_lists_def ready2 by (simp add: s'_def)
  have sched': "sched_inv T spc s' cur (w # rs)" using s3(2) by (rule sched_inv_cong) (simp_all add: s'_def)
  have dist: "distinct (ws l)" using D(7) [OF l] map_general_tag_distinct by (auto simp: waiting_ok_def)
  have w_cur: "w \<noteq> cur" using W(3) [OF l] w by auto
  have w_other: "w \<notin> set (ws k)" if "k \<in> L" "k \<noteq> l" for k using W(6) [OF l that] w by auto
  have w_rest: "w \<notin> set wl" using dist w by simp
  have waitl: "is_list s' (wait_list l) (map general_tag wl)"
    using wl2 wait_ready_apart [OF D(2) l, of wl "w # rs"] W(1-5) [OF l] w w_rest by (intro lists') auto
  have waitk: "is_list s' (wait_list k) (map general_tag (ws k))" if k: "k \<in> L" "k \<noteq> l" for k
  proof -
    have "is_list s2 (wait_list k) (map general_tag (ws k))"
      using D(7) [OF k(1)] wait_wait_apart [OF D(2) k(1) l k(2), of "ws k" "ws l"] W(1) [OF l] W(1) [OF k(1)] W(6) [OF l k]
      by (intro keep2) (auto simp: waiting_ok_def)
    then show ?thesis
      using wait_ready_apart [OF D(2) k(1), of "ws k" "w # rs"] W(1-5) [OF k(1)] w_other [OF k] wT(1)
      by (intro lists') auto
  qed
  have layout: "layout_ok L T (thread_ready_list s')" using s3(3) D(2) by (simp add: s'_def sched_frame_def ready2)
  show thesis by (rule that [OF up [unfolded s0_def] sched' layout m' tasks' waitl]) (use waitk in blast)
qed

lemma wake_waiting:
  assumes inv: "sync_inv L T spc s cur rs ws" and l: "l \<in> L" and w: "ws l = w # wl"
    and top: "frames s cur = [SemaUp (semaphore_of l)]"
    and m': "frames s' = (frames s)(cur := [])" "sem_value s' = (sem_value s)(semaphore_of l := 1)"
    and tasks': "tasks s' = (tasks s)(w := (tasks s w)\<lparr>status := TASK_READY\<rparr>)"
    and listl: "is_list s' (wait_list l) (map general_tag wl)"
    and listk: "\<forall>k \<in> L. k \<noteq> l \<longrightarrow> is_list s' (wait_list k) (map general_tag (ws k))"
    and k: "k \<in> L"
  shows "waiting_ok T s' k ((ws(l := wl)) k)"
proof -
  note D = sync_invD [OF inv] and W = waiters_sets [OF inv]
  have wT: "w \<in> T" "status (tasks s w) = TASK_BLOCKED" "waits_for l (frames s w)"
    using D(7) [OF l] by (auto simp: waiting_ok_def w)
  have dist: "distinct (ws l)" using D(7) [OF l] map_general_tag_distinct by (auto simp: waiting_ok_def)
  have w_cur: "w \<noteq> cur" using W(3) [OF l] w by auto
  have w_other: "w \<notin> set (ws k)" if "k \<in> L" "k \<noteq> l" for k using W(6) [OF l that] w by auto
  have w_rest: "w \<notin> set wl" using dist w by simp
  have waitl: "waiting_ok T s' l wl"
    unfolding waiting_ok_def
  proof (intro conjI impI)
    show "is_list s' (wait_list l) (map general_tag wl)" by (rule listl)
    show "\<forall>t \<in> set wl. t \<in> T \<and> status (tasks s' t) = TASK_BLOCKED \<and> waits_for l (frames s' t)"
      using D(7) [OF l] w_rest W(3) [OF l] by (auto simp: waiting_ok_def w m' tasks')
    show "\<exists>t \<in> T - set wl. woken_for l (frames s' t)"
      using wT w_rest w_cur by (intro bexI [of _ w]) (simp_all add: m' woken_for_def)
  qed
  have waitk: "waiting_ok T s' k (ws k)" if k: "k \<in> L" "k \<noteq> l" for k
  proof -
    have wk: "waiting_ok T s k (ws k)" using D(7) [OF k(1)] .
    have "is_list s' (wait_list k) (map general_tag (ws k))" using listk k by blast
    moreover have "\<exists>t \<in> T - set (ws k). woken_for k (frames s' t)"
      if val: "sem_value s (semaphore_of k) = 1" "ws k \<noteq> []"
    proof -
      obtain t where t: "t \<in> T - set (ws k)" "woken_for k (frames s t)"
        using wk val by (auto simp: waiting_ok_def)
      then have "t \<noteq> cur" using top by (auto simp: woken_for_def waits_for_def)
      then show ?thesis using t by (intro bexI [of _ t]) (simp_all add: m')
    qed
    ultimately show ?thesis
      using wk k(2) w_other [OF k] W(3) [OF k(1)] by (auto simp: waiting_ok_def m' tasks')
  qed
  show ?thesis using waitl waitk k by simp
qed

lemma wake_step:
  assumes inv: "sync_inv L T spc s cur rs ws" and l: "l \<in> L" and w: "ws l = w # wl"
    and top: "frames s cur = [SemaUp (semaphore_of l)]"
  obtains s' where "sema_up (semaphore_of l) (s\<lparr>frames := (frames s)(cur := [])\<rparr>) = Inr s'"
    and "sync_inv L T spc s' cur (w # rs) (ws(l := wl))"
proof -
  note D = sync_invD [OF inv] and W = waiters_sets [OF inv]
  obtain s' where R: "sema_up (semaphore_of l) (s\<lparr>frames := (frames s)(cur := [])\<rparr>) = Inr s'"
    "sched_inv T spc s' cur (w # rs)" "layout_ok L T (thread_ready_list s')"
    and m': "holder s' = holder s" "holder_repeat_nr s' = holder_repeat_nr s" "frames s' = (frames s)(cur := [])"
      "sem_value s' = (sem_value s)(semaphore_of l := 1)"
    and tasks': "tasks s' = (tasks s)(w := (tasks s w)\<lparr>status := TASK_READY\<rparr>)"
    and listl: "is_list s' (wait_list l) (map general_tag wl)"
    and listk: "\<forall>k \<in> L. k \<noteq> l \<longrightarrow> is_list s' (wait_list k) (map general_tag (ws k))"
    by (rule wake_run [OF assms])
  have post: "lock_ok T ((\<lambda>t. phase l (frames s t))(cur := Out)) (holder s l) 1 (holder_repeat_nr s l)"
    using lock_ok_post [OF D(8) [OF l] D(3)] top by simp
  note waiting = wake_waiting [OF inv l w top m'(3,4) tasks' listl listk]
  have "sync_inv L T spc s' cur (w # rs) (ws(l := wl))"
    unfolding sync_inv_def
  proof (intro conjI ballI impI)
    show "intr_get_status s' = INTR_OFF" if "\<not> interruptible (frames s' cur)" using that by (simp add: m')
    fix t assume t: "t \<in> T"
    show "lock_stack L (frames s' t)" using D(6) [OF t] by (simp add: m' lock_stack.idle)
    show "\<not> interruptible (frames s' t)" if "t \<noteq> cur" using inv t that by (auto simp: sync_inv_def m')
    show "status (tasks s' t) \<in> {TASK_RUNNING, TASK_READY, TASK_BLOCKED}"
      using inv t by (auto simp: sync_inv_def tasks')
    show "\<exists>k \<in> L. t \<in> set ((ws(l := wl)) k)" if "status (tasks s' t) = TASK_BLOCKED"
    proof -
      have "t \<noteq> w" "status (tasks s t) = TASK_BLOCKED" using that by (auto simp: tasks' split: if_splits)
      then obtain k where "k \<in> L" "t \<in> set (ws k)" using inv t by (auto simp: sync_inv_def)
      then show ?thesis using \<open>t \<noteq> w\<close> w by (intro bexI [of _ k]) auto
    qed
  next
    fix k assume k: "k \<in> L"
    show "waiting_ok T s' k ((ws(l := wl)) k)" by (rule waiting [OF k])
    have ph: "(\<lambda>t. phase k (frames s' t)) = (\<lambda>t. phase k (frames s t))(cur := Out)" by (auto simp: m')
    show "lock_ok T (\<lambda>t. phase k (frames s' t)) (holder s' k) (sem_value s' (semaphore_of k)) (holder_repeat_nr s' k)"
    proof (cases "k = l")
      case True
      then show ?thesis using post unfolding ph by (simp add: m')
    next
      case False
      then have "phase k (frames s cur) = Out" using top by simp
      then have "(\<lambda>t. phase k (frames s t))(cur := Out) = (\<lambda>t. phase k (frames s t))" by auto
      then show ?thesis using D(8) [OF k] False unfolding ph by (simp add: m')
    qed
  qed (rule R(2,3))+
  with R(1) show thesis by (rule that)
qed

section \<open>Every step keeps the invariant\<close>

text \<open>The assertions that a use of locks can fail.\<close>

definition lock_faults :: "fault set" where
  "lock_faults =
     {Panic ''lock_release'' ''plock->holder == running_thread()'',
      Panic ''lock_release'' ''plock->holder_repeat_nr == 1'',
      Panic ''schedule'' ''!list_empty(&thread_ready_list)''}"

definition sync_ok :: "u32 set \<Rightarrow> u32 set \<Rightarrow> (u32 \<Rightarrow> u32) \<Rightarrow> 'a sync_scheme \<Rightarrow> bool" where
  "sync_ok L T spc s \<longleftrightarrow> (\<exists>cur rs ws. sync_inv L T spc s cur rs ws)"

definition good_result :: "u32 set \<Rightarrow> u32 set \<Rightarrow> (u32 \<Rightarrow> u32) \<Rightarrow> 'a sync_scheme outcome \<Rightarrow> bool" where
  "good_result L T spc r \<longleftrightarrow> (case r of Inl e \<Rightarrow> e \<in> lock_faults | Inr s' \<Rightarrow> sync_ok L T spc s')"

lemma good_InlI: "e \<in> lock_faults \<Longrightarrow> good_result L T spc (Inl e)"
  by (simp add: good_result_def)

lemma good_InrI: "sync_inv L T spc s cur rs ws \<Longrightarrow> good_result L T spc (Inr s)"
  by (auto simp: good_result_def sync_ok_def)

text \<open>A move of the running thread in lock \<open>l\<close>, with the scheduler left alone.\<close>

lemma lock_move:
  assumes inv: "sync_inv L T spc s cur rs ws" and l: "l \<in> L"
    and frames: "frames s' = (frames s)(cur := fs)" and stack: "lock_stack L fs" "interruptible fs"
    and ok: "lock_ok T ((\<lambda>t. phase l (frames s t))(cur := phase l fs)) (holder s' l)
      (sem_value s' (semaphore_of l)) (holder_repeat_nr s' l)"
    and others: "\<And>k. k \<noteq> l \<Longrightarrow> phase k (frames s cur) = Out \<and> phase k fs = Out"
    and val: "sem_value s' (semaphore_of l) = 1 \<Longrightarrow> ws l \<noteq> [] \<Longrightarrow> sem_value s (semaphore_of l) = 1"
    and nowait: "\<And>k. woken_for k (frames s cur) \<Longrightarrow> k = l \<and> sem_value s' (semaphore_of l) \<noteq> 1"
    and same: "tasks s' = tasks s" "lnext s' = lnext s" "lprev s' = lprev s" "esp s' = esp s"
      "phys s' = phys s" "cr3 s' = cr3 s" "thread_ready_list s' = thread_ready_list s"
    and s': "\<And>k. k \<noteq> l \<Longrightarrow> holder s' k = holder s k"
      "\<And>k. k \<noteq> l \<Longrightarrow> sem_value s' (semaphore_of k) = sem_value s (semaphore_of k)"
      "\<And>k. k \<noteq> l \<Longrightarrow> holder_repeat_nr s' k = holder_repeat_nr s k"
  shows "sync_inv L T spc s' cur rs ws"
proof (rule local_step [OF inv same frames stack(1)])
  fix k assume k: "k \<in> L"
  show "lock_ok T ((\<lambda>t. phase k (frames s t))(cur := phase k fs)) (holder s' k)
      (sem_value s' (semaphore_of k)) (holder_repeat_nr s' k)"
  proof (cases "k = l")
    case True
    then show ?thesis using ok by simp
  next
    case False
    then have "(\<lambda>t. phase k (frames s t))(cur := phase k fs) = (\<lambda>t. phase k (frames s t))"
      using others [OF False] by auto
    then show ?thesis using sync_invD(8) [OF inv k] s' [OF False] by simp
  qed
  show "sem_value s (semaphore_of k) = 1 \<and> (woken_for k (frames s cur) \<longrightarrow> woken_for k fs)"
    if "sem_value s' (semaphore_of k) = 1" "ws k \<noteq> []"
    using that val nowait [of k] s'(2) [of k] by (cases "k = l") auto
qed (use stack(2) in simp)

lemma down_loop:
  assumes inv: "sync_inv L T spc s cur rs ws" and l: "l \<in> L"
    and same: "tasks s0 = tasks s" "lnext s0 = lnext s" "lprev s0 = lprev s" "esp s0 = esp s"
      "phys s0 = phys s" "cr3 s0 = cr3 s" "thread_ready_list s0 = thread_ready_list s"
      "sem_value s0 = sem_value s" "holder s0 = holder s" "holder_repeat_nr s0 = holder_repeat_nr s"
    and frames: "frames s0 = (frames s)(cur := [AcqHolder l])" and off: "intr_get_status s0 = INTR_OFF"
    and before: "\<And>k. woken_for k (frames s cur) \<Longrightarrow> k = l" "\<And>k. phase k (frames s cur) = Out"
  shows "good_result L T spc (sema_dowm_loop (semaphore_of l) old s0)"
proof (cases "sem_value s (semaphore_of l) = 0")
  case zero: True
  show ?thesis
  proof (cases rs)
    case Nil
    then have "sema_dowm_loop (semaphore_of l) old s0 = Inl (Panic ''schedule'' ''!list_empty(&thread_ready_list)'')"
      using block_nobody [OF _ l same(1-7)] inv zero by (simp add: same)
    then show ?thesis by (simp add: good_result_def lock_faults_def)
  next
    case (Cons n ns)
    obtain s' where "sema_dowm_loop (semaphore_of l) old s0 = Inr s'"
      "sync_inv L T spc s' n ns (ws(l := ws l @ [cur]))"
      by (rule block_step [OF inv [unfolded Cons] l same frames off before zero])
    then show ?thesis using good_InrI by simp
  qed
next
  case False
  note D = sync_invD [OF inv]
  have take: "lock_ok T ((\<lambda>t. phase l (frames s t))(cur := Got)) (holder s l) 0 (holder_repeat_nr s l)"
    and one: "sem_value s (semaphore_of l) = 1"
    using lock_ok_take [OF D(8) [OF l] D(3) False] by simp_all
  define s' where "s' = snd (intr_set_status old (set_value (semaphore_of l) 0 s0))"
  have loop: "sema_dowm_loop (semaphore_of l) old s0 = Inr s'"
    using one by (simp add: sema_dowm_loop_def same s'_def)
  have "sync_inv L T spc s' cur rs ws"
    by (rule lock_move [OF inv l, where fs = "[AcqHolder l]"])
      (use take before l in \<open>simp_all add: lock_stack.acq_holder s'_def same frames\<close>)
  then show ?thesis using loop good_InrI by simp
qed

lemma set_holder_repeat_simps [simp]:
  "tasks (set_holder l t s) = tasks s" "lnext (set_holder l t s) = lnext s" "lprev (set_holder l t s) = lprev s"
  "esp (set_holder l t s) = esp s" "phys (set_holder l t s) = phys s" "cr3 (set_holder l t s) = cr3 s"
  "thread_ready_list (set_holder l t s) = thread_ready_list s" "eflags (set_holder l t s) = eflags s"
  "sem_value (set_holder l t s) = sem_value s" "holder (set_holder l t s) = (holder s)(l := t)"
  "holder_repeat_nr (set_holder l t s) = holder_repeat_nr s" "frames (set_holder l t s) = frames s"
  "tasks (set_repeat l k s) = tasks s" "lnext (set_repeat l k s) = lnext s" "lprev (set_repeat l k s) = lprev s"
  "esp (set_repeat l k s) = esp s" "phys (set_repeat l k s) = phys s" "cr3 (set_repeat l k s) = cr3 s"
  "thread_ready_list (set_repeat l k s) = thread_ready_list s" "eflags (set_repeat l k s) = eflags s"
  "sem_value (set_repeat l k s) = sem_value s" "holder (set_repeat l k s) = holder s"
  "holder_repeat_nr (set_repeat l k s) = (holder_repeat_nr s)(l := k)" "frames (set_repeat l k s) = frames s"
  by (simp_all add: set_holder_def set_repeat_def)

lemma local_step_id:
  assumes inv: "sync_inv L T spc s cur rs ws"
    and same: "tasks s' = tasks s" "lnext s' = lnext s" "lprev s' = lprev s" "esp s' = esp s"
      "phys s' = phys s" "cr3 s' = cr3 s" "thread_ready_list s' = thread_ready_list s"
      "sem_value s' = sem_value s" "holder s' = holder s" "holder_repeat_nr s' = holder_repeat_nr s"
    and frames: "frames s' = (frames s)(cur := fs)" and stack: "lock_stack L fs"
    and off: "\<not> interruptible fs \<Longrightarrow> intr_get_status s' = INTR_OFF"
    and ph: "\<And>k. phase k fs = phase k (frames s cur)"
    and woken: "\<And>k. woken_for k (frames s cur) \<Longrightarrow> woken_for k fs"
  shows "sync_inv L T spc s' cur rs ws"
proof (rule local_step [OF inv same(1-7) frames stack off])
  fix k assume k: "k \<in> L"
  have "(\<lambda>t. phase k (frames s t))(cur := phase k fs) = (\<lambda>t. phase k (frames s t))"
    using ph by auto
  then show "lock_ok T ((\<lambda>t. phase k (frames s t))(cur := phase k fs)) (holder s' k)
      (sem_value s' (semaphore_of k)) (holder_repeat_nr s' k)"
    using sync_invD(8) [OF inv k] by (simp add: same)
qed (use woken same in simp_all)

lemma not_woken [simp]:
  "\<not> woken_for k [AcqTest l]" "\<not> woken_for k []" "\<not> woken_for k (Iret fl # fs)" "\<not> woken_for k [KernelThread]"
  "\<not> woken_for k [AcqHolder l]" "\<not> woken_for k [AcqCount l]" "\<not> woken_for k [AcqIncr l]"
  "\<not> woken_for k [RelTest l]" "\<not> woken_for k [RelDecide l]" "\<not> woken_for k [RelDecr l]"
  "\<not> woken_for k [RelHolder l]" "\<not> woken_for k [RelCount l]" "\<not> woken_for k [SemaUp p]"
  "\<not> woken_for k (SemaDown p # fs)"
  by (simp_all add: woken_for_def waits_for_def)

text \<open>One lemma per statement of \<open>lock_acquire\<close> and \<open>lock_release\<close>.\<close>

definition popped :: "u32 \<Rightarrow> 'a sync_scheme \<Rightarrow> 'a sync_scheme" where
  "popped t s = s\<lparr>frames := (frames s)(t := tl (frames s t))\<rparr>"

lemma popped_simps [simp]:
  "tasks (popped t s) = tasks s" "lnext (popped t s) = lnext s" "lprev (popped t s) = lprev s"
  "esp (popped t s) = esp s" "phys (popped t s) = phys s" "cr3 (popped t s) = cr3 s"
  "thread_ready_list (popped t s) = thread_ready_list s" "eflags (popped t s) = eflags s"
  "sem_value (popped t s) = sem_value s" "holder (popped t s) = holder s"
  "holder_repeat_nr (popped t s) = holder_repeat_nr s"
  "frames (popped t s) = (frames s)(t := tl (frames s t))"
  by (simp_all add: popped_def)

lemma running_popped: "sync_inv L T spc s cur rs ws \<Longrightarrow> running_thread (popped cur s) = cur"
  using sync_invD(4) by (simp add: running_thread_def)

lemma null_not_thread: "sync_inv L T spc s cur rs ws \<Longrightarrow> NULL \<notin> T"
  using sync_invD(1) by (fastforce simp: sched_inv_def)

lemma step_acq_test:
  assumes inv: "sync_inv L T spc s cur rs ws" and l: "l \<in> L" and top: "frames s cur = [AcqTest l]"
  shows "good_result L T spc (exec_frame (AcqTest l) (popped cur s))"
proof (cases "holder s l = cur")
  case True
  have "sync_inv L T spc (push_frames cur [AcqIncr l] (popped cur s)) cur rs ws"
    by (rule lock_move [OF inv l, where fs = "[AcqIncr l]"])
      (use lock_ok_enter [OF sync_invD(8) [OF inv l] sync_invD(3) [OF inv] null_not_thread [OF inv]] top True l in
        \<open>simp_all add: lock_stack.acq_incr\<close>)
  then show ?thesis using True running_popped [OF inv] by (simp add: good_InrI)
next
  case False
  have "sync_inv L T spc (push_frames cur [SemaDown (semaphore_of l), AcqHolder l] (popped cur s)) cur rs ws"
    by (rule local_step_id [OF inv, where fs = "[SemaDown (semaphore_of l), AcqHolder l]"])
      (use top l in \<open>simp_all add: lock_stack.down\<close>)
  then show ?thesis using False running_popped [OF inv] by (simp add: good_InrI)
qed

lemma step_acq_holder:
  assumes inv: "sync_inv L T spc s cur rs ws" and l: "l \<in> L" and top: "frames s cur = [AcqHolder l]"
  shows "good_result L T spc (exec_frame (AcqHolder l) (popped cur s))"
proof -
  have "sync_inv L T spc (push_frames cur [AcqCount l] (set_holder l cur (popped cur s))) cur rs ws"
    by (rule lock_move [OF inv l, where fs = "[AcqCount l]"])
      (use lock_ok_hold [OF sync_invD(8) [OF inv l] sync_invD(3) [OF inv]] top l in
        \<open>simp_all add: lock_stack.acq_count\<close>)
  then show ?thesis using running_popped [OF inv] by (simp add: good_InrI)
qed

lemma step_acq_count:
  assumes inv: "sync_inv L T spc s cur rs ws" and l: "l \<in> L" and top: "frames s cur = [AcqCount l]"
  shows "good_result L T spc (exec_frame (AcqCount l) (popped cur s))"
proof -
  have count: "lock_ok T ((\<lambda>t. phase l (frames s t))(cur := Out)) (holder s l) (sem_value s (semaphore_of l)) 1"
    and zero: "holder_repeat_nr s l = 0"
    using lock_ok_count [OF sync_invD(8) [OF inv l] sync_invD(3) [OF inv]] top by simp_all
  have "sync_inv L T spc (set_repeat l 1 (popped cur s)) cur rs ws"
    by (rule lock_move [OF inv l, where fs = "[]"]) (use count top l in \<open>simp_all add: lock_stack.idle\<close>)
  then show ?thesis using zero by (simp add: good_InrI)
qed

lemma step_recount:
  assumes inv: "sync_inv L T spc s cur rs ws" and l: "l \<in> L"
    and top: "frames s cur = [AcqIncr l] \<or> frames s cur = [RelDecr l]"
  shows "good_result L T spc (Inr (set_repeat l nr (popped cur s)))"
proof -
  have ph: "phase l (frames s cur) = Inside" using top by auto
  have "sync_inv L T spc (set_repeat l nr (popped cur s)) cur rs ws"
    by (rule lock_move [OF inv l, where fs = "[]"])
      (use lock_ok_recount [OF sync_invD(8) [OF inv l] sync_invD(3) [OF inv] ph] top l in
        \<open>auto simp: lock_stack.idle\<close>)
  then show ?thesis by (rule good_InrI)
qed

lemma step_rel_test:
  assumes inv: "sync_inv L T spc s cur rs ws" and l: "l \<in> L" and top: "frames s cur = [RelTest l]"
  shows "good_result L T spc (exec_frame (RelTest l) (popped cur s))"
proof (cases "holder s l = cur")
  case True
  have "sync_inv L T spc (push_frames cur [RelDecide l] (popped cur s)) cur rs ws"
    by (rule lock_move [OF inv l, where fs = "[RelDecide l]"])
      (use lock_ok_enter [OF sync_invD(8) [OF inv l] sync_invD(3) [OF inv] null_not_thread [OF inv]] top True l in
        \<open>simp_all add: lock_stack.rel_decide\<close>)
  then show ?thesis using True running_popped [OF inv] by (simp add: good_InrI)
next
  case False
  then show ?thesis using running_popped [OF inv] by (simp add: good_result_def lock_faults_def)
qed

lemma step_rel_decide:
  assumes inv: "sync_inv L T spc s cur rs ws" and l: "l \<in> L" and top: "frames s cur = [RelDecide l]"
  shows "good_result L T spc (exec_frame (RelDecide l) (popped cur s))"
proof -
  have move: "good_result L T spc (Inr (push_frames cur [f] (popped cur s)))"
    if "f = RelDecr l \<or> f = RelHolder l" for f
    by (rule good_InrI, rule local_step_id [OF inv, where fs = "[f]"])
      (use that top l in \<open>auto simp: lock_stack.rel_decr lock_stack.rel_holder\<close>)
  show ?thesis
    using move running_popped [OF inv]
    by (cases "holder_repeat_nr s l = 1") (simp_all add: good_InlI lock_faults_def)
qed

lemma step_rel_holder:
  assumes inv: "sync_inv L T spc s cur rs ws" and l: "l \<in> L" and top: "frames s cur = [RelHolder l]"
  shows "good_result L T spc (exec_frame (RelHolder l) (popped cur s))"
proof -
  have "sync_inv L T spc (push_frames cur [RelCount l] (set_holder l NULL (popped cur s))) cur rs ws"
    by (rule lock_move [OF inv l, where fs = "[RelCount l]"])
      (use lock_ok_leave [OF sync_invD(8) [OF inv l] sync_invD(3) [OF inv]] top l in
        \<open>simp_all add: lock_stack.rel_count\<close>)
  then show ?thesis using running_popped [OF inv] by (simp add: good_InrI)
qed

lemma step_rel_count:
  assumes inv: "sync_inv L T spc s cur rs ws" and l: "l \<in> L" and top: "frames s cur = [RelCount l]"
  shows "good_result L T spc (exec_frame (RelCount l) (popped cur s))"
proof -
  have "sync_inv L T spc (push_frames cur [SemaUp (semaphore_of l)] (set_repeat l 0 (popped cur s))) cur rs ws"
    by (rule lock_move [OF inv l, where fs = "[SemaUp (semaphore_of l)]"])
      (use lock_ok_uncount [OF sync_invD(8) [OF inv l] sync_invD(3) [OF inv]] top l in
        \<open>simp_all add: lock_stack.up\<close>)
  then show ?thesis using running_popped [OF inv] by (simp add: good_InrI)
qed

lemma step_up:
  assumes inv: "sync_inv L T spc s cur rs ws" and l: "l \<in> L" and top: "frames s cur = [SemaUp (semaphore_of l)]"
  shows "good_result L T spc (exec_frame (SemaUp (semaphore_of l)) (popped cur s))"
proof (cases "ws l")
  case Nil
  note D = sync_invD [OF inv]
  have post: "lock_ok T ((\<lambda>t. phase l (frames s t))(cur := Out)) (holder s l) 1 (holder_repeat_nr s l)"
    and v: "sem_value s (semaphore_of l) = 0"
    using lock_ok_post [OF D(8) [OF l] D(3)] top by simp_all
  let ?s1 = "cli (popped cur s)"
  define s' where "s' = snd (intr_set_status (intr_get_status (popped cur s)) (set_value (semaphore_of l) 1 ?s1))"
  have "is_list ?s1 (wait_list l) []"
    using D(7) [OF l] Nil is_list_cong [of ?s1 s] by (simp add: waiting_ok_def)
  then have "exec_frame (SemaUp (semaphore_of l)) (popped cur s) = Inr s'"
    using v by (simp add: sema_up_def intr_disable_eq list_empty_iff s'_def)
  moreover have "sync_inv L T spc s' cur rs ws"
    by (rule lock_move [OF inv l, where fs = "[]"])
      (use post top l Nil in \<open>simp_all add: lock_stack.idle s'_def\<close>)
  ultimately show ?thesis by (simp add: good_InrI)
next
  case (Cons w wl)
  obtain s' where "sema_up (semaphore_of l) (s\<lparr>frames := (frames s)(cur := [])\<rparr>) = Inr s'"
    "sync_inv L T spc s' cur (w # rs) (ws(l := wl))"
    by (rule wake_step [OF inv l Cons top])
  then show ?thesis using top by (simp add: popped_def good_InrI)
qed

lemma step_down:
  assumes inv: "sync_inv L T spc s cur rs ws" and l: "l \<in> L"
  shows "frames s cur = [SemaDown (semaphore_of l), AcqHolder l] \<Longrightarrow>
      good_result L T spc (exec_frame (SemaDown (semaphore_of l)) (popped cur s))"
    and "frames s cur = [SemaDownLoop (semaphore_of l) old, AcqHolder l] \<Longrightarrow>
      good_result L T spc (exec_frame (SemaDownLoop (semaphore_of l) old) (popped cur s))"
proof -
  assume top: "frames s cur = [SemaDown (semaphore_of l), AcqHolder l]"
  show "good_result L T spc (exec_frame (SemaDown (semaphore_of l)) (popped cur s))"
    unfolding exec_frame.simps sema_dowm_def intr_disable_eq Let_def prod.case
    by (rule down_loop [OF inv l]) (use top in simp_all)
next
  assume top: "frames s cur = [SemaDownLoop (semaphore_of l) old, AcqHolder l]"
  then have "intr_get_status s = INTR_OFF" using sync_invD(9) [OF inv] by simp
  then show "good_result L T spc (exec_frame (SemaDownLoop (semaphore_of l) old) (popped cur s))"
    unfolding exec_frame.simps
    by (intro down_loop [OF inv l]) (use top in \<open>auto simp: woken_for_def waits_for_def intr_get_status_def\<close>)
qed

lemma step_block_ret:
  assumes inv: "sync_inv L T spc s cur rs ws" and l: "l \<in> L"
    and top: "frames s cur = [BlockRet INTR_OFF, SemaDownLoop (semaphore_of l) old, AcqHolder l]"
  shows "good_result L T spc (exec_frame (BlockRet INTR_OFF) (popped cur s))"
proof -
  have "sync_inv L T spc (thread_block_resume INTR_OFF (popped cur s)) cur rs ws"
    by (rule local_step_id [OF inv, where fs = "[SemaDownLoop (semaphore_of l) old, AcqHolder l]"])
      (use top l in \<open>auto simp: thread_block_resume_def lock_stack.woken intr_set_status_result woken_for_def waits_for_def\<close>)
  then show ?thesis by (simp add: good_InrI)
qed

lemma step_iret:
  assumes inv: "sync_inv L T spc s cur rs ws" and top: "frames s cur = Iret flags # fs"
    and stack: "lock_stack L fs" "interruptible fs"
  shows "good_result L T spc (exec_frame (Iret flags) (popped cur s))"
proof -
  have "sync_inv L T spc ((popped cur s)\<lparr>eflags := flags\<rparr>) cur rs ws"
    by (rule local_step_id [OF inv, where fs = fs]) (use top stack in simp_all)
  then show ?thesis by (simp add: good_InrI)
qed

lemma step_entry:
  assumes inv: "sync_inv L T spc s cur rs ws" and top: "frames s cur = [KernelThread]"
  shows "good_result L T spc (exec_frame KernelThread (popped cur s))"
proof -
  have eq: "snd (intr_enable s1) = snd (intr_set_status INTR_ON s1)" for s1 :: "'a sync_scheme"
    by (simp add: intr_set_status_def)
  have "sync_inv L T spc (snd (intr_enable (popped cur s))) cur rs ws"
    unfolding eq
    by (rule local_step_id [OF inv, where fs = "[]"]) (use top in \<open>simp_all add: lock_stack.idle\<close>)
  then show ?thesis by (simp add: good_InrI)
qed

lemma run_frame_good:
  assumes inv: "sync_inv L T spc s cur rs ws" and run: "run_frame s = Some r"
  shows "good_result L T spc r"
proof -
  obtain f fs where top: "frames s cur = f # fs"
    using run sync_invD(4) [OF inv] by (auto simp: run_frame_def split: list.splits)
  then have r: "r = exec_frame f (popped cur s)"
    using run sync_invD(4) [OF inv] by (simp add: run_frame_def popped_def)
  have "lock_stack L (f # fs)" using sync_invD(6,3) [OF inv] top by metis
  then show ?thesis
  proof (cases rule: lock_stack.cases)
    case entry
    then show ?thesis using step_entry [OF inv] top r by (simp del: exec_frame.simps)
  next
    case (acq_test l)
    then show ?thesis using step_acq_test [OF inv] top r by (simp del: exec_frame.simps)
  next
    case (down l)
    then show ?thesis using step_down(1) [OF inv] top r by (simp del: exec_frame.simps)
  next
    case (blocked l old)
    then show ?thesis using step_block_ret [OF inv] top r by (simp del: exec_frame.simps)
  next
    case (woken l old)
    then show ?thesis using step_down(2) [OF inv] top r by (simp del: exec_frame.simps)
  next
    case (acq_holder l)
    then show ?thesis using step_acq_holder [OF inv] top r by (simp del: exec_frame.simps)
  next
    case (acq_count l)
    then show ?thesis using step_acq_count [OF inv] top r by (simp del: exec_frame.simps)
  next
    case (acq_incr l)
    then show ?thesis using step_recount [OF inv] top r by simp
  next
    case (rel_test l)
    then show ?thesis using step_rel_test [OF inv] top r by (simp del: exec_frame.simps)
  next
    case (rel_decide l)
    then show ?thesis using step_rel_decide [OF inv] top r by (simp del: exec_frame.simps)
  next
    case (rel_decr l)
    then show ?thesis using step_recount [OF inv] top r by simp
  next
    case (rel_holder l)
    then show ?thesis using step_rel_holder [OF inv] top r by (simp del: exec_frame.simps)
  next
    case (rel_count l)
    then show ?thesis using step_rel_count [OF inv] top r by (simp del: exec_frame.simps)
  next
    case (up l)
    then show ?thesis using step_up [OF inv] top r by (simp del: exec_frame.simps)
  next
    case (interrupted flags)
    then show ?thesis using step_iret [OF inv] top r by (simp del: exec_frame.simps)
  qed
qed

text \<open>A clock interrupt only suspends the running thread.\<close>

lemma resched:
  assumes inv: "sync_inv L T spc s cur rs ws" and suspended: "\<not> interruptible (frames s cur)"
    and sched: "sched_inv T spc s' n ns" and set: "insert n (set ns) = insert cur (set rs)"
    and more: "threads.more s' = threads.more s" and off: "eflags s' = eflags s"
    and ready: "thread_ready_list s' = thread_ready_list s"
    and status: "\<And>t. t \<notin> insert cur (set rs) \<Longrightarrow> status (tasks s' t) = status (tasks s t)"
    and lists: "\<And>l. l \<in> L \<Longrightarrow> is_list s (wait_list l) (map general_tag (ws l)) \<Longrightarrow>
      is_list s' (wait_list l) (map general_tag (ws l))"
  shows "sync_inv L T spc s' n ns ws"
proof -
  note D = sync_invD [OF inv] and m = more_eqD [OF more]
  have on_cpu: "status (tasks s' t) \<in> {TASK_RUNNING, TASK_READY}" "status (tasks s t) \<in> {TASK_RUNNING, TASK_READY}"
    if "t \<in> insert cur (set rs)" "t \<in> T" for t
  proof -
    have "t \<in> insert n (set ns)" using that(1) set by simp
    then show "status (tasks s' t) \<in> {TASK_RUNNING, TASK_READY}"
      using sched that(2) by (auto simp: sched_inv_def)
    show "status (tasks s t) \<in> {TASK_RUNNING, TASK_READY}"
      using D(1) that by (auto simp: sched_inv_def)
  qed
  have wait: "waiting_ok T s' l (ws l)" if l: "l \<in> L" for l
  proof -
    have w: "waiting_ok T s l (ws l)" using D(7) [OF l] .
    have "status (tasks s' t) = TASK_BLOCKED" if t: "t \<in> set (ws l)" for t
    proof -
      have b: "t \<in> T" "status (tasks s t) = TASK_BLOCKED" using w t by (auto simp: waiting_ok_def)
      then have "t \<notin> insert cur (set rs)" using on_cpu(2) [of t] by auto
      then show ?thesis using status b(2) by simp
    qed
    then show ?thesis using w lists [OF l] by (auto simp: waiting_ok_def m)
  qed
  show ?thesis
    unfolding sync_inv_def
  proof (intro conjI ballI impI)
    show "layout_ok L T (thread_ready_list s')" using D(2) ready by simp
    show "intr_get_status s' = INTR_OFF"
      using D(9) [OF suspended] off by (simp add: intr_get_status_def)
    fix t assume t: "t \<in> T"
    show "lock_stack L (frames s' t)" using D(6) [OF t] by (simp add: m)
    show "\<not> interruptible (frames s' t)"
      using inv t suspended by (cases "t = cur") (simp_all add: m sync_inv_def)
    show "status (tasks s' t) \<in> {TASK_RUNNING, TASK_READY, TASK_BLOCKED}"
      using on_cpu(1) [OF _ t] status [of t] inv t by (cases "t \<in> insert cur (set rs)") (auto simp: sync_inv_def)
    show "\<exists>l \<in> L. t \<in> set (ws l)" if b: "status (tasks s' t) = TASK_BLOCKED"
    proof -
      have "t \<notin> insert cur (set rs)" using on_cpu(1) [OF _ t] b by auto
      then show ?thesis using status [of t] b inv t by (simp add: sync_inv_def)
    qed
  qed (use sched wait D(8) in \<open>simp_all add: m\<close>)
qed

lemma clock_good:
  assumes inv: "sync_inv L T spc s cur rs ws" and on: "intr_get_status s = INTR_ON"
  obtains s' cur' rs' where "clock_interrupt s = Inr s'" and "sync_inv L T spc s' cur' rs' ws"
proof -
  note D = sync_invD [OF inv]
  have can: "interruptible (frames s cur)" using D(9) on by auto
  define s1 where "s1 = cli (push_frames cur [Iret (eflags s)] s)"
  have run: "clock_interrupt s = clock_interrupt_handler s1"
    using D(4) by (simp add: clock_interrupt_def s1_def)
  have top: "frames s1 cur = Iret (eflags s) # frames s cur" by (simp add: s1_def)
  have "\<not> woken_for k (frames s cur)" for k using can by (auto simp: woken_for_def waits_for_def)
  then have inv1: "sync_inv L T spc s1 cur rs ws"
    by (intro local_step_id [OF inv, where fs = "Iret (eflags s) # frames s cur"])
      (use D(6) [OF D(3)] can in \<open>simp_all add: s1_def lock_stack.interrupted\<close>)
  note D1 = sync_invD [OF inv1] and W1 = waiters_sets [OF inv1]
  show thesis
  proof (cases "ticks (tasks s1 cur) = 0")
    case False
    obtain s' where s': "clock_interrupt_handler s1 = Inr s'" "sched_inv T spc s' cur rs"
      by (rule clock_tick_inv [OF D1(1) False]) blast
    have eq: "s' = upd_task cur (\<lambda>t. t\<lparr>ticks := ticks t - 1\<rparr>) s1"
      using s'(1) D1(4) False by (auto simp: clock_interrupt_handler_def)
    have "sync_inv L T spc s' cur rs ws"
      by (rule resched [OF inv1 _ s'(2) refl clock_handler_more [OF s'(1)]]) (simp_all add: top, simp_all add: eq)
    with s'(1) show thesis using run that by simp
  next
    case True
    obtain s' where s': "schedule s1 = Inr s'" "sched_inv T spc s' (hd (rs @ [cur])) (tl (rs @ [cur]))"
      "sched_frame (list_nodes (thread_ready_list s1) (map general_tag (rs @ [cur]))) s1 s'" "eflags s' = eflags s1"
      "\<And>t. t \<notin> insert cur (set rs) \<Longrightarrow> status (tasks s' t) = status (tasks s1 t)"
      by (rule schedule_inv [OF D1(1)]) blast
    have "sync_inv L T spc s' (hd (rs @ [cur])) (tl (rs @ [cur])) ws"
    proof (rule resched [OF inv1 _ s'(2) _ schedule_more [OF s'(1)] s'(4) _ s'(5)])
      show "insert (hd (rs @ [cur])) (set (tl (rs @ [cur]))) = insert cur (set rs)" by (cases rs) auto
      show "thread_ready_list s' = thread_ready_list s1" using s'(3) by (simp add: sched_frame_def)
      fix l assume l: "l \<in> L" and list: "is_list s1 (wait_list l) (map general_tag (ws l))"
      have "keeps_lists (list_nodes (thread_ready_list s1) (map general_tag (rs @ [cur]))) s1 s'"
        using s'(3) by (simp add: sched_frame_def)
      then show "is_list s' (wait_list l) (map general_tag (ws l))"
        using list wait_ready_apart [OF D1(2) l, of "ws l" "rs @ [cur]"] W1(1-5) [OF l] D1(3)
        by (elim keeps_listsD) auto
    qed (simp_all add: top)
    then show thesis using run that s'(1) clock_switch [OF D1(1) True] by simp
  qed
qed

lemma call_good:
  assumes inv: "sync_inv L T spc s cur rs ws" and l: "l \<in> L" and idle: "frames s cur = []"
  shows "sync_inv L T spc (push_frames cur (lock_acquire l) s) cur rs ws"
    and "sync_inv L T spc (push_frames cur (lock_release l) s) cur rs ws"
  by (rule local_step_id [OF inv, where fs = "[AcqTest l]"],
      simp_all add: idle l lock_acquire_def lock_stack.acq_test)
    (rule local_step_id [OF inv, where fs = "[RelTest l]"],
      simp_all add: idle l lock_release_def lock_stack.rel_test)

lemma sync_step_ok:
  assumes "sync_step L s s'" and "sync_ok L T spc s"
  shows "sync_ok L T spc s'"
proof -
  from assms(2) obtain cur rs ws where inv: "sync_inv L T spc s cur rs ws" by (auto simp: sync_ok_def)
  note D = sync_invD [OF inv]
  from assms(1) show ?thesis
  proof (rule sync_stepE)
    assume "run_frame s = Some (Inr s')"
    from run_frame_good [OF inv this] show ?thesis by (simp add: good_result_def)
  next
    assume "intr_get_status s = INTR_ON" "clock_interrupt s = Inr s'"
    then show ?thesis using clock_good [OF inv] by (metis sum.inject(2) sync_ok_def)
  next
    fix l assume "frames s (running_thread s) = []" "l \<in> L" "s' = push_frames (running_thread s) (lock_acquire l) s"
    then show ?thesis using call_good(1) [OF inv] D(4) by (auto simp: sync_ok_def)
  next
    fix l assume "frames s (running_thread s) = []" "l \<in> L" "s' = push_frames (running_thread s) (lock_release l) s"
    then show ?thesis using call_good(2) [OF inv] D(4) by (auto simp: sync_ok_def)
  qed
qed

lemma reachable_sync_ok: "(sync_step L)\<^sup>*\<^sup>* s s' \<Longrightarrow> sync_ok L T spc s \<Longrightarrow> sync_ok L T spc s'"
  by (induction rule: rtranclp_induct) (auto intro: sync_step_ok)

lemma lock_ok_exclusive:
  assumes ok: "lock_ok T ph h v nr" and t: "t \<in> T" "u \<in> T" and null: "NULL \<notin> T"
    and has: "h = t \<or> ph t \<noteq> Out" "h = u \<or> ph u \<noteq> Out"
  shows "t = u \<and> v = 0"
proof -
  have "owned T ph h v nr t" using lock_ok_owner [OF ok t(1)] has(1) null by blast
  moreover have "owned T ph h v nr u" using lock_ok_owner [OF ok t(2)] has(2) null by blast
  ultimately show ?thesis by (auto simp: owned_def) (metis has(1,2) held_by.simps(4))
qed

section \<open>Uncontended use\<close>

fun run_frames :: "nat \<Rightarrow> 'a sync_scheme \<Rightarrow> 'a sync_scheme outcome" where
  "run_frames 0 s = Inr s"
| "run_frames (Suc k) s =
     (case run_frame s of None \<Rightarrow> Inr s | Some r \<Rightarrow> rbind r (run_frames k))"

lemma sti_value: "sti (set_value p v s) = set_value p v (sti s)"
  by (cases s) (simp add: sti_def set_value_def)

lemma intr_restore_value:
  "snd (intr_set_status (intr_get_status s) (set_value p v (cli s))) = set_value p v s"
proof (cases "bit (eflags s) 9")
  case True
  then show ?thesis
    using sti_cli [OF True] by (simp add: intr_set_status_def intr_enable_def intr_get_status_eq sti_value)
next
  case False
  then show ?thesis
    using cli_off [OF False] by (simp add: intr_set_status_def intr_get_status_eq intr_disable_def)
qed

lemma sema_dowm_free: "sem_value s p = 1 \<Longrightarrow> sema_dowm p s = Inr (set_value p 0 s)"
  by (simp add: sema_dowm_def intr_disable_eq sema_dowm_loop_def intr_restore_value)

lemma sema_up_nobody:
  "sem_value s p = 0 \<Longrightarrow> list_empty s (waiters p) \<Longrightarrow> sema_up p s = Inr (set_value p 1 s)"
  by (simp add: sema_up_def intr_disable_eq intr_restore_value list_empty_def)

lemma running_thread_sync [simp]:
  "running_thread (push_frames t fs s) = running_thread s" "running_thread (set_value p v s) = running_thread s"
  "running_thread (set_holder l h s) = running_thread s" "running_thread (set_repeat l k s) = running_thread s"
  "running_thread (s\<lparr>frames := ff\<rparr>) = running_thread s"
  by (simp_all add: running_thread_def set_value_def set_holder_def set_repeat_def)

lemma run_frame_top:
  "frames s (running_thread s) = f # fs \<Longrightarrow>
   run_frame s = Some (exec_frame f (s\<lparr>frames := (frames s)(running_thread s := fs)\<rparr>))"
  by (simp add: run_frame_def)

text \<open>A thread that runs its own call to the end, nobody else being there.\<close>

lemma frames_set [simp]:
  "(push_frames t fs s)\<lparr>frames := ff\<rparr> = s\<lparr>frames := ff\<rparr>"
  "push_frames t fs (s\<lparr>frames := (frames s)(t := [])\<rparr>) = s\<lparr>frames := (frames s)(t := fs)\<rparr>"
  by (simp_all add: push_frames_def)

lemma acquire_free:
  assumes idle: "frames s (running_thread s) = []" and h: "holder s l \<noteq> running_thread s"
    and free: "sem_value s (semaphore_of l) = 1" "holder_repeat_nr s l = 0"
  shows "run_frames 4 (push_frames (running_thread s) (lock_acquire l) s) =
    Inr (set_repeat l 1 (set_holder l (running_thread s) (set_value (semaphore_of l) 0 s)))"
  using assms
  by (simp add: eval_nat_numeral run_frame_top lock_acquire_def sema_dowm_free)
    (simp add: push_frames_def set_value_def set_holder_def set_repeat_def fun_upd_idem)

lemma release_last:
  assumes idle: "frames s (running_thread s) = []" and h: "holder s l = running_thread s"
    and taken: "sem_value s (semaphore_of l) = 0" "holder_repeat_nr s l = 1"
    and nobody: "list_empty s (waiters (semaphore_of l))"
  shows "run_frames 5 (push_frames (running_thread s) (lock_release l) s) =
    Inr (set_value (semaphore_of l) 1 (set_repeat l 0 (set_holder l NULL s)))"
  using assms
  by (simp add: eval_nat_numeral run_frame_top lock_release_def sema_up_nobody list_empty_def)
    (simp add: push_frames_def set_value_def set_holder_def set_repeat_def fun_upd_idem)

section \<open>Properties\<close>

text \<open>
  The sample state of the scheduler with one lock at \<open>0x700\<close>, which the running thread
  \<open>0x1000\<close> holds and the blocked thread \<open>0x3000\<close> waits for.
\<close>

definition sample_sync :: sync where
  "sample_sync = \<lparr>eflags = 0x202, kmsg = [],
     lprev = (\<lambda>_. 0)(0x508 := 0x201c, 0x201c := 0x500, 0x710 := 0x301c, 0x301c := 0x708),
     lnext = (\<lambda>_. 0)(0x500 := 0x201c, 0x201c := 0x508, 0x708 := 0x301c, 0x301c := 0x710),
     phys = (\<lambda>_. 0), cr3 = 0x100000, kernel_thread_addr = 0xc0001500,
     kstacks = kstacks sample_threads, esp = 0x1f80, tasks = tasks sample_threads,
     thread_ready_list = 0x500, thread_all_list = 0x600, main_thread = 0x1000,
     thread_tag = 0, tss_esp0 = 0,
     sem_value = (\<lambda>_. 0), holder = (\<lambda>_. 0)(0x700 := 0x1000),
     holder_repeat_nr = (\<lambda>_. 0)(0x700 := 1),
     frames = (\<lambda>_. [])(0x2000 := [KernelThread],
       0x3000 := [BlockRet INTR_OFF, SemaDownLoop 0x704 INTR_ON, AcqHolder 0x700])\<rparr>"

lemma sample_sync_sched: "sched_inv sample_set (\<lambda>_. 0x100000) sample_sync 0x1000 [0x2000]"
proof -
  have "is_list sample_sync 0x500 [0x201c]"
    by (simp add: is_list_def head_of_def tail_of_def sample_sync_def)
  moreover have "running_thread sample_sync = 0x1000"
    by (simp add: running_thread_def sample_sync_def)
  ultimately show ?thesis
    using sample_inv unfolding sched_inv_def
    by (simp add: general_tag_def) (simp add: sample_sync_def sample_threads_def)
qed

lemma sample_sync_stacks:
  "lock_stack {0x700} [KernelThread]" "lock_stack {0x700} []"
  "lock_stack {0x700} [BlockRet INTR_OFF, SemaDownLoop 0x704 INTR_ON, AcqHolder 0x700]"
  using lock_stack.blocked [of "0x700" "{0x700}" INTR_ON]
  by (simp_all add: lock_stack.entry lock_stack.idle semaphore_of_def)

lemma sample_sync_inv:
  "sync_inv {0x700} sample_set (\<lambda>_. 0x100000) sample_sync 0x1000 [0x2000] (\<lambda>_. [0x3000])"
proof -
  have list: "is_list sample_sync 0x708 [0x301c]"
    by (simp add: is_list_def head_of_def tail_of_def sample_sync_def)
  have wait: "waiting_ok sample_set sample_sync 0x700 [0x3000]"
    using list by (simp add: waiting_ok_def general_tag_def waiters_def semaphore_of_def)
      (simp add: sample_sync_def sample_set_def sample_threads_def sample_task_def waits_for_def semaphore_of_def)
  have layout: "layout_ok {0x700} sample_set 0x500"
    by (simp add: layout_ok_def ends_def head_of_def tail_of_def sample_set_def general_tag_def
        waiters_def semaphore_of_def)
  have "owned sample_set (\<lambda>t. phase 0x700 (frames sample_sync t)) 0x1000 0 1 0x1000"
    by (simp add: owned_def sample_set_def sample_sync_def)
  then have lock: "lock_ok sample_set (\<lambda>t. phase 0x700 (frames sample_sync t)) 0x1000 0 1"
    by (rule owned_lock_ok)
  show ?thesis
    unfolding sync_inv_def
    using sample_sync_sched wait layout lock sample_sync_stacks
    by (simp add: sample_sync_def sample_set_def sample_threads_def sample_task_def)
qed

text \<open>Thread \<open>t\<close> is past the semaphore of lock \<open>l\<close>: it holds the lock, or is about to, or gives it back.\<close>

definition past_semaphore :: "u32 \<Rightarrow> 'a sync_scheme \<Rightarrow> u32 \<Rightarrow> bool" where
  "past_semaphore l s t \<longleftrightarrow> holder s l = t \<or> phase l (frames s t) \<noteq> Out"

text \<open>
  C1: mutual exclusion. In every state that threads can reach with locks under preemption, at
  most one thread is past the semaphore of a lock (it is the holder, or is about to become it,
  or is giving the lock back), and the semaphore's value is 0 then.
\<close>

theorem lock_mutual_exclusion:
  assumes "sync_ok L T spc s0" and "(sync_step L)\<^sup>*\<^sup>* s0 s" and "l \<in> L" and "t \<in> T" and "u \<in> T"
    and "past_semaphore l s t" and "past_semaphore l s u"
  shows "t = u \<and> sem_value s (semaphore_of l) = 0"
proof -
  obtain cur rs ws where inv: "sync_inv L T spc s cur rs ws"
    using reachable_sync_ok [OF assms(2,1)] by (auto simp: sync_ok_def)
  show ?thesis
    using lock_ok_exclusive [OF sync_invD(8) [OF inv assms(3)] assms(4,5) null_not_thread [OF inv]
        assms(6,7) [unfolded past_semaphore_def]] .
qed

lemma lock_mutual_exclusion_witness: "{u \<in> sample_set. past_semaphore 0x700 sample_sync u} = {0x1000}"
proof -
  have ok: "sync_ok {0x700} sample_set (\<lambda>_. 0x100000) sample_sync"
    using sample_sync_inv by (auto simp: sync_ok_def)
  have holder: "holder sample_sync 0x700 = 0x1000" by (simp add: sample_sync_def)
  have main: "past_semaphore 0x700 sample_sync 0x1000"
    unfolding past_semaphore_def using holder by (rule disjI1)
  have mem: "0x1000 \<in> sample_set" by (simp add: sample_set_def)
  have "u = 0x1000" if "u \<in> sample_set" "past_semaphore 0x700 sample_sync u" for u
    using lock_mutual_exclusion [OF ok rtranclp.rtrancl_refl singletonI that(1) mem that(2) main] by (rule conjunct1)
  then show ?thesis using main mem by blast
qed



text \<open>
  C25: no wake-up is lost. In a reachable state the list of waiters of a lock is well formed and
  holds blocked threads only, and when the lock's semaphore is free while threads wait, one
  thread has been taken off the list, is running or ready, and will test the semaphore next.
\<close>

theorem no_lost_wakeup:
  assumes "sync_ok L T spc s0" and "(sync_step L)\<^sup>*\<^sup>* s0 s" and "l \<in> L"
  shows "\<exists>w. is_list s (waiters (semaphore_of l)) (map general_tag w) \<and>
    (\<forall>t \<in> set w. status (tasks s t) = TASK_BLOCKED) \<and>
    (sem_value s (semaphore_of l) = 1 \<and> w \<noteq> [] \<longrightarrow>
       (\<exists>t \<in> T. status (tasks s t) \<in> {TASK_RUNNING, TASK_READY} \<and> woken_for l (frames s t)))"
proof -
  obtain cur rs ws where inv: "sync_inv L T spc s cur rs ws"
    using reachable_sync_ok [OF assms(2,1)] by (auto simp: sync_ok_def)
  note wait = sync_invD(7) [OF inv]
  have awake: "status (tasks s t) \<in> {TASK_RUNNING, TASK_READY}"
    if t: "t \<in> T - set (ws l)" "woken_for l (frames s t)" for t
  proof (rule ccontr)
    assume "status (tasks s t) \<notin> {TASK_RUNNING, TASK_READY}"
    then have "status (tasks s t) = TASK_BLOCKED" using inv t(1) by (auto simp: sync_inv_def)
    then obtain k where k: "k \<in> L" "t \<in> set (ws k)" using inv t(1) by (auto simp: sync_inv_def)
    then have "waits_for k (frames s t)" using wait [OF k(1)] by (auto simp: waiting_ok_def)
    then have "k = l" using t(2) by (auto simp: woken_for_def waits_for_def)
    then show False using t(1) k(2) by simp
  qed
  show ?thesis
    by (rule exI [of _ "ws l"]) (use wait [OF assms(3)] awake in \<open>auto simp: waiting_ok_def\<close>)
qed

lemma no_lost_wakeup_witness:
  "\<exists>w. is_list sample_sync 0x708 (map general_tag w) \<and>
    set w \<subseteq> {t. status (tasks sample_sync t) = TASK_BLOCKED}"
proof -
  have ok: "sync_ok {0x700} sample_set (\<lambda>_. 0x100000) sample_sync"
    using sample_sync_inv by (auto simp: sync_ok_def)
  have addr: "waiters (semaphore_of 0x700) = 0x708" by (simp add: waiters_def semaphore_of_def)
  show ?thesis using no_lost_wakeup [OF ok rtranclp.rtrancl_refl, of "0x700"] unfolding addr by auto
qed

text \<open>
  \<open>sema_up\<close> serves the waiters in order: it takes the first thread off the list of waiters
  and puts it, ready, at the front of the ready list; the others keep waiting.
\<close>

theorem sema_up_wakes_first:
  assumes "sync_inv L T spc s cur rs ws" and "l \<in> L" and "ws l = w # wl"
    and "frames s cur = [SemaUp (semaphore_of l)]"
  shows "\<exists>s'. run_frame s = Some (Inr s') \<and> sync_inv L T spc s' cur (w # rs) (ws(l := wl))"
proof -
  obtain s' where "sema_up (semaphore_of l) (s\<lparr>frames := (frames s)(cur := [])\<rparr>) = Inr s'"
    "sync_inv L T spc s' cur (w # rs) (ws(l := wl))"
    by (rule wake_step [OF assms])
  then show ?thesis using assms(4) sync_invD(4) [OF assms(1)] by (simp add: run_frame_def)
qed

text \<open>The same state when the holder is about to post the semaphore.\<close>

definition sample_posting :: sync where
  "sample_posting = sample_sync\<lparr>holder := (\<lambda>_. 0), holder_repeat_nr := (\<lambda>_. 0),
     frames := (frames sample_sync)(0x1000 := [SemaUp 0x704])\<rparr>"

lemma sample_posting_inv:
  "sync_inv {0x700} sample_set (\<lambda>_. 0x100000) sample_posting 0x1000 [0x2000] (\<lambda>_. [0x3000])"
proof -
  note inv = sample_sync_inv
  have sched: "sched_inv sample_set (\<lambda>_. 0x100000) sample_posting 0x1000 [0x2000]"
    by (rule sched_inv_cong [OF sync_invD(1) [OF inv]]) (simp_all add: sample_posting_def)
  have up: "lock_stack {0x700} [SemaUp 0x704]"
    using lock_stack.up [of "0x700" "{0x700}"] by (simp add: semaphore_of_def)
  have "owned sample_set (\<lambda>t. phase 0x700 (frames sample_posting t)) 0 0 0 0x1000"
    by (simp add: owned_def sample_set_def sample_posting_def sample_sync_def semaphore_of_def)
  then have lock: "lock_ok sample_set (\<lambda>t. phase 0x700 (frames sample_posting t)) 0 0 0"
    by (rule owned_lock_ok)
  have list: "is_list sample_posting q xs \<longleftrightarrow> is_list sample_sync q xs" for q xs
    by (rule is_list_cong) (simp_all add: sample_posting_def)
  have "waiting_ok sample_set sample_posting 0x700 [0x3000]"
    using sync_invD(7) [OF inv, of "0x700"] unfolding waiting_ok_def list
    by (simp add: sample_posting_def) (simp add: sample_sync_def)
  with inv sched lock up sample_sync_stacks show ?thesis
    unfolding sync_inv_def by (auto simp: sample_posting_def sample_sync_def)
qed

lemma sema_up_wakes_first_witness:
  "\<exists>s'. run_frame sample_posting = Some (Inr s') \<and> status (tasks s' 0x3000) = TASK_READY"
proof -
  have top: "frames sample_posting 0x1000 = [SemaUp (semaphore_of 0x700)]"
    by (simp add: sample_posting_def semaphore_of_def)
  obtain s' where s': "run_frame sample_posting = Some (Inr s')"
    "sync_inv {0x700} sample_set (\<lambda>_. 0x100000) s' 0x1000 [0x3000, 0x2000] ((\<lambda>_. [0x3000])(0x700 := []))"
    using sema_up_wakes_first [OF sample_posting_inv _ _ top, of "0x3000" "[]"] by auto
  then have "status (tasks s' 0x3000) = TASK_READY"
    using sync_invD(1) [OF s'(2)] by (auto simp: sched_inv_def sample_set_def)
  with s'(1) show ?thesis by blast
qed

text \<open>
  Acquiring and releasing. When nobody else uses a lock, \<open>lock_acquire\<close> runs to its end
  without blocking and makes the caller the holder, with the counter at 1 and the semaphore at
  0; \<open>lock_release\<close> then brings back exactly the state before.
\<close>

theorem lock_roundtrip:
  assumes "frames s (running_thread s) = []" and "running_thread s \<noteq> NULL" and "holder s l = NULL"
    and "holder_repeat_nr s l = 0" and "sem_value s (semaphore_of l) = 1"
    and "list_empty s (waiters (semaphore_of l))"
  shows "\<exists>s'. run_frames 4 (push_frames (running_thread s) (lock_acquire l) s) = Inr s' \<and>
    holder s' l = running_thread s \<and> holder_repeat_nr s' l = 1 \<and> sem_value s' (semaphore_of l) = 0 \<and>
    run_frames 5 (push_frames (running_thread s') (lock_release l) s') = Inr s"
proof -
  define s' where "s' = set_repeat l 1 (set_holder l (running_thread s) (set_value (semaphore_of l) 0 s))"
  have acq: "run_frames 4 (push_frames (running_thread s) (lock_acquire l) s) = Inr s'"
    unfolding s'_def using assms by (intro acquire_free) simp_all
  have "run_frames 5 (push_frames (running_thread s') (lock_release l) s') =
      Inr (set_value (semaphore_of l) 1 (set_repeat l 0 (set_holder l NULL s')))"
    using assms by (intro release_last) (simp_all add: s'_def list_empty_def)
  also have "set_value (semaphore_of l) 1 (set_repeat l 0 (set_holder l NULL s')) = s"
    using assms(3-5) by (cases s) (auto simp: s'_def set_value_def set_repeat_def set_holder_def fun_upd_idem)
  finally show ?thesis using acq by (intro exI [of _ s']) (simp add: s'_def)
qed

definition sample_free :: sync where
  "sample_free = lock_init 0x900 sample_sync"

lemma lock_roundtrip_witness:
  "\<exists>s'. run_frames 4 (push_frames 0x1000 (lock_acquire 0x900) sample_free) = Inr s' \<and>
    holder s' 0x900 = 0x1000 \<and>
    run_frames 5 (push_frames (running_thread s') (lock_release 0x900) s') = Inr sample_free"
proof -
  have run: "running_thread sample_free = 0x1000"
    by (simp add: running_thread_def sample_free_def lock_init_def sema_init_def list_init_def
        set_next_def set_prev_def sample_sync_def set_value_def set_repeat_def set_holder_def)
  have free: "frames sample_free 0x1000 = []" "holder sample_free 0x900 = NULL"
    "holder_repeat_nr sample_free 0x900 = 0" "sem_value sample_free (semaphore_of 0x900) = 1"
    "list_empty sample_free (waiters (semaphore_of 0x900))"
    by (simp_all add: sample_free_def lock_init_def sema_init_def list_empty_def list_init_def)
      (simp_all add: set_next_def set_prev_def sample_sync_def set_value_def set_repeat_def set_holder_def)
  show ?thesis using lock_roundtrip [of sample_free "0x900", unfolded run, OF free(1) _ free(2-5)] by auto
qed

text \<open>
  A lock is re-entrant. For its holder \<open>lock_acquire\<close> only increments the counter, whatever
  the semaphore and the waiters, and a release with the counter above 1 only decrements it.
\<close>

theorem lock_reentrant:
  assumes "frames s (running_thread s) = []" and "holder s l = running_thread s"
  shows "run_frames 2 (push_frames (running_thread s) (lock_acquire l) s) =
      Inr (set_repeat l (holder_repeat_nr s l + 1) s) \<and>
    (holder_repeat_nr s l > 1 \<longrightarrow>
      run_frames 3 (push_frames (running_thread s) (lock_release l) s) =
      Inr (set_repeat l (holder_repeat_nr s l - 1) s))"
  using assms
  by (simp add: eval_nat_numeral run_frame_top lock_acquire_def lock_release_def)
    (simp add: push_frames_def set_repeat_def fun_upd_idem)

lemma lock_reentrant_witness:
  "run_frames 2 (push_frames 0x1000 (lock_acquire 0x700) sample_sync) = Inr (set_repeat 0x700 2 sample_sync)"
proof -
  have run: "running_thread sample_sync = 0x1000" "frames sample_sync 0x1000 = []"
    "holder sample_sync 0x700 = 0x1000" "holder_repeat_nr sample_sync 0x700 = 1"
    by (simp_all add: running_thread_def sample_sync_def)
  show ?thesis using lock_reentrant [of sample_sync "0x700"] by (simp add: run)
qed

end
