(* ===== verification/MemPool.thy ===== *)
theory MemPool
  imports Locks
begin

text \<open>
  The physical and virtual page pools of \<open>src/kernel/memory.c\<close>: \<open>mem_pool_init\<close>,
  \<open>vaddr_get_pages\<close>, \<open>paddr_get_page\<close>. The bitmaps are in kernel data memory \<open>kmem\<close>, by virtual
  address: it is mapped in every address space and holds neither page tables nor pages of the
  pools, which are in \<open>phys\<close>.
\<close>

section \<open>Data\<close>

datatype pool_type = KERNEL_POOL | USER_POOL

text \<open>\<open>plock\<close> is the address of the lock in the pool.\<close>

record pool =
  plock :: u32
  pool_bitmap :: bitmap
  phy_addr_start :: u32
  pool_size :: u32

record memory = sync +
  kmem :: mem
  kernel_pool :: pool
  user_pool :: pool
  kernel_vaddr :: virtual_addr

definition MEM_BITMAP_BASE :: u32 where
  "MEM_BITMAP_BASE = 0xc009a000"

definition K_HEAP_START :: u32 where
  "K_HEAP_START = 0xc0100000"

section \<open>Initialisation\<close>

text \<open>The page counts are 16-bit variables.\<close>

definition all_free_pages :: "u32 \<Rightarrow> u16" where
  "all_free_pages all_mem = ucast ((all_mem - (PG_SIZE * 256 + 0x100000)) div PG_SIZE)"

definition kernel_free_pages :: "u32 \<Rightarrow> u16" where
  "kernel_free_pages all_mem = all_free_pages all_mem div 2"

definition user_free_pages :: "u32 \<Rightarrow> u16" where
  "user_free_pages all_mem = all_free_pages all_mem - kernel_free_pages all_mem"

definition mem_pool_init :: "u32 \<Rightarrow> 'a memory_scheme \<Rightarrow> 'a memory_scheme" where
  "mem_pool_init all_mem s =
     (let page_table_size = PG_SIZE * 256;
          used_mem = page_table_size + 0x100000;
          kpages = ucast (kernel_free_pages all_mem) :: u32;
          upages = ucast (user_free_pages all_mem) :: u32;
          kbm = \<lparr>bm_length = kpages div 8, bm_bits = MEM_BITMAP_BASE\<rparr>;
          ubm = \<lparr>bm_length = upages div 8, bm_bits = MEM_BITMAP_BASE + kpages div 8\<rparr>;
          vbm = \<lparr>bm_length = kpages div 8, bm_bits = MEM_BITMAP_BASE + kpages div 8 + upages div 8\<rparr>;
          s1 = s\<lparr>kernel_pool := (kernel_pool s)\<lparr>phy_addr_start := used_mem,
                   pool_size := kpages * PG_SIZE, pool_bitmap := kbm\<rparr>,
                 kmem := bitmap_init (kmem s) kbm\<rparr>;
          s2 = s1\<lparr>user_pool := (user_pool s1)\<lparr>phy_addr_start := used_mem + kpages * PG_SIZE,
                   pool_size := upages * PG_SIZE, pool_bitmap := ubm\<rparr>,
                 kmem := bitmap_init (kmem s1) ubm\<rparr>;
          s3 = kprintf ''-----------------------------\<newline>'' [] s2;
          s4 = kprintf ''kernel_pool: bitmap_start: %x, phy_addr_start=%x\<newline>''
                 [bm_bits kbm, phy_addr_start (kernel_pool s3)] s3;
          s5 = kprintf ''user_pool: bitmap_start: %x, phy_addr_start=%x\<newline>''
                 [bm_bits ubm, phy_addr_start (user_pool s4)] s4;
          s6 = kprintf ''-----------------------------\<newline>'' [] s5
      in s6\<lparr>kernel_vaddr := \<lparr>addr_bitmap = vbm, addr_start = K_HEAP_START\<rparr>,
            kmem := bitmap_init (kmem s6) vbm\<rparr>)"

text \<open>The total is at physical address \<open>0xd00\<close>, where the loader left it.\<close>

definition memory_init :: "'a memory_scheme \<Rightarrow> 'a memory_scheme outcome" where
  "memory_init s =
     rbind (vload32 s 0xd00) (\<lambda>mem_bytes_total.
       let s1 = mem_pool_init mem_bytes_total s;
           s2 = lock_init (plock (user_pool s1)) s1;
           s3 = lock_init (plock (kernel_pool s2)) s2
       in Inr (kprintf ''memory_init done\<newline>'' [] s3))"

section \<open>Allocation\<close>

definition pool_of :: "pool_type \<Rightarrow> 'a memory_scheme \<Rightarrow> pool" where
  "pool_of ty s = (case ty of KERNEL_POOL \<Rightarrow> kernel_pool s | USER_POOL \<Rightarrow> user_pool s)"

text \<open>\<open>for (u32 i = start; i < end; i++) bitmap_set_bit(bm, i, 1)\<close>\<close>

function set_range :: "mem \<Rightarrow> bitmap \<Rightarrow> u32 \<Rightarrow> u32 \<Rightarrow> mem" where
  "set_range m bm i e = (if i < e then set_range (bitmap_set_bit m bm i 1) bm (i + 1) e else m)"
  by pat_completeness auto
termination
proof (relation "measure (\<lambda>(m, bm, i, e). unat e - unat i)", simp)
  fix m :: mem and bm :: bitmap and i e :: u32
  assume "i < e"
  then have lt: "unat i < unat e" by (simp add: word_less_nat_alt)
  then have "unat (i + 1) = Suc (unat i)" using unat_bound32 [of e] by (intro unat_inc32) simp
  with lt show "((bitmap_set_bit m bm i 1, bm, i + 1, e), m, bm, i, e)
      \<in> measure (\<lambda>(m, bm, i, e). unat e - unat i)" by simp
qed

declare set_range.simps [simp del]

definition vaddr_get_pages :: "pool_type \<Rightarrow> u32 \<Rightarrow> 'a memory_scheme \<Rightarrow> (u32 \<times> 'a memory_scheme) outcome" where
  "vaddr_get_pages ty count s =
     (case ty of
        KERNEL_POOL \<Rightarrow>
          let bm = addr_bitmap (kernel_vaddr s)
          in rbind (bitmap_request_bits (kmem s) bm count) (\<lambda>bit_index_start.
               if bit_index_start = - 1 then Inr (NULL, s)
               else Inr (addr_start (kernel_vaddr s) + bit_index_start * PG_SIZE,
                         s\<lparr>kmem := set_range (kmem s) bm bit_index_start (bit_index_start + count)\<rparr>))
      | USER_POOL \<Rightarrow>
          let cur = running_thread s;
              va = userprog_vaddr (tasks s cur);
              bm = addr_bitmap va
          in rbind (bitmap_request_bits (kmem s) bm count) (\<lambda>bit_index_start.
               if bit_index_start = - 1 then Inr (NULL, s)
               else
                 let vaddr_start = addr_start va + bit_index_start * PG_SIZE
                 in rbind (c_assert ''vaddr_get_pages'' ''(u32)vaddr_start < (0xc0000000 - PG_SIZE)''
                             (vaddr_start < 0xc0000000 - PG_SIZE))
                      (\<lambda>_. Inr (vaddr_start,
                         s\<lparr>kmem := set_range (kmem s) bm bit_index_start (bit_index_start + count)\<rparr>))))"

definition paddr_get_page :: "pool_type \<Rightarrow> 'a memory_scheme \<Rightarrow> (u32 \<times> 'a memory_scheme) outcome" where
  "paddr_get_page ty s =
     (let m_pool = pool_of ty s
      in rbind (bitmap_request_bits (kmem s) (pool_bitmap m_pool) 1) (\<lambda>bit_idx.
           if bit_idx = - 1 then Inr (NULL, s)
           else Inr (phy_addr_start m_pool + PG_SIZE * bit_idx,
                     s\<lparr>kmem := bitmap_set_bit (kmem s) (pool_bitmap m_pool) bit_idx 1\<rparr>)))"

section \<open>Ranges of bits\<close>

lemma set_range_bits:
  assumes "unat i \<le> unat e" and "j < 2 ^ 32"
  shows "bit_set (set_range m bm i e) bm j \<longleftrightarrow> unat i \<le> j \<and> j < unat e \<or> bit_set m bm j"
  using assms(1)
proof (induction m bm i e rule: set_range.induct)
  case (1 m bm i e)
  show ?case
  proof (cases "i < e")
    case True
    then have lt: "unat i < unat e" by (simp add: word_less_nat_alt)
    then have inc: "unat (i + 1) = Suc (unat i)" using unat_bound32 [of e] by (intro unat_inc32) simp
    have set: "bit_set (bitmap_set_bit m bm i 1) bm j \<longleftrightarrow> j = unat i \<or> bit_set m bm j"
      using bit_set_after_set [of "unat i" j m bm 1] unat_bound32 [of i] assms(2) by simp
    show ?thesis
      using "1.IH" [OF True] lt by (subst set_range.simps) (auto simp: True inc set)
  next
    case False
    then have "unat i = unat e" using "1.prems" by (simp add: word_less_nat_alt)
    then show ?thesis using False by (subst set_range.simps) auto
  qed
qed

lemma set_range_outside:
  assumes "a \<notin> region (bm_bits bm) (Suc ((unat e - 1) div 8))" and "unat i \<le> unat e"
  shows "set_range m bm i e a = m a"
  using assms
proof (induction m bm i e rule: set_range.induct)
  case (1 m bm i e)
  show ?case
  proof (cases "i < e")
    case True
    then have lt: "unat i < unat e" by (simp add: word_less_nat_alt)
    then have inc: "unat (i + 1) = Suc (unat i)" using unat_bound32 [of e] by (intro unat_inc32) simp
    have "unat i div 8 \<le> (unat e - 1) div 8" using lt by (intro div_le_mono) simp
    then have "bm_bits bm + of_nat (unat i div 8) \<in> region (bm_bits bm) (Suc ((unat e - 1) div 8))"
      by (intro in_regionI) simp
    moreover have "i div 8 = of_nat (unat i div 8)"
      using of_nat_div8 [of "unat i"] unat_bound32 [of i] by simp
    ultimately have "a \<noteq> bm_bits bm + i div 8" using "1.prems"(1) by metis
    then have "bitmap_set_bit m bm i 1 a = m a" by (rule set_bit_other_byte)
    then show ?thesis using "1.IH" [OF True "1.prems"(1)] lt True by (subst set_range.simps) (simp add: inc)
  qed (simp add: set_range.simps)
qed

section \<open>Physical pages\<close>

text \<open>Page \<open>i\<close> of a pool is allocated when its bit is set.\<close>

definition pool_page :: "pool \<Rightarrow> nat \<Rightarrow> u32" where
  "pool_page p i = phy_addr_start p + PG_SIZE * of_nat i"

definition allocated :: "mem \<Rightarrow> pool \<Rightarrow> u32 set" where
  "allocated m p = {pool_page p i | i. i < bm_bits_count (pool_bitmap p) \<and> bit_set m (pool_bitmap p) i}"

text \<open>The pages of a pool do not wrap around the address space, and start at a page boundary.\<close>

definition pool_ok :: "pool \<Rightarrow> bool" where
  "pool_ok p \<longleftrightarrow> unat (phy_addr_start p) mod 4096 = 0 \<and>
     unat (phy_addr_start p) + 4096 * bm_bits_count (pool_bitmap p) < 2 ^ 32"

lemma pool_ok_count: "pool_ok p \<Longrightarrow> bm_bits_count (pool_bitmap p) < 2 ^ 20"
  by (simp add: pool_ok_def)

lemma unat_pool_page:
  assumes "pool_ok p" and "i < bm_bits_count (pool_bitmap p)"
  shows "unat (pool_page p i) = unat (phy_addr_start p) + 4096 * i"
proof -
  have "i < 2 ^ 32" using pool_ok_count [OF assms(1)] assms(2) by simp
  then have i: "unat (of_nat i :: u32) = i" by (rule unat_of_nat32)
  have "4096 * i < 2 ^ 32" using assms by (simp add: pool_ok_def)
  then have "unat (PG_SIZE * of_nat i) = 4096 * i"
    by (subst unat_mult32) (simp_all add: PG_SIZE_def i)
  then show ?thesis
    unfolding pool_page_def using assms by (subst unat_add32) (simp_all add: pool_ok_def)
qed

lemma pool_page_inj:
  assumes "pool_ok p" and "i < bm_bits_count (pool_bitmap p)" and "j < bm_bits_count (pool_bitmap p)"
  shows "pool_page p i = pool_page p j \<longleftrightarrow> i = j"
proof
  assume "pool_page p i = pool_page p j"
  then have "unat (phy_addr_start p) + 4096 * i = unat (phy_addr_start p) + 4096 * j"
    using unat_pool_page assms by metis
  then show "i = j" by simp
qed simp

lemma page_frame_aligned: "unat x mod 4096 = 0 \<Longrightarrow> page_frame x = x"
  using div_mult_mod_eq [of "unat x" 4096] by (intro word32_eqI) (simp add: page_frame_def unat_frame)

lemma pool_page_aligned:
  "pool_ok p \<Longrightarrow> i < bm_bits_count (pool_bitmap p) \<Longrightarrow> page_frame (pool_page p i) = pool_page p i"
  by (rule page_frame_aligned) (simp add: unat_pool_page pool_ok_def)

lemma of_nat_not_minus_one: "i < 2 ^ 32 - 1 \<Longrightarrow> (of_nat i :: u32) \<noteq> - 1"
proof
  assume i: "i < 2 ^ 32 - 1" and "(of_nat i :: u32) = - 1"
  then have "unat (of_nat i :: u32) = unat (- 1 :: u32)" by simp
  moreover have "unat (of_nat i :: u32) = i" using i by (intro unat_of_nat32) simp
  moreover have "unat (- 1 :: u32) = 2 ^ 32 - 1" by (simp add: unsigned_minus_1_eq_mask mask_eq_exp_minus_1)
  ultimately show False using i by simp
qed

lemma paddr_get_page_free:
  assumes ok: "pool_ok (pool_of ty s)"
    and free: "i < bm_bits_count (pool_bitmap (pool_of ty s))" "\<not> bit_set (kmem s) (pool_bitmap (pool_of ty s)) i"
  obtains k where "paddr_get_page ty s = Inr (pool_page (pool_of ty s) k,
      s\<lparr>kmem := bitmap_set_bit (kmem s) (pool_bitmap (pool_of ty s)) (of_nat k) 1\<rparr>)"
    and "k < bm_bits_count (pool_bitmap (pool_of ty s))" "\<not> bit_set (kmem s) (pool_bitmap (pool_of ty s)) k"
    and "\<forall>j < k. bit_set (kmem s) (pool_bitmap (pool_of ty s)) j"
proof -
  let ?bm = "pool_bitmap (pool_of ty s)"
  have N: "bm_bits_count ?bm < 2 ^ 20" using pool_ok_count [OF ok] .
  then obtain k where k: "bitmap_request_bits (kmem s) ?bm 1 = Inr (of_nat k)" "k < bm_bits_count ?bm"
    "\<not> bit_set (kmem s) ?bm k" "\<forall>j < k. bit_set (kmem s) ?bm j"
    using request_one [of ?bm i "kmem s"] free by auto
  moreover have "(of_nat k :: u32) \<noteq> - 1" using k(2) N by (intro of_nat_not_minus_one) simp
  ultimately show thesis
    by (intro that [of k]) (simp_all add: paddr_get_page_def Let_def pool_page_def)
qed

lemma paddr_get_page_full:
  assumes "pool_ok (pool_of ty s)" and "\<forall>i < bm_bits_count (pool_bitmap (pool_of ty s)). bit_set (kmem s) (pool_bitmap (pool_of ty s)) i"
  shows "paddr_get_page ty s = Inl (Panic ''bitmap_request_bits'' ''idx_byte < bitmap->length'')"
  using request_full [OF _ assms(2)] pool_ok_count [OF assms(1)] by (simp add: paddr_get_page_def Let_def)

lemma allocated_after:
  assumes ok: "pool_ok p" and k: "k < bm_bits_count (pool_bitmap p)"
  shows "allocated (bitmap_set_bit m (pool_bitmap p) (of_nat k) 1) p = insert (pool_page p k) (allocated m p)"
proof -
  have "bm_bits_count (pool_bitmap p) < 2 ^ 20" using pool_ok_count [OF ok] .
  then have "bit_set (bitmap_set_bit m (pool_bitmap p) (of_nat k) 1) (pool_bitmap p) i \<longleftrightarrow>
      i = k \<or> bit_set m (pool_bitmap p) i" if "i < bm_bits_count (pool_bitmap p)" for i
    using bit_set_after_set [of k i m "pool_bitmap p" 1] k that by simp
  then show ?thesis unfolding allocated_def using k by auto
qed

lemma page_not_allocated:
  "pool_ok p \<Longrightarrow> k < bm_bits_count (pool_bitmap p) \<Longrightarrow> \<not> bit_set m (pool_bitmap p) k \<Longrightarrow>
   pool_page p k \<notin> allocated m p"
  using pool_page_inj by (auto simp: allocated_def)

section \<open>Geometry of the pools\<close>

text \<open>The machine has 2 MB or more, and fewer than \<open>2 ^ 16\<close> pages above them.\<close>

definition mem_size_ok :: "u32 \<Rightarrow> bool" where
  "mem_size_ok all_mem \<longleftrightarrow> 0x200000 \<le> unat all_mem \<and> unat all_mem < 0x200000 + 0x10000 * 4096"

definition total_pages :: "u32 \<Rightarrow> nat" where
  "total_pages all_mem = (unat all_mem - 0x200000) div 4096"

lemma unat_all_free_pages:
  assumes "0x200000 \<le> unat all_mem"
  shows "unat (all_free_pages all_mem) = total_pages all_mem mod 2 ^ 16"
proof -
  have used: "PG_SIZE * 256 + 0x100000 = (0x200000 :: u32)" by (simp add: PG_SIZE_def)
  have "(0x200000 :: u32) \<le> all_mem" using assms by (simp add: word_le_nat_alt)
  then have "unat (all_mem - 0x200000) = unat all_mem - 0x200000" by (simp add: unat_sub)
  then have "unat ((all_mem - 0x200000) div PG_SIZE) = total_pages all_mem"
    by (simp add: unat_div32 PG_SIZE_def total_pages_def)
  then show ?thesis
    unfolding all_free_pages_def used by (simp add: unsigned_ucast_eq take_bit_eq_mod)
qed

lemma page_counts:
  assumes "mem_size_ok all_mem"
  shows "unat (ucast (kernel_free_pages all_mem) :: u32) = total_pages all_mem div 2"
    and "unat (ucast (user_free_pages all_mem) :: u32) = total_pages all_mem - total_pages all_mem div 2"
    and "total_pages all_mem < 2 ^ 16"
proof -
  have "unat all_mem - 0x200000 < 4096 * 2 ^ 16"
    using assms by (simp add: mem_size_ok_def less_diff_conv2)
  then show small: "total_pages all_mem < 2 ^ 16"
    unfolding total_pages_def using less_mult_imp_div_less [of "unat all_mem - 0x200000" "2 ^ 16" 4096]
    by (simp add: mult.commute)
  have all: "unat (all_free_pages all_mem) = total_pages all_mem"
    using unat_all_free_pages [of all_mem] assms small by (simp add: mem_size_ok_def)
  then have k: "unat (kernel_free_pages all_mem) = total_pages all_mem div 2"
    by (simp add: kernel_free_pages_def unat_div)
  have "kernel_free_pages all_mem \<le> all_free_pages all_mem" by (simp add: word_le_nat_alt k all)
  then have u: "unat (user_free_pages all_mem) = total_pages all_mem - total_pages all_mem div 2"
    by (simp add: user_free_pages_def unat_sub k all)
  have up: "unat (ucast x :: u32) = unat x" for x :: u16
  proof -
    have "unat x < 2 ^ 32" using unsigned_less [of x, where ?'a = nat] by simp
    then show ?thesis by (simp add: unsigned_ucast_eq take_bit_nat_eq_self)
  qed
  show "unat (ucast (kernel_free_pages all_mem) :: u32) = total_pages all_mem div 2" by (simp add: up k)
  show "unat (ucast (user_free_pages all_mem) :: u32) = total_pages all_mem - total_pages all_mem div 2"
    by (simp add: up u)
qed

text \<open>Consecutive regions are disjoint.\<close>

lemma region_apart:
  assumes "a + n \<le> b" and "b + k < 2 ^ 32"
  shows "region (p + of_nat a) n \<inter> region (p + of_nat b) k = {}"
proof (rule ccontr)
  assume "region (p + of_nat a) n \<inter> region (p + of_nat b) k \<noteq> {}"
  then obtain i j where ij: "i < n" "j < k" "p + of_nat a + of_nat i = p + of_nat b + of_nat j"
    by (auto simp: region_def)
  then have "p + of_nat (a + i) = p + of_nat (b + j)" by (simp add: add.assoc)
  moreover have "a + i < 2 ^ 32" "b + j < 2 ^ 32" using ij assms by linarith+
  ultimately have "a + i = b + j" using add_offset_eq_iff by metis
  then show False using ij assms by linarith
qed

lemma bit_set_cong_region:
  assumes "\<And>a. a \<in> region (bm_bits bm) (unat (bm_length bm)) \<Longrightarrow> m' a = m a" and "i < bm_bits_count bm"
  shows "bit_set m' bm i = bit_set m bm i"
proof -
  have "i div 8 < unat (bm_length bm)" using assms(2) by (simp add: bm_bits_count_def less_mult_imp_div_less)
  then show ?thesis using assms(1) by (simp add: bit_set_def in_regionI)
qed

lemma mem_pool_init_fields:
  fixes all_mem :: u32
  defines "K \<equiv> ucast (kernel_free_pages all_mem) :: u32" and "U \<equiv> ucast (user_free_pages all_mem) :: u32"
  shows "kernel_pool (mem_pool_init all_mem s) = (kernel_pool s)\<lparr>phy_addr_start := 0x200000,
      pool_size := K * PG_SIZE, pool_bitmap := \<lparr>bm_length = K div 8, bm_bits = MEM_BITMAP_BASE\<rparr>\<rparr>"
    and "user_pool (mem_pool_init all_mem s) = (user_pool s)\<lparr>phy_addr_start := 0x200000 + K * PG_SIZE,
      pool_size := U * PG_SIZE, pool_bitmap := \<lparr>bm_length = U div 8, bm_bits = MEM_BITMAP_BASE + K div 8\<rparr>\<rparr>"
    and "kernel_vaddr (mem_pool_init all_mem s) = \<lparr>addr_bitmap =
      \<lparr>bm_length = K div 8, bm_bits = MEM_BITMAP_BASE + K div 8 + U div 8\<rparr>, addr_start = K_HEAP_START\<rparr>"
    and "kmem (mem_pool_init all_mem s) =
      bitmap_init (bitmap_init (bitmap_init (kmem s) \<lparr>bm_length = K div 8, bm_bits = MEM_BITMAP_BASE\<rparr>)
        \<lparr>bm_length = U div 8, bm_bits = MEM_BITMAP_BASE + K div 8\<rparr>)
        \<lparr>bm_length = K div 8, bm_bits = MEM_BITMAP_BASE + K div 8 + U div 8\<rparr>"
  by (simp_all add: mem_pool_init_def Let_def kprintf_def K_def U_def PG_SIZE_def)

lemma three_bitmaps:
  fixes a b c :: nat and p :: u32 and m :: mem
  assumes "a + b + c < 2 ^ 32"
  defines "A \<equiv> \<lparr>bm_length = of_nat a, bm_bits = p\<rparr>"
    and "B \<equiv> \<lparr>bm_length = of_nat b, bm_bits = p + of_nat a\<rparr>"
    and "C \<equiv> \<lparr>bm_length = of_nat c, bm_bits = p + of_nat a + of_nat b\<rparr>"
  defines "m' \<equiv> bitmap_init (bitmap_init (bitmap_init m A) B) C"
  shows "\<forall>i < bm_bits_count A. \<not> bit_set m' A i" "\<forall>i < bm_bits_count B. \<not> bit_set m' B i"
    "\<forall>i < bm_bits_count C. \<not> bit_set m' C i"
proof -
  have len: "unat (bm_length A) = a" "unat (bm_length B) = b" "unat (bm_length C) = c"
    using assms(1) by (simp_all add: A_def B_def C_def unat_of_nat32)
  have AB: "region (bm_bits A) a \<inter> region (bm_bits B) b = {}"
    using region_apart [of 0 a a b p] assms(1) by (simp add: A_def B_def)
  have AC: "region (bm_bits A) a \<inter> region (bm_bits C) c = {}"
    using region_apart [of 0 a "a + b" c p] assms(1) by (simp add: A_def C_def add.assoc)
  have BC: "region (bm_bits B) b \<inter> region (bm_bits C) c = {}"
    using region_apart [of a b "a + b" c p] assms(1) by (simp add: B_def C_def add.assoc)
  have keep: "bit_set (bitmap_init m0 Y) X i = bit_set m0 X i"
    if "region (bm_bits X) (unat (bm_length X)) \<inter> region (bm_bits Y) (unat (bm_length Y)) = {}"
      "i < bm_bits_count X" for m0 X Y i
    by (rule bit_set_cong_region [OF _ that(2)], rule bitmap_init_outside) (use that(1) in blast)
  show "\<forall>i < bm_bits_count C. \<not> bit_set m' C i"
    unfolding m'_def using bitmap_init_clear by blast
  show "\<forall>i < bm_bits_count B. \<not> bit_set m' B i"
    unfolding m'_def using keep [of B C] BC bitmap_init_clear [of _ B] by (simp add: len)
  show "\<forall>i < bm_bits_count A. \<not> bit_set m' A i"
    unfolding m'_def using keep [of A C] keep [of A B] AB AC bitmap_init_clear [of _ A] by (simp add: len)
qed

lemma mem_pool_init_pools:
  fixes s :: "'a memory_scheme"
  assumes size: "mem_size_ok all_mem"
  defines "s' \<equiv> mem_pool_init all_mem s" and "F \<equiv> total_pages all_mem"
  shows "unat (phy_addr_start (kernel_pool s')) = 0x200000"
    and "unat (phy_addr_start (user_pool s')) = 0x200000 + 4096 * (F div 2)"
    and "bm_bits_count (pool_bitmap (kernel_pool s')) = 8 * (F div 2 div 8)"
    and "bm_bits_count (pool_bitmap (user_pool s')) = 8 * ((F - F div 2) div 8)"
    and "pool_ok (kernel_pool s')" "pool_ok (user_pool s')"
    and "\<forall>i < bm_bits_count (pool_bitmap (kernel_pool s')). \<not> bit_set (kmem s') (pool_bitmap (kernel_pool s')) i"
    and "\<forall>i < bm_bits_count (pool_bitmap (user_pool s')). \<not> bit_set (kmem s') (pool_bitmap (user_pool s')) i"
    and "\<forall>i < bm_bits_count (addr_bitmap (kernel_vaddr s')). \<not> bit_set (kmem s') (addr_bitmap (kernel_vaddr s')) i"
proof -
  define K U where "K = (ucast (kernel_free_pages all_mem) :: u32)" and "U = (ucast (user_free_pages all_mem) :: u32)"
  note fields = mem_pool_init_fields [of all_mem s, folded s'_def K_def U_def]
  have K: "unat K = F div 2" and U: "unat U = F - F div 2" and F: "F < 2 ^ 16"
    using page_counts [OF size] by (simp_all add: K_def U_def F_def)
  have K8: "K div 8 = of_nat (F div 2 div 8)" by (rule word32_eqI) (use F in \<open>simp add: unat_div32 K unat_of_nat32\<close>)
  have U8: "U div 8 = of_nat ((F - F div 2) div 8)" by (rule word32_eqI) (use F in \<open>simp add: unat_div32 U unat_of_nat32\<close>)
  have lens: "unat (of_nat (F div 2 div 8) :: u32) = F div 2 div 8"
    "unat (of_nat ((F - F div 2) div 8) :: u32) = (F - F div 2) div 8"
    using F by (simp_all add: unat_of_nat32)
  have pages: "unat (K * PG_SIZE) = 4096 * (F div 2)"
    using F by (subst unat_mult32) (simp_all add: K PG_SIZE_def)
  show kstart: "unat (phy_addr_start (kernel_pool s')) = 0x200000" by (simp add: fields)
  show ustart: "unat (phy_addr_start (user_pool s')) = 0x200000 + 4096 * (F div 2)"
    using F by (simp add: fields) (subst unat_add32, simp_all add: pages)
  show kcount: "bm_bits_count (pool_bitmap (kernel_pool s')) = 8 * (F div 2 div 8)"
    by (simp add: fields bm_bits_count_def K8 lens)
  show ucount: "bm_bits_count (pool_bitmap (user_pool s')) = 8 * ((F - F div 2) div 8)"
    by (simp add: fields bm_bits_count_def U8 lens)
  have small: "8 * (F div 2 div 8) < 2 ^ 16" "8 * ((F - F div 2) div 8) < 2 ^ 16" "F div 2 < 2 ^ 16"
    using F by linarith+
  then have "2097152 + 4096 * (8 * (F div 2 div 8)) < (2 ^ 32 :: nat)"
    "2097152 + 4096 * (F div 2) + 4096 * (8 * ((F - F div 2) div 8)) < (2 ^ 32 :: nat)" by simp_all
  moreover have "(2097152 + 4096 * (F div 2)) mod 4096 = 0" by simp
  ultimately show "pool_ok (kernel_pool s')" "pool_ok (user_pool s')"
    by (simp_all only: pool_ok_def kstart ustart kcount ucount) simp_all
  have "a \<le> F \<Longrightarrow> b \<le> F \<Longrightarrow> a + b + a < 2 ^ 32" for a b using F by simp
  moreover have "F div 2 div 8 \<le> F" "(F - F div 2) div 8 \<le> F" by linarith+
  ultimately have small: "F div 2 div 8 + (F - F div 2) div 8 + F div 2 div 8 < 2 ^ 32" .
  note clear = three_bitmaps [OF small, where p = MEM_BITMAP_BASE and m = "kmem s", folded K8 U8]
  show "\<forall>i < bm_bits_count (pool_bitmap (kernel_pool s')). \<not> bit_set (kmem s') (pool_bitmap (kernel_pool s')) i"
    "\<forall>i < bm_bits_count (pool_bitmap (user_pool s')). \<not> bit_set (kmem s') (pool_bitmap (user_pool s')) i"
    "\<forall>i < bm_bits_count (addr_bitmap (kernel_vaddr s')). \<not> bit_set (kmem s') (addr_bitmap (kernel_vaddr s')) i"
    using clear by (simp_all add: fields)
qed

section \<open>Virtual pages\<close>

lemma request_run:
  assumes N: "bm_bits_count bm < 2 ^ 32 - 1" and n: "0 < unat n"
    and run: "run_clear m bm t (unat n)" "t + unat n \<le> bm_bits_count bm"
  obtains t0 where "bitmap_request_bits m bm n = Inr (of_nat t0)" "first_run m bm (unat n) (bm_bits_count bm) t0"
proof (rule request_cases [OF N n, of m])
  assume "\<forall>i < bm_bits_count bm. bit_set m bm i"
  moreover have "\<not> bit_set m bm t" "t < bm_bits_count bm" using run n run_clearD [OF run(1), of t] by simp_all
  ultimately show thesis by blast
next
  fix s assume "n = 1" "bitmap_request_bits m bm n = Inr (of_nat s)" "first_run m bm 1 (bm_bits_count bm) s"
  then show thesis using that by simp
next
  fix t1 assume t1: "bitmap_request_bits m bm n = Inr (of_nat t1)"
    "first_run m bm (unat n) (Suc (bm_bits_count bm)) t1"
  then have "t1 \<le> t" using run(1) by (simp add: first_run_def)
  then have "first_run m bm (unat n) (bm_bits_count bm) t1" using t1(2) run(2) by (simp add: first_run_def)
  then show thesis using that t1(1) by blast
next
  assume "\<forall>t. run_clear m bm t (unat n) \<longrightarrow> Suc (bm_bits_count bm) < t + unat n"
  then show thesis using run by fastforce
qed

section \<open>Properties\<close>

definition sample_memory :: memory where
  "sample_memory = sync.extend sample_free (memory.fields (\<lambda>_. 0)
     \<lparr>plock = 0x900, pool_bitmap = \<lparr>bm_length = 2, bm_bits = 0xc009a000\<rparr>, phy_addr_start = 0x200000,
       pool_size = 0x10000\<rparr>
     \<lparr>plock = 0xa00, pool_bitmap = \<lparr>bm_length = 2, bm_bits = 0xc009a002\<rparr>, phy_addr_start = 0x210000,
       pool_size = 0x10000\<rparr>
     \<lparr>addr_bitmap = \<lparr>bm_length = 2, bm_bits = 0xc009a004\<rparr>, addr_start = 0xc0100000\<rparr>)"

lemma sample_memory_fields [simp]:
  "kmem sample_memory = (\<lambda>_. 0)"
  "kernel_pool sample_memory = \<lparr>plock = 0x900, pool_bitmap = \<lparr>bm_length = 2, bm_bits = 0xc009a000\<rparr>,
     phy_addr_start = 0x200000, pool_size = 0x10000\<rparr>"
  "user_pool sample_memory = \<lparr>plock = 0xa00, pool_bitmap = \<lparr>bm_length = 2, bm_bits = 0xc009a002\<rparr>,
     phy_addr_start = 0x210000, pool_size = 0x10000\<rparr>"
  "kernel_vaddr sample_memory = \<lparr>addr_bitmap = \<lparr>bm_length = 2, bm_bits = 0xc009a004\<rparr>, addr_start = 0xc0100000\<rparr>"
  by (simp_all add: sample_memory_def sync.defs memory.defs)

text \<open>
  C36: \<open>mem_pool_init\<close> splits the memory above 2 MB. With a total of 2 MB or more and fewer than
  65536 pages above, the pages of the kernel pool and of the user pool are different frames, all
  of them are between 2 MB and the end of memory, and all are free, as are the virtual pages.
\<close>

theorem pools_disjoint:
  assumes "mem_size_ok all_mem"
  shows "(let s' = mem_pool_init all_mem s; kp = kernel_pool s'; up = user_pool s'; va = addr_bitmap (kernel_vaddr s')
     in (\<forall>i < bm_bits_count (pool_bitmap kp). \<forall>j < bm_bits_count (pool_bitmap up). pool_page kp i \<noteq> pool_page up j) \<and>
        (\<forall>i < bm_bits_count (pool_bitmap kp). 0x200000 \<le> unat (pool_page kp i) \<and>
           unat (pool_page kp i) + 4096 \<le> unat all_mem) \<and>
        (\<forall>j < bm_bits_count (pool_bitmap up). 0x200000 \<le> unat (pool_page up j) \<and>
           unat (pool_page up j) + 4096 \<le> unat all_mem) \<and>
        allocated (kmem s') kp = {} \<and> allocated (kmem s') up = {} \<and>
        (\<forall>i < bm_bits_count va. \<not> bit_set (kmem s') va i))"
proof -
  define s' where "s' = mem_pool_init all_mem s"
  define F where "F = total_pages all_mem"
  note P = mem_pool_init_pools [OF assms, of s, folded s'_def F_def]
  have F: "4096 * F + 0x200000 \<le> unat all_mem"
    using assms div_times_less_eq_dividend [of "unat all_mem - 0x200000" 4096]
    unfolding F_def total_pages_def mem_size_ok_def by linarith
  have kp: "unat (pool_page (kernel_pool s') i) = 0x200000 + 4096 * i" "i < F div 2"
    if "i < bm_bits_count (pool_bitmap (kernel_pool s'))" for i
    using unat_pool_page [OF P(5) that] that P(1,3) by (simp, linarith)
  have up: "unat (pool_page (user_pool s') j) = 0x200000 + 4096 * (F div 2) + 4096 * j" "F div 2 + j < F"
    if "j < bm_bits_count (pool_bitmap (user_pool s'))" for j
    using unat_pool_page [OF P(6) that] that P(2,4) by (simp, linarith)
  have "pool_page (kernel_pool s') i \<noteq> pool_page (user_pool s') j"
    if "i < bm_bits_count (pool_bitmap (kernel_pool s'))" "j < bm_bits_count (pool_bitmap (user_pool s'))" for i j
  proof
    assume "pool_page (kernel_pool s') i = pool_page (user_pool s') j"
    then have "0x200000 + 4096 * i = 0x200000 + 4096 * (F div 2) + 4096 * j"
      using kp(1) [OF that(1)] up(1) [OF that(2)] by metis
    then show False using kp(2) [OF that(1)] by linarith
  qed
  moreover have "0x200000 \<le> unat (pool_page (kernel_pool s') i) \<and> unat (pool_page (kernel_pool s') i) + 4096 \<le> unat all_mem"
    if "i < bm_bits_count (pool_bitmap (kernel_pool s'))" for i
    using kp [OF that] F by linarith
  moreover have "0x200000 \<le> unat (pool_page (user_pool s') j) \<and> unat (pool_page (user_pool s') j) + 4096 \<le> unat all_mem"
    if "j < bm_bits_count (pool_bitmap (user_pool s'))" for j
    using up [OF that] F by linarith
  ultimately show ?thesis
    using P(7-9) unfolding Let_def s'_def [symmetric] by (auto simp: allocated_def)
qed

lemma pools_disjoint_witness:
  "allocated (kmem (mem_pool_init 0x2000000 sample_memory)) (kernel_pool (mem_pool_init 0x2000000 sample_memory)) = {}"
proof -
  have "mem_size_ok 0x2000000" by (simp add: mem_size_ok_def)
  from pools_disjoint [OF this, of sample_memory] show ?thesis by (simp add: Let_def)
qed

text \<open>
  C38: the number of free pages is kept in a 16-bit variable, so a machine with 256 MB more gets
  pools of the same size: the pages beyond 258 MB are lost.
\<close>

theorem page_count_wraps:
  assumes "0x200000 \<le> unat all_mem" and "unat all_mem + 0x10000000 < 2 ^ 32"
  shows "kernel_pool (mem_pool_init (all_mem + 0x10000000) s) = kernel_pool (mem_pool_init all_mem s) \<and>
    user_pool (mem_pool_init (all_mem + 0x10000000) s) = user_pool (mem_pool_init all_mem s)"
proof -
  have "unat (0x10000000 :: u32) = 0x10000000" by simp
  then have sum: "unat (all_mem + 0x10000000) = unat all_mem + 0x10000000"
    using assms(2) by (subst unat_add32) simp_all
  have "unat all_mem + 0x10000000 - 0x200000 = (unat all_mem - 0x200000) + 0x10000 * 4096" using assms(1) by simp
  then have "total_pages (all_mem + 0x10000000) = total_pages all_mem + 0x10000"
    unfolding total_pages_def sum by (simp only: div_mult_self1 zero_neq_numeral)
  then have "all_free_pages (all_mem + 0x10000000) = all_free_pages all_mem"
    using unat_all_free_pages [of all_mem] unat_all_free_pages [of "all_mem + 0x10000000"] assms(1) sum
    by (intro word_unat_eq_iff [THEN iffD2]) simp
  then show ?thesis
    by (simp add: mem_pool_init_fields kernel_free_pages_def user_free_pages_def)
qed

lemma page_count_wraps_witness:
  "kernel_pool (mem_pool_init 0x12000000 sample_memory) = kernel_pool (mem_pool_init 0x2000000 sample_memory)"
  using page_count_wraps [of "0x2000000" sample_memory] by simp

text \<open>
  A physical page is never given out twice. When its pool has a free page, \<open>paddr_get_page\<close>
  returns the lowest page of the pool that is not allocated, page-aligned, and afterwards exactly
  that page is allocated in addition.
\<close>

theorem page_alloc_fresh:
  assumes "pool_ok (pool_of ty s)" and "i < bm_bits_count (pool_bitmap (pool_of ty s))"
    and "\<not> bit_set (kmem s) (pool_bitmap (pool_of ty s)) i"
  shows "\<exists>k s'. paddr_get_page ty s = Inr (pool_page (pool_of ty s) k, s') \<and>
    k < bm_bits_count (pool_bitmap (pool_of ty s)) \<and>
    page_frame (pool_page (pool_of ty s) k) = pool_page (pool_of ty s) k \<and>
    pool_page (pool_of ty s) k \<notin> allocated (kmem s) (pool_of ty s) \<and>
    (\<forall>j < k. pool_page (pool_of ty s) j \<in> allocated (kmem s) (pool_of ty s)) \<and>
    pool_of ty s' = pool_of ty s \<and>
    allocated (kmem s') (pool_of ty s) = insert (pool_page (pool_of ty s) k) (allocated (kmem s) (pool_of ty s))"
proof -
  let ?p = "pool_of ty s"
  obtain k where k: "paddr_get_page ty s = Inr (pool_page ?p k,
      s\<lparr>kmem := bitmap_set_bit (kmem s) (pool_bitmap ?p) (of_nat k) 1\<rparr>)"
    "k < bm_bits_count (pool_bitmap ?p)" "\<not> bit_set (kmem s) (pool_bitmap ?p) k"
    "\<forall>j < k. bit_set (kmem s) (pool_bitmap ?p) j"
    using paddr_get_page_free [OF assms] by blast
  have "pool_of ty (s\<lparr>kmem := m\<rparr>) = ?p" for m by (cases ty) (simp_all add: pool_of_def)
  moreover have "\<forall>j < k. pool_page ?p j \<in> allocated (kmem s) ?p"
    using k(2,4) by (force simp: allocated_def)
  ultimately show ?thesis
    using k pool_page_aligned [OF assms(1) k(2)] page_not_allocated [OF assms(1) k(2,3)]
      allocated_after [OF assms(1) k(2), of "kmem s"]
    by (intro exI [of _ k] exI [of _ "s\<lparr>kmem := bitmap_set_bit (kmem s) (pool_bitmap ?p) (of_nat k) 1\<rparr>"]) simp
qed

lemma page_alloc_fresh_witness:
  "\<exists>k s'. paddr_get_page USER_POOL sample_memory = Inr (pool_page (user_pool sample_memory) k, s')"
proof -
  have pool: "pool_of USER_POOL sample_memory = user_pool sample_memory" by (simp add: pool_of_def)
  have "pool_ok (pool_of USER_POOL sample_memory)" "3 < bm_bits_count (pool_bitmap (pool_of USER_POOL sample_memory))"
    "\<not> bit_set (kmem sample_memory) (pool_bitmap (pool_of USER_POOL sample_memory)) 3"
    by (simp_all add: pool pool_ok_def bm_bits_count_def bit_set_def)
  from page_alloc_fresh [OF this] show ?thesis unfolding pool by blast
qed

text \<open>
  C39: an exhausted pool stops the kernel. The callers of \<open>paddr_get_page\<close> test for a null
  result, but the assertion of \<open>bitmap_request_bits\<close> fails before there is one.
\<close>

theorem page_alloc_exhausted:
  assumes "pool_ok (pool_of ty s)"
    and "\<forall>i < bm_bits_count (pool_bitmap (pool_of ty s)). bit_set (kmem s) (pool_bitmap (pool_of ty s)) i"
  shows "paddr_get_page ty s = Inl (Panic ''bitmap_request_bits'' ''idx_byte < bitmap->length'')"
  using assms by (rule paddr_get_page_full)

lemma page_alloc_exhausted_witness:
  "paddr_get_page KERNEL_POOL (sample_memory\<lparr>kmem := (\<lambda>_. 0xff)\<rparr>) =
    Inl (Panic ''bitmap_request_bits'' ''idx_byte < bitmap->length'')"
proof -
  have pool: "pool_of KERNEL_POOL (sample_memory\<lparr>kmem := (\<lambda>_. 0xff)\<rparr>) = kernel_pool sample_memory"
    by (simp add: pool_of_def)
  have "bit (0xff :: u8) (i mod 8)" for i by (rule bit_0xff) simp
  then show ?thesis
    by (intro page_alloc_exhausted) (simp_all add: pool pool_ok_def bm_bits_count_def bit_set_def)
qed

text \<open>
  Virtual pages of the kernel are contiguous. When the heap has a run of \<open>count\<close> free pages,
  \<open>vaddr_get_pages\<close> returns the start of the first one and marks exactly these pages.
\<close>

theorem kernel_vaddr_pages:
  assumes "bm_bits_count (addr_bitmap (kernel_vaddr s)) < 2 ^ 32 - 1" and "0 < unat count"
    and "run_clear (kmem s) (addr_bitmap (kernel_vaddr s)) t (unat count)"
    and "t + unat count \<le> bm_bits_count (addr_bitmap (kernel_vaddr s))"
  shows "\<exists>t0 s'. vaddr_get_pages KERNEL_POOL count s =
      Inr (addr_start (kernel_vaddr s) + of_nat t0 * PG_SIZE, s') \<and>
    first_run (kmem s) (addr_bitmap (kernel_vaddr s)) (unat count) (bm_bits_count (addr_bitmap (kernel_vaddr s))) t0 \<and>
    (\<forall>j < 2 ^ 32. bit_set (kmem s') (addr_bitmap (kernel_vaddr s)) j \<longleftrightarrow>
       t0 \<le> j \<and> j < t0 + unat count \<or> bit_set (kmem s) (addr_bitmap (kernel_vaddr s)) j)"
proof -
  let ?bm = "addr_bitmap (kernel_vaddr s)"
  obtain t0 where t0: "bitmap_request_bits (kmem s) ?bm count = Inr (of_nat t0)"
    "first_run (kmem s) ?bm (unat count) (bm_bits_count ?bm) t0"
    by (rule request_run [OF assms])
  have le: "t0 + unat count \<le> bm_bits_count ?bm" using t0(2) by (simp add: first_run_def)
  then have small: "t0 < 2 ^ 32 - 1" "t0 + unat count < 2 ^ 32" using assms(1,2) by linarith+
  have u: "unat (of_nat t0 :: u32) = t0" using small by (intro unat_of_nat32) simp
  then have e: "unat (of_nat t0 + count) = t0 + unat count" using small(2) by (subst unat_add32) simp_all
  define s' where "s' = s\<lparr>kmem := set_range (kmem s) ?bm (of_nat t0) (of_nat t0 + count)\<rparr>"
  have "vaddr_get_pages KERNEL_POOL count s = Inr (addr_start (kernel_vaddr s) + of_nat t0 * PG_SIZE, s')"
    using t0(1) of_nat_not_minus_one [OF small(1)] by (simp add: vaddr_get_pages_def Let_def s'_def)
  moreover have "\<forall>j < 2 ^ 32. bit_set (kmem s') ?bm j \<longleftrightarrow> t0 \<le> j \<and> j < t0 + unat count \<or> bit_set (kmem s) ?bm j"
    using set_range_bits [of "of_nat t0" "of_nat t0 + count"] by (simp add: s'_def u e)
  ultimately show ?thesis using t0(2) by blast
qed

lemma kernel_vaddr_pages_witness:
  "\<exists>t0 s'. vaddr_get_pages KERNEL_POOL 3 sample_memory = Inr (0xc0100000 + of_nat t0 * PG_SIZE, s')"
proof -
  have "run_clear (kmem sample_memory) (addr_bitmap (kernel_vaddr sample_memory)) 0 (unat (3 :: u32))"
    by (simp add: run_clear_def bit_set_def)
  then show ?thesis
    using kernel_vaddr_pages [of sample_memory 3 0] by (auto simp: bm_bits_count_def)
qed

end
