(* ===== verification/MemAlloc.thy ===== *)
theory MemAlloc
  imports MemPool
begin

text \<open>
  The page allocator of \<open>src/kernel/memory.c\<close>: \<open>bind_vaddr_paddr_page\<close>, \<open>malloc_pages\<close> and its
  two locked versions, \<open>get_a_page\<close>. The page tables are in \<open>phys\<close> and the code reaches them
  through the recursive mapping, so every access is translated by \<open>mmu\<close>; the theorems say what
  the translation of every address is afterwards.
\<close>

section \<open>The code\<close>

definition bind_vaddr_paddr_page :: "u32 \<Rightarrow> u32 \<Rightarrow> 'a memory_scheme \<Rightarrow> 'a memory_scheme outcome" where
  "bind_vaddr_paddr_page vaddr page_phyaddr s =
     (let pde = pde_ptr vaddr; pte = pte_ptr vaddr
      in rbind (vload32 s pde) (\<lambda>e.
        if e AND 1 \<noteq> 0
        then rbind (vload32 s pte) (\<lambda>t.
          rbind (c_assert ''bind_vaddr_paddr_page'' ''!(*pte & 0x00000001)'' (\<not> t AND 1 \<noteq> 0))
            (\<lambda>_. if \<not> t AND 1 \<noteq> 0 then vstore32 pte (page_phyaddr OR 7) s
                 else Inl (Panic ''bind_vaddr_paddr_page'' ''pte repeated!'')))
        else rbind (paddr_get_page KERNEL_POOL s) (\<lambda>(pde_phyaddr, s1).
          rbind (vstore32 pde (pde_phyaddr OR 7) s1) (\<lambda>s2.
            rbind (vmemset (pte AND 0xfffff000) 0 4096 s2) (\<lambda>s3.
              rbind (vload32 s3 pte) (\<lambda>t.
                rbind (c_assert ''bind_vaddr_paddr_page'' ''!(*pte & 0x00000001)'' (\<not> t AND 1 \<noteq> 0))
                  (\<lambda>_. vstore32 pte (page_phyaddr OR 7) s3)))))))"

text \<open>The loop of \<open>malloc_pages\<close>; the result is false when a pool returned no page.\<close>

fun map_pages :: "pool_type \<Rightarrow> u32 \<Rightarrow> nat \<Rightarrow> 'a memory_scheme \<Rightarrow> (bool \<times> 'a memory_scheme) outcome" where
  "map_pages ty vaddr 0 s = Inr (True, s)"
| "map_pages ty vaddr (Suc cnt) s =
     rbind (paddr_get_page ty s) (\<lambda>(page_phyaddr, s1).
       if page_phyaddr = NULL then Inr (False, s1)
       else rbind (bind_vaddr_paddr_page vaddr page_phyaddr s1) (map_pages ty (vaddr + PG_SIZE) cnt))"

definition malloc_pages :: "pool_type \<Rightarrow> u32 \<Rightarrow> 'a memory_scheme \<Rightarrow> (u32 \<times> 'a memory_scheme) outcome" where
  "malloc_pages ty count s =
     rbind (c_assert ''malloc_pages'' ''count > 0 && count < 3840'' (count > 0 \<and> count < 3840)) (\<lambda>_.
       rbind (vaddr_get_pages ty count s) (\<lambda>(vaddr_start, s1).
         if vaddr_start = NULL then Inr (NULL, s1)
         else rbind (map_pages ty vaddr_start (unat count) s1) (\<lambda>(ok, s2).
           if \<not> ok then Inr (NULL, s2)
           else rbind (vmemset vaddr_start 0 (unat (count * PG_SIZE)) s2) (\<lambda>s3. Inr (vaddr_start, s3)))))"

text \<open>
  A call of a lock function in the middle of other code: it runs to its end, or the caller is
  taken off the processor.
\<close>

fun run_call :: "string \<Rightarrow> nat \<Rightarrow> u32 \<Rightarrow> 'a sync_scheme \<Rightarrow> 'a sync_scheme outcome" where
  "run_call fn 0 t s = Inl (Blocked fn)"
| "run_call fn (Suc k) t s =
     (if running_thread s \<noteq> t then Inl (Blocked fn)
      else case run_frame s of None \<Rightarrow> Inr s | Some r \<Rightarrow> rbind r (run_call fn k t))"

definition call_lock :: "string \<Rightarrow> frame list \<Rightarrow> 'a sync_scheme \<Rightarrow> 'a sync_scheme outcome" where
  "call_lock fn fs s = run_call fn 6 (running_thread s) (push_frames (running_thread s) fs s)"

definition malloc_locked :: "pool_type \<Rightarrow> u32 \<Rightarrow> 'a memory_scheme \<Rightarrow> (u32 \<times> 'a memory_scheme) outcome" where
  "malloc_locked ty count s =
     rbind (call_lock ''lock_acquire'' (lock_acquire (plock (pool_of ty s))) s) (\<lambda>s1.
       rbind (malloc_pages ty count s1) (\<lambda>(vaddr, s2).
         rbind (call_lock ''lock_release'' (lock_release (plock (pool_of ty s2))) s2) (\<lambda>s3. Inr (vaddr, s3))))"

definition malloc_kernel_pages :: "u32 \<Rightarrow> 'a memory_scheme \<Rightarrow> (u32 \<times> 'a memory_scheme) outcome" where
  "malloc_kernel_pages count s = malloc_locked KERNEL_POOL count s"

definition malloc_user_pages :: "u32 \<Rightarrow> 'a memory_scheme \<Rightarrow> (u32 \<times> 'a memory_scheme) outcome" where
  "malloc_user_pages count s = malloc_locked USER_POOL count s"

text \<open>The page index is an \<open>int\<close>, so the assertion is a signed comparison.\<close>

definition set_vaddr_bit :: "virtual_addr \<Rightarrow> u32 \<Rightarrow> 'a memory_scheme \<Rightarrow> 'a memory_scheme outcome" where
  "set_vaddr_bit va vaddr s =
     (let bit_idx = (vaddr - addr_start va) div PG_SIZE
      in rbind (c_assert ''get_a_page'' ''bit_idx > 0'' (sint bit_idx > 0))
        (\<lambda>_. Inr (s\<lparr>kmem := bitmap_set_bit (kmem s) (addr_bitmap va) bit_idx 1\<rparr>)))"

definition get_a_page :: "pool_type \<Rightarrow> u32 \<Rightarrow> 'a memory_scheme \<Rightarrow> (u32 \<times> 'a memory_scheme) outcome" where
  "get_a_page pf vaddr s =
     rbind (call_lock ''lock_acquire'' (lock_acquire (plock (pool_of pf s))) s) (\<lambda>s1.
       let cur = running_thread s1
       in rbind (if pgdir (tasks s1 cur) \<noteq> NULL \<and> pf = USER_POOL
                 then set_vaddr_bit (userprog_vaddr (tasks s1 cur)) vaddr s1
                 else if pgdir (tasks s1 cur) = NULL \<and> pf = KERNEL_POOL
                 then set_vaddr_bit (kernel_vaddr s1) vaddr s1
                 else Inl (Panic ''get_a_page'' ''get_a_page:not allow kernel alloc userspace or user alloc kernelspace by get_a_page''))
           (\<lambda>s2. rbind (paddr_get_page pf s2) (\<lambda>(page_phyaddr, s3).
              if page_phyaddr = NULL then Inr (NULL, s3)
              else rbind (bind_vaddr_paddr_page vaddr page_phyaddr s3) (\<lambda>s4.
                rbind (call_lock ''lock_release'' (lock_release (plock (pool_of pf s4))) s4)
                  (\<lambda>s5. Inr (vaddr, s5))))))"

section \<open>Frames of physical memory\<close>

lemma page_frame_idem [simp]: "page_frame (page_frame x) = page_frame x"
  by (simp add: page_frame_def and.assoc)

lemma page_frame_add:
  assumes "i < 4096"
  shows "page_frame (page_frame x + of_nat i) = page_frame x" "(page_frame x + of_nat i) AND 0xfff = of_nat i"
proof -
  have i: "unat (of_nat i :: u32) = i" using assms by (intro unat_of_nat32) simp
  have x: "unat (page_frame x) = unat x div 4096 * 4096" by (simp add: page_frame_def unat_frame)
  have "unat x div 4096 < 2 ^ 20" using unat_bound32 [of x] by (simp add: less_mult_imp_div_less)
  then have "unat x div 4096 * 4096 + i < 2 ^ 32" using assms by simp
  then have sum: "unat (page_frame x + of_nat i) = unat x div 4096 * 4096 + i"
    by (subst unat_add32) (simp_all add: x i)
  have "(unat x div 4096 * 4096 + i) div 4096 = unat x div 4096" using assms by simp
  then show "page_frame (page_frame x + of_nat i) = page_frame x"
    by (intro word32_eqI) (simp add: page_frame_def unat_frame sum [unfolded page_frame_def])
  show "(page_frame x + of_nat i) AND 0xfff = of_nat i"
    using assms by (intro word32_eqI) (simp add: unat_offset sum i)
qed

lemma entry_offset:
  assumes "unat i < 1024" and "j < 4"
  shows "page_frame x + i * 4 + of_nat j = page_frame x + of_nat (unat i * 4 + j)" "unat i * 4 + j < 4096"
  using assms by (simp_all add: add.assoc mult.commute)

lemma idx_less: "unat (PDE_IDX v) < 1024" "unat (PTE_IDX v) < 1024"
  using PDE_IDX_bound [of v] by (simp_all add: unat_PDE_IDX unat_PTE_IDX)

lemma pde_addr_frame: "j < 4 \<Longrightarrow> page_frame (pde_addr cr v + of_nat j) = page_frame cr"
  unfolding pde_addr_def entry_offset(1) [OF idx_less(1)]
  by (rule page_frame_add(1)) (rule entry_offset(2) [OF idx_less(1)])

lemma pte_addr_frame: "j < 4 \<Longrightarrow> page_frame (pte_addr m cr v + of_nat j) = page_frame (load32 m (pde_addr cr v))"
  unfolding pte_addr_def entry_offset(1) [OF idx_less(2)]
  by (rule page_frame_add(1)) (rule entry_offset(2) [OF idx_less(2)])

lemma load32_frame_cong:
  assumes "\<And>j. j < 4 \<Longrightarrow> page_frame (a + of_nat j) = f" and "\<And>b. page_frame b = f \<Longrightarrow> m' b = m b"
  shows "load32 m' a = load32 m a"
  by (rule load32_cong) (use assms in \<open>auto simp: region_def\<close>)

text \<open>The translation of an address depends on the directory and on its table only.\<close>

lemma mmu_cong:
  assumes "\<And>b. page_frame b = page_frame cr \<or> page_frame b = page_frame (load32 m (pde_addr cr v)) \<Longrightarrow> m' b = m b"
  shows "load32 m' (pde_addr cr v) = load32 m (pde_addr cr v)" "mmu m' cr v = mmu m cr v"
proof -
  show pde: "load32 m' (pde_addr cr v) = load32 m (pde_addr cr v)"
    by (rule load32_frame_cong [OF pde_addr_frame]) (assumption, rule assms, rule disjI1)
  then have addr: "pte_addr m' cr v = pte_addr m cr v" by (simp add: pte_addr_def)
  have "load32 m' (pte_addr m cr v) = load32 m (pte_addr m cr v)"
    by (rule load32_frame_cong [OF pte_addr_frame]) (assumption, rule assms, rule disjI2)
  then show "mmu m' cr v = mmu m cr v" by (simp add: mmu_def pde addr)
qed

lemma store32_other_frame:
  assumes "\<And>j. j < 4 \<Longrightarrow> page_frame (a + of_nat j) = f" and "page_frame b \<noteq> f"
  shows "store32 m a w b = m b"
  by (rule store32_outside) (use assms in \<open>auto simp: region_def\<close>)

lemma unat_entry:
  assumes "unat i < 1024"
  shows "unat (page_frame x + i * 4) = unat x div 4096 * 4096 + unat i * 4"
proof -
  have x: "unat (page_frame x) = unat x div 4096 * 4096" by (simp add: page_frame_def unat_frame)
  have i: "unat (i * 4) = unat i * 4" using assms by (subst unat_mult32) simp_all
  have "unat x div 4096 < 2 ^ 20" using unat_bound32 [of x] by (simp add: less_mult_imp_div_less)
  then show ?thesis using assms by (subst unat_add32) (simp_all add: x i)
qed

lemma entry_aligned: "unat i < 1024 \<Longrightarrow> aligned4 (page_frame x + i * 4)"
proof -
  assume "unat i < 1024"
  then have "unat (page_frame x + i * 4) = 4 * (unat x div 4096 * 1024 + unat i)" by (simp add: unat_entry)
  then show ?thesis by (simp add: aligned4_def)
qed

lemma entry_eq_iff:
  assumes "unat i < 1024" and "unat j < 1024"
  shows "page_frame x + i * 4 = page_frame x + j * 4 \<longleftrightarrow> i = j"
proof
  assume "page_frame x + i * 4 = page_frame x + j * 4"
  then have "unat x div 4096 * 4096 + unat i * 4 = unat x div 4096 * 4096 + unat j * 4"
    using unat_entry assms by metis
  then show "i = j" by (intro word32_eqI) simp
qed simp

lemma pde_addr_aligned: "aligned4 (pde_addr cr v)"
  unfolding pde_addr_def using idx_less(1) by (rule entry_aligned)

lemma pte_addr_aligned: "aligned4 (pte_addr m cr v)"
  unfolding pte_addr_def using idx_less(2) by (rule entry_aligned)

lemma pde_addr_eq: "pde_addr cr v = pde_addr cr w \<longleftrightarrow> PDE_IDX v = PDE_IDX w"
  unfolding pde_addr_def using idx_less(1) idx_less(1) by (rule entry_eq_iff)

section \<open>Entries with their flags\<close>

lemma seven_bits: "bit (7 :: u32) i \<longleftrightarrow> i < 3"
proof -
  have eq: "(7 :: u32) = mask 3" by (simp add: mask_eq_exp_minus_1)
  show ?thesis unfolding eq by (auto simp: bit_mask_iff)
qed

lemma entry_flags [simp]: "present (x OR 7)" "page_frame (x OR 7) = page_frame x"
proof -
  have "bit ((x OR 7) AND 1) 0" by (simp add: bit_simps seven_bits)
  then show "present (x OR 7)" unfolding present_def by auto
  show "page_frame (x OR 7) = page_frame x"
    unfolding page_frame_def mask_literals
    by (rule bit_word_eqI) (unfold bit_and_iff bit_or_iff bit_not_iff bit_mask_iff seven_bits, auto)
qed

lemma present_0 [simp]: "\<not> present 0"
  by (simp add: present_def)

section \<open>Clearing memory through the translation\<close>

definition fill :: "u32 set \<Rightarrow> u8 \<Rightarrow> mem \<Rightarrow> mem" where
  "fill A ch m = (\<lambda>a. if a \<in> A then ch else m a)"

text \<open>
  The bytes that a \<open>memset\<close> writes are where the translation says, provided that the writes do
  not change the translation itself.
\<close>

lemma vmemset_eq:
  assumes "\<And>m' j. (\<And>a. a \<notin> R \<Longrightarrow> m' a = phys s a) \<Longrightarrow> j < k \<Longrightarrow> mmu m' (cr3 s) (ptr + of_nat j) = Some (g j)"
    and "\<And>j. j < k \<Longrightarrow> g j \<in> R"
  shows "vmemset ptr ch k s = Inr (s\<lparr>phys := fill (g ` {..<k}) ch (phys s)\<rparr>)"
  using assms
proof (induction k arbitrary: ptr s g)
  case 0
  then show ?case by (simp add: fill_def)
next
  case (Suc k)
  define s1 where "s1 = s\<lparr>phys := (phys s)(g 0 := ch)\<rparr>"
  have "mmu (phys s) (cr3 s) ptr = Some (g 0)" using Suc.prems(1) [of "phys s" 0] by simp
  then have store: "vstore8 ptr ch s = Inr s1" by (simp add: vstore8_def translate_def s1_def)
  have "vmemset (ptr + 1) ch k s1 = Inr (s1\<lparr>phys := fill ((\<lambda>j. g (Suc j)) ` {..<k}) ch (phys s1)\<rparr>)"
  proof (rule Suc.IH)
    fix m' j assume m': "\<And>a. a \<notin> R \<Longrightarrow> m' a = phys s1 a" and j: "j < k"
    have "m' a = phys s a" if "a \<notin> R" for a
      using m' [OF that] Suc.prems(2) [of 0] that by (auto simp: s1_def)
    from Suc.prems(1) [OF this, of "Suc j"] j
    show "mmu m' (cr3 s1) (ptr + 1 + of_nat j) = Some (g (Suc j))" by (simp add: s1_def add.assoc)
  qed (use Suc.prems(2) in simp)
  moreover have "fill ((\<lambda>j. g (Suc j)) ` {..<k}) ch (phys s1) = fill (g ` {..<Suc k}) ch (phys s)"
    by (auto simp: fill_def s1_def lessThan_Suc_eq_insert_0 fun_eq_iff)
  ultimately show ?case using store by (simp add: s1_def)
qed

section \<open>Address spaces\<close>

text \<open>The directory maps itself, and no other of its entries uses it as a page table.\<close>

definition space_ok :: "mem \<Rightarrow> u32 \<Rightarrow> bool" where
  "space_ok m cr \<longleftrightarrow> self_map m cr \<and>
     (\<forall>v. PDE_IDX v \<noteq> 1023 \<and> present (load32 m (pde_addr cr v)) \<longrightarrow>
        page_frame (load32 m (pde_addr cr v)) \<noteq> page_frame cr)"

text \<open>A frame that is neither the directory nor a page table.\<close>

definition spare_frame :: "mem \<Rightarrow> u32 \<Rightarrow> u32 \<Rightarrow> bool" where
  "spare_frame m cr f \<longleftrightarrow> page_frame f = f \<and> f \<noteq> page_frame cr \<and>
     (\<forall>v. PDE_IDX v \<noteq> 1023 \<and> present (load32 m (pde_addr cr v)) \<longrightarrow>
        page_frame (load32 m (pde_addr cr v)) \<noteq> f)"

lemma space_okD:
  "space_ok m cr \<Longrightarrow> self_map m cr"
  "space_ok m cr \<Longrightarrow> PDE_IDX v \<noteq> 1023 \<Longrightarrow> present (load32 m (pde_addr cr v)) \<Longrightarrow>
     page_frame (load32 m (pde_addr cr v)) \<noteq> page_frame cr"
  by (auto simp: space_ok_def)

lemma mmu_SomeD: "mmu m cr v = Some p \<Longrightarrow> present (load32 m (pde_addr cr v)) \<and> present (load32 m (pte_addr m cr v))"
  by (auto simp: mmu_def split: if_splits)

lemma pde_addr_self: "PDE_IDX v = 1023 \<Longrightarrow> pde_addr cr v = page_frame cr + 1023 * 4"
  by (simp add: pde_addr_def)

lemma self_map_present: "self_map m cr \<Longrightarrow> PDE_IDX v = 1023 \<Longrightarrow>
   present (load32 m (pde_addr cr v)) \<and> page_frame (load32 m (pde_addr cr v)) = page_frame cr"
  unfolding pde_addr_self by (simp add: self_map_def)

text \<open>Two addresses of one page.\<close>

definition same_page :: "u32 \<Rightarrow> u32 \<Rightarrow> bool" where
  "same_page v w \<longleftrightarrow> page_frame v = page_frame w"

lemma same_page_idx: "same_page v w \<longleftrightarrow> PDE_IDX v = PDE_IDX w \<and> PTE_IDX v = PTE_IDX w"
proof -
  have pages: "page_frame v = page_frame w \<longleftrightarrow> unat v div 4096 = unat w div 4096"
    by (simp add: word_unat_eq_iff page_frame_def unat_frame)
  have q: "x div 2 ^ 22 = x div 2 ^ 12 div 2 ^ 10" for x :: nat
    using div_mult2_eq [of x "2 ^ 12" "2 ^ 10"] by simp
  have "x div 2 ^ 12 = y div 2 ^ 12 \<longleftrightarrow> x div 2 ^ 12 div 2 ^ 10 = y div 2 ^ 12 div 2 ^ 10 \<and>
      x div 2 ^ 12 mod 2 ^ 10 = y div 2 ^ 12 mod 2 ^ 10" for x y :: nat
    by (metis div_mult_mod_eq)
  then have split: "x div 4096 = y div 4096 \<longleftrightarrow> x div 2 ^ 22 = y div 2 ^ 22 \<and>
      x div 2 ^ 12 mod 2 ^ 10 = y div 2 ^ 12 mod 2 ^ 10" for x y :: nat
    unfolding q by simp
  show ?thesis
    unfolding same_page_def pages split word_unat_eq_iff [of "PDE_IDX v"] word_unat_eq_iff [of "PTE_IDX v"]
      unat_PDE_IDX unat_PTE_IDX ..
qed

section \<open>Storing an entry\<close>

text \<open>A store to a table entry of \<open>v\<close>, when the table is there.\<close>

lemma store_pte:
  fixes pg :: u32
  assumes ok: "space_ok m cr" and v: "PDE_IDX v \<noteq> 1023" "present (load32 m (pde_addr cr v))"
  defines "m' \<equiv> store32 m (pte_addr m cr v) (pg OR 7)"
  shows "load32 m' (pde_addr cr w) = load32 m (pde_addr cr w)"
    and "mmu m' cr w = (if present (load32 m (pde_addr cr w)) \<and> pte_addr m cr w = pte_addr m cr v
      then Some (page_frame pg + (w AND 0xfff)) else mmu m cr w)"
    and "page_frame a \<noteq> page_frame (load32 m (pde_addr cr v)) \<Longrightarrow> m' a = m a"
proof -
  have other: "m' a = m a" if "page_frame a \<noteq> page_frame (load32 m (pde_addr cr v))" for a
    unfolding m'_def using pte_addr_frame that by (rule store32_other_frame)
  then show "page_frame a \<noteq> page_frame (load32 m (pde_addr cr v)) \<Longrightarrow> m' a = m a" .
  have dir: "page_frame (load32 m (pde_addr cr v)) \<noteq> page_frame cr" using space_okD(2) [OF ok v] .
  have pde: "load32 m' (pde_addr cr w) = load32 m (pde_addr cr w)" for w
    by (rule load32_frame_cong [OF pde_addr_frame]) (assumption, rule other, use dir in simp)
  then show "load32 m' (pde_addr cr w) = load32 m (pde_addr cr w)" .
  have addr: "pte_addr m' cr w = pte_addr m cr w" for w by (simp add: pte_addr_def pde)
  have pte: "load32 m' (pte_addr m cr w) =
      (if pte_addr m cr w = pte_addr m cr v then pg OR 7 else load32 m (pte_addr m cr w))" for w
    unfolding m'_def by (rule load32_store32_aligned) (rule pte_addr_aligned)+
  show "mmu m' cr w = (if present (load32 m (pde_addr cr w)) \<and> pte_addr m cr w = pte_addr m cr v
      then Some (page_frame pg + (w AND 0xfff)) else mmu m cr w)"
    by (simp add: mmu_def pde addr pte)
qed

text \<open>Installing a new table: the directory entry of \<open>v\<close> points to the frame \<open>f\<close>, which is cleared.\<close>

definition with_table :: "mem \<Rightarrow> u32 \<Rightarrow> u32 \<Rightarrow> u32 \<Rightarrow> mem" where
  "with_table m cr v f = fill {a. page_frame a = f} 0 (store32 m (pde_addr cr v) (f OR 7))"

lemma with_table_pde:
  assumes f: "f \<noteq> page_frame cr"
  shows "load32 (with_table m cr v f) (pde_addr cr w) =
    (if PDE_IDX w = PDE_IDX v then f OR 7 else load32 m (pde_addr cr w))"
proof -
  have "load32 (with_table m cr v f) (pde_addr cr w) = load32 (store32 m (pde_addr cr v) (f OR 7)) (pde_addr cr w)"
    by (rule load32_frame_cong [OF pde_addr_frame]) (assumption, simp add: with_table_def fill_def f [symmetric])
  also have "\<dots> = (if pde_addr cr w = pde_addr cr v then f OR 7 else load32 m (pde_addr cr w))"
    by (rule load32_store32_aligned) (rule pde_addr_aligned)+
  finally show ?thesis by (simp add: pde_addr_eq)
qed

lemma load32_zero: "(\<And>j. j < 4 \<Longrightarrow> m (a + of_nat j) = 0) \<Longrightarrow> load32 m a = 0"
  using load32_cong [of a m "\<lambda>_. 0"] by (auto simp: region_def load32_def)

lemma with_table_outside:
  assumes "page_frame a \<noteq> f" and "page_frame a \<noteq> page_frame cr"
  shows "with_table m cr v f a = m a"
  using assms store32_other_frame [OF pde_addr_frame, of a] by (simp add: with_table_def fill_def)

lemma with_table_mmu:
  assumes ok: "space_ok m cr" and f: "spare_frame m cr f" and v: "\<not> present (load32 m (pde_addr cr v))"
    and w: "PDE_IDX w \<noteq> 1023"
  shows "mmu (with_table m cr v f) cr w = (if PDE_IDX w = PDE_IDX v then None else mmu m cr w)"
proof -
  let ?m = "with_table m cr v f"
  have fcr: "f \<noteq> page_frame cr" and ff: "page_frame f = f" using f by (auto simp: spare_frame_def)
  note pde = with_table_pde [OF fcr]
  show ?thesis
  proof (cases "PDE_IDX w = PDE_IDX v")
    case True
    then have table: "page_frame (load32 ?m (pde_addr cr w)) = f" by (simp add: pde ff)
    have "load32 ?m (pte_addr ?m cr w) = 0"
      by (rule load32_zero) (use pte_addr_frame [of _ ?m cr w] table in \<open>simp add: with_table_def fill_def\<close>)
    then show ?thesis using True by (simp add: mmu_def)
  next
    case False
    show ?thesis
    proof (cases "present (load32 m (pde_addr cr w))")
      case True
      then have t: "page_frame (load32 m (pde_addr cr w)) \<noteq> f" "page_frame (load32 m (pde_addr cr w)) \<noteq> page_frame cr"
        using f w space_okD(2) [OF ok w] by (auto simp: spare_frame_def)
      have addr: "pte_addr ?m cr w = pte_addr m cr w" using False by (simp add: pte_addr_def pde)
      have "load32 ?m (pte_addr m cr w) = load32 m (pte_addr m cr w)"
        by (rule load32_frame_cong [OF pte_addr_frame]) (assumption, rule with_table_outside, use t in simp_all)
      then show ?thesis using False by (simp add: mmu_def pde addr)
    next
      case absent: False
      then show ?thesis using False by (simp add: mmu_def pde)
    qed
  qed
qed

lemma with_table_space_ok:
  assumes ok: "space_ok m cr" and f: "spare_frame m cr f" and v: "PDE_IDX v \<noteq> 1023"
  shows "space_ok (with_table m cr v f) cr"
proof -
  have fcr: "f \<noteq> page_frame cr" "page_frame f = f" using f by (auto simp: spare_frame_def)
  note pde = with_table_pde [OF fcr(1)]
  have "PDE_IDX 0xffc00000 = 1023" by (simp add: PDE_IDX_def)
  then have "load32 (with_table m cr v f) (page_frame cr + 1023 * 4) = load32 m (page_frame cr + 1023 * 4)"
    using pde [of m v "0xffc00000"] v by (simp add: pde_addr_self)
  then show ?thesis
    using ok fcr unfolding space_ok_def self_map_def by (auto simp: pde)
qed

text \<open>What \<open>memset\<close> of the table's window writes.\<close>

lemma window_fields:
  assumes "j < 4096"
  shows "PDE_IDX ((pte_ptr v AND 0xfffff000) + of_nat j) = 1023"
    and "PTE_IDX ((pte_ptr v AND 0xfffff000) + of_nat j) = PDE_IDX v"
    and "((pte_ptr v AND 0xfffff000) + of_nat j) AND 0xfff = of_nat j"
proof -
  let ?w = "(pte_ptr v AND 0xfffff000) + of_nat j"
  have "same_page ?w (pte_ptr v)"
    using page_frame_add(1) [OF assms, of "pte_ptr v"] by (simp add: same_page_def page_frame_def)
  then show "PDE_IDX ?w = 1023" "PTE_IDX ?w = PDE_IDX v"
    unfolding same_page_idx by (simp_all add: pte_ptr_fields)
  show "?w AND 0xfff = of_nat j"
    using page_frame_add(2) [OF assms, of "pte_ptr v"] by (simp add: page_frame_def)
qed

lemma frame_image:
  assumes "page_frame f = f"
  shows "(\<lambda>j. f + of_nat j) ` {..<4096} = {a. page_frame a = f}"
proof (intro equalityI subsetI)
  fix a assume "a \<in> (\<lambda>j. f + of_nat j) ` {..<4096}"
  then show "a \<in> {a. page_frame a = f}" using page_frame_add(1) [of _ f] assms by auto
next
  fix a assume "a \<in> {a. page_frame a = f}"
  then have "a = f + of_nat (unat (a AND 0xfff))" using frame_plus_offset [of a] by (simp add: page_frame_def)
  moreover have "unat (a AND 0xfff) < 4096" by (simp add: unat_offset)
  ultimately show "a \<in> (\<lambda>j. f + of_nat j) ` {..<4096}" by blast
qed

lemma clear_table:
  assumes ok: "self_map (phys s) (cr3 s)" and v: "PDE_IDX v \<noteq> 1023" and f: "page_frame f = f" "f \<noteq> page_frame (cr3 s)"
    and s1: "s1 = s\<lparr>phys := store32 (phys s) (pde_addr (cr3 s) v) (f OR 7)\<rparr>"
  shows "vmemset (pte_ptr v AND 0xfffff000) 0 4096 s1 = Inr (s1\<lparr>phys := with_table (phys s) (cr3 s) v f\<rparr>)"
proof -
  let ?cr = "cr3 s" and ?g = "\<lambda>j. f + of_nat j"
  have "vmemset (pte_ptr v AND 0xfffff000) 0 4096 s1 = Inr (s1\<lparr>phys := fill (?g ` {..<4096}) 0 (phys s1)\<rparr>)"
  proof (rule vmemset_eq [where R = "{a. page_frame a = f}"])
    fix m' j assume m': "\<And>a. a \<notin> {a. page_frame a = f} \<Longrightarrow> m' a = phys s1 a" and j: "j < (4096 :: nat)"
    let ?w = "(pte_ptr v AND 0xfffff000) + of_nat j"
    have pde: "load32 m' (pde_addr ?cr w) = (if PDE_IDX w = PDE_IDX v then f OR 7 else load32 (phys s) (pde_addr ?cr w))" for w
    proof -
      have "load32 m' (pde_addr ?cr w) = load32 (phys s1) (pde_addr ?cr w)"
        by (rule load32_frame_cong [OF pde_addr_frame]) (assumption, rule m', use f in simp)
      also have "\<dots> = (if pde_addr ?cr w = pde_addr ?cr v then f OR 7 else load32 (phys s) (pde_addr ?cr w))"
        by (simp add: s1 load32_store32_aligned pde_addr_aligned)
      finally show ?thesis by (simp add: pde_addr_eq)
    qed
    have dir: "present (load32 m' (pde_addr ?cr ?w))" "page_frame (load32 m' (pde_addr ?cr ?w)) = page_frame ?cr"
      using self_map_present [OF ok window_fields(1) [OF j]] v by (simp_all add: pde window_fields(1) [OF j])
    have "pte_addr m' ?cr ?w = pde_addr ?cr v"
      unfolding pte_addr_def dir(2) window_fields(2) [OF j] by (simp add: pde_addr_def)
    then show "mmu m' (cr3 s1) ?w = Some (f + of_nat j)"
      using dir(1) f(1) pde [of v] window_fields(3) [OF j] by (simp add: mmu_def s1)
  qed (use page_frame_add(1) [of _ f] f(1) in simp)
  also have "fill (?g ` {..<4096}) 0 (phys s1) = with_table (phys s) ?cr v f"
    unfolding frame_image [OF f(1)] with_table_def s1 by simp
  finally show ?thesis .
qed

section \<open>Mapping a page\<close>

text \<open>What a mapping of page \<open>v\<close> to frame \<open>pg\<close> leaves of the old memory \<open>m\<close>.\<close>

definition maps_only :: "u32 \<Rightarrow> u32 \<Rightarrow> u32 \<Rightarrow> mem \<Rightarrow> mem \<Rightarrow> bool" where
  "maps_only cr v pg m m' \<longleftrightarrow>
     space_ok m' cr \<and>
     (\<forall>w. same_page w v \<longrightarrow> mmu m' cr w = Some (page_frame pg + (w AND 0xfff))) \<and>
     (\<forall>w p. PDE_IDX w \<noteq> 1023 \<and> mmu m cr w = Some p \<longrightarrow> mmu m' cr w = Some p) \<and>
     (\<forall>w. PDE_IDX w \<noteq> PDE_IDX v \<longrightarrow> load32 m' (pde_addr cr w) = load32 m (pde_addr cr w)) \<and>
     (\<forall>a. page_frame a \<noteq> page_frame cr \<and> page_frame a \<noteq> page_frame (load32 m' (pde_addr cr v)) \<longrightarrow> m' a = m a)"

lemma same_page_addrs: "same_page w v \<Longrightarrow> pde_addr cr w = pde_addr cr v \<and> pte_addr m cr w = pte_addr m cr v"
  by (simp add: same_page_idx pde_addr_def pte_addr_def)

lemma pte_addr_eq: "PDE_IDX w = PDE_IDX v \<Longrightarrow> pte_addr m cr w = pte_addr m cr v \<longleftrightarrow> PTE_IDX w = PTE_IDX v"
  unfolding pte_addr_def pde_addr_def using entry_eq_iff [OF idx_less(2) idx_less(2)] by simp

lemma store_pte_maps:
  fixes pg :: u32
  assumes ok: "space_ok m cr" and v: "PDE_IDX v \<noteq> 1023" "present (load32 m (pde_addr cr v))"
    and free: "\<not> present (load32 m (pte_addr m cr v))"
  shows "maps_only cr v pg m (store32 m (pte_addr m cr v) (pg OR 7))"
proof -
  let ?m = "store32 m (pte_addr m cr v) (pg OR 7)"
  note S = store_pte [OF ok v, where pg = pg]
  have "PDE_IDX 0xffc00000 = 1023" by (simp add: PDE_IDX_def)
  then have "load32 ?m (page_frame cr + 1023 * 4) = load32 m (page_frame cr + 1023 * 4)"
    using S(1) [of "0xffc00000"] by (simp add: pde_addr_self)
  then have ok': "space_ok ?m cr" using ok unfolding space_ok_def self_map_def by (simp add: S(1))
  have "mmu ?m cr w = Some (page_frame pg + (w AND 0xfff))" if "same_page w v" for w
    unfolding S(2) using same_page_addrs [OF that] v(2) by simp
  moreover have "mmu ?m cr w = Some p" if "mmu m cr w = Some p" for w p
    unfolding S(2) using that mmu_SomeD [OF that] free by auto
  ultimately show ?thesis using ok' S(3) by (simp add: maps_only_def S(1))
qed

lemma maps_only_new_table:
  fixes pg :: u32
  assumes ok: "space_ok m cr" and v: "PDE_IDX v \<noteq> 1023" "\<not> present (load32 m (pde_addr cr v))"
    and f: "spare_frame m cr f"
  defines "m1 \<equiv> with_table m cr v f"
  shows "space_ok m1 cr" "present (load32 m1 (pde_addr cr v))" "\<not> present (load32 m1 (pte_addr m1 cr v))"
    and "maps_only cr v pg m (store32 m1 (pte_addr m1 cr v) (pg OR 7))"
proof -
  have fcr: "f \<noteq> page_frame cr" "page_frame f = f" using f by (auto simp: spare_frame_def)
  note pde = with_table_pde [OF fcr(1), of m v, folded m1_def]
  show ok1: "space_ok m1 cr" unfolding m1_def using ok f v(1) by (rule with_table_space_ok)
  show pres: "present (load32 m1 (pde_addr cr v))" by (simp add: pde)
  have "mmu m1 cr v = None" unfolding m1_def using with_table_mmu [OF ok f v(2) v(1)] by simp
  then show free: "\<not> present (load32 m1 (pte_addr m1 cr v))" using pres by (simp add: mmu_def split: if_splits)
  let ?m = "store32 m1 (pte_addr m1 cr v) (pg OR 7)"
  have maps: "maps_only cr v pg m1 ?m" using ok1 v(1) pres free by (rule store_pte_maps)
  have keep: "mmu m1 cr w = Some p" if w: "PDE_IDX w \<noteq> 1023" and p: "mmu m cr w = Some p" for w p
  proof -
    have "PDE_IDX w \<noteq> PDE_IDX v" using mmu_SomeD [OF p] v(2) by (auto simp: pde_addr_def)
    then show ?thesis unfolding m1_def using with_table_mmu [OF ok f v(2) w] p by simp
  qed
  have "load32 ?m (pde_addr cr v) = f OR 7" using store_pte(1) [OF ok1 v(1) pres] by (simp add: pde)
  then have "page_frame (load32 ?m (pde_addr cr v)) = f" by (simp add: fcr)
  moreover have "load32 m1 (pde_addr cr w) = load32 m (pde_addr cr w)" if "PDE_IDX w \<noteq> PDE_IDX v" for w using that by (simp add: pde)
  moreover have "m1 a = m a" if "page_frame a \<noteq> f" "page_frame a \<noteq> page_frame cr" for a
    unfolding m1_def using that by (rule with_table_outside)
  ultimately show "maps_only cr v pg m ?m" using maps keep unfolding maps_only_def by simp
qed

text \<open>The whole function.\<close>

lemma bind_with_table:
  assumes ok: "space_ok (phys s) (cr3 s)" and v: "PDE_IDX v \<noteq> 1023" "present (load32 (phys s) (pde_addr (cr3 s) v))"
    and free: "mmu (phys s) (cr3 s) v = None"
  shows "bind_vaddr_paddr_page v pg s =
    Inr (s\<lparr>phys := store32 (phys s) (pte_addr (phys s) (cr3 s) v) (pg OR 7)\<rparr>)"
proof -
  have "\<not> present (load32 (phys s) (pte_addr (phys s) (cr3 s) v))"
    using free v(2) by (simp add: mmu_def split: if_splits)
  then show ?thesis
    using v(2) space_okD(1) [OF ok]
    by (simp add: bind_vaddr_paddr_page_def Let_def vload32_pde_ptr vload32_pte_ptr vstore32_def
        translate_def mmu_pte_ptr present_def)
qed

lemma bind_new_table:
  assumes ok: "space_ok (phys s) (cr3 s)" and v: "PDE_IDX v \<noteq> 1023" "\<not> present (load32 (phys s) (pde_addr (cr3 s) v))"
    and page: "paddr_get_page KERNEL_POOL s = Inr (f, s1)" "phys s1 = phys s" "cr3 s1 = cr3 s"
    and f: "spare_frame (phys s) (cr3 s) f"
  defines "m1 \<equiv> with_table (phys s) (cr3 s) v f"
  shows "bind_vaddr_paddr_page v pg s = Inr (s1\<lparr>phys := store32 m1 (pte_addr m1 (cr3 s) v) (pg OR 7)\<rparr>)"
proof -
  have ff: "page_frame f = f" "f \<noteq> page_frame (cr3 s)" using f by (auto simp: spare_frame_def)
  note T = maps_only_new_table(1-3) [OF ok v f, folded m1_def]
  define s2 where "s2 = s1\<lparr>phys := store32 (phys s) (pde_addr (cr3 s) v) (f OR 7)\<rparr>"
  have store: "vstore32 (pde_ptr v) (f OR 7) s1 = Inr s2"
    using space_okD(1) [OF ok] by (simp add: vstore32_def translate_def mmu_pde_ptr page s2_def)
  have clear: "vmemset (pte_ptr v AND 0xfffff000) 0 4096 s2 = Inr (s1\<lparr>phys := m1\<rparr>)"
    using clear_table [of s1 v f s2] space_okD(1) [OF ok] v(1) ff by (simp add: page s2_def m1_def)
  have pde: "vload32 s (pde_ptr v) = Inr (load32 (phys s) (pde_addr (cr3 s) v))"
    using space_okD(1) [OF ok] by (rule vload32_pde_ptr)
  let ?s3 = "s1\<lparr>phys := m1\<rparr>"
  have pte: "vload32 ?s3 (pte_ptr v) = Inr (load32 m1 (pte_addr m1 (cr3 s) v))"
    using space_okD(1) [OF T(1)] T(2) vload32_pte_ptr [of ?s3 v] by (simp add: page)
  have last: "vstore32 (pte_ptr v) (pg OR 7) ?s3 =
      Inr (s1\<lparr>phys := store32 m1 (pte_addr m1 (cr3 s) v) (pg OR 7)\<rparr>)"
    using space_okD(1) [OF T(1)] T(2) by (simp add: vstore32_def translate_def mmu_pte_ptr page)
  show ?thesis
    using v(2) T(3) unfolding bind_vaddr_paddr_page_def Let_def pde
    by (simp add: page(1) store clear pte last present_def)
qed

text \<open>The kernel pool can give a page for a table.\<close>

definition table_source :: "'a memory_scheme \<Rightarrow> bool" where
  "table_source s \<longleftrightarrow> pool_ok (kernel_pool s) \<and>
     (\<exists>i < bm_bits_count (pool_bitmap (kernel_pool s)). \<not> bit_set (kmem s) (pool_bitmap (kernel_pool s)) i) \<and>
     (\<forall>i < bm_bits_count (pool_bitmap (kernel_pool s)). \<not> bit_set (kmem s) (pool_bitmap (kernel_pool s)) i \<longrightarrow>
        spare_frame (phys s) (cr3 s) (pool_page (kernel_pool s) i))"

lemma bind_ok:
  assumes ok: "space_ok (phys s) (cr3 s)" and v: "PDE_IDX v \<noteq> 1023" and free: "mmu (phys s) (cr3 s) v = None"
    and source: "table_source s"
  obtains m' km' where "bind_vaddr_paddr_page v pg s = Inr (s\<lparr>phys := m', kmem := km'\<rparr>)"
    and "maps_only (cr3 s) v pg (phys s) m'"
    and "km' = kmem s \<or> (\<exists>k < bm_bits_count (pool_bitmap (kernel_pool s)).
      \<not> bit_set (kmem s) (pool_bitmap (kernel_pool s)) k \<and>
      km' = bitmap_set_bit (kmem s) (pool_bitmap (kernel_pool s)) (of_nat k) 1)"
proof (cases "present (load32 (phys s) (pde_addr (cr3 s) v))")
  case True
  have "\<not> present (load32 (phys s) (pte_addr (phys s) (cr3 s) v))"
    using free True by (simp add: mmu_def split: if_splits)
  then have "maps_only (cr3 s) v pg (phys s) (store32 (phys s) (pte_addr (phys s) (cr3 s) v) (pg OR 7))"
    using store_pte_maps [OF ok v True] by blast
  moreover have "bind_vaddr_paddr_page v pg s =
      Inr (s\<lparr>phys := store32 (phys s) (pte_addr (phys s) (cr3 s) v) (pg OR 7), kmem := kmem s\<rparr>)"
    using bind_with_table [OF ok v True free, of pg] by simp
  ultimately show thesis
    by (intro that [of "kmem s" "store32 (phys s) (pte_addr (phys s) (cr3 s) v) (pg OR 7)"]) simp_all
next
  case False
  let ?p = "kernel_pool s"
  have pool: "pool_of KERNEL_POOL s = ?p" by (simp add: pool_of_def)
  obtain i where i: "i < bm_bits_count (pool_bitmap ?p)" "\<not> bit_set (kmem s) (pool_bitmap ?p) i" and p_ok: "pool_ok ?p"
    using source by (auto simp: table_source_def)
  obtain k where k: "paddr_get_page KERNEL_POOL s = Inr (pool_page ?p k,
      s\<lparr>kmem := bitmap_set_bit (kmem s) (pool_bitmap ?p) (of_nat k) 1\<rparr>)"
    "k < bm_bits_count (pool_bitmap ?p)" "\<not> bit_set (kmem s) (pool_bitmap ?p) k"
    using paddr_get_page_free [of KERNEL_POOL s i] i p_ok unfolding pool by blast
  have spare: "spare_frame (phys s) (cr3 s) (pool_page ?p k)" using source k(2,3) by (simp add: table_source_def)
  let ?m1 = "with_table (phys s) (cr3 s) v (pool_page ?p k)"
  have bind: "bind_vaddr_paddr_page v pg s = Inr ((s\<lparr>kmem := bitmap_set_bit (kmem s) (pool_bitmap ?p) (of_nat k) 1\<rparr>)
      \<lparr>phys := store32 ?m1 (pte_addr ?m1 (cr3 s) v) (pg OR 7)\<rparr>)"
    by (rule bind_new_table [OF ok v False k(1) _ _ spare]) simp_all
  let ?km = "bitmap_set_bit (kmem s) (pool_bitmap ?p) (of_nat k) 1"
  show thesis
  proof (rule that [of ?km])
    show "bind_vaddr_paddr_page v pg s =
        Inr (s\<lparr>phys := store32 ?m1 (pte_addr ?m1 (cr3 s) v) (pg OR 7), kmem := ?km\<rparr>)"
      using bind by simp
    show "maps_only (cr3 s) v pg (phys s) (store32 ?m1 (pte_addr ?m1 (cr3 s) v) (pg OR 7))"
      using ok v False spare by (rule maps_only_new_table(4))
  qed (use k(2,3) in blast)
qed

section \<open>The lock around an allocation\<close>

text \<open>The lock is free and the running thread, which has no call pending, can have it.\<close>

definition lock_available :: "u32 \<Rightarrow> 'a sync_scheme \<Rightarrow> bool" where
  "lock_available l s \<longleftrightarrow> frames s (running_thread s) = [] \<and> running_thread s \<noteq> NULL \<and> holder s l = NULL \<and>
     holder_repeat_nr s l = 0 \<and> sem_value s (semaphore_of l) = 1 \<and> list_empty s (waiters (semaphore_of l))"

definition lock_taken :: "u32 \<Rightarrow> 'a sync_scheme \<Rightarrow> 'a sync_scheme" where
  "lock_taken l s = set_repeat l 1 (set_holder l (running_thread s) (set_value (semaphore_of l) 0 s))"

definition lock_given_back :: "u32 \<Rightarrow> 'a sync_scheme \<Rightarrow> 'a sync_scheme" where
  "lock_given_back l s = set_value (semaphore_of l) 1 (set_repeat l 0 (set_holder l NULL s))"

lemma call_acquire:
  "lock_available l s \<Longrightarrow> call_lock fn (lock_acquire l) s = Inr (lock_taken l s)"
  unfolding lock_available_def
  by (simp add: call_lock_def eval_nat_numeral run_frame_top lock_acquire_def sema_dowm_free lock_taken_def)
    (simp add: run_frame_def push_frames_def set_value_def set_holder_def set_repeat_def fun_upd_idem running_thread_def)

lemma call_release:
  assumes "frames s (running_thread s) = []" and "holder s l = running_thread s"
    and "sem_value s (semaphore_of l) = 0" "holder_repeat_nr s l = 1"
    and "list_empty s (waiters (semaphore_of l))"
  shows "call_lock fn (lock_release l) s = Inr (lock_given_back l s)"
  using assms
  by (simp add: call_lock_def eval_nat_numeral run_frame_top lock_release_def sema_up_nobody list_empty_def
      lock_given_back_def)
    (simp add: run_frame_def push_frames_def set_value_def set_holder_def set_repeat_def fun_upd_idem running_thread_def)

lemma lock_ops_memory [simp]:
  "kmem (lock_taken l s) = kmem s" "kernel_pool (lock_taken l s) = kernel_pool s"
  "user_pool (lock_taken l s) = user_pool s" "kernel_vaddr (lock_taken l s) = kernel_vaddr s"
  "phys (lock_taken l s) = phys s" "cr3 (lock_taken l s) = cr3 s" "tasks (lock_taken l s) = tasks s"
  "running_thread (lock_taken l s) = running_thread s"
  "kmem (lock_given_back l s) = kmem s" "kernel_pool (lock_given_back l s) = kernel_pool s"
  "user_pool (lock_given_back l s) = user_pool s" "kernel_vaddr (lock_given_back l s) = kernel_vaddr s"
  "phys (lock_given_back l s) = phys s" "cr3 (lock_given_back l s) = cr3 s"
  "tasks (lock_given_back l s) = tasks s" "running_thread (lock_given_back l s) = running_thread s"
  by (simp_all add: lock_taken_def lock_given_back_def set_value_def set_repeat_def set_holder_def running_thread_def)

text \<open>A bit of the heap bitmap is not a bit of a pool's bitmap.\<close>

definition bitmaps_apart :: "bitmap \<Rightarrow> bitmap \<Rightarrow> bool" where
  "bitmaps_apart a b \<longleftrightarrow> region (bm_bits a) (unat (bm_length a)) \<inter> region (bm_bits b) (unat (bm_length b)) = {}"

lemma set_bit_apart:
  assumes "bitmaps_apart a b" and "unat i < bm_bits_count a" and "j < bm_bits_count b"
  shows "bit_set (bitmap_set_bit m a i v) b j = bit_set m b j"
proof (rule bit_set_cong_region [OF _ assms(3)])
  fix x assume x: "x \<in> region (bm_bits b) (unat (bm_length b))"
  have "unat (i div 8) < unat (bm_length a)"
    using assms(2) by (simp add: bm_bits_count_def unat_div32 less_mult_imp_div_less)
  then have "bm_bits a + of_nat (unat (i div 8)) \<in> region (bm_bits a) (unat (bm_length a))" by (rule in_regionI)
  then show "bitmap_set_bit m a i v x = m x"
    using x assms(1) by (intro set_bit_other_byte) (auto simp: bitmaps_apart_def)
qed

text \<open>The whole function, for a kernel thread and a free lock.\<close>

definition free_pages :: "'a memory_scheme \<Rightarrow> nat set" where
  "free_pages s = {i. i < bm_bits_count (pool_bitmap (kernel_pool s)) \<and>
     \<not> bit_set (kmem s) (pool_bitmap (kernel_pool s)) i}"

definition kernel_pages_ok :: "'a memory_scheme \<Rightarrow> bool" where
  "kernel_pages_ok s \<longleftrightarrow> pool_ok (kernel_pool s) \<and> phy_addr_start (kernel_pool s) \<noteq> 0 \<and>
     space_ok (phys s) (cr3 s) \<and>
     bitmaps_apart (pool_bitmap (kernel_pool s)) (addr_bitmap (kernel_vaddr s)) \<and>
     bitmaps_apart (addr_bitmap (kernel_vaddr s)) (pool_bitmap (kernel_pool s)) \<and>
     (\<forall>i \<in> free_pages s. spare_frame (phys s) (cr3 s) (pool_page (kernel_pool s) i))"

text \<open>The index in the heap bitmap of a virtual address.\<close>

definition heap_index :: "'a memory_scheme \<Rightarrow> u32 \<Rightarrow> u32" where
  "heap_index s v = (v - addr_start (kernel_vaddr s)) div PG_SIZE"

lemma pool_page_not_null:
  "pool_ok p \<Longrightarrow> phy_addr_start p \<noteq> 0 \<Longrightarrow> k < bm_bits_count (pool_bitmap p) \<Longrightarrow> pool_page p k \<noteq> NULL"
  using unat_pool_page [of p k] by (auto simp: unat_eq_0)

text \<open>One page taken from the kernel pool, and then perhaps one for a table.\<close>

lemma alloc_and_bind:
  assumes ok: "kernel_pages_ok s" and two: "i \<in> free_pages s" "j \<in> free_pages s" "i \<noteq> j"
    and v: "PDE_IDX v \<noteq> 1023" "mmu (phys s) (cr3 s) v = None"
  obtains s1 m' km' k where "paddr_get_page KERNEL_POOL s = Inr (pool_page (kernel_pool s) k, s1)"
    and "bind_vaddr_paddr_page v (pool_page (kernel_pool s) k) s1 = Inr (s\<lparr>phys := m', kmem := km'\<rparr>)"
    and "maps_only (cr3 s) v (pool_page (kernel_pool s) k) (phys s) m'"
    and "k \<in> free_pages s" "free_pages (s\<lparr>phys := m', kmem := km'\<rparr>) \<subseteq> free_pages s - {k}"
    and "\<And>x. x < bm_bits_count (addr_bitmap (kernel_vaddr s)) \<Longrightarrow>
      bit_set km' (addr_bitmap (kernel_vaddr s)) x = bit_set (kmem s) (addr_bitmap (kernel_vaddr s)) x"
proof -
  let ?p = "kernel_pool s" and ?bm = "pool_bitmap (kernel_pool s)" and ?va = "addr_bitmap (kernel_vaddr s)"
  have p_ok: "pool_ok ?p" and apart: "bitmaps_apart ?bm ?va" and space: "space_ok (phys s) (cr3 s)"
    using ok by (auto simp: kernel_pages_ok_def)
  have pool: "pool_of KERNEL_POOL s = ?p" by (simp add: pool_of_def)
  have "i < bm_bits_count ?bm" "\<not> bit_set (kmem s) ?bm i" using two(1) by (auto simp: free_pages_def)
  then obtain k where k: "paddr_get_page KERNEL_POOL s = Inr (pool_page ?p k,
      s\<lparr>kmem := bitmap_set_bit (kmem s) ?bm (of_nat k) 1\<rparr>)"
    "k < bm_bits_count ?bm" "\<not> bit_set (kmem s) ?bm k"
    using paddr_get_page_free [of KERNEL_POOL s i] p_ok unfolding pool by blast
  define s1 where "s1 = s\<lparr>kmem := bitmap_set_bit (kmem s) ?bm (of_nat k) 1\<rparr>"
  have N: "bm_bits_count ?bm < 2 ^ 20" using pool_ok_count [OF p_ok] .
  have set: "bit_set (bitmap_set_bit m ?bm (of_nat t) 1) ?bm x \<longleftrightarrow> x = t \<or> bit_set m ?bm x"
    if "x < bm_bits_count ?bm" "t < bm_bits_count ?bm" for x t m
    using bit_set_after_set [of t x m ?bm 1] that N by simp
  have keep: "bit_set (bitmap_set_bit m ?bm (of_nat t) 1) ?va x = bit_set m ?va x"
    if "x < bm_bits_count ?va" "t < bm_bits_count ?bm" for x t m
    using set_bit_apart [OF apart _ that(1), of "of_nat t" m 1] that(2) N unat_of_nat32 [of t] by simp
  have same1: "phys s1 = phys s" "cr3 s1 = cr3 s" "kernel_pool s1 = ?p" by (simp_all add: s1_def)
  have free1: "free_pages s1 = free_pages s - {k}" using set k(2) by (auto simp: free_pages_def s1_def)
  have tbl: "table_source s1"
    unfolding table_source_def same1
  proof (intro conjI)
    have "i \<in> free_pages s1 \<or> j \<in> free_pages s1" using two free1 by auto
    then show "\<exists>x < bm_bits_count ?bm. \<not> bit_set (kmem s1) ?bm x" by (auto simp: free_pages_def same1)
    show "\<forall>x < bm_bits_count ?bm. \<not> bit_set (kmem s1) ?bm x \<longrightarrow> spare_frame (phys s) (cr3 s) (pool_page ?p x)"
      using ok set k(2) by (auto simp: kernel_pages_ok_def free_pages_def s1_def)
  qed (fact p_ok)
  have sp: "space_ok (phys s1) (cr3 s1)" "mmu (phys s1) (cr3 s1) v = None" using space v(2) by (simp_all add: same1)
  obtain m' km' where bind: "bind_vaddr_paddr_page v (pool_page ?p k) s1 = Inr (s1\<lparr>phys := m', kmem := km'\<rparr>)"
    and maps: "maps_only (cr3 s) v (pool_page ?p k) (phys s) m'"
    and km': "km' = kmem s1 \<or> (\<exists>t < bm_bits_count ?bm. \<not> bit_set (kmem s1) ?bm t \<and>
      km' = bitmap_set_bit (kmem s1) ?bm (of_nat t) 1)"
    by (rule bind_ok [OF sp(1) v(1) sp(2) tbl, unfolded same1]) blast
  have s2: "s1\<lparr>phys := m', kmem := km'\<rparr> = s\<lparr>phys := m', kmem := km'\<rparr>" by (simp add: s1_def)
  have "free_pages (s\<lparr>phys := m', kmem := km'\<rparr>) \<subseteq> free_pages s1"
    using km' set by (auto simp: free_pages_def same1 s1_def)
  moreover have "bit_set km' ?va x = bit_set (kmem s) ?va x" if "x < bm_bits_count ?va" for x
    using km' keep [OF that] k(2) by (auto simp: s1_def)
  ultimately show thesis
  proof (intro that [of k s1 km' m'])
    show "paddr_get_page KERNEL_POOL s = Inr (pool_page ?p k, s1)" using k(1) by (simp add: s1_def)
    show "k \<in> free_pages s" using k(2,3) by (simp add: free_pages_def)
  qed (use bind maps free1 in \<open>simp_all add: s2\<close>)
qed

lemma get_a_page_kernel:
  assumes lock: "lock_available (plock (kernel_pool s)) s" and thread: "pgdir (tasks s (running_thread s)) = NULL"
    and ok: "kernel_pages_ok s"
    and idx: "sint (heap_index s v) > 0" "unat (heap_index s v) < bm_bits_count (addr_bitmap (kernel_vaddr s))"
    and v: "PDE_IDX v \<noteq> 1023" "mmu (phys s) (cr3 s) v = None"
    and two: "i \<in> free_pages s" "j \<in> free_pages s" "i \<noteq> j"
  obtains s' k where "get_a_page KERNEL_POOL v s = Inr (v, s')" and "k \<in> free_pages s"
    and "maps_only (cr3 s) v (pool_page (kernel_pool s) k) (phys s) (phys s')" "cr3 s' = cr3 s"
    and "free_pages s' \<subseteq> free_pages s - {k}"
    and "holder s' = holder s" "sem_value s' = sem_value s" "holder_repeat_nr s' = holder_repeat_nr s"
    and "bit_set (kmem s') (addr_bitmap (kernel_vaddr s)) (unat (heap_index s v))"
proof -
  let ?l = "plock (kernel_pool s)" and ?p = "kernel_pool s" and ?bm = "pool_bitmap (kernel_pool s)"
  let ?va = "addr_bitmap (kernel_vaddr s)" and ?h = "heap_index s v"
  define s1 where "s1 = lock_taken ?l s"
  define s2 where "s2 = s1\<lparr>kmem := bitmap_set_bit (kmem s) ?va ?h 1\<rparr>"
  have acq: "call_lock ''lock_acquire'' (lock_acquire ?l) s = Inr s1"
    unfolding s1_def using lock by (rule call_acquire)
  have set: "set_vaddr_bit (kernel_vaddr s1) v s1 = Inr s2"
    using idx(1) by (simp add: set_vaddr_bit_def Let_def heap_index_def s2_def s1_def)
  have same2: "phys s2 = phys s" "cr3 s2 = cr3 s" "kernel_pool s2 = ?p" "kernel_vaddr s2 = kernel_vaddr s"
    by (simp_all add: s2_def s1_def)
  have "bit_set (kmem s2) ?bm x = bit_set (kmem s) ?bm x" if "x < bm_bits_count ?bm" for x
    using set_bit_apart [of ?va ?bm ?h x "kmem s" 1] ok idx(2) that by (simp add: s2_def kernel_pages_ok_def)
  then have free2: "free_pages s2 = free_pages s" by (auto simp: free_pages_def same2)
  have ok2: "kernel_pages_ok s2" using ok by (simp add: kernel_pages_ok_def same2 free2)
  obtain s3 m' km' k where k: "paddr_get_page KERNEL_POOL s2 = Inr (pool_page ?p k, s3)"
    "bind_vaddr_paddr_page v (pool_page ?p k) s3 = Inr (s2\<lparr>phys := m', kmem := km'\<rparr>)"
    "maps_only (cr3 s) v (pool_page ?p k) (phys s) m'" "k \<in> free_pages s"
    "free_pages (s2\<lparr>phys := m', kmem := km'\<rparr>) \<subseteq> free_pages s - {k}"
    "\<And>x. x < bm_bits_count ?va \<Longrightarrow> bit_set km' ?va x = bit_set (kmem s2) ?va x"
    by (rule alloc_and_bind [OF ok2, of i j v, unfolded free2 same2, OF two v]) blast
  define s4 where "s4 = s2\<lparr>phys := m', kmem := km'\<rparr>"
  have run4: "running_thread s4 = running_thread s" by (simp add: s4_def s2_def s1_def running_thread_def lock_taken_def
        set_value_def set_repeat_def set_holder_def)
  have lock4: "frames s4 (running_thread s4) = []" "holder s4 ?l = running_thread s4"
    "sem_value s4 (semaphore_of ?l) = 0" "holder_repeat_nr s4 ?l = 1" "list_empty s4 (waiters (semaphore_of ?l))"
    using lock unfolding run4
    by (simp_all add: s4_def s2_def s1_def lock_taken_def lock_available_def list_empty_def
        set_value_def set_repeat_def set_holder_def)
  define s' where "s' = lock_given_back ?l s4"
  have rel: "call_lock ''lock_release'' (lock_release ?l) s4 = Inr s'"
    unfolding s'_def using lock4 by (rule call_release)
  have "k < bm_bits_count ?bm" using k(4) by (simp add: free_pages_def)
  then have page: "pool_page ?p k \<noteq> NULL"
    using pool_page_not_null [of ?p k] ok by (simp add: kernel_pages_ok_def)
  have pool: "pool_of KERNEL_POOL s = ?p" "pool_of KERNEL_POOL s4 = ?p"
    by (simp_all add: pool_of_def s4_def same2)
  have run1: "running_thread s1 = running_thread s" "tasks s1 = tasks s" by (simp_all add: s1_def)
  have run: "get_a_page KERNEL_POOL v s = Inr (v, s')"
    using acq thread set k(1,2) page rel
    by (simp add: get_a_page_def Let_def pool run1 s4_def [symmetric])
  have "?h = of_nat (unat ?h)" by simp
  then have "bit_set (kmem s2) ?va (unat ?h)"
    using bit_set_after_set [of "unat ?h" "unat ?h" "kmem s" ?va 1] unat_bound32 [of ?h] by (simp add: s2_def)
  then have "bit_set (kmem s') ?va (unat ?h)" using k(6) [OF idx(2)] by (simp add: s'_def s4_def)
  moreover have "holder s' = holder s" "sem_value s' = sem_value s" "holder_repeat_nr s' = holder_repeat_nr s"
    using lock by (auto simp: s'_def s4_def s2_def s1_def lock_given_back_def lock_taken_def lock_available_def fun_upd_idem)
  moreover have "free_pages s' \<subseteq> free_pages s - {k}"
    using k(5) by (simp add: free_pages_def s'_def s4_def)
  ultimately show thesis
    using run k(3,4) by (intro that [of s' k]) (simp_all add: s'_def s4_def same2)
qed

section \<open>Properties\<close>

text \<open>A machine whose page directory at \<open>0x100000\<close> only maps itself.\<close>

definition sample_phys :: mem where
  "sample_phys = store32 (\<lambda>_. 0) (0x100000 + 1023 * 4) (0x100000 OR 7)"

definition sample_space :: memory where
  "sample_space = sample_memory\<lparr>phys := sample_phys, cr3 := 0x100000\<rparr>"

lemma sample_frame: "page_frame 0x100000 = 0x100000"
  by (simp add: page_frame_def)

lemma sample_pde: "load32 sample_phys (pde_addr 0x100000 v) = (if PDE_IDX v = 1023 then 0x100000 OR 7 else 0)"
proof -
  have "PDE_IDX 0xffc00000 = 1023" by (simp add: PDE_IDX_def)
  then have self: "0x100000 + 1023 * 4 = pde_addr 0x100000 0xffc00000" "PDE_IDX 0xffc00000 = 1023"
    by (simp_all add: pde_addr_def sample_frame)
  have "load32 sample_phys (pde_addr 0x100000 v) =
      (if pde_addr 0x100000 v = pde_addr 0x100000 0xffc00000 then 0x100000 OR 7
       else load32 (\<lambda>_. 0) (pde_addr 0x100000 v))"
    unfolding sample_phys_def self(1) by (rule load32_store32_aligned) (rule pde_addr_aligned)+
  then show ?thesis by (simp only: pde_addr_eq self(2)) (simp add: load32_def)
qed

lemma sample_space_ok: "space_ok sample_phys 0x100000"
proof -
  have "PDE_IDX 0xffc00000 = 1023" by (simp add: PDE_IDX_def)
  then have "load32 sample_phys (page_frame 0x100000 + 1023 * 4) = 0x100000 OR 7"
    using sample_pde [of "0xffc00000"] by (simp add: pde_addr_self)
  then show ?thesis
    unfolding space_ok_def self_map_def sample_pde by (simp only: entry_flags sample_frame) simp
qed

lemma sample_spare: "page_frame f = f \<Longrightarrow> f \<noteq> 0x100000 \<Longrightarrow> spare_frame sample_phys 0x100000 f"
  by (simp add: spare_frame_def sample_frame sample_pde)

lemma sample_pool_spare:
  "i < 16 \<Longrightarrow> spare_frame sample_phys 0x100000 (pool_page (kernel_pool sample_memory) i)"
proof (rule sample_spare)
  assume i: "i < 16"
  have ok: "pool_ok (kernel_pool sample_memory)" "i < bm_bits_count (pool_bitmap (kernel_pool sample_memory))"
    using i by (simp_all add: pool_ok_def bm_bits_count_def)
  then show "page_frame (pool_page (kernel_pool sample_memory) i) = pool_page (kernel_pool sample_memory) i"
    by (rule pool_page_aligned)
  show "pool_page (kernel_pool sample_memory) i \<noteq> 0x100000"
    using unat_pool_page [OF ok] by auto
qed

text \<open>
  Mapping a page. When the page of \<open>v\<close> is not mapped and is not in the window of the page
  tables, \<open>bind_vaddr_paddr_page\<close> returns; then every address of the page translates to its
  offset in the given frame, whether or not a page table had to be taken from the kernel pool
  and cleared, and every address that was mapped before translates as before.
\<close>

theorem bind_maps_page:
  assumes "space_ok (phys s) (cr3 s)" and "PDE_IDX v \<noteq> 1023" and "mmu (phys s) (cr3 s) v = None"
    and "table_source s"
  shows "\<exists>s'. bind_vaddr_paddr_page v pg s = Inr s' \<and> cr3 s' = cr3 s \<and>
    (\<forall>w. same_page w v \<longrightarrow> mmu (phys s') (cr3 s') w = Some (page_frame pg + (w AND 0xfff))) \<and>
    (\<forall>w p. PDE_IDX w \<noteq> 1023 \<and> mmu (phys s) (cr3 s) w = Some p \<longrightarrow> mmu (phys s') (cr3 s') w = Some p) \<and>
    space_ok (phys s') (cr3 s')"
proof -
  obtain m' km' where bind: "bind_vaddr_paddr_page v pg s = Inr (s\<lparr>phys := m', kmem := km'\<rparr>)"
    and maps: "maps_only (cr3 s) v pg (phys s) m'"
    using bind_ok [OF assms] by blast
  show ?thesis
    by (rule exI [of _ "s\<lparr>phys := m', kmem := km'\<rparr>"])
      (use bind maps in \<open>simp add: maps_only_def\<close>)
qed

lemma bind_maps_page_witness:
  "\<exists>s'. bind_vaddr_paddr_page 0xc0105000 0x300000 sample_space = Inr s' \<and>
    mmu (phys s') (cr3 s') 0xc0105123 = Some 0x300123"
proof -
  have fields: "phys sample_space = sample_phys" "cr3 sample_space = 0x100000"
    "kernel_pool sample_space = kernel_pool sample_memory" "kmem sample_space = (\<lambda>_. 0)"
    by (simp_all add: sample_space_def)
  have idx: "PDE_IDX 0xc0105000 = 768" by (simp add: PDE_IDX_def)
  have none: "mmu sample_phys 0x100000 0xc0105000 = None" by (simp add: mmu_def sample_pde idx)
  have source: "table_source sample_space"
    unfolding table_source_def fields
    using sample_pool_spare exI [of "\<lambda>i. i < (16 :: nat)" 0]
    by (auto simp: pool_ok_def bm_bits_count_def bit_set_def)
  have page: "same_page 0xc0105123 0xc0105000" by (simp add: same_page_def page_frame_def)
  obtain s' where s': "bind_vaddr_paddr_page 0xc0105000 0x300000 sample_space = Inr s'"
    "\<forall>w. same_page w 0xc0105000 \<longrightarrow> mmu (phys s') (cr3 s') w = Some (page_frame 0x300000 + (w AND 0xfff))"
    using bind_maps_page [of sample_space "0xc0105000" "0x300000"] sample_space_ok source none idx
    by (auto simp: fields)
  have "page_frame 0x300000 + (0xc0105123 AND 0xfff) = 0x300123" by (simp add: page_frame_def)
  then show ?thesis using s' page by metis
qed

text \<open>
  C22: \<open>get_a_page\<close> of a kernel thread. When the lock of the kernel pool is free, the pool has two
  free pages and the page of \<open>v\<close> is in the heap and not mapped, the call returns \<open>v\<close>: the page is
  mapped to a page of the pool that was free and is not free any more, its bit in the heap bitmap
  is set, older mappings and the lock are as before.
\<close>

theorem get_a_page_maps:
  assumes "lock_available (plock (kernel_pool s)) s" and "pgdir (tasks s (running_thread s)) = NULL"
    and "kernel_pages_ok s" and "sint (heap_index s v) > 0"
    and "unat (heap_index s v) < bm_bits_count (addr_bitmap (kernel_vaddr s))"
    and "PDE_IDX v \<noteq> 1023" and "mmu (phys s) (cr3 s) v = None"
    and "i \<in> free_pages s" and "j \<in> free_pages s" and "i \<noteq> j"
  shows "\<exists>s' k. get_a_page KERNEL_POOL v s = Inr (v, s') \<and> k \<in> free_pages s \<and> k \<notin> free_pages s' \<and>
    (\<forall>w. same_page w v \<longrightarrow>
       mmu (phys s') (cr3 s') w = Some (page_frame (pool_page (kernel_pool s) k) + (w AND 0xfff))) \<and>
    (\<forall>w p. PDE_IDX w \<noteq> 1023 \<and> mmu (phys s) (cr3 s) w = Some p \<longrightarrow> mmu (phys s') (cr3 s') w = Some p) \<and>
    bit_set (kmem s') (addr_bitmap (kernel_vaddr s)) (unat (heap_index s v)) \<and>
    holder s' = holder s \<and> sem_value s' = sem_value s \<and> holder_repeat_nr s' = holder_repeat_nr s"
proof -
  obtain s' k where "get_a_page KERNEL_POOL v s = Inr (v, s')" "k \<in> free_pages s"
    "maps_only (cr3 s) v (pool_page (kernel_pool s) k) (phys s) (phys s')" "cr3 s' = cr3 s"
    "free_pages s' \<subseteq> free_pages s - {k}"
    "holder s' = holder s" "sem_value s' = sem_value s" "holder_repeat_nr s' = holder_repeat_nr s"
    "bit_set (kmem s') (addr_bitmap (kernel_vaddr s)) (unat (heap_index s v))"
    by (rule get_a_page_kernel [OF assms])
  then show ?thesis by (intro exI [of _ s'] exI [of _ k]) (auto simp: maps_only_def)
qed

lemma get_a_page_maps_witness:
  "\<exists>s'. get_a_page KERNEL_POOL 0xc0105000 sample_space = Inr (0xc0105000, s') \<and>
    (\<exists>p. mmu (phys s') (cr3 s') 0xc0105000 = Some p)"
proof -
  have fields: "phys sample_space = sample_phys" "cr3 sample_space = 0x100000"
    "kernel_pool sample_space = kernel_pool sample_memory" "kmem sample_space = (\<lambda>_. 0)"
    "kernel_vaddr sample_space = kernel_vaddr sample_memory"
    by (simp_all add: sample_space_def)
  have run: "running_thread sample_space = 0x1000"
    by (simp add: running_thread_def sample_space_def sample_memory_def sync.defs sample_free_def lock_init_def
        sema_init_def list_init_def set_next_def set_prev_def sample_sync_def set_value_def set_repeat_def set_holder_def)
  have lock: "lock_available 0x900 sample_space"
    unfolding lock_available_def run
    by (simp add: sample_space_def sample_memory_def sync.defs sample_free_def lock_init_def sema_init_def
        list_init_def list_empty_def)
      (simp add: set_next_def set_prev_def sample_sync_def set_value_def set_repeat_def set_holder_def)
  have thread: "pgdir (tasks sample_space 0x1000) = NULL"
    by (simp add: sample_space_def sample_memory_def sync.defs sample_free_def lock_init_def
        sema_init_def list_init_def set_next_def set_prev_def sample_sync_def set_value_def set_repeat_def
        set_holder_def sample_threads_def sample_task_def zero_task_def)
  have free: "free_pages sample_space = {i. i < 16}"
    by (auto simp: free_pages_def fields bm_bits_count_def bit_set_def)
  have apart: "region (p + of_nat a) 2 \<inter> region (p + of_nat b) 2 = {}" if "a + 2 \<le> b" "b < 100" for a b and p :: u32
    using region_apart [of a 2 b 2 p] that by simp
  have bms: "bitmaps_apart (pool_bitmap (kernel_pool sample_memory)) (addr_bitmap (kernel_vaddr sample_memory))"
    using apart [of 0 4 "0xc009a000"] by (simp add: bitmaps_apart_def)
  have ok: "kernel_pages_ok sample_space"
    unfolding kernel_pages_ok_def fields free
    using bms sample_space_ok sample_pool_spare by (auto simp: pool_ok_def bm_bits_count_def bitmaps_apart_def Int_commute)
  have idx: "heap_index sample_space 0xc0105000 = 5" by (simp add: heap_index_def fields PG_SIZE_def)
  have pde: "PDE_IDX 0xc0105000 = 768" by (simp add: PDE_IDX_def)
  have none: "mmu sample_phys 0x100000 0xc0105000 = None" by (simp add: mmu_def sample_pde pde)
  have "same_page 0xc0105000 0xc0105000" by (simp add: same_page_def)
  then show ?thesis
    using get_a_page_maps [of sample_space "0xc0105000" 0 1] lock thread ok
    by (simp add: run fields free idx pde none bm_bits_count_def) blast
qed

end
