(* ===== verification/Idt.thy ===== *)
theory Idt
  imports MemAlloc
begin

text \<open>
  The rest of \<open>src/kernel/interrupt.c\<close>: the programming of the two interrupt controllers, the
  interrupt descriptor table, the table of C handlers and the default handler. Ports are
  written with \<open>outb\<close> (\<open>include/io.h\<close>) and the writes are recorded in order. The stubs of
  \<open>interrupt_handler.asm\<close> are a table of addresses, \<open>real_interrupt_entry_table\<close>; a pointer to a
  C handler is a constructor of \<open>intr_handler\<close>.
\<close>

section \<open>Data\<close>

datatype intr_handler = DefaultHandler | ClockHandler | KeyboardHandler

record interrupt_descriptor =
  func_offset_low_word :: u16
  selector :: u16
  dcount :: u8
  attribute :: u8
  func_offset_high_word :: u16

text \<open>\<open>idt_addr\<close> is where the linker put the table; \<open>idtr_limit\<close> and \<open>idtr_base\<close> are the register.\<close>

record interrupts = memory +
  port_writes :: "(u16 \<times> u8) list"
  interrupt_names :: "string option list"
  c_interrupt_entry_table :: "intr_handler option list"
  real_interrupt_entry_table :: "u32 list"
  idt :: "interrupt_descriptor list"
  idt_addr :: u32
  idtr_limit :: u16
  idtr_base :: u32
  cursor :: u32

definition interrupt_num :: nat where
  "interrupt_num = 0x30"

definition outb :: "u16 \<Rightarrow> u8 \<Rightarrow> 'a interrupts_scheme \<Rightarrow> 'a interrupts_scheme" where
  "outb port data s = s\<lparr>port_writes := port_writes s @ [(port, data)]\<rparr>"

text \<open>\<open>set_cursor\<close> of \<open>lib/prints.asm\<close>.\<close>

definition set_cursor :: "u32 \<Rightarrow> 'a interrupts_scheme \<Rightarrow> 'a interrupts_scheme" where
  "set_cursor pos s = s\<lparr>cursor := pos\<rparr>"

section \<open>The code\<close>

definition pic_init :: "'a interrupts_scheme \<Rightarrow> 'a interrupts_scheme" where
  "pic_init s =
     outb 0xa1 0xff (outb 0x21 0xfc
       (outb 0xa1 0x01 (outb 0x21 0x01
         (outb 0xa1 0x02 (outb 0x21 0x04
           (outb 0xa1 0x28 (outb 0x21 0x20
             (outb 0xa0 0x11 (outb 0x20 0x11 s)))))))))"

definition make_idt_desc :: "u8 \<Rightarrow> u32 \<Rightarrow> interrupt_descriptor" where
  "make_idt_desc attr function =
     \<lparr>func_offset_low_word = ucast (function AND 0x0000FFFF),
      selector = push_bit 3 1,
      dcount = 0,
      attribute = attr,
      func_offset_high_word = ucast (drop_bit 16 (function AND 0xFFFF0000))\<rparr>"

definition exception_names :: "string list" where
  "exception_names = [''#DE Divide Error'', ''#DB Debug Exception'', ''NMI Interrupt'',
     ''#BP Breakpoint Exception'', ''#OF Overflow Exception'', ''#BR BOUND Range Exceeded Exception'',
     ''#UD Invalid Opcode Exception'', ''#NM Device Not Available Exception'',
     ''#DF Double Fault Exception'', ''Coprocessor Segment Overrun'', ''#TS Invalid TSS Exception'',
     ''#NP Segment Not Present'', ''#SS Stack Fault Exception'', ''#GP General Protection Exception'',
     ''#PF Page-Fault Exception'']"

text \<open>The pointers that \<open>idt_init\<close> does not assign stay null: 15, and all from 20 on.\<close>

definition all_names :: "string option list" where
  "all_names = map Some exception_names @ [None] @
     map Some [''#MF x87 FPU Floating-Point Error'', ''#AC Alignment Check Exception'',
       ''#MC Machine-Check Exception'', ''#XF SIMD Floating-Point Exception''] @ replicate 28 None"

definition idt_init :: "'a interrupts_scheme \<Rightarrow> 'a interrupts_scheme" where
  "idt_init s = s\<lparr>c_interrupt_entry_table := replicate interrupt_num (Some DefaultHandler),
     interrupt_names := all_names,
     idt := map (make_idt_desc 0x8e) (real_interrupt_entry_table s)\<rparr>"

text \<open>\<open>lidt\<close> reads the limit from the low 16 bits of its operand and the base from the next 32.\<close>

definition lidt :: "u64 \<Rightarrow> 'a interrupts_scheme \<Rightarrow> 'a interrupts_scheme" where
  "lidt operand s = s\<lparr>idtr_limit := ucast operand, idtr_base := ucast (drop_bit 16 operand)\<rparr>"

definition interrupt_init :: "'a interrupts_scheme \<Rightarrow> 'a interrupts_scheme" where
  "interrupt_init s =
     (let s1 = idt_init (pic_init s);
          idt_operand = (of_nat (interrupt_num * 8 - 1) OR push_bit 16 (ucast (idt_addr s1))) :: u64
      in kprintf ''interrupt_init is done.\<newline>'' [] (lidt idt_operand s1))"

text \<open>The table has 48 entries; a write past them is undefined.\<close>

definition register_handler :: "u8 \<Rightarrow> intr_handler \<Rightarrow> 'a interrupts_scheme \<Rightarrow> 'a interrupts_scheme outcome" where
  "register_handler num handler s =
     (if unat num < length (c_interrupt_entry_table s)
      then Inr (s\<lparr>c_interrupt_entry_table := (c_interrupt_entry_table s)[unat num := Some handler]\<rparr>)
      else Inl (Undefined ''register_handler''))"

text \<open>
  What the default handler prints before it spins: a null name is an undefined argument of
  \<open>%s\<close>, and the message of a page fault has a \<open>%x\<close> without an argument.
\<close>

definition exception_report :: "u8 \<Rightarrow> 'a interrupts_scheme \<Rightarrow> 'a interrupts_scheme outcome" where
  "exception_report intr_id s0 =
     (let s1 = set_cursor 0 s0;
          s2 = ((kprintf '' '' []) ^^ 320) s1;
          s3 = kprintf ''----- Exception message begin -----\<newline>'' [] (set_cursor 0 s2)
      in case interrupt_names s3 ! unat intr_id of
           None \<Rightarrow> Inl (Undefined ''default_interrupt_handler'')
         | Some name \<Rightarrow>
             let s4 = kprintf (name @ ''\<newline>'') [] s3
             in if intr_id = 14 then Inl (Undefined ''default_interrupt_handler'')
                else Inr (kprintf ''----- Exception message end -----\<newline>'' [] s4))"

text \<open>After the report the handler spins; the spurious interrupts 0x27 and 0x2f return.\<close>

definition default_interrupt_handler :: "u8 \<Rightarrow> 'a interrupts_scheme \<Rightarrow> 'a interrupts_scheme outcome" where
  "default_interrupt_handler intr_id s =
     (if intr_id = 0x27 \<or> intr_id = 0x2f then Inr s
      else rbind (exception_report intr_id s) (\<lambda>_. Inl (Diverges ''default_interrupt_handler'')))"

section \<open>Gates\<close>

text \<open>The fields of an interrupt gate as the processor reads them.\<close>

definition gate_offset :: "interrupt_descriptor \<Rightarrow> u32" where
  "gate_offset d = push_bit 16 (ucast (func_offset_high_word d)) OR ucast (func_offset_low_word d)"

lemma gate_offset_make [simp]: "gate_offset (make_idt_desc attr f) = f"
proof (rule bit_word_eqI)
  fix n :: nat assume n: "n < LENGTH(32)"
  have lits: "(0x0000FFFF :: u32) = mask 16" "(0xFFFF0000 :: u32) = NOT (mask 16)"
    by (simp_all add: mask_eq_exp_minus_1)
  show "bit (gate_offset (make_idt_desc attr f)) n = bit f n"
    unfolding gate_offset_def make_idt_desc_def lits
    using n by (cases "n < 16") (auto simp: bit_simps)
qed

lemma make_idt_desc_fields [simp]:
  "selector (make_idt_desc attr f) = 8" "attribute (make_idt_desc attr f) = attr"
  by (simp_all add: make_idt_desc_def)

section \<open>Properties\<close>

lemma descriptor_operand:
  fixes a :: u32
  shows "(ucast ((383 :: u64) OR push_bit 16 (ucast a)) :: u16) = 383"
    and "(ucast (drop_bit 16 ((383 :: u64) OR push_bit 16 (ucast a))) :: u32) = a"
proof -
  have hi: "\<not> bit (383 :: u64) (16 + n)" for n
  proof -
    have "(383 :: u64) = 383 AND mask 16" by (simp add: mask_eq_exp_minus_1)
    then have "bit (383 :: u64) (16 + n) = bit ((383 :: u64) AND mask 16) (16 + n)" by (simp only:)
    then show ?thesis by (simp add: bit_simps)
  qed
  have low: "ucast (383 :: u64) = (383 :: u16)" by simp
  show "(ucast ((383 :: u64) OR push_bit 16 (ucast a)) :: u16) = 383"
  proof (rule bit_word_eqI)
    fix n :: nat assume n: "n < LENGTH(16)"
    have "bit (ucast (383 :: u64) :: u16) n = bit (383 :: u64) n" using n by (simp add: bit_simps)
    then show "bit (ucast ((383 :: u64) OR push_bit 16 (ucast a)) :: u16) n = bit (383 :: u16) n"
      using n unfolding low by (simp add: bit_simps)
  qed
  show "(ucast (drop_bit 16 ((383 :: u64) OR push_bit 16 (ucast a))) :: u32) = a"
    by (rule bit_word_eqI) (simp add: bit_simps hi)
qed

text \<open>
  C34: after \<open>interrupt_init\<close> every one of the 48 gates of the table leads to its stub, as an
  interrupt gate of the kernel's code segment, every vector has the default handler, and the
  processor's register describes exactly this table.
\<close>

theorem interrupt_init_gates:
  assumes "length (real_interrupt_entry_table s) = interrupt_num" and "v < interrupt_num"
  shows "let s' = interrupt_init s in
    gate_offset (idt s' ! v) = real_interrupt_entry_table s ! v \<and>
    selector (idt s' ! v) = 8 \<and> attribute (idt s' ! v) = 0x8e \<and>
    c_interrupt_entry_table s' ! v = Some DefaultHandler \<and>
    length (idt s') * 8 = unat (idtr_limit s') + 1 \<and> idtr_base s' = idt_addr s"
  using assms descriptor_operand
  by (simp add: interrupt_init_def Let_def kprintf_def lidt_def idt_init_def pic_init_def outb_def interrupt_num_def)

definition sample_interrupts :: interrupts where
  "sample_interrupts = memory.extend sample_memory
     \<lparr>port_writes = [], interrupt_names = replicate 48 None, c_interrupt_entry_table = replicate 48 None,
      real_interrupt_entry_table = map (\<lambda>v. 0xc0003000 + 64 * of_nat v) [0..<48], idt = [],
      idt_addr = 0xc0008000, idtr_limit = 0, idtr_base = 0, cursor = 0\<rparr>"

lemma interrupt_init_gates_witness:
  "gate_offset (idt (interrupt_init sample_interrupts) ! 32) = 0xc0003800"
  using interrupt_init_gates [of sample_interrupts 32]
  by (simp add: interrupt_num_def sample_interrupts_def memory.defs Let_def)



end
