(* ===== verification/Timer.thy ===== *)
theory Timer
  imports Idt
begin

text \<open>
  \<open>src/kernel/timer.c\<close>: the programming of the interval timer and the registration of the clock
  handler, which is \<open>clock_interrupt_handler\<close> of the theory \<open>Thread\<close>. The function \<open>pic_init\<close> of
  this file is \<open>pit_init\<close> here.
\<close>

definition HZ :: nat where
  "HZ = 100"

definition pit_init :: "'a interrupts_scheme \<Rightarrow> 'a interrupts_scheme" where
  "pit_init s =
     outb 0x40 (of_nat (1193180 div HZ div 2 ^ 8)) (outb 0x40 (of_nat (1193180 div HZ)) (outb 0x43 0x34 s))"

definition timer_init :: "'a interrupts_scheme \<Rightarrow> 'a interrupts_scheme outcome" where
  "timer_init s =
     rbind (register_handler 0x20 ClockHandler s) (\<lambda>s1. Inr (kprintf ''timer_init is done\<newline>'' [] (pit_init s1)))"

text \<open>The counter that two writes to port \<open>0x40\<close>, low byte first, give to the timer.\<close>

definition pit_counter :: "u8 \<Rightarrow> u8 \<Rightarrow> nat" where
  "pit_counter lo hi = unat lo + 2 ^ 8 * unat hi"

text \<open>
  \<open>timer_init\<close> gives the clock vector to the clock handler and leaves the other vectors, and
  programs the timer, low byte first, with the largest counter for which its input of 1193180 Hz
  still gives 100 interrupts a second.
\<close>

theorem timer_init_rate:
  assumes "length (c_interrupt_entry_table s) = interrupt_num"
  shows "\<exists>s' lo hi. timer_init s = Inr s' \<and>
    c_interrupt_entry_table s' = (c_interrupt_entry_table s)[0x20 := Some ClockHandler] \<and>
    port_writes s' = port_writes s @ [(0x43, 0x34), (0x40, lo), (0x40, hi)] \<and>
    HZ * pit_counter lo hi \<le> 1193180 \<and> 1193180 < HZ * Suc (pit_counter lo hi)"
  using assms
  by (auto simp: timer_init_def register_handler_def pit_init_def outb_def kprintf_def interrupt_num_def
      pit_counter_def HZ_def)

lemma timer_init_rate_witness:
  "\<exists>s'. timer_init sample_interrupts = Inr s' \<and> c_interrupt_entry_table s' ! 0x20 = Some ClockHandler"
proof -
  have len: "length (c_interrupt_entry_table sample_interrupts) = interrupt_num"
    by (simp add: sample_interrupts_def memory.defs interrupt_num_def)
  show ?thesis using timer_init_rate [OF len] len by (auto simp: interrupt_num_def)
qed

end
