(* ===== verification/PageIO.thy ===== *)
theory PageIO
  imports MemAlloc
begin

text \<open>
  Access to a page that is mapped: loads, stores and the loops of \<open>memset\<close> and \<open>memcpy\<close> through
  the translation, when the frame of the page is not part of the page tables, so that no store to
  it changes a translation. \<open>page_at s v f\<close>: the page at \<open>v\<close> is mapped to the frame \<open>f\<close>.
\<close>

section \<open>Pages and frames\<close>

fun vstore_bytes :: "u32 \<Rightarrow> u8 list \<Rightarrow> 'a paging_scheme \<Rightarrow> 'a paging_scheme outcome" where
  "vstore_bytes v [] s = Inr s"
| "vstore_bytes v (b # bs) s = rbind (vstore8 v b s) (vstore_bytes (v + 1) bs)"

definition page_at :: "'a paging_scheme \<Rightarrow> u32 \<Rightarrow> u32 \<Rightarrow> bool" where
  "page_at s v f \<longleftrightarrow> spare_frame (phys s) (cr3 s) f \<and> page_frame v = v \<and> PDE_IDX v \<noteq> 1023 \<and>
     (\<forall>i < 4096. mmu (phys s) (cr3 s) (v + of_nat i) = Some (f + of_nat i))"

definition same_but :: "u32 \<Rightarrow> mem \<Rightarrow> mem \<Rightarrow> bool" where
  "same_but f m m' \<longleftrightarrow> (\<forall>a. page_frame a \<noteq> f \<longrightarrow> m' a = m a)"

lemma same_but_refl [simp]: "same_but f m m"
  by (simp add: same_but_def)

lemma same_but_trans: "same_but f m m' \<Longrightarrow> same_but f m' m'' \<Longrightarrow> same_but f m m''"
  by (simp add: same_but_def)

lemma page_offset_fields:
  assumes "page_frame v = v" and "i < 4096"
  shows "PDE_IDX (v + of_nat i) = PDE_IDX v" "same_page (v + of_nat i) v" "page_frame (v + of_nat i) = v"
proof -
  show frame: "page_frame (v + of_nat i) = v" using page_frame_add(1) [OF assms(2), of v] assms(1) by simp
  then show "same_page (v + of_nat i) v" by (simp add: same_page_def assms(1))
  then show "PDE_IDX (v + of_nat i) = PDE_IDX v" by (simp add: same_page_idx)
qed

text \<open>Writing to a spare frame does not change what is mapped where.\<close>

lemma spare_pde:
  assumes "spare_frame m cr f" and "same_but f m m'"
  shows "load32 m' (pde_addr cr v) = load32 m (pde_addr cr v)"
  by (rule load32_frame_cong [OF pde_addr_frame]) (assumption, use assms in \<open>auto simp: same_but_def spare_frame_def\<close>)

lemma spare_mmu:
  assumes "spare_frame m cr f" and "same_but f m m'" and "PDE_IDX v \<noteq> 1023"
  shows "mmu m' cr v = mmu m cr v"
proof (cases "present (load32 m (pde_addr cr v))")
  case True
  then have f: "page_frame (load32 m (pde_addr cr v)) \<noteq> f" "page_frame cr \<noteq> f"
    using assms(1,3) by (auto simp: spare_frame_def)
  show ?thesis by (rule mmu_cong(2)) (use f assms(2) in \<open>auto simp: same_but_def\<close>)
next
  case False
  then show ?thesis using spare_pde [OF assms(1,2)] by (simp add: mmu_def)
qed

lemma spare_spare:
  "spare_frame m cr f \<Longrightarrow> same_but f m m' \<Longrightarrow> spare_frame m' cr g = spare_frame m cr g"
  using spare_pde [of m cr f m'] by (auto simp: spare_frame_def)

lemma spare_self_map:
  assumes "spare_frame m cr f" and "same_but f m m'"
  shows "self_map m' cr = self_map m cr"
proof -
  have "PDE_IDX 0xffc00000 = 1023" by (simp add: PDE_IDX_def)
  then show ?thesis using spare_pde [OF assms, of "0xffc00000"] by (simp add: pde_addr_self self_map_def)
qed

lemma spare_space_ok:
  assumes "spare_frame m cr f" and "same_but f m m'"
  shows "space_ok m' cr = space_ok m cr"
  unfolding space_ok_def spare_self_map [OF assms] spare_pde [OF assms] ..

lemma page_at_same:
  assumes "page_at s v f" and "same_but f (phys s) (phys s')" and "cr3 s' = cr3 s"
  shows "page_at s' v f"
proof -
  have sp: "spare_frame (phys s) (cr3 s) f" and v: "page_frame v = v" "PDE_IDX v \<noteq> 1023"
    using assms(1) by (auto simp: page_at_def)
  have "mmu (phys s') (cr3 s) (v + of_nat i) = mmu (phys s) (cr3 s) (v + of_nat i)" if "i < 4096" for i
    by (rule spare_mmu [OF sp assms(2)]) (simp add: page_offset_fields [OF v(1) that] v(2))
  then show ?thesis using assms spare_spare [OF sp assms(2)] by (simp add: page_at_def)
qed

lemma page_at_frame: "page_at s v f \<Longrightarrow> page_frame f = f"
  by (simp add: page_at_def spare_frame_def)

lemma page_atD: "page_at s v f \<Longrightarrow> i < 4096 \<Longrightarrow> mmu (phys s) (cr3 s) (v + of_nat i) = Some (f + of_nat i)"
  by (simp add: page_at_def)

lemma same_but_upd: "page_frame a = f \<Longrightarrow> same_but f m (m(a := b))"
  by (auto simp: same_but_def)

lemma same_but_store:
  assumes "page_frame f = f" and "i + length bs \<le> 4096"
  shows "same_but f m (store_bytes m (f + of_nat i) bs)"
  unfolding same_but_def
proof (intro allI impI)
  fix a assume a: "page_frame a \<noteq> f"
  have "a \<notin> region (f + of_nat i) (length bs)"
  proof
    assume "a \<in> region (f + of_nat i) (length bs)"
    then obtain j where "a = f + of_nat (i + j)" "j < length bs" by (auto simp: region_def add.assoc)
    then show False using a page_frame_add(1) [of "i + j" f] assms by simp
  qed
  then show "store_bytes m (f + of_nat i) bs a = m a" by (rule store_bytes_outside)
qed

section \<open>Bytes\<close>

lemma vstore_bytes_page:
  assumes "page_at s v f" and "i + length bs \<le> 4096"
  shows "vstore_bytes (v + of_nat i) bs s = Inr (s\<lparr>phys := store_bytes (phys s) (f + of_nat i) bs\<rparr>)"
  using assms
proof (induction bs arbitrary: s i)
  case Nil
  then show ?case by simp
next
  case (Cons b bs)
  let ?s = "s\<lparr>phys := (phys s)(f + of_nat i := b)\<rparr>"
  have store: "vstore8 (v + of_nat i) b s = Inr ?s"
    using page_atD [OF Cons.prems(1), of i] Cons.prems(2) by (simp add: vstore8_def translate_def)
  have frame: "page_frame (f + of_nat i) = f"
    using page_frame_add(1) [of i f] page_at_frame [OF Cons.prems(1)] Cons.prems(2) by simp
  have "page_at ?s v f" using Cons.prems(1) by (rule page_at_same) (simp_all add: same_but_upd [OF frame])
  then have "vstore_bytes (v + of_nat (Suc i)) bs ?s =
      Inr (?s\<lparr>phys := store_bytes (phys ?s) (f + of_nat (Suc i)) bs\<rparr>)"
    using Cons.prems(2) by (intro Cons.IH) simp_all
  then show ?case using store by (simp add: ac_simps)
qed

lemma vmemset_bytes: "vmemset v ch k s = vstore_bytes v (replicate k ch) s"
  by (induction k arbitrary: v s) (simp_all add: rbind_def split: sum.splits)

text \<open>\<open>memcpy\<close> from memory whose translation and content the copy does not touch.\<close>

lemma vmemcpy_bytes:
  fixes s :: "'a paging_scheme"
  assumes "page_at s v f" and "i + k \<le> 4096"
    and "\<And>j (s' :: 'a paging_scheme). j < k \<Longrightarrow> same_but f (phys s) (phys s') \<Longrightarrow> cr3 s' = cr3 s \<Longrightarrow> vload8 s' (src + of_nat j) = Inr (g j)"
  shows "vmemcpy (v + of_nat i) src k s = vstore_bytes (v + of_nat i) (map g [0..<k]) s"
  using assms
proof (induction k arbitrary: s i src g)
  case 0
  then show ?case by simp
next
  case (Suc k)
  have load: "vload8 s src = Inr (g 0)" using Suc.prems(3) [of 0 s] by simp
  let ?s = "s\<lparr>phys := (phys s)(f + of_nat i := g 0)\<rparr>"
  have store: "vstore8 (v + of_nat i) (g 0) s = Inr ?s"
    using page_atD [OF Suc.prems(1), of i] Suc.prems(2) by (simp add: vstore8_def translate_def)
  have frame: "page_frame (f + of_nat i) = f"
    using page_frame_add(1) [of i f] page_at_frame [OF Suc.prems(1)] Suc.prems(2) by simp
  have at: "page_at ?s v f" using Suc.prems(1) by (rule page_at_same) (simp_all add: same_but_upd [OF frame])
  have "vmemcpy (v + of_nat (Suc i)) (src + 1) k ?s = vstore_bytes (v + of_nat (Suc i)) (map (\<lambda>j. g (Suc j)) [0..<k]) ?s"
  proof (rule Suc.IH [OF at])
    fix j and s' :: "'a paging_scheme"
    assume j: "j < k" and s': "same_but f (phys ?s) (phys s')" "cr3 s' = cr3 ?s"
    have "same_but f (phys s) (phys s')" using s'(1) by (rule same_but_trans [rotated]) (simp add: same_but_upd [OF frame])
    then show "vload8 s' (src + 1 + of_nat j) = Inr (g (Suc j))"
      using Suc.prems(3) [of "Suc j" s'] j s'(2) by (simp add: add.assoc)
  qed (use Suc.prems(2) in simp)
  moreover have "map g [0..<Suc k] = g 0 # map (\<lambda>j. g (Suc j)) [0..<k]"
    by (simp only: upt_conv_Cons map_Suc_upt [symmetric] map_map comp_def list.map zero_less_Suc)
  ultimately show ?case using load store by (simp add: ac_simps del: upt_Suc)
qed

section \<open>Words\<close>

lemma aligned_same_frame: "(x :: nat) mod 4 = 0 \<Longrightarrow> j < 4 \<Longrightarrow> (x + j) div 4096 = x div 4096"
proof -
  assume x: "x mod 4 = 0" and j: "j < 4"
  have split: "y div 4096 = y div 4 div 1024" for y :: nat using div_mult2_eq [of y 4 1024] by simp
  have "(x + j) div 4 = x div 4" using x j by presburger
  then show ?thesis unfolding split by simp
qed

lemma load32_same: "page_frame a = g \<Longrightarrow> g \<noteq> f \<Longrightarrow> same_but f m m' \<Longrightarrow> aligned4 a \<Longrightarrow> load32 m' a = load32 m a"
proof (rule load32_frame_cong)
  fix j :: nat assume a: "page_frame a = g" "aligned4 a" and j: "j < 4"
  have "unat (a + of_nat j) = unat a + j" using aligned4_offset [OF a(2) j] .
  moreover have "(unat a + j) div 4096 = unat a div 4096"
  proof -
    have "unat a mod 4 = 0" using a(2) by (simp add: aligned4_def)
    then show ?thesis using j by (rule aligned_same_frame)
  qed
  ultimately have "page_frame (a + of_nat j) = page_frame a"
    by (simp add: word_unat_eq_iff page_frame_def unat_frame)
  then show "page_frame (a + of_nat j) = g" using a(1) by simp
qed (auto simp: same_but_def)

lemma page_in_frame: "page_at s v f \<Longrightarrow> i < 4096 \<Longrightarrow> page_frame (f + of_nat i) = f"
  using page_frame_add(1) [of i f] page_at_frame [of s v f] by simp

lemma vstore32_page:
  "page_at s v f \<Longrightarrow> i < 4096 \<Longrightarrow> vstore32 (v + of_nat i) w s = Inr (s\<lparr>phys := store32 (phys s) (f + of_nat i) w\<rparr>)"
  using page_atD [of s v f i] by (simp add: vstore32_def translate_def)

section \<open>A machine with the first page mapped to itself\<close>

definition low_phys :: mem where
  "low_phys = (let m1 = with_table sample_phys 0x100000 0 0x101000
     in store32 m1 (pte_addr m1 0x100000 0) (0 OR 7))"

lemma low_table:
  defines "m1 \<equiv> with_table sample_phys 0x100000 0 0x101000"
  shows "space_ok m1 0x100000" "PDE_IDX 0 \<noteq> 1023" "present (load32 m1 (pde_addr 0x100000 0))"
    "maps_only 0x100000 0 0 sample_phys low_phys"
    "load32 m1 (pde_addr 0x100000 w) = (if PDE_IDX w = 0 then 0x101007 else load32 sample_phys (pde_addr 0x100000 w))"
proof -
  have idx: "PDE_IDX 0 = 0" by (simp add: PDE_IDX_def)
  then show v: "PDE_IDX 0 \<noteq> 1023" by simp
  have f: "spare_frame sample_phys 0x100000 0x101000" by (rule sample_spare) (simp_all add: page_frame_def)
  have absent: "\<not> present (load32 sample_phys (pde_addr 0x100000 0))" by (simp add: sample_pde idx)
  note T = maps_only_new_table [OF sample_space_ok v absent f, folded m1_def]
  show "space_ok m1 0x100000" "present (load32 m1 (pde_addr 0x100000 0))" by (fact T(1), fact T(2))
  show "maps_only 0x100000 0 0 sample_phys low_phys"
    using T(4) [of 0] unfolding low_phys_def Let_def m1_def .
  show "load32 m1 (pde_addr 0x100000 w) = (if PDE_IDX w = 0 then 0x101007 else load32 sample_phys (pde_addr 0x100000 w))"
    unfolding m1_def by (subst with_table_pde) (simp_all add: page_frame_def idx)
qed

lemma low_pde: "load32 low_phys (pde_addr 0x100000 w) =
  (if PDE_IDX w = 0 then 0x101007 else if PDE_IDX w = 1023 then 0x100007 else 0)"
proof -
  have "load32 low_phys (pde_addr 0x100000 w) =
      load32 (with_table sample_phys 0x100000 0 0x101000) (pde_addr 0x100000 w)"
    unfolding low_phys_def Let_def by (rule store_pte(1) [OF low_table(1-3)])
  then show ?thesis by (simp add: low_table(5) sample_pde)
qed

lemma low_spare: "page_frame f = f \<Longrightarrow> f \<noteq> 0x100000 \<Longrightarrow> f \<noteq> 0x101000 \<Longrightarrow> spare_frame low_phys 0x100000 f"
  by (simp add: spare_frame_def low_pde page_frame_def present_def)

lemma low_page:
  assumes "cr3 s = 0x100000" and "same_but 0 low_phys (phys s)"
  shows "page_at s 0 0"
proof -
  have spare: "spare_frame low_phys 0x100000 0" by (rule low_spare) (simp_all add: page_frame_def)
  have "mmu low_phys 0x100000 (of_nat i) = Some (of_nat i)" if "i < 4096" for i
    using low_table(4) page_offset_fields(2) [of 0 i] page_frame_add(2) [of i 0] that
    by (simp add: maps_only_def page_frame_def)
  moreover have "mmu (phys s) 0x100000 (of_nat i) = mmu low_phys 0x100000 (of_nat i)" if "i < 4096" for i
    using page_offset_fields(1) [of 0 i] that low_table(2)
    by (intro spare_mmu [OF spare assms(2)]) (simp add: page_frame_def)
  ultimately show ?thesis
    using spare_spare [OF spare assms(2)] spare low_table(2) assms(1) by (simp add: page_at_def page_frame_def)
qed

lemma store32_same_but: "page_frame a = f \<Longrightarrow> aligned4 a \<Longrightarrow> same_but f m (store32 m a w)"
proof -
  assume a: "page_frame a = f" "aligned4 a"
  have "page_frame (a + of_nat j) = f" if "j < 4" for j
  proof -
    have "unat (a + of_nat j) = unat a + j" using aligned4_offset [OF a(2) that] .
    moreover have "unat a mod 4 = 0" using a(2) by (simp add: aligned4_def)
    ultimately have "page_frame (a + of_nat j) = page_frame a"
      using aligned_same_frame [OF _ that] by (simp add: word_unat_eq_iff page_frame_def unat_frame)
    then show ?thesis using a(1) by simp
  qed
  then show ?thesis unfolding same_but_def using store32_other_frame [of a f] by blast
qed

end
