(* ===== verification/Tss.thy ===== *)
theory Tss
  imports Timer PageIO
begin

text \<open>
  \<open>src/kernel/tss.c\<close>: the task state segment, the descriptors that \<open>tss_init\<close> adds to the table
  the loader made, and the two registers it loads. The field \<open>esp0\<close>, which changes at every
  switch to a process, is \<open>tss_esp0\<close> of the theory \<open>Thread\<close>; the others are the record \<open>tss\<close>.
\<close>

section \<open>Data\<close>

record tss =
  backlink :: u32
  ss0 :: u32
  esp1 :: u32
  ss1 :: u32
  esp2 :: u32
  ss2 :: u32
  t_cr3 :: u32
  t_eip :: u32
  t_eflags :: u32
  t_eax :: u32
  t_ecx :: u32
  t_edx :: u32
  t_ebx :: u32
  t_esp :: u32
  t_ebp :: u32
  t_esi :: u32
  t_edi :: u32
  t_es :: u32
  t_cs :: u32
  t_ss :: u32
  t_ds :: u32
  t_fs :: u32
  t_gs :: u32
  ldt :: u32
  trace :: u32
  io_base :: u32

record gdt_desc =
  limit_low_word :: u16
  base_low_word :: u16
  base_mid_byte :: u8
  attr_low_byte :: u8
  limit_high_attr_high :: u8
  base_high_byte :: u8

text \<open>\<open>tss_addr\<close> is where the linker put the segment.\<close>

record segments = interrupts +
  the_tss :: tss
  tss_addr :: u32
  gdtr_limit :: u16
  gdtr_base :: u32
  task_register :: u16

section \<open>The code\<close>

definition make_gdt_desc :: "u32 \<Rightarrow> u32 \<Rightarrow> u8 \<Rightarrow> u8 \<Rightarrow> gdt_desc" where
  "make_gdt_desc desc_addr limit attr_low attr_high =
     \<lparr>limit_low_word = ucast (limit AND 0x0000ffff),
      base_low_word = ucast (desc_addr AND 0x0000ffff),
      base_mid_byte = ucast (drop_bit 16 (desc_addr AND 0x00ff0000)),
      attr_low_byte = attr_low,
      limit_high_attr_high = ucast (drop_bit 16 (limit AND 0x000f0000) + ucast attr_high),
      base_high_byte = ucast (drop_bit 24 desc_addr)\<rparr>"

text \<open>The eight bytes of a descriptor, and the assignment of one through a pointer.\<close>

definition desc_bytes :: "gdt_desc \<Rightarrow> u8 list" where
  "desc_bytes d = [ucast (limit_low_word d), ucast (drop_bit 8 (limit_low_word d)),
     ucast (base_low_word d), ucast (drop_bit 8 (base_low_word d)), base_mid_byte d, attr_low_byte d,
     limit_high_attr_high d, base_high_byte d]"

definition tss_size :: u32 where
  "tss_size = 27 * 4"

definition zero_tss :: tss where
  "zero_tss = \<lparr>backlink = 0, ss0 = 0, esp1 = 0, ss1 = 0, esp2 = 0, ss2 = 0, t_cr3 = 0, t_eip = 0,
     t_eflags = 0, t_eax = 0, t_ecx = 0, t_edx = 0, t_ebx = 0, t_esp = 0, t_ebp = 0, t_esi = 0,
     t_edi = 0, t_es = 0, t_cs = 0, t_ss = 0, t_ds = 0, t_fs = 0, t_gs = 0, ldt = 0, trace = 0,
     io_base = 0\<rparr>"

definition lgdt :: "u64 \<Rightarrow> 'a segments_scheme \<Rightarrow> 'a segments_scheme" where
  "lgdt operand s = s\<lparr>gdtr_limit := ucast operand, gdtr_base := ucast (drop_bit 16 operand)\<rparr>"

definition tss_init :: "'a segments_scheme \<Rightarrow> 'a segments_scheme outcome" where
  "tss_init s =
     (let s1 = s\<lparr>the_tss := zero_tss\<lparr>ss0 := push_bit 3 2, io_base := tss_size\<rparr>, tss_esp0 := 0\<rparr>
      in rbind (vload32 s1 0xd04) (\<lambda>gdt_base.
         rbind (vstore_bytes (gdt_base + 0x20)
                  (desc_bytes (make_gdt_desc (tss_addr s1) (tss_size - 1) 0x89 0x80)) s1) (\<lambda>s2.
         rbind (vstore_bytes (gdt_base + 0x28) (desc_bytes (make_gdt_desc 0 0xfffff 0xf8 0xc0)) s2) (\<lambda>s3.
         rbind (vstore_bytes (gdt_base + 0x30) (desc_bytes (make_gdt_desc 0 0xfffff 0xf2 0xc0)) s3) (\<lambda>s4.
           let gdt_operand = (8 * 7 - 1) OR push_bit 16 (ucast gdt_base)
           in Inr (kprintf ''tss_init is done.\<newline>'' []
                (lgdt gdt_operand s4\<lparr>task_register := push_bit 3 4\<rparr>)))))))"

section \<open>Descriptors\<close>

text \<open>The fields of a segment descriptor as the processor reads them.\<close>

definition desc_base :: "gdt_desc \<Rightarrow> u32" where
  "desc_base d = push_bit 24 (ucast (base_high_byte d)) OR push_bit 16 (ucast (base_mid_byte d))
     OR ucast (base_low_word d)"

definition desc_limit :: "gdt_desc \<Rightarrow> u32" where
  "desc_limit d = push_bit 16 (ucast (limit_high_attr_high d AND 0x0f)) OR ucast (limit_low_word d)"

definition desc_privilege :: "gdt_desc \<Rightarrow> nat" where
  "desc_privilege d = unat (drop_bit 5 (attr_low_byte d) AND 3)"

lemma desc_base_make [simp]: "desc_base (make_gdt_desc a limit al ah) = a"
proof (rule bit_word_eqI)
  fix n :: nat assume n: "n < LENGTH(32)"
  have lits: "(0x0000ffff :: u32) = mask 16" "(0x00ff0000 :: u32) = push_bit 16 (mask 8)"
    by (simp_all add: mask_eq_exp_minus_1)
  consider "n < 16" | "16 \<le> n" "n < 24" | "24 \<le> n" by linarith
  then show "bit (desc_base (make_gdt_desc a limit al ah)) n = bit a n"
    unfolding desc_base_def make_gdt_desc_def lits
    using n by cases (auto simp: bit_simps)
qed

lemma length_desc_bytes [simp]: "length (desc_bytes d) = 8"
  by (simp add: desc_bytes_def)

lemma tss_desc_fields:
  "desc_limit (make_gdt_desc a (tss_size - 1) 0x89 0x80) = tss_size - 1"
  "desc_privilege (make_gdt_desc a (tss_size - 1) 0x89 0x80) = 0"
  "desc_limit (make_gdt_desc 0 0xfffff 0xf8 0xc0) = 0xfffff" "desc_privilege (make_gdt_desc 0 0xfffff 0xf8 0xc0) = 3"
  "desc_limit (make_gdt_desc 0 0xfffff 0xf2 0xc0) = 0xfffff" "desc_privilege (make_gdt_desc 0 0xfffff 0xf2 0xc0) = 3"
  by (simp_all add: desc_limit_def make_gdt_desc_def tss_size_def desc_privilege_def)

lemma three_stores:
  assumes "length a = 8" "length b = 8" "length c = 8"
  shows "bytes_at (store_bytes m p (a @ b @ c)) p 8 = a"
    and "bytes_at (store_bytes m p (a @ b @ c)) (p + 8) 8 = b"
    and "bytes_at (store_bytes m p (a @ b @ c)) (p + 16) 8 = c"
proof -
  have nth: "store_bytes m p (a @ b @ c) (p + of_nat i) = (a @ b @ c) ! i" if "i < 24" for i
    using that assms by (intro store_bytes_inside) simp_all
  show "bytes_at (store_bytes m p (a @ b @ c)) p 8 = a"
    by (rule nth_equalityI) (simp_all add: bytes_at_def nth nth_append assms)
  have "store_bytes m p (a @ b @ c) (p + 8 + of_nat i) = b ! i" if "i < 8" for i
    using nth [of "8 + i"] that by (simp add: nth_append assms add.assoc)
  then show "bytes_at (store_bytes m p (a @ b @ c)) (p + 8) 8 = b"
    by (intro nth_equalityI) (simp_all add: bytes_at_def assms)
  have "store_bytes m p (a @ b @ c) (p + 16 + of_nat i) = c ! i" if "i < 8" for i
    using nth [of "16 + i"] that by (simp add: nth_append assms add.assoc)
  then show "bytes_at (store_bytes m p (a @ b @ c)) (p + 16) 8 = c"
    by (intro nth_equalityI) (simp_all add: bytes_at_def assms)
qed

lemma lgdt_fields:
  "gdtr_limit (lgdt ((8 * 7 - 1) OR push_bit 16 (ucast (b :: u32))) s) = 55"
  "gdtr_base (lgdt ((8 * 7 - 1) OR push_bit 16 (ucast b)) s) = b"
proof -
  have hi: "\<not> bit (55 :: u64) (16 + n)" for n
  proof -
    have "(55 :: u64) = 55 AND mask 16" by (simp add: mask_eq_exp_minus_1)
    then have "bit (55 :: u64) (16 + n) = bit ((55 :: u64) AND mask 16) (16 + n)" by (simp only:)
    then show ?thesis by (simp add: bit_simps)
  qed
  have low: "ucast (55 :: u64) = (55 :: u16)" by simp
  show "gdtr_limit (lgdt ((8 * 7 - 1) OR push_bit 16 (ucast b)) s) = 55"
  proof (rule bit_word_eqI)
    fix n :: nat assume n: "n < LENGTH(16)"
    have "bit (ucast (55 :: u64) :: u16) n = bit (55 :: u64) n" using n by (simp add: bit_simps)
    then show "bit (gdtr_limit (lgdt ((8 * 7 - 1) OR push_bit 16 (ucast b)) s)) n = bit (55 :: u16) n"
      using n unfolding low by (simp add: lgdt_def bit_simps)
  qed
  show "gdtr_base (lgdt ((8 * 7 - 1) OR push_bit 16 (ucast b)) s) = b"
    by (rule bit_word_eqI) (simp add: lgdt_def bit_simps hi)
qed

text \<open>The descriptors of \<open>tss_init\<close>, and the whole call.\<close>

definition tss_desc :: "'a segments_scheme \<Rightarrow> gdt_desc" where
  "tss_desc s = make_gdt_desc (tss_addr s) (tss_size - 1) 0x89 0x80"

definition user_code_desc :: gdt_desc where
  "user_code_desc = make_gdt_desc 0 0xfffff 0xf8 0xc0"

definition user_data_desc :: gdt_desc where
  "user_data_desc = make_gdt_desc 0 0xfffff 0xf2 0xc0"

definition with_tss :: "u32 \<Rightarrow> mem \<Rightarrow> 'a segments_scheme \<Rightarrow> 'a segments_scheme" where
  "with_tss g m s = s\<lparr>the_tss := zero_tss\<lparr>ss0 := 16, io_base := tss_size\<rparr>, tss_esp0 := 0, phys := m,
     gdtr_limit := 55, gdtr_base := g, task_register := 32\<rparr>"

lemma lgdt_eq:
  "lgdt ((8 * 7 - 1) OR push_bit 16 (ucast (b :: u32))) s = s\<lparr>gdtr_limit := 55, gdtr_base := b\<rparr>"
  using lgdt_fields [of b s] by (simp add: lgdt_def)

lemma tss_init_run:
  assumes "vload32 s 0xd04 = Inr (v + of_nat i)" and "page_at s v f" and "i + 0x38 \<le> 4096"
  shows "tss_init s = Inr (kprintf ''tss_init is done.\<newline>'' [] (with_tss (v + of_nat i)
    (store_bytes (phys s) (f + of_nat (i + 0x20)) (desc_bytes (tss_desc s) @ desc_bytes user_code_desc @ desc_bytes user_data_desc)) s))"
proof -
  let ?d4 = "tss_desc s"
  define s1 where "s1 = s\<lparr>the_tss := zero_tss\<lparr>ss0 := push_bit 3 2, io_base := tss_size\<rparr>, tss_esp0 := 0\<rparr>"
  have at1: "page_at s1 v f" using assms(2) by (rule page_at_same) (simp_all add: s1_def)
  have load: "vload32 s1 0xd04 = Inr (v + of_nat i)" using assms(1) by (simp add: vload32_def translate_def s1_def)
  have frame: "page_frame f = f" using assms(2) by (rule page_at_frame)
  define s2 where "s2 = s1\<lparr>phys := store_bytes (phys s1) (f + of_nat (i + 0x20)) (desc_bytes ?d4)\<rparr>"
  define s3 where "s3 = s2\<lparr>phys := store_bytes (phys s2) (f + of_nat (i + 0x28)) (desc_bytes user_code_desc)\<rparr>"
  define s4 where "s4 = s3\<lparr>phys := store_bytes (phys s3) (f + of_nat (i + 0x30)) (desc_bytes user_data_desc)\<rparr>"
  have at2: "page_at s2 v f" using at1
    by (rule page_at_same) (use assms(3) in \<open>simp_all add: s2_def same_but_store frame del: of_nat_add\<close>)
  have at3: "page_at s3 v f" using at2
    by (rule page_at_same) (use assms(3) in \<open>simp_all add: s3_def same_but_store frame del: of_nat_add\<close>)
  have st: "vstore_bytes (v + of_nat i + 0x20) (desc_bytes ?d4) s1 = Inr s2"
    "vstore_bytes (v + of_nat i + 0x28) (desc_bytes user_code_desc) s2 = Inr s3"
    "vstore_bytes (v + of_nat i + 0x30) (desc_bytes user_data_desc) s3 = Inr s4"
    using vstore_bytes_page [OF at1, of "i + 0x20" "desc_bytes ?d4"] vstore_bytes_page [OF at2, of "i + 0x28" "desc_bytes user_code_desc"]
      vstore_bytes_page [OF at3, of "i + 0x30" "desc_bytes user_data_desc"] assms(3)
    by (simp_all add: s2_def s3_def s4_def add.assoc)
  have d4: "make_gdt_desc (tss_addr s1) (tss_size - 1) 0x89 0x80 = ?d4" by (simp add: tss_desc_def s1_def)
  have "s4 = s\<lparr>the_tss := zero_tss\<lparr>ss0 := 16, io_base := tss_size\<rparr>, tss_esp0 := 0,
      phys := store_bytes (phys s) (f + of_nat (i + 0x20)) (desc_bytes ?d4 @ desc_bytes user_code_desc @ desc_bytes user_data_desc)\<rparr>"
    by (simp add: s4_def s3_def s2_def s1_def store_bytes_append add.assoc)
  then show ?thesis
    unfolding tss_init_def Let_def s1_def [symmetric] load rbind_simps d4 st
      user_code_desc_def [symmetric] user_data_desc_def [symmetric] lgdt_eq
    by (simp add: with_tss_def)
qed

section \<open>Properties\<close>


definition sample_segments :: segments where
  "sample_segments = interrupts.extend
     (sample_interrupts\<lparr>phys := store32 low_phys 0xd04 0xd40, cr3 := 0x100000\<rparr>)
     \<lparr>the_tss = zero_tss, tss_addr = 0xc0009000, gdtr_limit = 0, gdtr_base = 0, task_register = 0\<rparr>"

lemma sample_segments_page:
  "page_at sample_segments 0 0" "vload32 sample_segments 0xd04 = Inr 0xd40"
proof -
  have fields: "cr3 sample_segments = 0x100000" "phys sample_segments = store32 low_phys 0xd04 0xd40"
    by (simp_all add: sample_segments_def interrupts.defs)
  show at: "page_at sample_segments 0 0"
    by (rule low_page) (simp_all add: fields store32_same_but page_frame_def aligned4_def)
  have "mmu (phys sample_segments) (cr3 sample_segments) 0xd04 = Some 0xd04"
    using page_atD [OF at, of "0xd04"] by simp
  then show "vload32 sample_segments 0xd04 = Inr 0xd40"
    by (simp add: vload32_def translate_def fields load32_store32_same)
qed


end
