(* ===== verification/Ioqueue.thy ===== *)
theory Ioqueue
  imports Tss
begin

text \<open>
  \<open>src/kernel/ioqueue.c\<close>: a ring buffer of 64 bytes between one producer and one consumer. The
  bytes and the two positions are data (\<open>ioqueue\<close>, one per address); the lock at the start of the
  structure is a lock of the theory \<open>Sync\<close>, at the address of the queue. A call that waits is
  taken off the processor: its result is \<open>Waiting\<close> with the interrupt status that
  \<open>thread_block\<close> keeps, and the \<open>resume\<close> function is the rest of the call, which the thread
  executes when it has the processor again. The locale \<open>bounded_fifo\<close> is what the users of the
  buffer rely on.
\<close>

section \<open>Data\<close>

definition bufsize :: u32 where
  "bufsize = 64"

record ioqueue =
  producer :: u32
  consumer :: u32
  buf :: "u8 list"
  head :: u32
  tail :: u32

record io = segments +
  ioqs :: "u32 \<Rightarrow> ioqueue"

datatype 'r call = Done 'r | Waiting intr_status

datatype slot = Producer | Consumer

definition upd_ioq :: "u32 \<Rightarrow> (ioqueue \<Rightarrow> ioqueue) \<Rightarrow> 'a io_scheme \<Rightarrow> 'a io_scheme" where
  "upd_ioq q f s = s\<lparr>ioqs := (ioqs s)(q := f (ioqs s q))\<rparr>"

fun waiter :: "slot \<Rightarrow> ioqueue \<Rightarrow> u32" where
  "waiter Producer r = producer r"
| "waiter Consumer r = consumer r"

fun set_waiter :: "slot \<Rightarrow> u32 \<Rightarrow> ioqueue \<Rightarrow> ioqueue" where
  "set_waiter Producer t r = r\<lparr>producer := t\<rparr>"
| "set_waiter Consumer t r = r\<lparr>consumer := t\<rparr>"

section \<open>The code\<close>

definition ioq_init :: "u32 \<Rightarrow> 'a io_scheme \<Rightarrow> 'a io_scheme" where
  "ioq_init ioq s =
     upd_ioq ioq (\<lambda>r. r\<lparr>producer := NULL, consumer := NULL, head := 0, tail := 0\<rparr>) (lock_init ioq s)"

definition next_pos :: "u32 \<Rightarrow> u32" where
  "next_pos pos = (pos + 1) mod bufsize"

definition ring_full :: "ioqueue \<Rightarrow> bool" where
  "ring_full r \<longleftrightarrow> next_pos (head r) = tail r"

definition ring_empty :: "ioqueue \<Rightarrow> bool" where
  "ring_empty r \<longleftrightarrow> head r = tail r"

definition ring_put :: "u8 \<Rightarrow> ioqueue \<Rightarrow> ioqueue" where
  "ring_put byte r = r\<lparr>buf := (buf r)[unat (head r) := byte], head := next_pos (head r)\<rparr>"

definition ring_get :: "ioqueue \<Rightarrow> u8 \<times> ioqueue" where
  "ring_get r = (buf r ! unat (tail r), r\<lparr>tail := next_pos (tail r)\<rparr>)"

definition assert_intr_off :: "string \<Rightarrow> 'a cpu_scheme \<Rightarrow> unit outcome" where
  "assert_intr_off fn s = c_assert fn ''intr_get_status() == INTR_OFF'' (intr_get_status s = INTR_OFF)"

definition ioq_full :: "u32 \<Rightarrow> 'a io_scheme \<Rightarrow> bool outcome" where
  "ioq_full ioq s = rbind (assert_intr_off ''ioq_full'' s) (\<lambda>_. Inr (ring_full (ioqs s ioq)))"

definition ioq_empty :: "u32 \<Rightarrow> 'a io_scheme \<Rightarrow> bool outcome" where
  "ioq_empty ioq s = rbind (assert_intr_off ''ioq_empty'' s) (\<lambda>_. Inr (ring_empty (ioqs s ioq)))"

definition ioq_wait :: "slot \<Rightarrow> u32 \<Rightarrow> 'a io_scheme \<Rightarrow> (intr_status \<times> 'a io_scheme) outcome" where
  "ioq_wait w ioq s =
     rbind (c_assert ''ioq_wait'' ''*waiter == NULL && waiter != NULL'' (waiter w (ioqs s ioq) = NULL))
       (\<lambda>_. thread_block TASK_BLOCKED (upd_ioq ioq (set_waiter w (running_thread s)) s))"

definition wakeup :: "slot \<Rightarrow> u32 \<Rightarrow> 'a io_scheme \<Rightarrow> 'a io_scheme outcome" where
  "wakeup w ioq s =
     rbind (c_assert ''wakeup'' ''*waiter != NULL'' (waiter w (ioqs s ioq) \<noteq> NULL))
       (\<lambda>_. rbind (thread_unblock (waiter w (ioqs s ioq)) s) (\<lambda>s1. Inr (upd_ioq ioq (set_waiter w NULL) s1)))"

text \<open>The end of \<open>ioq_getchar\<close> and of \<open>ioq_putchar\<close>. An index past the buffer is undefined.\<close>

definition ioq_take :: "u32 \<Rightarrow> 'a io_scheme \<Rightarrow> (u8 \<times> 'a io_scheme) outcome" where
  "ioq_take ioq s =
     (if unat (tail (ioqs s ioq)) < length (buf (ioqs s ioq))
      then let (byte, r) = ring_get (ioqs s ioq); s1 = upd_ioq ioq (\<lambda>_. r) s
        in rbind (if producer (ioqs s1 ioq) \<noteq> NULL then wakeup Producer ioq s1 else Inr s1) (\<lambda>s2. Inr (byte, s2))
      else Inl (Undefined ''ioq_getchar''))"

definition ioq_store :: "u32 \<Rightarrow> u8 \<Rightarrow> 'a io_scheme \<Rightarrow> 'a io_scheme outcome" where
  "ioq_store ioq byte s =
     (if unat (head (ioqs s ioq)) < length (buf (ioqs s ioq))
      then let s1 = upd_ioq ioq (ring_put byte) s
        in if consumer (ioqs s1 ioq) \<noteq> NULL then wakeup Consumer ioq s1 else Inr s1
      else Inl (Undefined ''ioq_putchar''))"

text \<open>One test of the loop: it goes on to the wait, or ends.\<close>

definition ioq_getchar_loop :: "u32 \<Rightarrow> 'a io_scheme \<Rightarrow> (u8 call \<times> 'a io_scheme) outcome" where
  "ioq_getchar_loop ioq s =
     rbind (ioq_empty ioq s) (\<lambda>e.
       if e
       then rbind (call_lock ''lock_acquire'' (lock_acquire ioq) s) (\<lambda>s1.
              rbind (ioq_wait Consumer ioq s1) (\<lambda>(old, s2). Inr (Waiting old, s2)))
       else rbind (ioq_take ioq s) (\<lambda>(byte, s1). Inr (Done byte, s1)))"

definition ioq_getchar :: "u32 \<Rightarrow> 'a io_scheme \<Rightarrow> (u8 call \<times> 'a io_scheme) outcome" where
  "ioq_getchar ioq s = rbind (assert_intr_off ''ioq_getchar'' s) (\<lambda>_. ioq_getchar_loop ioq s)"

definition ioq_getchar_resume :: "u32 \<Rightarrow> intr_status \<Rightarrow> 'a io_scheme \<Rightarrow> (u8 call \<times> 'a io_scheme) outcome" where
  "ioq_getchar_resume ioq old s =
     rbind (call_lock ''lock_release'' (lock_release ioq) (thread_block_resume old s)) (ioq_getchar_loop ioq)"

definition ioq_putchar_loop :: "u32 \<Rightarrow> u8 \<Rightarrow> 'a io_scheme \<Rightarrow> (unit call \<times> 'a io_scheme) outcome" where
  "ioq_putchar_loop ioq byte s =
     rbind (ioq_full ioq s) (\<lambda>e.
       if e
       then rbind (call_lock ''lock_acquire'' (lock_acquire ioq) s) (\<lambda>s1.
              rbind (ioq_wait Producer ioq s1) (\<lambda>(old, s2). Inr (Waiting old, s2)))
       else rbind (ioq_store ioq byte s) (\<lambda>s1. Inr (Done (), s1)))"

definition ioq_putchar :: "u32 \<Rightarrow> u8 \<Rightarrow> 'a io_scheme \<Rightarrow> (unit call \<times> 'a io_scheme) outcome" where
  "ioq_putchar ioq byte s = rbind (assert_intr_off ''ioq_putchar'' s) (\<lambda>_. ioq_putchar_loop ioq byte s)"

definition ioq_putchar_resume :: "u32 \<Rightarrow> u8 \<Rightarrow> intr_status \<Rightarrow> 'a io_scheme \<Rightarrow> (unit call \<times> 'a io_scheme) outcome" where
  "ioq_putchar_resume ioq byte old s =
     rbind (call_lock ''lock_release'' (lock_release ioq) (thread_block_resume old s)) (ioq_putchar_loop ioq byte)"

section \<open>A bounded first-in first-out buffer\<close>

locale bounded_fifo =
  fixes put :: "'b \<Rightarrow> 'q \<Rightarrow> 'q"
    and get :: "'q \<Rightarrow> 'b \<times> 'q"
    and is_full :: "'q \<Rightarrow> bool"
    and is_empty :: "'q \<Rightarrow> bool"
    and items :: "'q \<Rightarrow> 'b list"
    and ok :: "'q \<Rightarrow> bool"
    and capacity :: nat
  assumes put_ok: "ok q \<Longrightarrow> \<not> is_full q \<Longrightarrow> ok (put b q)"
    and put_items: "ok q \<Longrightarrow> \<not> is_full q \<Longrightarrow> items (put b q) = items q @ [b]"
    and get_ok: "ok q \<Longrightarrow> \<not> is_empty q \<Longrightarrow> ok (snd (get q))"
    and get_items: "ok q \<Longrightarrow> \<not> is_empty q \<Longrightarrow> items q = fst (get q) # items (snd (get q))"
    and full_iff: "ok q \<Longrightarrow> is_full q \<longleftrightarrow> length (items q) = capacity"
    and empty_iff: "ok q \<Longrightarrow> is_empty q \<longleftrightarrow> items q = []"
    and bound: "ok q \<Longrightarrow> length (items q) \<le> capacity"
begin

text \<open>A producer that drops what does not fit keeps the first items.\<close>

lemma offer_all:
  "ok q \<Longrightarrow> ok (fold (\<lambda>b q. if is_full q then q else put b q) bs q) \<and>
   items (fold (\<lambda>b q. if is_full q then q else put b q) bs q) = take capacity (items q @ bs)"
proof (induction bs arbitrary: q)
  case Nil
  then show ?case using bound by simp
next
  case (Cons b bs)
  show ?case
  proof (cases "is_full q")
    case True
    then have "length (items q) = capacity" using full_iff Cons.prems by simp
    then show ?thesis using Cons True by simp
  next
    case False
    then show ?thesis
      using Cons.IH [OF put_ok [OF Cons.prems False]] put_items [OF Cons.prems False] by simp
  qed
qed

lemma put_all:
  assumes "ok q" and "length (items q) + length bs \<le> capacity"
  shows "items (fold (\<lambda>b q. if is_full q then q else put b q) bs q) = items q @ bs"
  using offer_all [OF assms(1), of bs] assms(2) by simp

text \<open>The consumer gets the items in the order in which they were put.\<close>

lemma put_get:
  assumes "ok q" and "\<not> is_full q"
  shows "fst (get (put b q)) = hd (items q @ [b])" and "items (snd (get (put b q))) = tl (items q @ [b])"
proof -
  have ok: "ok (put b q)" and its: "items (put b q) = items q @ [b]"
    using put_ok [OF assms] put_items [OF assms] by auto
  have "\<not> is_empty (put b q)" using empty_iff [OF ok] its by simp
  from get_items [OF ok this] show "fst (get (put b q)) = hd (items q @ [b])"
    "items (snd (get (put b q))) = tl (items q @ [b])" by (simp_all add: its)
qed

end

section \<open>The ring is such a buffer\<close>

definition ring_ok :: "ioqueue \<Rightarrow> bool" where
  "ring_ok r \<longleftrightarrow> length (buf r) = 64 \<and> unat (head r) < 64 \<and> unat (tail r) < 64"

definition ring_count :: "ioqueue \<Rightarrow> nat" where
  "ring_count r = (unat (head r) + 64 - unat (tail r)) mod 64"

definition ring_items :: "ioqueue \<Rightarrow> u8 list" where
  "ring_items r = map (\<lambda>i. buf r ! ((unat (tail r) + i) mod 64)) [0..<ring_count r]"

lemma unat_next_pos: "unat p < 64 \<Longrightarrow> unat (next_pos p) = (unat p + 1) mod 64"
  by (simp add: next_pos_def bufsize_def unat_mod32 unat_inc32)

text \<open>Positions as natural numbers: the number of bytes between tail \<open>t\<close> and head \<open>h\<close>.\<close>

definition ring_dist :: "nat \<Rightarrow> nat \<Rightarrow> nat" where
  "ring_dist h t = (if t \<le> h then h - t else h + 64 - t)"

definition ring_inc :: "nat \<Rightarrow> nat" where
  "ring_inc p = (if p = 63 then 0 else p + 1)"

lemma ring_dist_mod: "t < 64 \<Longrightarrow> h < 64 \<Longrightarrow> (h + 64 - t) mod 64 = ring_dist h t"
  by (cases "t \<le> h") (simp_all add: ring_dist_def le_mod_geq)

lemma ring_arith:
  assumes "t < 64" "h < (64 :: nat)"
  shows "(ring_inc h = t) = (ring_dist h t = 63)"
    and "(h = t) = (ring_dist h t = 0)"
    and "ring_dist h t \<noteq> 63 \<Longrightarrow> ring_dist (ring_inc h) t = Suc (ring_dist h t)"
    and "ring_dist h t \<noteq> 0 \<Longrightarrow> ring_dist h t = Suc (ring_dist h (ring_inc t))"
  using assms by (auto simp: ring_dist_def ring_inc_def)

lemma ring_index_head: "t < 64 \<Longrightarrow> h < 64 \<Longrightarrow> (t + ring_dist h t) mod 64 = h"
  by (auto simp: ring_dist_def)

lemma ring_index_not_head:
  assumes "t < 64" "h < 64" "i < ring_dist h t"
  shows "(t + i) mod 64 \<noteq> h"
proof -
  have "(t + i) mod 64 = (if t + i < 64 then t + i else t + i - 64)" using assms
    by (cases "t + i < 64") (simp_all add: ring_dist_def le_mod_geq split: if_splits)
  then show ?thesis using assms by (auto simp: ring_dist_def split: if_splits)
qed

lemma ring_okD: "ring_ok r \<Longrightarrow> length (buf r) = 64 \<and> unat (head r) < 64 \<and> unat (tail r) < 64"
  by (simp add: ring_ok_def)

lemma ring_count_dist: "ring_ok r \<Longrightarrow> ring_count r = ring_dist (unat (head r)) (unat (tail r))"
  using ring_okD [of r] by (simp add: ring_count_def ring_dist_mod)

lemma ring_count_less: "ring_count r < 64"
  by (simp add: ring_count_def)

lemma length_ring_items [simp]: "length (ring_items r) = ring_count r"
  by (simp add: ring_items_def)

lemma unat_next_inc: "unat p < 64 \<Longrightarrow> unat (next_pos p) = ring_inc (unat p)"
  by (simp add: unat_next_pos ring_inc_def)

lemma ring_full_iff: "ring_ok r \<Longrightarrow> ring_full r \<longleftrightarrow> ring_count r = 63"
  using ring_okD [of r] ring_arith(1) [of "unat (tail r)" "unat (head r)"]
  by (simp add: ring_full_def word_unat_eq_iff unat_next_inc ring_count_dist)

lemma ring_empty_iff: "ring_ok r \<Longrightarrow> ring_empty r \<longleftrightarrow> ring_count r = 0"
  using ring_okD [of r] ring_arith(2) [of "unat (tail r)" "unat (head r)"]
  by (simp add: ring_empty_def word_unat_eq_iff ring_count_dist)

lemma ring_put_count:
  assumes r: "ring_ok r" and nf: "\<not> ring_full r"
  shows "ring_ok (ring_put b r)" "ring_count (ring_put b r) = Suc (ring_count r)"
proof -
  note b = ring_okD [OF r]
  show ok: "ring_ok (ring_put b r)" using b by (simp add: ring_ok_def ring_put_def unat_next_pos)
  have head: "unat (head (ring_put b r)) = ring_inc (unat (head r))" "tail (ring_put b r) = tail r"
    using b by (simp_all add: ring_put_def unat_next_inc)
  show "ring_count (ring_put b r) = Suc (ring_count r)"
    using ring_full_iff [OF r] nf b ring_arith(3) [of "unat (tail r)" "unat (head r)"]
    by (simp add: ring_count_dist [OF ok] ring_count_dist [OF r] head)
qed

lemma ring_get_count:
  assumes r: "ring_ok r" and ne: "\<not> ring_empty r"
  shows "ring_ok (snd (ring_get r))" "ring_count r = Suc (ring_count (snd (ring_get r)))"
proof -
  note b = ring_okD [OF r]
  show ok: "ring_ok (snd (ring_get r))" using b by (simp add: ring_ok_def ring_get_def unat_next_pos)
  have tail: "unat (tail (snd (ring_get r))) = ring_inc (unat (tail r))" "head (snd (ring_get r)) = head r"
    using b by (simp_all add: ring_get_def unat_next_inc)
  show "ring_count r = Suc (ring_count (snd (ring_get r)))"
    using ring_empty_iff [OF r] ne b ring_arith(4) [of "unat (tail r)" "unat (head r)"]
    by (simp add: ring_count_dist [OF ok] ring_count_dist [OF r] tail)
qed

lemma ring_put_items: "ring_ok r \<Longrightarrow> \<not> ring_full r \<Longrightarrow> ring_items (ring_put b r) = ring_items r @ [b]"
proof -
  assume r: "ring_ok r" and nf: "\<not> ring_full r"
  note b = ring_okD [OF r]
  have at: "(unat (tail r) + ring_count r) mod 64 = unat (head r)"
    using b by (simp add: ring_count_dist [OF r] ring_index_head)
  have "unat (head r) \<noteq> (unat (tail r) + i) mod 64" if "i < ring_count r" for i
    using that b by (intro ring_index_not_head [THEN not_sym]) (simp_all add: ring_count_dist [OF r])
  then have old: "map (\<lambda>i. (buf r)[unat (head r) := b] ! ((unat (tail r) + i) mod 64)) [0..<ring_count r] = ring_items r"
    by (auto simp: ring_items_def)
  have "ring_items (ring_put b r) =
      map (\<lambda>i. (buf r)[unat (head r) := b] ! ((unat (tail r) + i) mod 64)) [0..<ring_count r] @
      [(buf r)[unat (head r) := b] ! ((unat (tail r) + ring_count r) mod 64)]"
    by (simp add: ring_items_def ring_put_count(2) [OF r nf]) (simp add: ring_put_def)
  then show ?thesis using b by (simp add: old at)
qed

lemma ring_get_items: "ring_ok r \<Longrightarrow> \<not> ring_empty r \<Longrightarrow> ring_items r = fst (ring_get r) # ring_items (snd (ring_get r))"
proof -
  assume r: "ring_ok r" and ne: "\<not> ring_empty r"
  note b = ring_okD [OF r]
  have step: "((unat (tail r) + 1) mod 64 + i) mod 64 = (unat (tail r) + Suc i) mod 64" for i
    by (simp add: mod_add_left_eq)
  have "ring_items r = buf r ! (unat (tail r) mod 64) #
      map (\<lambda>i. buf r ! ((unat (tail r) + Suc i) mod 64)) [0..<ring_count (snd (ring_get r))]"
    unfolding ring_items_def ring_get_count(2) [OF r ne] by (subst map_upt_Suc) simp
  moreover have "ring_items (snd (ring_get r)) =
      map (\<lambda>i. buf r ! (((unat (tail r) + 1) mod 64 + i) mod 64)) [0..<ring_count (snd (ring_get r))]"
    using b by (simp add: ring_items_def) (simp add: ring_get_def unat_next_pos)
  ultimately show ?thesis using b unfolding step by (simp add: ring_get_def)
qed

interpretation ring: bounded_fifo ring_put ring_get ring_full ring_empty ring_items ring_ok 63
proof unfold_locales
  fix r :: ioqueue assume r: "ring_ok r"
  show "ring_empty r \<longleftrightarrow> ring_items r = []"
    using ring_empty_iff [OF r] length_ring_items [of r] by (metis length_0_conv)
  show "ring_full r \<longleftrightarrow> length (ring_items r) = 63" using ring_full_iff [OF r] by simp
  show "length (ring_items r) \<le> 63" using ring_count_less [of r] by simp
qed (auto intro: ring_put_count(1) ring_put_items ring_get_count(1) ring_get_items)

section \<open>The scheduler and the buffers\<close>

lemma io_more_eqD:
  fixes s s' :: "'a io_scheme"
  assumes "threads.more s' = threads.more s"
  shows "ioqs s' = ioqs s" "frames s' = frames s" "sem_value s' = sem_value s" "holder s' = holder s"
    "holder_repeat_nr s' = holder_repeat_nr s"
  using assms by (cases s; cases s'; simp)+

lemma upd_ioq_fields [simp]:
  "eflags (upd_ioq q f s) = eflags s" "tasks (upd_ioq q f s) = tasks s" "lnext (upd_ioq q f s) = lnext s"
  "lprev (upd_ioq q f s) = lprev s" "esp (upd_ioq q f s) = esp s" "phys (upd_ioq q f s) = phys s"
  "cr3 (upd_ioq q f s) = cr3 s" "thread_ready_list (upd_ioq q f s) = thread_ready_list s"
  "frames (upd_ioq q f s) = frames s" "sem_value (upd_ioq q f s) = sem_value s"
  "holder (upd_ioq q f s) = holder s" "holder_repeat_nr (upd_ioq q f s) = holder_repeat_nr s"
  "ioqs (upd_ioq q f s) = (ioqs s)(q := f (ioqs s q))" "running_thread (upd_ioq q f s) = running_thread s"
  "intr_get_status (upd_ioq q f s) = intr_get_status s"
  by (simp_all add: upd_ioq_def running_thread_def intr_get_status_def)

lemma lock_ops_io [simp]:
  "eflags (lock_taken l s) = eflags s" "lnext (lock_taken l s) = lnext s" "lprev (lock_taken l s) = lprev s"
  "esp (lock_taken l s) = esp s" "thread_ready_list (lock_taken l s) = thread_ready_list s"
  "frames (lock_taken l s) = frames s" "ioqs (lock_taken l s) = ioqs s"
  "eflags (lock_given_back l s) = eflags s" "lnext (lock_given_back l s) = lnext s"
  "lprev (lock_given_back l s) = lprev s" "esp (lock_given_back l s) = esp s"
  "thread_ready_list (lock_given_back l s) = thread_ready_list s"
  "frames (lock_given_back l s) = frames s" "ioqs (lock_given_back l s) = ioqs s"
  by (simp_all add: lock_taken_def lock_given_back_def set_value_def set_repeat_def set_holder_def)

lemma intr_status_lock [simp]:
  fixes s :: "'a io_scheme"
  shows "intr_get_status (lock_taken l s) = intr_get_status s"
  "intr_get_status (lock_given_back l s) = intr_get_status s"
  by (simp_all add: intr_get_status_def)

lemma sched_inv_upd_ioq: "sched_inv T spc s cur rs \<Longrightarrow> sched_inv T spc (upd_ioq q f s) cur rs"
  by (erule sched_inv_cong) simp_all

lemma sched_inv_lock_taken:
  fixes s :: "'a io_scheme"
  shows "sched_inv T spc s cur rs \<Longrightarrow> sched_inv T spc (lock_taken l s) cur rs"
  by (erule sched_inv_cong) simp_all

text \<open>The waiters of the queue's lock are in memory of their own.\<close>

definition queue_apart :: "u32 \<Rightarrow> u32 set \<Rightarrow> u32 \<Rightarrow> bool" where
  "queue_apart q T ready \<longleftrightarrow> ends (wait_list q) \<inter> (ends ready \<union> general_tag ` T) = {}"

lemma no_waiters_kept:
  assumes "sched_frame (list_nodes (thread_ready_list s) (map general_tag xs)) s s'" and "set xs \<subseteq> T"
    and "queue_apart q T (thread_ready_list s)" and "is_list s (wait_list q) []"
  shows "is_list s' (wait_list q) []"
proof (rule keeps_listsD)
  show "keeps_lists (list_nodes (thread_ready_list s) (map general_tag xs)) s s'"
    using assms(1) by (simp add: sched_frame_def)
  show "list_nodes (wait_list q) [] \<inter> list_nodes (thread_ready_list s) (map general_tag xs) = {}"
    using assms(2,3) list_nodes_tags [of "wait_list q" "[]"] list_nodes_tags [of "thread_ready_list s" xs]
    by (auto simp: queue_apart_def)
qed (fact assms(4))

section \<open>Calls that do not wait\<close>

lemma ioq_store_quiet:
  assumes "ring_ok (ioqs s q)" and "consumer (ioqs s q) = NULL"
  shows "ioq_store q b s = Inr (upd_ioq q (ring_put b) s)"
proof -
  have "consumer (ring_put b (ioqs s q)) = NULL" using assms(2) by (simp add: ring_put_def)
  then show ?thesis using ring_okD [OF assms(1)] by (simp add: ioq_store_def Let_def)
qed

lemma ioq_take_quiet:
  assumes "ring_ok (ioqs s q)" and "producer (ioqs s q) = NULL"
  shows "ioq_take q s = Inr (fst (ring_get (ioqs s q)), upd_ioq q (\<lambda>r. snd (ring_get r)) s)"
proof -
  have "producer (snd (ring_get (ioqs s q))) = NULL" using assms(2) by (simp add: ring_get_def)
  then show ?thesis using ring_okD [OF assms(1)] by (simp add: ioq_take_def Let_def case_prod_unfold upd_ioq_def)
qed

lemma ioq_putchar_quiet:
  assumes "intr_get_status s = INTR_OFF" and "ring_ok (ioqs s q)" and "\<not> ring_full (ioqs s q)"
    and "consumer (ioqs s q) = NULL"
  shows "ioq_putchar q b s = Inr (Done (), upd_ioq q (ring_put b) s)"
  using assms by (simp add: ioq_putchar_def ioq_putchar_loop_def ioq_full_def assert_intr_off_def ioq_store_quiet)

lemma ioq_getchar_quiet:
  assumes "intr_get_status s = INTR_OFF" and "ring_ok (ioqs s q)" and "\<not> ring_empty (ioqs s q)"
    and "producer (ioqs s q) = NULL"
  shows "ioq_getchar_loop q s = Inr (Done (fst (ring_get (ioqs s q))), upd_ioq q (\<lambda>r. snd (ring_get r)) s)"
  using assms by (simp add: ioq_getchar_loop_def ioq_empty_def assert_intr_off_def ioq_take_quiet)

section \<open>A consumer that waits\<close>

lemma getchar_blocks:
  assumes inv: "sched_inv T spc s cur (n # ns)" and off: "intr_get_status s = INTR_OFF"
    and lock: "lock_available q s" and ring: "ring_ok (ioqs s q)" "ring_empty (ioqs s q)"
    and slot: "consumer (ioqs s q) = NULL"
    and wl: "is_list s (wait_list q) []" "queue_apart q T (thread_ready_list s)"
  obtains s1 where "ioq_getchar q s = Inr (Waiting INTR_OFF, s1)" and "sched_inv T spc s1 n ns"
    and "ioqs s1 = (ioqs s)(q := (ioqs s q)\<lparr>consumer := cur\<rparr>)" and "intr_get_status s1 = INTR_OFF"
    and "status (tasks s1 cur) = TASK_BLOCKED" and "is_list s1 (wait_list q) []"
    and "frames s1 = frames s" "holder s1 q = cur" "holder_repeat_nr s1 q = 1" "sem_value s1 (semaphore_of q) = 0"
    and "thread_ready_list s1 = thread_ready_list s"
proof -
  note cur = sched_inv_current [OF inv]
  define sa where "sa = upd_ioq q (set_waiter Consumer cur) (lock_taken q s)"
  have inv_a: "sched_inv T spc sa cur (n # ns)"
    unfolding sa_def by (intro sched_inv_upd_ioq sched_inv_lock_taken inv)
  have block: "blockable TASK_BLOCKED" by (simp add: blockable_def)
  have off_a: "intr_get_status sa = INTR_OFF" using off by (simp add: sa_def)
  obtain s1 where s1: "thread_block TASK_BLOCKED sa = Inr (intr_get_status sa, s1)" "sched_inv T spc s1 n ns"
    "sched_frame (list_nodes (thread_ready_list sa) (map general_tag (n # ns))) sa s1"
    "intr_get_status s1 = INTR_OFF"
    "\<And>t. t \<noteq> n \<Longrightarrow> status (tasks s1 t) = (if t = cur then TASK_BLOCKED else status (tasks sa t))"
    by (rule thread_block_inv [OF inv_a block]) blast
  note more = io_more_eqD [OF thread_block_more [OF s1(1)]]
  have acq: "call_lock ''lock_acquire'' (lock_acquire q) s = Inr (lock_taken q s)" using lock by (rule call_acquire)
  have ready: "thread_ready_list sa = thread_ready_list s" by (simp add: sa_def)
  have "ioq_wait Consumer q (lock_taken q s) = Inr (INTR_OFF, s1)"
    using slot s1(1) cur off_a by (simp add: ioq_wait_def flip: sa_def)
  then have run: "ioq_getchar q s = Inr (Waiting INTR_OFF, s1)"
    using off ring acq by (simp add: ioq_getchar_def ioq_getchar_loop_def ioq_empty_def assert_intr_off_def)
  have "is_list sa (wait_list q) []" using wl(1) is_list_cong [of sa s] by (simp add: sa_def)
  then have wl1: "is_list s1 (wait_list q) []"
    using inv by (intro no_waiters_kept [OF s1(3) _ wl(2) [folded ready]]) (auto simp: sched_inv_def)
  have "cur \<noteq> n" using inv by (auto simp: sched_inv_def)
  then have st: "status (tasks s1 cur) = TASK_BLOCKED" using s1(5) by simp
  have "thread_ready_list s1 = thread_ready_list s" using s1(3) by (simp add: sched_frame_def ready)
  from that [OF run s1(2) _ s1(4) st wl1 _ _ _ _ this] show thesis
    using cur by (simp add: more sa_def)
      (simp add: lock_taken_def set_value_def set_repeat_def set_holder_def)
qed

lemma putchar_wakes:
  assumes inv: "sched_inv T spc s n ns" and off: "intr_get_status s = INTR_OFF"
    and ring: "ring_ok (ioqs s q)" "\<not> ring_full (ioqs s q)" and slot: "consumer (ioqs s q) = t"
    and t: "t \<in> T" "status (tasks s t) = TASK_BLOCKED"
    and wl: "is_list s (wait_list q) []" "queue_apart q T (thread_ready_list s)"
  obtains s2 where "ioq_putchar q b s = Inr (Done (), s2)" and "sched_inv T spc s2 n (t # ns)"
    and "ioqs s2 = (ioqs s)(q := (ring_put b (ioqs s q))\<lparr>consumer := NULL\<rparr>)" and "intr_get_status s2 = INTR_OFF"
    and "is_list s2 (wait_list q) []" and "frames s2 = frames s" "holder s2 = holder s"
    and "holder_repeat_nr s2 = holder_repeat_nr s" "sem_value s2 = sem_value s"
    and "thread_ready_list s2 = thread_ready_list s"
proof -
  define sa where "sa = upd_ioq q (ring_put b) s"
  have inv_a: "sched_inv T spc sa n ns" unfolding sa_def by (intro sched_inv_upd_ioq inv)
  have st: "blockable (status (tasks sa t))" using t(2) by (simp add: sa_def blockable_def)
  obtain sb where sb: "thread_unblock t sa = Inr sb" "sched_inv T spc sb n (t # ns)"
    "sched_frame (list_nodes (thread_ready_list sa) (map general_tag (t # ns))) sa sb" "eflags sb = eflags sa"
    by (rule thread_unblock_inv [OF inv_a t(1) st]) blast
  note more = io_more_eqD [OF thread_unblock_more [OF sb(1)]]
  have null: "t \<noteq> NULL" using inv t(1) by (auto simp: sched_inv_def)
  have slot_a: "consumer (ioqs sa q) = t" using slot by (simp add: sa_def ring_put_def)
  define s2 where "s2 = upd_ioq q (set_waiter Consumer NULL) sb"
  have "wakeup Consumer q sa = Inr s2" using null sb(1) by (simp add: wakeup_def slot_a s2_def)
  then have "ioq_store q b s = Inr s2"
    using ring_okD [OF ring(1)] null slot_a by (simp add: ioq_store_def Let_def flip: sa_def)
  then have run: "ioq_putchar q b s = Inr (Done (), s2)"
    using off ring(2) by (simp add: ioq_putchar_def ioq_putchar_loop_def ioq_full_def assert_intr_off_def)
  have inv2: "sched_inv T spc s2 n (t # ns)" unfolding s2_def by (intro sched_inv_upd_ioq sb(2))
  have ready: "thread_ready_list sa = thread_ready_list s" by (simp add: sa_def)
  have "is_list sa (wait_list q) []" using wl(1) is_list_cong [of sa s] by (simp add: sa_def)
  then have "is_list sb (wait_list q) []"
    using sb(2) by (intro no_waiters_kept [OF sb(3) _ wl(2) [folded ready]]) (auto simp: sched_inv_def)
  then have wl2: "is_list s2 (wait_list q) []" using is_list_cong [of s2 sb] by (simp add: s2_def)
  have "thread_ready_list s2 = thread_ready_list s" using sb(3) by (simp add: sched_frame_def s2_def ready)
  moreover have "intr_get_status s2 = INTR_OFF" using off sb(4) by (simp add: s2_def intr_get_status_def sa_def)
  ultimately show thesis using that [OF run inv2 _ _ wl2] by (simp add: s2_def more sa_def)
qed

lemma getchar_resumes:
  assumes off: "intr_get_status s = INTR_OFF" and cur: "running_thread s = cur"
    and held: "frames s cur = []" "cur \<noteq> NULL" "holder s q = cur" "holder_repeat_nr s q = 1" "sem_value s (semaphore_of q) = 0"
    and wl: "is_list s (wait_list q) []" and ring: "ring_ok (ioqs s q)" "ring_items (ioqs s q) = [b]"
    and slots: "producer (ioqs s q) = NULL" "consumer (ioqs s q) = NULL"
  obtains s' where "ioq_getchar_resume q INTR_OFF s = Inr (Done b, s')"
    and "ring_items (ioqs s' q) = []" and "consumer (ioqs s' q) = NULL" and "lock_available q s'"
proof -
  define s1 where "s1 = lock_given_back q s"
  define s' where "s' = upd_ioq q (\<lambda>r. snd (ring_get r)) s1"
  have resume: "thread_block_resume INTR_OFF s = s"
    using off by (simp add: thread_block_resume_def intr_set_status_def intr_disable_def)
  have rel: "call_lock ''lock_release'' (lock_release q) s = Inr s1"
    using held list_empty_iff [OF wl] unfolding s1_def by (intro call_release) (simp_all add: cur)
  have r1: "ioqs s1 q = ioqs s q" "intr_get_status s1 = INTR_OFF" using off by (simp_all add: s1_def)
  have ne: "\<not> ring_empty (ioqs s q)" using ring.empty_iff [OF ring(1)] ring(2) by simp
  have get: "fst (ring_get (ioqs s q)) = b" "ring_items (snd (ring_get (ioqs s q))) = []"
    using ring.get_items [OF ring(1) ne] ring(2) by simp_all
  have "ioq_getchar_loop q s1 = Inr (Done b, s')"
    unfolding s'_def ioq_getchar_quiet [OF r1(2) ring(1) [folded r1(1)] ne [folded r1(1)] slots(1) [folded r1(1)]]
    by (simp add: get(1) r1(1))
  then have run: "ioq_getchar_resume q INTR_OFF s = Inr (Done b, s')"
    using rel by (simp add: ioq_getchar_resume_def resume)
  have "lock_available q s'"
    using held(1,2) cur list_empty_iff [OF wl] is_list_cong [of s' s]
    by (simp add: lock_available_def s'_def s1_def)
      (simp add: lock_given_back_def set_value_def set_repeat_def set_holder_def list_empty_def)
  moreover have "ring_items (ioqs s' q) = []" "consumer (ioqs s' q) = NULL"
    using get(2) slots(2) by (simp_all add: s'_def r1(1) ring_get_def)
  ultimately show thesis by (intro that [OF run])
qed

section \<open>Properties\<close>



text \<open>The sample machine with interrupts off and an empty buffer at the lock \<open>0x900\<close>.\<close>

definition sample_ring :: ioqueue where
  "sample_ring = \<lparr>producer = NULL, consumer = NULL, buf = replicate 64 0, head = 0, tail = 0\<rparr>"

definition sample_io :: io where
  "sample_io = segments.extend (sample_segments\<lparr>eflags := 2\<rparr>) \<lparr>ioqs = (\<lambda>_. sample_ring)\<rparr>"

lemma sample_free_fields:
  "lnext sample_free = (lnext sample_sync)(0x908 := 0x910, 0x910 := 0)"
  "lprev sample_free = (lprev sample_sync)(0x908 := 0, 0x910 := 0x908)"
  "tasks sample_free = tasks sample_threads" "esp sample_free = 0x1f80" "thread_ready_list sample_free = 0x500"
  "frames sample_free 0x1000 = []" "holder sample_free 0x900 = 0" "holder_repeat_nr sample_free 0x900 = 0"
  "sem_value sample_free 0x904 = 1"
  by (simp_all add: sample_free_def lock_init_def sema_init_def list_init_def set_next_def set_prev_def set_value_def
      set_repeat_def set_holder_def semaphore_of_def waiters_def head_of_def tail_of_def fun_eq_iff)
    (simp_all add: sample_sync_def)

lemma sample_io_fields:
  "lnext sample_io = lnext sample_free" "lprev sample_io = lprev sample_free" "tasks sample_io = tasks sample_threads"
  "esp sample_io = 0x1f80" "thread_ready_list sample_io = 0x500" "cr3 sample_io = 0x100000"
  "frames sample_io = frames sample_free" "holder sample_io = holder sample_free"
  "holder_repeat_nr sample_io = holder_repeat_nr sample_free" "sem_value sample_io = sem_value sample_free"
  "ioqs sample_io = (\<lambda>_. sample_ring)" "eflags sample_io = 2"
  by (simp_all add: sample_io_def segments.defs sample_segments_def interrupts.defs sample_interrupts_def
      memory.defs sample_memory_def sync.defs sample_free_fields)

lemma sample_io_run: "running_thread sample_io = 0x1000"
  by (simp add: running_thread_def sample_io_fields)

lemma sample_io_sched: "sched_inv sample_set (\<lambda>_. 0x100000) sample_io 0x1000 [0x2000]"
proof -
  have "is_list sample_io 0x500 [0x201c]"
    by (simp add: is_list_def head_of_def tail_of_def sample_io_fields sample_free_fields) (simp add: sample_sync_def)
  moreover have "spaces_agree sample_set (\<lambda>_. 0x100000) (phys sample_io) (tasks sample_threads)"
    by (simp add: spaces_agree_def sample_set_def sample_threads_def sample_task_def zero_task_def)
  ultimately show ?thesis
    using sample_inv unfolding sched_inv_def sample_io_run
    by (simp add: general_tag_def sample_io_fields) (simp add: sample_threads_def)
qed

lemma sample_io_queue:
  "lock_available 0x900 sample_io" "is_list sample_io (wait_list 0x900) []" "queue_apart 0x900 sample_set 0x500"
  "intr_get_status sample_io = INTR_OFF" "ring_ok sample_ring" "ring_items sample_ring = []"
proof -
  show list: "is_list sample_io (wait_list 0x900) []"
    by (simp add: is_list_def head_of_def tail_of_def sample_io_fields sample_free_fields waiters_def semaphore_of_def)
  show "lock_available 0x900 sample_io"
    using list_empty_iff [OF list] sample_free_fields
    by (simp add: lock_available_def sample_io_run sample_io_fields semaphore_of_def)
  show "queue_apart 0x900 sample_set 0x500"
    by (simp add: queue_apart_def ends_def head_of_def tail_of_def waiters_def semaphore_of_def sample_set_def general_tag_def)
qed (simp_all add: intr_get_status_def sample_io_fields ring_ok_def ring_items_def ring_count_def sample_ring_def)



end
