(* ===== verification/Vsprintf.thy ===== *)
theory Vsprintf
  imports LibString
begin

text \<open>
  Formatted output, \<open>src/lib/vsprintf.c\<close> and \<open>src/lib/printf.c\<close>. The format is the list of its
  characters (the string without its terminator); the output goes to memory at the pointer
  \<open>str\<close>, and a piece of output that the code writes with \<open>*str++\<close> in a row is \<open>put\<close> as one list.
  The argument list is a list of 32-bit words; \<open>va_arg\<close> past its end is undefined, and a
  \<open>double\<close> is two words. Arithmetic on doubles is a parameter, because the rounding of
  \<open>(x - ival) * 1000000\<close> depends on the floating-point unit.
\<close>

section \<open>Characters and flags\<close>

definition ascii :: "char \<Rightarrow> u8" where
  "ascii c = of_char c"

definition str8 :: "string \<Rightarrow> u8 list" where
  "str8 cs = map ascii cs"

definition ZEROPAD :: u32 where "ZEROPAD = 0x01"
definition SIGN :: u32 where "SIGN = 0x02"
definition PLUS :: u32 where "PLUS = 0x04"
definition SPACE :: u32 where "SPACE = 0x08"
definition LEFT :: u32 where "LEFT = 0x10"
definition SPECIAL :: u32 where "SPECIAL = 0x20"
definition SMALL :: u32 where "SMALL = 0x40"
definition DOUBLE :: u32 where "DOUBLE = 0x80"

lemmas flag_defs = ZEROPAD_def SIGN_def PLUS_def SPACE_def LEFT_def SPECIAL_def SMALL_def DOUBLE_def

definition flag :: "u32 \<Rightarrow> u32 \<Rightarrow> bool" where
  "flag flags f \<longleftrightarrow> flags AND f \<noteq> 0"

definition is_digit :: "u8 \<Rightarrow> bool" where
  "is_digit c \<longleftrightarrow> 48 \<le> c \<and> c \<le> 57"

text \<open>The operations on a \<open>double\<close>: \<open>x < 0\<close>, \<open>-x\<close>, \<open>(u32)x\<close>, \<open>(u32)((x - (u32)x) * 1000000)\<close>.\<close>

record fpu =
  fp_negative :: "u64 \<Rightarrow> bool"
  fp_negate :: "u64 \<Rightarrow> u64"
  fp_int :: "u64 \<Rightarrow> u32"
  fp_millionths :: "u64 \<Rightarrow> u32"

section \<open>Numbers\<close>

text \<open>A decimal number in the format; a value that does not fit an \<open>int\<close> is undefined.\<close>

fun skip_atoi_loop :: "int \<Rightarrow> u8 list \<Rightarrow> (int \<times> u8 list) outcome" where
  "skip_atoi_loop i [] = Inr (i, [])"
| "skip_atoi_loop i (c # s) =
     (if is_digit c
      then if i * 10 + uint c < 2 ^ 31 then skip_atoi_loop (i * 10 + uint c - 48) s
           else Inl (Undefined ''skip_atoi'')
      else Inr (i, c # s))"

definition skip_atoi :: "u8 list \<Rightarrow> (int \<times> u8 list) outcome" where
  "skip_atoi s = skip_atoi_loop 0 s"

text \<open>The digits of a number in the order of \<open>tmp\<close>, least significant first.\<close>

function digit_loop :: "string \<Rightarrow> u32 \<Rightarrow> u32 \<Rightarrow> u8 list" where
  "digit_loop digits base num =
     (if num \<noteq> 0 \<and> 1 < base
      then ascii (digits ! unat (num mod base)) # digit_loop digits base (num div base) else [])"
  by pat_completeness auto
termination
proof (relation "measure (\<lambda>(digits, base, num). unat num)", simp)
  fix digits :: string and base num :: u32
  assume "num \<noteq> 0 \<and> 1 < base"
  then have "0 < unat num" "1 < unat base" by (auto simp: word_less_nat_alt unat_gt_0)
  then show "((digits, base, num div base), digits, base, num) \<in> measure (\<lambda>(digits, base, num). unat num)"
    by (simp add: unat_div32)
qed

declare digit_loop.simps [simp del]

fun fraction_digits :: "nat \<Rightarrow> string \<Rightarrow> u32 \<Rightarrow> u32 \<Rightarrow> u8 list" where
  "fraction_digits 0 digits base fval = []"
| "fraction_digits (Suc mantissa) digits base fval =
     ascii (digits ! unat (fval mod base)) # fraction_digits mantissa digits base (fval div base)"

definition digit_table :: "u32 \<Rightarrow> string" where
  "digit_table flags = (if flag flags SMALL then ''0123456789abcdefghijklmnopqrstuvwxyz''
     else ''0123456789ABCDEFGHIJKLMNOPQRSTUVWXYZ'')"

text \<open>\<open>while (size-- > 0) *str++ = c;\<close>: what is written, and \<open>size\<close> afterwards.\<close>

definition fill_loop :: "u8 \<Rightarrow> int \<Rightarrow> u8 list \<times> int" where
  "fill_loop c n = (replicate (nat n) c, (if n > 0 then 0 else n) - 1)"

text \<open>
  The second half of \<open>number\<close>: padding, sign, prefix, zeros and digits, with the field width
  already reduced by the sign and the prefix.
\<close>

definition lay_out :: "u32 \<Rightarrow> u32 \<Rightarrow> string \<Rightarrow> u8 \<Rightarrow> int \<Rightarrow> int \<Rightarrow> u8 list \<Rightarrow> u8 list" where
  "lay_out flags base digits sign size2 precision0 tmp =
     (let pad = (if flag flags ZEROPAD then 48 else 32 :: u8);
          i = int (length tmp);
          precision = (if i > precision0 then i else precision0);
          size3 = size2 - precision;
          (out1, size4) = (if flags AND (ZEROPAD + LEFT) = 0 then fill_loop 32 size3 else ([], size3));
          out2 = (if sign \<noteq> 0 then [sign] else []);
          out3 = (if flag flags SPECIAL
                  then if base = 8 then [48] else if base = 16 then [48, ascii (digits ! 33)] else [] else []);
          (out4, size5) = (if \<not> flag flags LEFT then fill_loop pad size4 else ([], size4));
          out5 = replicate (nat (precision - i)) 48;
          out6 = rev tmp;
          (out7, size6) = fill_loop 32 size5
      in out1 @ out2 @ out3 @ out4 @ out5 @ out6 @ out7)"

text \<open>
  \<open>number\<close>: the characters it writes at \<open>str\<close>, or \<open>None\<close> where it returns a null pointer. \<open>num\<close>
  is the value behind its pointer, \<open>dbl\<close> the same for a double. The negation of the smallest
  \<open>int\<close> is the number itself, as on the machine.
\<close>

definition number :: "fpu \<Rightarrow> u32 \<Rightarrow> u64 \<Rightarrow> u32 \<Rightarrow> int \<Rightarrow> int \<Rightarrow> u32 \<Rightarrow> u8 list option" where
  "number fp num0 dbl0 base size0 precision0 flags0 =
     (let digits = digit_table flags0;
          flags = (if flag flags0 LEFT then flags0 AND NOT ZEROPAD else flags0)
      in if sint base < 2 \<or> sint base > 36 then None
         else
           let (sign, num, dbl) =
                 (if flag flags DOUBLE \<and> fp_negative fp dbl0 then (45, num0, fp_negate fp dbl0)
                  else if flag flags SIGN \<and> \<not> flag flags DOUBLE \<and> sint num0 < 0 then (45, - num0, dbl0)
                  else (if flag flags PLUS then 43 else if flag flags SPACE then 32 else 0 :: u8, num0, dbl0));
               size1 = (if sign \<noteq> 0 then size0 - 1 else size0);
               size2 = (if flag flags SPECIAL
                        then if base = 16 then size1 - 2 else if base = 8 then size1 - 1 else size1 else size1);
               tmp = (if flag flags DOUBLE
                      then let ival = fp_int fp dbl; fval = fp_millionths fp dbl
                        in fraction_digits 6 digits base fval @ [46] @
                           ascii (digits ! unat (ival mod base)) # digit_loop digits base (ival div base)
                      else if num = 0 then [48] else digit_loop digits base num)
           in Some (lay_out flags base digits sign size2 precision0 tmp))"

section \<open>Directives\<close>

text \<open>The output state: memory and the pointer \<open>str\<close>.\<close>

type_synonym out = "mem \<times> u32"

definition put :: "u8 list \<Rightarrow> out \<Rightarrow> out" where
  "put cs ot = (case ot of (m, str) \<Rightarrow> (store_bytes m str cs, str + of_nat (length cs)))"

definition put_number :: "u8 list option \<Rightarrow> out \<Rightarrow> out" where
  "put_number r ot = (case r of None \<Rightarrow> (fst ot, NULL) | Some cs \<Rightarrow> put cs ot)"

definition va_arg :: "u32 list \<Rightarrow> (u32 \<times> u32 list) outcome" where
  "va_arg args = (case args of [] \<Rightarrow> Inl (Undefined ''va_arg'') | a # as \<Rightarrow> Inr (a, as))"

definition va_double :: "u32 list \<Rightarrow> (u64 \<times> u32 list) outcome" where
  "va_double args = rbind (va_arg args) (\<lambda>(lo, as). rbind (va_arg as) (\<lambda>(hi, as').
     Inr (ucast lo OR push_bit 32 (ucast hi), as')))"

text \<open>\<open>*fmt\<close>\<close>

definition cur_char :: "u8 list \<Rightarrow> u8" where
  "cur_char fmt = (case fmt of [] \<Rightarrow> EOS | c # _ \<Rightarrow> c)"

text \<open>The flag characters after \<open>%\<close>.\<close>

fun parse_flags :: "u32 \<Rightarrow> u8 list \<Rightarrow> u32 \<times> u8 list" where
  "parse_flags flags [] = (flags, [])"
| "parse_flags flags (c # fmt) =
     (if c = 45 then parse_flags (flags OR LEFT) fmt
      else if c = 43 then parse_flags (flags OR PLUS) fmt
      else if c = 32 then parse_flags (flags OR SPACE) fmt
      else if c = 35 then parse_flags (flags OR SPECIAL) fmt
      else if c = 48 then parse_flags (flags OR ZEROPAD) fmt
      else (flags, c # fmt))"

definition parse_width :: "u32 \<Rightarrow> u8 list \<Rightarrow> u32 list \<Rightarrow> (int \<times> u32 \<times> u8 list \<times> u32 list) outcome" where
  "parse_width flags fmt args =
     (if is_digit (cur_char fmt) then rbind (skip_atoi fmt) (\<lambda>(w, fmt'). Inr (w, flags, fmt', args))
      else if cur_char fmt = 42
      then rbind (va_arg args) (\<lambda>(a, args').
        if sint a = - (2 ^ 31) then Inl (Undefined ''vsprintf'')
        else if sint a < 0 then Inr (- sint a, flags OR LEFT, tl fmt, args')
        else Inr (sint a, flags, tl fmt, args'))
      else Inr (- 1, flags, fmt, args))"

text \<open>After \<open>.*\<close> the code does not step over the star.\<close>

definition parse_precision :: "u8 list \<Rightarrow> u32 list \<Rightarrow> (int \<times> u8 list \<times> u32 list) outcome" where
  "parse_precision fmt0 args0 =
     (if cur_char fmt0 = 46
      then let fmt = tl fmt0
        in rbind (if is_digit (cur_char fmt) then rbind (skip_atoi fmt) (\<lambda>(p, fmt'). Inr (p, fmt', args0))
                  else if cur_char fmt = 42 then rbind (va_arg args0) (\<lambda>(a, args'). Inr (sint a, fmt, args'))
                  else Inr (- 1, fmt, args0))
             (\<lambda>(p, fmt', args'). Inr (if p < 0 then 0 else p, fmt', args'))
      else Inr (- 1, fmt0, args0))"

definition parse_qualifier :: "u8 list \<Rightarrow> u8 list" where
  "parse_qualifier fmt = (if cur_char fmt \<in> {104, 108, 76} then tl fmt else fmt)"

text \<open>\<open>%c\<close> and \<open>%s\<close>; \<open>while (--w > 0)\<close> and \<open>while (len < w--)\<close> write spaces.\<close>

definition put_char :: "u8 \<Rightarrow> int \<Rightarrow> u32 \<Rightarrow> out \<Rightarrow> out" where
  "put_char c w flags ot =
     (let (lead, w1) = (if \<not> flag flags LEFT then (replicate (nat (w - 1)) 32, if w > 1 then 0 else w - 1)
                          else ([], w));
          trail = replicate (nat (w1 - 1)) 32
      in put trail (put [c] (put lead ot)))"

fun copy_chars :: "nat \<Rightarrow> u32 \<Rightarrow> out \<Rightarrow> out" where
  "copy_chars 0 s ot = ot"
| "copy_chars (Suc k) s ot = copy_chars k (s + 1) (put [fst ot s] ot)"

definition put_string :: "u32 \<Rightarrow> int \<Rightarrow> int \<Rightarrow> u32 \<Rightarrow> out \<Rightarrow> out outcome" where
  "put_string s w precision flags ot =
     rbind (terminates ''strlen'' (strlen (fst ot) s)) (\<lambda>n.
       let len = (if precision < 0 then sint n else if sint n > precision then precision else sint n);
           (lead, w1) = (if \<not> flag flags LEFT then (replicate (nat (w - len)) 32, (if w > len then len else w) - 1)
                           else ([], w));
           o1 = copy_chars (nat len) s (put lead ot);
           trail = replicate (nat (w1 - len)) 32
       in Inr (put trail o1))"

text \<open>The groups of \<open>%m\<close> (MAC address) and \<open>%r\<close> (IP address); the last separator is taken back.\<close>

fun put_groups :: "nat \<Rightarrow> (u8 \<Rightarrow> u8 list option) \<Rightarrow> u8 \<Rightarrow> u32 \<Rightarrow> out \<Rightarrow> out" where
  "put_groups 0 f sep ptr ot = ot"
| "put_groups (Suc k) f sep ptr ot =
     put_groups k f sep (ptr + 1) (put [sep] (put_number (f (fst ot ptr)) ot))"

definition step_back :: "out \<Rightarrow> out" where
  "step_back ot = (fst ot, snd ot - 1)"

text \<open>The conversion character; the result has the arguments that are left.\<close>

definition convert ::
  "fpu \<Rightarrow> u32 \<Rightarrow> u8 \<Rightarrow> u32 \<Rightarrow> int \<Rightarrow> int \<Rightarrow> u32 list \<Rightarrow> out \<Rightarrow> (u32 list \<times> out) outcome" where
  "convert fp buf c flags w precision args ot =
     (let num = (\<lambda>base w flags. rbind (va_arg args) (\<lambda>(a, args').
            Inr (args', put_number (number fp a 0 base w precision flags) ot)))
      in if c = ascii CHR ''c'' then rbind (va_arg args) (\<lambda>(a, args'). Inr (args', put_char (ucast a) w flags ot))
         else if c = ascii CHR ''s'' then rbind (va_arg args) (\<lambda>(a, args').
           rbind (put_string a w precision flags ot) (\<lambda>o'. Inr (args', o')))
         else if c = ascii CHR ''o'' then num 8 w flags
         else if c = ascii CHR ''p'' then if w = - 1 then num 16 8 (flags OR ZEROPAD) else num 16 w flags
         else if c = ascii CHR ''x'' then num 16 w (flags OR SMALL)
         else if c = ascii CHR ''X'' then num 16 w flags
         else if c = ascii CHR ''d'' \<or> c = ascii CHR ''i'' then num 10 w (flags OR SIGN)
         else if c = ascii CHR ''u'' then num 10 w flags
         else if c = ascii CHR ''n'' then rbind (va_arg args) (\<lambda>(ip, args').
           Inr (args', (store32 (fst ot) ip (snd ot - buf), snd ot)))
         else if c = ascii CHR ''f'' then rbind (va_double args) (\<lambda>(d, args').
           Inr (args', put_number (number fp 0 d 10 w precision (flags OR SIGN OR DOUBLE)) ot))
         else if c = ascii CHR ''b'' then num 2 w flags
         else if c = ascii CHR ''m'' then rbind (va_arg args) (\<lambda>(ptr, args').
           Inr (args', step_back (put_groups 6
             (\<lambda>b. number fp (ucast b) 0 16 2 precision (flags OR SMALL OR ZEROPAD)) 58 ptr ot)))
         else if c = ascii CHR ''r'' then rbind (va_arg args) (\<lambda>(ptr, args').
           Inr (args', step_back (put_groups 4
             (\<lambda>b. number fp (ucast b) 0 10 w precision (flags OR SMALL)) 46 ptr ot)))
         else Inr (args, put (if c = EOS then [37] else if c = 37 then [37] else [37, c]) ot))"

text \<open>
  One directive, after the \<open>%\<close>: what is left of the format and of the arguments, and the output.
  At the end of the format the loop ends, because the code steps back one character.
\<close>

definition directive ::
  "fpu \<Rightarrow> u32 \<Rightarrow> u8 list \<Rightarrow> u32 list \<Rightarrow> out \<Rightarrow> (u8 list \<times> u32 list \<times> out) outcome" where
  "directive fp buf fmt args ot =
     (let (flags, fmt1) = parse_flags 0 fmt
      in rbind (parse_width flags fmt1 args) (\<lambda>(w, flags2, fmt2, args2).
        rbind (parse_precision fmt2 args2) (\<lambda>(precision, fmt3, args3).
          let fmt4 = parse_qualifier fmt3
          in rbind (convert fp buf (cur_char fmt4) flags2 w precision args3 ot)
               (\<lambda>(args5, o'). Inr (tl fmt4, args5, o')))))"

lemma skip_atoi_loop_length: "skip_atoi_loop i s = Inr (j, s') \<Longrightarrow> length s' \<le> length s"
  by (induction i s rule: skip_atoi_loop.induct) (auto split: if_splits)

lemma parse_flags_length: "length (snd (parse_flags flags fmt)) \<le> length fmt"
  by (induction flags fmt rule: parse_flags.induct) auto

lemma parse_width_length: "parse_width flags fmt args = Inr (w, fl, fmt', args') \<Longrightarrow> length fmt' \<le> length fmt"
  by (auto simp: parse_width_def skip_atoi_def dest: skip_atoi_loop_length split: if_splits)

lemma parse_precision_length: "parse_precision fmt args = Inr (p, fmt', args') \<Longrightarrow> length fmt' \<le> length fmt"
  by (auto simp: parse_precision_def skip_atoi_def Let_def dest!: skip_atoi_loop_length split: if_splits)

lemma directive_length: "directive fp buf fmt args ot = Inr (rest, args', o') \<Longrightarrow> length rest \<le> length fmt"
proof -
  assume "directive fp buf fmt args ot = Inr (rest, args', o')"
  then obtain flags fmt1 w fl fmt2 args2 p fmt3 args3 where
    "parse_flags 0 fmt = (flags, fmt1)" "parse_width flags fmt1 args = Inr (w, fl, fmt2, args2)"
    "parse_precision fmt2 args2 = Inr (p, fmt3, args3)" "rest = tl (parse_qualifier fmt3)"
    by (auto simp: directive_def Let_def split: prod.splits)
  moreover have "length (parse_qualifier fmt3) \<le> length fmt3" by (simp add: parse_qualifier_def)
  ultimately show ?thesis
    using parse_flags_length [of 0 fmt] parse_width_length parse_precision_length by fastforce
qed

section \<open>The whole function\<close>

function (sequential) vsprintf_loop :: "fpu \<Rightarrow> u32 \<Rightarrow> u8 list \<Rightarrow> u32 list \<Rightarrow> out \<Rightarrow> out outcome" where
  "vsprintf_loop fp buf [] args ot = Inr ot"
| "vsprintf_loop fp buf (c # fmt) args ot =
     (if c \<noteq> 37 then vsprintf_loop fp buf fmt args (put [c] ot)
      else case directive fp buf fmt args ot of
        Inl e \<Rightarrow> Inl e
      | Inr (rest, args', o') \<Rightarrow> vsprintf_loop fp buf rest args' o')"
  by pat_completeness auto
termination
  by (relation "measure (\<lambda>(fp, buf, fmt, args, ot). length fmt)") (auto dest: directive_length)

definition vsprintf :: "fpu \<Rightarrow> mem \<Rightarrow> u32 \<Rightarrow> u8 list \<Rightarrow> u32 list \<Rightarrow> (u32 \<times> mem) outcome" where
  "vsprintf fp m buf fmt args =
     rbind (vsprintf_loop fp buf fmt args (m, buf)) (\<lambda>(m', str).
       let m'' = m'(str := EOS); i = str - buf
       in rbind (c_assert ''vsprintf'' ''i < 1024'' (sint i < 1024)) (\<lambda>_. Inr (i, m'')))"

definition sprintf :: "fpu \<Rightarrow> mem \<Rightarrow> u32 \<Rightarrow> u8 list \<Rightarrow> u32 list \<Rightarrow> (u32 \<times> mem) outcome" where
  "sprintf fp m buf fmt args = vsprintf fp m buf fmt args"

text \<open>\<open>printf\<close> formats into its static buffer of 1024 bytes and hands it to \<open>print_str\<close>.\<close>

definition printf :: "fpu \<Rightarrow> (mem \<Rightarrow> u32 \<Rightarrow> 'w \<Rightarrow> 'w) \<Rightarrow> u32 \<Rightarrow> mem \<Rightarrow> u8 list \<Rightarrow> u32 list \<Rightarrow> 'w \<Rightarrow> (mem \<times> 'w) outcome" where
  "printf fp print_str buf m fmt args w =
     rbind (vsprintf fp m buf fmt args) (\<lambda>(i, m'). Inr (m', print_str m' buf w))"

section \<open>Digits\<close>

text \<open>The value of a digit and of a numeral in a base, most significant digit first.\<close>

definition digit_value :: "u8 \<Rightarrow> nat" where
  "digit_value c = (if c \<le> 57 then unat c - 48 else if c < 97 then unat c - 55 else unat c - 87)"

definition numeral_value :: "nat \<Rightarrow> u8 list \<Rightarrow> nat" where
  "numeral_value b ds = foldl (\<lambda>v d. v * b + digit_value d) 0 ds"

lemma digit_tables:
  "\<forall>k < 36. digit_value (ascii (digit_table flags ! k)) = k \<and>
     (k < 10 \<longrightarrow> ascii (digit_table flags ! k) = 48 + of_nat k)"
proof -
  have "list_all (\<lambda>k. digit_value (ascii (t ! k)) = k \<and> (k < 10 \<longrightarrow> ascii (t ! k) = 48 + of_nat k)) [0..<36]"
    if "t = ''0123456789abcdefghijklmnopqrstuvwxyz'' \<or> t = ''0123456789ABCDEFGHIJKLMNOPQRSTUVWXYZ''" for t
    using that by (elim disjE; simp only:; code_simp)
  then show ?thesis by (simp add: digit_table_def list_all_iff)
qed

lemma digit_loop_value:
  assumes "2 \<le> unat base" and "unat base \<le> 36"
  shows "foldr (\<lambda>d v. v * unat base + digit_value d) (digit_loop (digit_table flags) base num) 0 = unat num"
  using assms
proof (induction "digit_table flags" base num rule: digit_loop.induct)
  case (1 base num)
  show ?case
  proof (cases "num = 0")
    case True
    then show ?thesis by (simp add: digit_loop.simps)
  next
    case False
    have base: "1 < base" using "1.prems"(1) by (simp add: word_less_nat_alt)
    have "unat (num mod base) < 36" using "1.prems" by (simp add: unat_mod32 order_less_le_trans [OF mod_less_divisor])
    then have "digit_value (ascii (digit_table flags ! unat (num mod base))) = unat (num mod base)"
      using digit_tables by blast
    then show ?thesis
      using "1.hyps" [OF conjI [OF False base]] "1.prems" False base div_mult_mod_eq [of "unat num" "unat base"]
      by (subst digit_loop.simps) (simp add: unat_mod32 unat_div32)
  qed
qed

lemma digit_loop_nonempty: "num \<noteq> 0 \<Longrightarrow> 1 < base \<Longrightarrow> digit_loop digits base num \<noteq> []"
  by (subst digit_loop.simps) simp

lemma digit_loop_length:
  "2 \<le> unat base \<Longrightarrow> unat num < unat base ^ k \<Longrightarrow> length (digit_loop digits base num) \<le> k"
proof (induction k arbitrary: num)
  case 0
  then have "num = 0" by (simp add: unat_eq_0)
  then show ?case by (simp add: digit_loop.simps)
next
  case (Suc k)
  have "unat num div unat base < unat base ^ k" using Suc.prems by (simp add: div_less_iff_less_mult mult.commute)
  then have "unat (num div base) < unat base ^ k" by (simp add: unat_div32)
  then show ?case using Suc.IH [OF Suc.prems(1)] by (subst digit_loop.simps) simp
qed

section \<open>Numbers in plain format\<close>

lemma sint_small: "unat (x :: u32) < 2 ^ 31 \<Longrightarrow> sint x = int (unat x)"
proof -
  assume "unat x < 2 ^ 31"
  then have "int (unat x) < int (2 ^ 31)" by (simp only: of_nat_less_iff)
  then have lt: "uint x < 2 ^ 31" by simp
  have "0 \<le> uint x" by simp
  then have "- (2 ^ 31) \<le> uint x" by (rule order_trans [rotated]) simp
  then have "signed_take_bit 31 (uint x) = uint x" using lt by (rule signed_take_bit_int_eq_self)
  then show ?thesis by (simp add: sint_uint)
qed

lemma int_base: "2 \<le> unat base \<Longrightarrow> unat base \<le> 36 \<Longrightarrow> \<not> (sint (base :: u32) < 2 \<or> sint base > 36)"
proof -
  assume b: "2 \<le> unat base" "unat base \<le> 36"
  then have "sint base = int (unat base)" by (intro sint_small) simp
  then show ?thesis using b by linarith
qed

lemma zero_or_left: "flags AND (ZEROPAD + LEFT) = 0 \<longleftrightarrow> \<not> flag flags ZEROPAD \<and> \<not> flag flags LEFT"
proof -
  have "ZEROPAD + LEFT = ZEROPAD OR LEFT" by (simp add: flag_defs)
  then show ?thesis by (simp only: flag_def bit.conj_disj_distrib or_eq_0_iff) simp
qed

text \<open>A field: the content, filled up to the width on the left, on the right or with zeros.\<close>

definition pad_field :: "u32 \<Rightarrow> int \<Rightarrow> u8 list \<Rightarrow> u8 list \<Rightarrow> u8 list" where
  "pad_field flags w head body =
     (let fill = nat (w - int (length head + length body))
      in if flag flags LEFT then head @ body @ replicate fill 32
         else if flag flags ZEROPAD then head @ replicate fill 48 @ body
         else replicate fill 32 @ head @ body)"

definition prefix_of :: "u32 \<Rightarrow> u32 \<Rightarrow> string \<Rightarrow> u8 list" where
  "prefix_of flags base digits = (if flag flags SPECIAL
     then if base = 8 then [48] else if base = 16 then [48, ascii (digits ! 33)] else [] else [])"

lemma lay_out_field:
  assumes "\<not> (flag flags LEFT \<and> flag flags ZEROPAD)"
    and "size2 = w - int (length (if sign \<noteq> 0 then [sign] else [])) - int (length (prefix_of flags base digits))"
  shows "lay_out flags base digits sign size2 precision tmp =
    pad_field flags w ((if sign \<noteq> 0 then [sign] else []) @ prefix_of flags base digits)
      (replicate (nat (precision - int (length tmp))) 48 @ rev tmp)"
proof -
  define p where "p = max (int (length tmp)) precision"
  have p: "(if int (length tmp) > precision then int (length tmp) else precision) = p" by (simp add: p_def max_def)
  have zeros: "nat (p - int (length tmp)) = nat (precision - int (length tmp))"
    "int (nat (precision - int (length tmp)) + length tmp) = p"
    by (simp_all add: p_def max_def)
  define head where "head = (if sign \<noteq> 0 then [sign] else []) @ prefix_of flags base digits"
  define body where "body = replicate (nat (precision - int (length tmp))) 48 @ rev tmp"
  have content: "w - int (length head + length body) = size2 - p"
    using assms(2) zeros(2) by (simp add: head_def body_def)
  have fill: "fst (fill_loop c n) = replicate (nat n) c" "snd (fill_loop c n) = min n 0 - 1" for c n
    by (simp_all add: fill_loop_def)
  have no_fill: "nat (min n 0 - 1) = 0" for n :: int by simp
  have "lay_out flags base digits sign size2 precision tmp = pad_field flags w head body"
    unfolding lay_out_def pad_field_def Let_def p prefix_of_def [symmetric] case_prod_unfold zero_or_left content zeros(1)
    using assms(1) by (cases "flag flags LEFT"; cases "flag flags ZEROPAD")
      (simp_all only: head_def body_def fill no_fill replicate_0 if_True if_False
        append_assoc append_Nil append_Nil2 fst_conv snd_conv simp_thms)
  then show ?thesis by (simp only: head_def body_def)
qed

text \<open>Numerals: the digits of \<open>n\<close> in base \<open>b\<close>, most significant first.\<close>

function radix :: "string \<Rightarrow> nat \<Rightarrow> nat \<Rightarrow> u8 list" where
  "radix t b n = (if n < b \<or> b < 2 then [ascii (t ! n)] else radix t b (n div b) @ [ascii (t ! (n mod b))])"
  by pat_completeness auto
termination by (relation "measure (\<lambda>(t, b, n). n)") auto

declare radix.simps [simp del]

lemma digit_loop_radix:
  assumes "2 \<le> unat base" and "num \<noteq> 0"
  shows "rev (digit_loop t base num) = radix t (unat base) (unat num)"
  using assms
proof (induction t base num rule: digit_loop.induct)
  case (1 t base num)
  have base: "1 < base" using "1.prems"(1) by (simp add: word_less_nat_alt)
  have div0: "num div base = 0 \<longleftrightarrow> unat num < unat base"
    using "1.prems"(1) by (simp add: word_unat_eq_iff unat_div32 div_eq_0_iff)
  show ?case
  proof (cases "num div base = 0")
    case True
    then show ?thesis using div0 "1.prems" base
      by (subst digit_loop.simps, subst radix.simps) (simp add: digit_loop.simps unat_mod32)
  next
    case False
    then show ?thesis using "1.IH" [OF _ "1.prems"(1) False] div0 "1.prems" base
      by (subst digit_loop.simps, subst radix.simps) (simp add: unat_mod32 unat_div32)
  qed
qed


text \<open>The number a conversion prints, without its sign, and the sign.\<close>

definition magnitude :: "u32 \<Rightarrow> u32 \<Rightarrow> nat" where
  "magnitude flags num = (if flag flags SIGN then nat \<bar>sint num\<bar> else unat num)"

definition sign_of :: "u32 \<Rightarrow> u32 \<Rightarrow> u8 list" where
  "sign_of flags num = (if flag flags SIGN \<and> sint num < 0 then [45]
     else if flag flags PLUS then [43] else if flag flags SPACE then [32] else [])"

lemma flag_mask:
  "\<not> flag (flags AND NOT ZEROPAD) ZEROPAD"
  "flag (flags AND NOT ZEROPAD) DOUBLE = flag flags DOUBLE"
  "flag (flags AND NOT ZEROPAD) SIGN = flag flags SIGN"
  "flag (flags AND NOT ZEROPAD) PLUS = flag flags PLUS"
  "flag (flags AND NOT ZEROPAD) SPACE = flag flags SPACE"
  "flag (flags AND NOT ZEROPAD) SPECIAL = flag flags SPECIAL"
  "flag (flags AND NOT ZEROPAD) LEFT = flag flags LEFT"
  by (simp_all add: flag_def flag_defs and.assoc)

lemma digit_zero: "ascii (digit_table flags ! 0) = 48"
  by (simp add: digit_table_def ascii_def)

lemma unat_neg_sint: "sint (num :: u32) < 0 \<Longrightarrow> unat (- num) = nat (- sint num)"
proof -
  assume neg: "sint num < 0"
  have bound: "- (2 ^ 31) \<le> sint num" using sint_greater_eq [of num] by simp
  have "uint (word_of_int (- sint num) :: u32) = - sint num mod 2 ^ 32" by (simp only: uint_word_of_int) simp
  also have "\<dots> = - sint num" using neg bound by (intro mod_pos_pos_trivial) simp_all
  also have "(word_of_int (- sint num) :: u32) = - num" by simp
  finally show ?thesis by (simp add: unat_eq_nat_uint)
qed

lemma unat_sint: "\<not> sint (num :: u32) < 0 \<Longrightarrow> unat num = nat (sint num)"
proof -
  assume nonneg: "\<not> sint num < 0"
  have bound: "sint num < 2 ^ 31" using sint_less [of num] by simp
  have "uint (word_of_int (sint num) :: u32) = sint num mod 2 ^ 32" by (simp only: uint_word_of_int) simp
  also have "\<dots> = sint num" using nonneg bound by (intro mod_pos_pos_trivial) simp_all
  also have "(word_of_int (sint num) :: u32) = num" by simp
  finally show ?thesis by (simp add: unat_eq_nat_uint)
qed

lemma digit_string:
  "2 \<le> unat base \<Longrightarrow> rev (if num = 0 then [48] else digit_loop (digit_table flags) base num) =
     radix (digit_table flags) (unat base) (unat num)"
  by (auto simp: digit_loop_radix radix.simps [of _ _ 0] digit_zero)

text \<open>What an integer conversion prints.\<close>

definition integer_field :: "u32 \<Rightarrow> u32 \<Rightarrow> int \<Rightarrow> int \<Rightarrow> u32 \<Rightarrow> u8 list" where
  "integer_field num base w precision flags =
     (let digits = radix (digit_table flags) (unat base) (magnitude flags num)
      in pad_field flags w (sign_of flags num @ prefix_of flags base (digit_table flags))
           (replicate (nat (precision - int (length digits))) 48 @ digits))"

lemma number_field:
  assumes "2 \<le> unat base" and "unat base \<le> 36" and "\<not> flag flags DOUBLE"
  shows "number fp num dbl base w precision flags = Some (integer_field num base w precision flags)"
proof -
  define fl where "fl = (if flag flags LEFT then flags AND NOT ZEROPAD else flags)"
  have fl: "\<not> flag fl DOUBLE" "flag fl SIGN = flag flags SIGN" "flag fl PLUS = flag flags PLUS"
      "flag fl SPACE = flag flags SPACE" "flag fl SPECIAL = flag flags SPECIAL" "flag fl LEFT = flag flags LEFT"
      "\<not> (flag fl LEFT \<and> flag fl ZEROPAD)"
    using assms(3) by (simp_all add: fl_def flag_mask)
  define neg where "neg \<longleftrightarrow> flag flags SIGN \<and> sint num < 0"
  define sign where "sign = (if neg then 45 else if flag flags PLUS then 43 else if flag flags SPACE then 32 else 0 :: u8)"
  have sgn: "(if sign \<noteq> 0 then [sign] else []) = sign_of flags num"
    by (simp add: sign_def sign_of_def neg_def)
  define mag where "mag = (if neg then - num else num)"
  have mag: "unat mag = magnitude flags num"
    using unat_neg_sint [of num] unat_sint [of num] by (simp add: mag_def neg_def magnitude_def)
  define pre where "pre = prefix_of flags base (digit_table flags)"
  have prelen: "int (length pre) = (if flag flags SPECIAL then if base = 16 then 2 else if base = 8 then 1 else 0 else 0)"
    by (simp add: pre_def prefix_of_def)
  define size2 where "size2 = w - int (length (sign_of flags num)) - int (length pre)"
  define tmp where "tmp = (if mag = 0 then [48] else digit_loop (digit_table flags) base mag)"
  have tmp: "rev tmp = radix (digit_table flags) (unat base) (magnitude flags num)"
    using digit_string [OF assms(1), of mag flags] by (simp add: tmp_def mag)
  have size2: "size2 = (if flag flags SPECIAL
      then if base = 16 then (if sign \<noteq> 0 then w - 1 else w) - 2
           else if base = 8 then (if sign \<noteq> 0 then w - 1 else w) - 1 else (if sign \<noteq> 0 then w - 1 else w)
      else (if sign \<noteq> 0 then w - 1 else w))"
    using sgn [symmetric] by (simp add: size2_def prelen)
  have triple: "(if flag fl DOUBLE \<and> fp_negative fp dbl then (45, num, fp_negate fp dbl)
      else if flag fl SIGN \<and> \<not> flag fl DOUBLE \<and> sint num < 0 then (45, - num, dbl)
      else (if flag fl PLUS then 43 else if flag fl SPACE then 32 else 0 :: u8, num, dbl)) = (sign, mag, dbl)"
    by (simp add: fl(1-4) sign_def mag_def neg_def)
  have "number fp num dbl base w precision flags =
      Some (lay_out fl base (digit_table flags) sign size2 precision tmp)"
    unfolding number_def Let_def fl_def [symmetric] triple prod.case size2 tmp_def fl(5)
    by (simp only: int_base [OF assms(1,2)] fl(1) if_False)
  also have "lay_out fl base (digit_table flags) sign size2 precision tmp =
      pad_field fl w (sign_of flags num @ pre) (replicate (nat (precision - int (length tmp))) 48 @ rev tmp)"
    using lay_out_field [OF fl(7), of size2 w sign base "digit_table flags" precision tmp]
    by (simp add: sgn size2_def pre_def prefix_of_def fl(5))
  also have "\<dots> = pad_field flags w (sign_of flags num @ pre) (replicate (nat (precision - int (length tmp))) 48 @ rev tmp)"
    unfolding pad_field_def Let_def fl(6) by (cases "flag flags LEFT") (simp_all only: if_True if_False fl_def)
  also have "\<dots> = integer_field num base w precision flags"
    by (simp only: integer_field_def pre_def Let_def tmp [symmetric] length_rev)
  finally show ?thesis .
qed

end
