(* ===== verification/Keyboard.thy ===== *)
theory Keyboard
  imports Ioqueue Vsprintf
begin

text \<open>
  \<open>src/kernel/keyboard.c\<close>: the handler of the keyboard interrupt, which turns scan codes of set 1
  into characters in the ring buffer \<open>kbd_buf\<close>. The section on the specification has a small
  machine over scan codes (\<open>kbd_step\<close>: modifiers, and the character a key gives) that the handler
  implements, and the scan codes of typing a text.
\<close>

section \<open>Data\<close>

text \<open>\<open>kbd_buf\<close> is the address of the ring buffer and \<open>kbd_port\<close> the byte that port \<open>0x60\<close> gives.\<close>

record keyboard = io +
  ctrl_status :: bool
  shift_status :: bool
  alt_status :: bool
  caps_lock_status :: bool
  ext_scancode :: bool
  kbd_buf :: u32
  kbd_port :: u8

text \<open>The two columns of the table: the character of a key, and with shift.\<close>

definition keymap_plain :: "u8 list" where
  "keymap_plain = [0, 27] @ str8 ''1234567890-='' @ [8, 9] @ str8 ''qwertyuiop[]'' @ [13, 0] @
     str8 ''asdfghjkl;'' @ [39, 96, 0, 92] @ str8 ''zxcvbnm,./'' @ [0, 42, 0, 32, 0]"

definition keymap_shift :: "u8 list" where
  "keymap_shift = [0, 27] @ str8 ''!@#$%^&*()_+'' @ [8, 9] @ str8 ''QWERTYUIOP{}'' @ [13, 0] @
     str8 ''ASDFGHJKL:'' @ [34, 126, 0, 124] @ str8 ''ZXCVBNM<>?'' @ [0, 42, 0, 32, 0]"

definition keymap :: "(u8 \<times> u8) list" where
  "keymap = zip keymap_plain keymap_shift"

section \<open>The code\<close>

definition shift_only :: "u16 \<Rightarrow> bool" where
  "shift_only scancode \<longleftrightarrow> scancode < 0x0e \<or>
     scancode \<in> {0x29, 0x1a, 0x1b, 0x2b, 0x27, 0x28, 0x33, 0x34, 0x35}"

definition handle_break :: "u16 \<Rightarrow> 'a keyboard_scheme \<Rightarrow> 'a keyboard_scheme" where
  "handle_break make_code s =
     (if make_code = 0x1d \<or> make_code = 0xe01d then s\<lparr>ctrl_status := False\<rparr>
      else if make_code = 0x2a \<or> make_code = 0x36 then s\<lparr>shift_status := False\<rparr>
      else if make_code = 0x38 \<or> make_code = 0xe038 then s\<lparr>alt_status := False\<rparr>
      else s)"

definition handle_make :: "u16 \<Rightarrow> bool \<Rightarrow> bool \<Rightarrow> 'a keyboard_scheme \<Rightarrow> 'a keyboard_scheme outcome" where
  "handle_make scancode0 shift_down_last caps_lock_last s =
     (let shift = (if shift_only scancode0 then shift_down_last
                   else if shift_down_last \<and> caps_lock_last then False
                   else shift_down_last \<or> caps_lock_last);
          scancode = scancode0 AND 0x00ff;
          cur_char = (if shift then snd else fst) (keymap ! unat scancode)
      in if cur_char \<noteq> 0
         then rbind (ioq_full (kbd_buf s) s) (\<lambda>full.
           if full then Inr s else rbind (ioq_putchar (kbd_buf s) cur_char s) (\<lambda>(_, s'). Inr s'))
         else Inr (if scancode = 0x1d \<or> scancode = 0xe01d then s\<lparr>ctrl_status := True\<rparr>
                   else if scancode = 0x2a \<or> scancode = 0x36 then s\<lparr>shift_status := True\<rparr>
                   else if scancode = 0x38 \<or> scancode = 0xe038 then s\<lparr>alt_status := True\<rparr>
                   else if scancode = 0x3a then s\<lparr>caps_lock_status := \<not> caps_lock_status s\<rparr>
                   else s))"

definition intr_keyboard_handler :: "'a keyboard_scheme \<Rightarrow> 'a keyboard_scheme outcome" where
  "intr_keyboard_handler s =
     (let shift_down_last = shift_status s;
          caps_lock_last = caps_lock_status s;
          byte = (ucast (kbd_port s) :: u16)
      in if byte = 0xe0 then Inr (s\<lparr>ext_scancode := True\<rparr>)
         else let scancode = (if ext_scancode s then 0xe000 OR byte else byte);
                  s1 = (if ext_scancode s then s\<lparr>ext_scancode := False\<rparr> else s)
           in if scancode AND 0x0080 \<noteq> 0 then Inr (handle_break (scancode AND 0xff7f) s1)
              else if (scancode > 0x00 \<and> scancode < 0x3b) \<or> scancode = 0xe038 \<or> scancode = 0xe01d
              then handle_make scancode shift_down_last caps_lock_last s1
              else Inr (kprintf ''unknown key\<newline>'' [] s1))"

definition keyboard_init :: "'a keyboard_scheme \<Rightarrow> 'a keyboard_scheme outcome" where
  "keyboard_init s =
     rbind (register_handler 0x21 KeyboardHandler (ioq_init (kbd_buf s) s))
       (\<lambda>s1. Inr (kprintf ''keyboard_init id done.\<newline>'' [] s1))"

text \<open>The interrupts of a sequence of scan codes.\<close>

fun key_run :: "u8 list \<Rightarrow> 'a keyboard_scheme \<Rightarrow> 'a keyboard_scheme outcome" where
  "key_run [] s = Inr s"
| "key_run (b # bs) s = rbind (intr_keyboard_handler (s\<lparr>kbd_port := b\<rparr>)) (key_run bs)"

section \<open>Specification\<close>

record mods =
  m_ctrl :: bool
  m_shift :: bool
  m_alt :: bool
  m_caps :: bool
  m_ext :: bool

text \<open>Caps lock is for letters only; shift with caps lock gives small letters.\<close>

definition typed :: "u8 \<Rightarrow> bool \<Rightarrow> bool \<Rightarrow> u8" where
  "typed code shift caps =
     (let plain = keymap_plain ! unat code
      in if (if 97 \<le> plain \<and> plain \<le> 122 then shift \<noteq> caps else shift) then keymap_shift ! unat code else plain)"

text \<open>A key goes down or up; with the prefix only the right Ctrl and Alt keys mean something.\<close>

definition press :: "bool \<Rightarrow> u8 \<Rightarrow> mods \<Rightarrow> mods \<times> u8 option" where
  "press ext key m =
     (if key = 0x1d then (m\<lparr>m_ctrl := True\<rparr>, None)
      else if key = 0x38 then (m\<lparr>m_alt := True\<rparr>, None)
      else if ext then (m, None)
      else if key = 0x2a \<or> key = 0x36 then (m\<lparr>m_shift := True\<rparr>, None)
      else if key = 0x3a then (m\<lparr>m_caps := \<not> m_caps m\<rparr>, None)
      else if 0 < key \<and> key < 0x3a then (m, Some (typed key (m_shift m) (m_caps m)))
      else (m, None))"

definition release :: "bool \<Rightarrow> u8 \<Rightarrow> mods \<Rightarrow> mods" where
  "release ext key m =
     (if key = 0x1d then m\<lparr>m_ctrl := False\<rparr>
      else if key = 0x38 then m\<lparr>m_alt := False\<rparr>
      else if \<not> ext \<and> (key = 0x2a \<or> key = 0x36) then m\<lparr>m_shift := False\<rparr>
      else m)"

definition kbd_step :: "u8 \<Rightarrow> mods \<Rightarrow> mods \<times> u8 option" where
  "kbd_step b m =
     (if b = 0xe0 then (m\<lparr>m_ext := True\<rparr>, None)
      else if b < 0x80 then press (m_ext m) b (m\<lparr>m_ext := False\<rparr>)
      else (release (m_ext m) (b AND 0x7f) (m\<lparr>m_ext := False\<rparr>), None))"

fun kbd_steps :: "u8 list \<Rightarrow> mods \<Rightarrow> mods \<times> u8 list" where
  "kbd_steps [] m = (m, [])"
| "kbd_steps (b # bs) m =
     (let (m1, c) = kbd_step b m; (m2, cs) = kbd_steps bs m1
      in (m2, (case c of None \<Rightarrow> cs | Some c \<Rightarrow> c # cs)))"

section \<open>Scan codes as 16-bit words\<close>

lemma unat_wide: "unat (ucast (b :: u8) :: u16) = unat b"
  by transfer simp

lemma unat_byte: "unat (b :: u8) < 256" using unsigned_less [of b] by simp

lemma wide_eq: "(ucast (b :: u8) :: u16) = ucast c \<longleftrightarrow> b = c"
  by (simp add: word_unat_eq_iff unat_wide)

lemma top_bit: "bit (b :: u8) 7 \<longleftrightarrow> \<not> b < 0x80"
proof -
  have "bit b 7 \<longleftrightarrow> bit (unat b) 7" by (simp add: bit_unsigned_iff)
  also have "\<dots> \<longleftrightarrow> odd (unat b div 128)" by (simp add: bit_iff_odd)
  also have "\<dots> \<longleftrightarrow> \<not> unat b < 128"
  proof (cases "unat b < 128")
    case False
    then have "unat b div 128 = 1" using unat_byte [of b] by (intro div_nat_eqI) simp_all
    then show ?thesis using False by simp
  qed simp
  finally show ?thesis by (simp add: word_less_nat_alt)
qed

lemma and_0x80: "(x :: u16) AND 0x80 \<noteq> 0 \<longleftrightarrow> bit x 7"
  using and_exp_eq_0_iff_not_bit [of x 7] by simp

lemma bit_ext: "bit ((0xe000 :: u16) OR ucast (b :: u8)) 7 = bit b 7"
  by (simp add: bit_simps)

lemma break_plain: "(ucast (b :: u8) :: u16) AND 0xff7f = ucast (b AND 0x7f)"
proof (rule bit_word_eqI)
  fix n assume n: "n < LENGTH(16)"
  have l: "(0xff7f :: u16) = NOT (2 ^ 7)" "(0x7f :: u8) = mask 7" by (simp_all add: mask_eq_exp_minus_1)
  show "bit ((ucast b :: u16) AND 0xff7f) n = bit (ucast (b AND 0x7f) :: u16) n"
    unfolding l bit_and_iff bit_not_iff bit_exp_iff using n bit_imp_le_length [of b n] by (auto simp: bit_simps)
qed

lemma break_ext: "((0xe000 :: u16) OR ucast (b :: u8)) AND 0xff7f = 0xe000 OR ucast (b AND 0x7f)"
proof -
  have e: "((0xe000 :: u16) OR ucast b) AND 0xff7f = (0xe000 AND 0xff7f) OR (ucast b AND 0xff7f)"
    by (rule bit.conj_disj_distrib2)
  show ?thesis unfolding e break_plain by simp
qed

lemma low_plain: "(ucast (b :: u8) :: u16) AND 0xff = ucast b"
proof (rule bit_word_eqI)
  fix n assume n: "n < LENGTH(16)"
  have l: "(0xff :: u16) = mask 8" by (simp add: mask_eq_exp_minus_1)
  show "bit ((ucast b :: u16) AND 0xff) n = bit (ucast b :: u16) n"
    unfolding l using n bit_imp_le_length [of b n] by (auto simp: bit_simps)
qed

lemma low_ext: "((0xe000 :: u16) OR ucast (b :: u8)) AND 0xff = ucast b"
proof -
  have e: "((0xe000 :: u16) OR ucast b) AND 0xff = (0xe000 AND 0xff) OR (ucast b AND 0xff)"
    by (rule bit.conj_disj_distrib2)
  show ?thesis unfolding e low_plain by simp
qed

lemma ext_eq: "((0xe000 :: u16) OR ucast (b :: u8)) = 0xe000 OR ucast c \<longleftrightarrow> b = c"
  using low_ext wide_eq by metis

lemma ext_ge: "0xe000 \<le> ((0xe000 :: u16) OR ucast (b :: u8))"
proof -
  have "(0xe000 :: u16) AND (0xe000 OR ucast b) = 0xe000" by simp
  then show ?thesis by (metis word_and_le1)
qed

lemma wide_lit: "(ucast (b :: u8) :: u16) = ucast c \<longleftrightarrow> b = c"
  by (rule wide_eq)

lemma wide_eqs:
  fixes b :: u8
  shows "(ucast b :: u16) = 0xe0 \<longleftrightarrow> b = 0xe0" "(ucast b :: u16) = 0x1d \<longleftrightarrow> b = 0x1d"
    "(ucast b :: u16) = 0x2a \<longleftrightarrow> b = 0x2a" "(ucast b :: u16) = 0x36 \<longleftrightarrow> b = 0x36"
    "(ucast b :: u16) = 0x38 \<longleftrightarrow> b = 0x38" "(ucast b :: u16) = 0x3a \<longleftrightarrow> b = 0x3a"
    "(ucast b :: u16) \<noteq> 0xe01d" "(ucast b :: u16) \<noteq> 0xe038"
  using wide_eq [of b "0xe0"] wide_eq [of b "0x1d"] wide_eq [of b "0x2a"] wide_eq [of b "0x36"]
    wide_eq [of b "0x38"] wide_eq [of b "0x3a"] unat_byte [of b]
  by (simp_all add: word_unat_eq_iff [of _ "0xe01d"] word_unat_eq_iff [of _ "0xe038"] unat_wide)

lemma ext_eqs:
  fixes b :: u8
  shows "(0xe000 :: u16) OR ucast b = 0xe01d \<longleftrightarrow> b = 0x1d" "(0xe000 :: u16) OR ucast b = 0xe038 \<longleftrightarrow> b = 0x38"
    "(0xe000 :: u16) OR ucast b \<noteq> 0x1d" "(0xe000 :: u16) OR ucast b \<noteq> 0x2a" "(0xe000 :: u16) OR ucast b \<noteq> 0x36"
    "(0xe000 :: u16) OR ucast b \<noteq> 0x38" "\<not> (0xe000 :: u16) OR ucast b < 0x3b" "0 < (0xe000 :: u16) OR ucast b"
proof -
  show "(0xe000 :: u16) OR ucast b = 0xe01d \<longleftrightarrow> b = 0x1d" "(0xe000 :: u16) OR ucast b = 0xe038 \<longleftrightarrow> b = 0x38"
    using ext_eq [of b "0x1d"] ext_eq [of b "0x38"] by simp_all
  have ge: "0xe000 \<le> unat ((0xe000 :: u16) OR ucast b)" using ext_ge [of b] by (simp add: word_le_nat_alt)
  show "(0xe000 :: u16) OR ucast b \<noteq> 0x1d" "(0xe000 :: u16) OR ucast b \<noteq> 0x2a" "(0xe000 :: u16) OR ucast b \<noteq> 0x36"
    "(0xe000 :: u16) OR ucast b \<noteq> 0x38" "\<not> (0xe000 :: u16) OR ucast b < 0x3b" "0 < (0xe000 :: u16) OR ucast b"
    using ge by (auto simp: word_less_nat_alt)
qed

section \<open>The table\<close>

lemma length_keymap: "length keymap = 59" "length keymap_plain = 59" "length keymap_shift = 59"
  by (simp_all add: keymap_def keymap_plain_def keymap_shift_def str8_def)

text \<open>Which keys have a character, and that the code's list of keys without caps lock is right.\<close>

definition key_row_ok :: "nat \<Rightarrow> u8 \<Rightarrow> u8 \<Rightarrow> bool" where
  "key_row_ok k plain shifted \<longleftrightarrow>
     (if k \<in> {0, 0x1d, 0x2a, 0x36, 0x38, 0x3a} then plain = 0 \<and> shifted = 0
      else plain \<noteq> 0 \<and> shifted \<noteq> 0 \<and>
        (plain = shifted \<or> (shift_only (of_nat k) \<longleftrightarrow> \<not> (97 \<le> plain \<and> plain \<le> 122))))"

lemma key_rows: "list_all (\<lambda>(k, p, q). key_row_ok k p q) (zip [0..<59] (zip keymap_plain keymap_shift))"
  by code_simp

lemma key_row: "k < 59 \<Longrightarrow> key_row_ok k (keymap_plain ! k) (keymap_shift ! k)"
proof -
  assume k: "k < 59"
  let ?rows = "zip [0..<59] (zip keymap_plain keymap_shift)"
  have "?rows ! k = (k, keymap_plain ! k, keymap_shift ! k)" using k by (simp add: length_keymap)
  moreover have "?rows ! k \<in> set ?rows" using k by (intro nth_mem) (simp add: length_keymap)
  ultimately show ?thesis using key_rows by (fastforce simp: list_all_iff)
qed

lemma wide_of_nat: "(of_nat (unat (b :: u8)) :: u16) = ucast b"
  by (rule word_unat_eq_iff [THEN iffD2]) (use unat_byte [of b] in \<open>simp add: unat_wide unat_of_nat\<close>)

lemma key_char:
  assumes "unat b < 59"
  shows "(if (if shift_only (ucast b) then shift else if shift \<and> caps then False else shift \<or> caps) then snd else fst)
      (keymap ! unat b) = (if b \<in> {0, 0x1d, 0x2a, 0x36, 0x38, 0x3a} then 0 else typed b shift caps)"
    and "b \<notin> {0, 0x1d, 0x2a, 0x36, 0x38, 0x3a} \<Longrightarrow> typed b shift caps \<noteq> 0"
proof -
  have special: "unat b \<in> {0, 0x1d, 0x2a, 0x36, 0x38, 0x3a} \<longleftrightarrow> b \<in> {0, 0x1d, 0x2a, 0x36, 0x38, 0x3a}"
    by (simp add: word_unat_eq_iff)
  have pair: "keymap ! unat b = (keymap_plain ! unat b, keymap_shift ! unat b)"
    using assms by (simp add: keymap_def length_keymap)
  note row = key_row [OF assms, unfolded key_row_ok_def special wide_of_nat]
  show "(if (if shift_only (ucast b) then shift else if shift \<and> caps then False else shift \<or> caps) then snd else fst)
      (keymap ! unat b) = (if b \<in> {0, 0x1d, 0x2a, 0x36, 0x38, 0x3a} then 0 else typed b shift caps)"
    using row unfolding pair typed_def Let_def by (cases shift; cases caps) (auto split: if_splits)
  show "typed b shift caps \<noteq> 0" if "b \<notin> {0, 0x1d, 0x2a, 0x36, 0x38, 0x3a}"
    using row that unfolding typed_def Let_def by (auto split: if_splits)
qed

section \<open>The handler implements the specification\<close>

definition kmods :: "'a keyboard_scheme \<Rightarrow> mods" where
  "kmods s = \<lparr>m_ctrl = ctrl_status s, m_shift = shift_status s, m_alt = alt_status s,
     m_caps = caps_lock_status s, m_ext = ext_scancode s\<rparr>"

definition set_mods :: "mods \<Rightarrow> 'a keyboard_scheme \<Rightarrow> 'a keyboard_scheme" where
  "set_mods m s = s\<lparr>ctrl_status := m_ctrl m, shift_status := m_shift m, alt_status := m_alt m,
     caps_lock_status := m_caps m, ext_scancode := m_ext m\<rparr>"

definition ring_offer :: "u8 \<Rightarrow> ioqueue \<Rightarrow> ioqueue" where
  "ring_offer c r = (if ring_full r then r else ring_put c r)"

definition offer_char :: "u8 option \<Rightarrow> 'a keyboard_scheme \<Rightarrow> 'a keyboard_scheme" where
  "offer_char c s = (case c of None \<Rightarrow> s | Some c \<Rightarrow> upd_ioq (kbd_buf s) (ring_offer c) s)"

text \<open>Equal up to the messages of the kernel.\<close>

definition same_but_kmsg :: "'a cpu_scheme \<Rightarrow> 'a cpu_scheme \<Rightarrow> bool" where
  "same_but_kmsg s s' \<longleftrightarrow> (\<exists>k. s' = s\<lparr>kmsg := k\<rparr>)"

lemma same_but_kmsg_refl: "same_but_kmsg s s"
  unfolding same_but_kmsg_def by (rule exI [of _ "kmsg s"]) simp

lemma handle_make_char:
  fixes s :: "'a keyboard_scheme"
  assumes "intr_get_status s = INTR_OFF" and "ring_ok (ioqs s (kbd_buf s))" and "consumer (ioqs s (kbd_buf s)) = NULL"
    and "unat key < 59"
    and "key \<notin> {0, 0x1d, 0x2a, 0x36, 0x38, 0x3a}"
  shows "handle_make (ucast key) shift caps s = Inr (offer_char (Some (typed key shift caps)) s)"
proof -
  have c: "typed key shift caps \<noteq> 0" using key_char(2) [OF assms(4,5)] .
  have full: "ioq_full (kbd_buf s) s = Inr (ring_full (ioqs s (kbd_buf s)))"
    using assms(1) by (simp add: ioq_full_def assert_intr_off_def)
  have skip: "upd_ioq q (ring_offer x) s = s" if "ring_full (ioqs s q)" for q x
    using that by (simp add: upd_ioq_def ring_offer_def fun_upd_idem)
  have put: "ioq_putchar (kbd_buf s) x s = Inr (Done (), upd_ioq (kbd_buf s) (ring_offer x) s)"
    if "\<not> ring_full (ioqs s (kbd_buf s))" for x
    using ioq_putchar_quiet [OF assms(1,2) that assms(3)] that by (simp add: upd_ioq_def ring_offer_def)
  have ch: "(if (if shift_only (ucast key) then shift else if shift \<and> caps then False else shift \<or> caps) then snd else fst)
      (keymap ! unat key) = typed key shift caps"
    unfolding key_char(1) [OF assms(4)] using assms(5) by (rule if_not_P)
  show ?thesis
    unfolding handle_make_def Let_def low_plain unat_wide ch full rbind_simps offer_char_def
    using c skip put by (cases "ring_full (ioqs s (kbd_buf s))") simp_all
qed

lemma handle_make_mod:
  fixes s :: "'a keyboard_scheme" and key :: u8
  assumes "sc = ucast key \<or> sc = 0xe000 OR ucast key" and "key \<in> {0x1d, 0x2a, 0x36, 0x38, 0x3a}"
  shows "handle_make sc shift caps s =
    Inr (if key = 0x1d then s\<lparr>ctrl_status := True\<rparr> else if key = 0x2a \<or> key = 0x36 then s\<lparr>shift_status := True\<rparr>
      else if key = 0x38 then s\<lparr>alt_status := True\<rparr> else s\<lparr>caps_lock_status := \<not> caps_lock_status s\<rparr>)"
proof -
  have low: "sc AND 0xff = ucast key"
    using assms(1) by (elim disjE; hypsubst; intro low_plain low_ext)
  have "unat key < 59" "unat key \<in> {0, 0x1d, 0x2a, 0x36, 0x38, 0x3a}" using assms(2) by auto
  then have "keymap_plain ! unat key = 0 \<and> keymap_shift ! unat key = 0"
    using key_row [of "unat key"] unfolding key_row_ok_def by (simp only: if_True)
  then have ch: "(if b then snd else fst) (keymap ! unat key) = 0" for b
    using \<open>unat key < 59\<close> by (simp add: keymap_def length_keymap)
  show ?thesis
    unfolding handle_make_def Let_def low unat_wide ch wide_eqs using assms(2) by (auto simp: wide_eqs)
qed

lemma handle_break_plain:
  fixes key :: u8
  shows "handle_break (ucast key) s =
    (if key = 0x1d then s\<lparr>ctrl_status := False\<rparr> else if key = 0x2a \<or> key = 0x36 then s\<lparr>shift_status := False\<rparr>
     else if key = 0x38 then s\<lparr>alt_status := False\<rparr> else s)"
  unfolding handle_break_def by (simp only: wide_eqs simp_thms)

lemma handle_break_ext:
  fixes key :: u8
  shows "handle_break (0xe000 OR ucast key) s =
    (if key = 0x1d then s\<lparr>ctrl_status := False\<rparr> else if key = 0x38 then s\<lparr>alt_status := False\<rparr> else s)"
  unfolding handle_break_def by (simp only: ext_eqs simp_thms if_False)

lemma wide_range:
  fixes b :: u8
  shows "(0 < (ucast b :: u16) \<and> (ucast b :: u16) < 0x3b) = (b \<noteq> 0 \<and> unat b < 59)"
  by (auto simp: word_less_nat_alt unat_wide word_unat_eq_iff)

lemma mods_eta: "set_mods (kmods s) s = s"
  by (simp add: set_mods_def kmods_def)

lemma intr_get_status_ext: "intr_get_status (s\<lparr>ext_scancode := b\<rparr>) = intr_get_status s"
  by (simp add: intr_get_status_def)

lemma unknown_key:
  fixes b :: u8 and sc :: u16
  assumes "\<not> ((0 < sc \<and> sc < 0x3b) \<or> sc = 0xe038 \<or> sc = 0xe01d)" and "sc = (if ext then 0xe000 OR ucast b else (ucast b :: u16))"
  shows "press ext b m = (m, None)"
proof (cases ext)
  case True
  then have "b \<noteq> 0x1d \<and> b \<noteq> 0x38" using assms by (simp only: if_True ext_eqs simp_thms de_Morgan_disj)
  then show ?thesis using True by (simp add: press_def)
next
  case False
  then have "b = 0 \<or> \<not> unat b < 59" using assms by (simp only: if_False wide_range de_Morgan_disj) blast
  then show ?thesis using False by (auto simp: press_def word_less_nat_alt word_unat_eq_iff)
qed

lemma known_key:
  fixes b :: u8 and sc :: u16
  assumes "(0 < sc \<and> sc < 0x3b) \<or> sc = 0xe038 \<or> sc = 0xe01d" and "sc = (if ext then 0xe000 OR ucast b else (ucast b :: u16))"
  shows "(\<not> ext \<and> unat b < 59 \<and> b \<notin> {0, 0x1d, 0x2a, 0x36, 0x38, 0x3a}) \<or>
    (b \<in> {0x1d, 0x2a, 0x36, 0x38, 0x3a} \<and> (ext \<longrightarrow> b = 0x1d \<or> b = 0x38))"
proof (cases ext)
  case True
  then have "b = 0x1d \<or> b = 0x38" using assms by (simp only: if_True ext_eqs simp_thms) blast
  then show ?thesis by auto
next
  case False
  then have "b \<noteq> 0 \<and> unat b < 59" using assms by (simp only: if_False wide_range wide_eqs simp_thms)
  then show ?thesis using False by auto
qed

lemma press_char:
  assumes "unat b < 59" and "b \<notin> {0, 0x1d, 0x2a, 0x36, 0x38, 0x3a}"
  shows "press False b m = (m, Some (typed b (m_shift m) (m_caps m)))"
proof -
  have "0 < b" using assms(2) by (simp add: word_neq_0_conv [symmetric])
  moreover have "unat b \<noteq> 58" using assms(2) by (simp add: word_unat_eq_iff)
  then have "b < 0x3a" using assms(1) by (simp add: word_less_nat_alt)
  ultimately show ?thesis using assms(2) by (simp add: press_def)
qed

lemma press_mod:
  assumes "b \<in> {0x1d, 0x2a, 0x36, 0x38, 0x3a}" and "ext \<longrightarrow> b = 0x1d \<or> b = 0x38"
  shows "press ext b m = (if b = 0x1d then m\<lparr>m_ctrl := True\<rparr> else if b = 0x2a \<or> b = 0x36 then m\<lparr>m_shift := True\<rparr>
      else if b = 0x38 then m\<lparr>m_alt := True\<rparr> else m\<lparr>m_caps := \<not> m_caps m\<rparr>, None)"
  using assms by (cases ext) (auto simp: press_def)

lemma make_step:
  fixes s :: "'a keyboard_scheme"
  defines "s1 \<equiv> set_mods ((kmods s)\<lparr>m_ext := False\<rparr>) s"
    and "sc \<equiv> (if ext_scancode s then 0xe000 OR ucast (kbd_port s) else (ucast (kbd_port s) :: u16))"
  assumes off: "intr_get_status s = INTR_OFF" and ring: "ring_ok (ioqs s (kbd_buf s))" "consumer (ioqs s (kbd_buf s)) = NULL"
    and press: "press (m_ext (kmods s)) (kbd_port s) ((kmods s)\<lparr>m_ext := False\<rparr>) = (m', c)"
  shows "\<exists>s'. (if (sc > 0 \<and> sc < 0x3b) \<or> sc = 0xe038 \<or> sc = 0xe01d then handle_make sc (shift_status s) (caps_lock_status s) s1
      else Inr (kprintf ''unknown key\<newline>'' [] s1)) = Inr s' \<and> same_but_kmsg (offer_char c (set_mods m' s)) s'"
    (is "\<exists>s'. ?run = Inr s' \<and> _")
proof -
  have s1: "s1 = set_mods ((kmods s)\<lparr>m_ext := False\<rparr>) s" by (simp add: s1_def)
  have sc_eq: "sc = (if ext_scancode s then 0xe000 OR ucast (kbd_port s) else ucast (kbd_port s))" by (simp only: sc_def)
  have s1f: "intr_get_status s1 = INTR_OFF" "ring_ok (ioqs s1 (kbd_buf s1))" "consumer (ioqs s1 (kbd_buf s1)) = NULL"
    using off ring by (simp_all add: s1_def set_mods_def kmods_def intr_get_status_ext)
  have ret: ?thesis if "?run = Inr (offer_char c (set_mods m' s))"
    using that same_but_kmsg_refl by blast
  have ext: "m_ext (kmods s) = ext_scancode s" by (simp add: kmods_def)
  show ?thesis
  proof (cases "sc > 0 \<and> sc < 0x3b \<or> sc = 0xe038 \<or> sc = 0xe01d")
    case False
    then have "m' = (kmods s)\<lparr>m_ext := False\<rparr>" "c = None"
      using press unknown_key [where ext = "ext_scancode s" and b = "kbd_port s"] unfolding sc_def [symmetric] ext by simp_all
    moreover have "?run = Inr (kprintf ''unknown key\<newline>'' [] s1)"
      by (rule if_not_P [OF False])
    moreover have "same_but_kmsg s1 (kprintf ''unknown key\<newline>'' [] s1)"
      unfolding same_but_kmsg_def kprintf_def by (rule exI) (rule refl)
    ultimately show ?thesis by (simp add: offer_char_def s1)
  next
    case known: True
    have go: "?run = handle_make sc (shift_status s) (caps_lock_status s) s1"
      using known by simp
    consider (char) "\<not> ext_scancode s" "unat (kbd_port s) < 59" "kbd_port s \<notin> {0, 0x1d, 0x2a, 0x36, 0x38, 0x3a}"
      | (mod) "kbd_port s \<in> {0x1d, 0x2a, 0x36, 0x38, 0x3a}" "ext_scancode s \<longrightarrow> kbd_port s = 0x1d \<or> kbd_port s = 0x38"
      using known_key [OF known sc_eq] by blast
    then show ?thesis
    proof cases
      case char
      have sc: "sc = ucast (kbd_port s)" using char by (simp add: sc_def)
      have "?run = Inr (offer_char (Some (typed (kbd_port s) (shift_status s) (caps_lock_status s))) s1)"
        by (rule trans [OF go], unfold sc, rule handle_make_char [OF s1f(1-3) char(2,3)])
      moreover have "m' = (kmods s)\<lparr>m_ext := False\<rparr>" "c = Some (typed (kbd_port s) (shift_status s) (caps_lock_status s))"
        using press press_char [OF char(2,3), of "(kmods s)\<lparr>m_ext := False\<rparr>"] char(1) unfolding ext by (simp_all add: kmods_def)
      ultimately show ?thesis by (intro ret) (simp add: s1)
    next
      case mod
      have "sc = ucast (kbd_port s) \<or> sc = 0xe000 OR ucast (kbd_port s)" by (simp add: sc_def)
      then have "handle_make sc (shift_status s) (caps_lock_status s) s1 = Inr (if kbd_port s = 0x1d then s1\<lparr>ctrl_status := True\<rparr>
          else if kbd_port s = 0x2a \<or> kbd_port s = 0x36 then s1\<lparr>shift_status := True\<rparr>
          else if kbd_port s = 0x38 then s1\<lparr>alt_status := True\<rparr> else s1\<lparr>caps_lock_status := \<not> caps_lock_status s1\<rparr>)"
        by (rule handle_make_mod [OF _ mod(1)])
      moreover have "c = None" "set_mods m' s = (if kbd_port s = 0x1d then s1\<lparr>ctrl_status := True\<rparr>
          else if kbd_port s = 0x2a \<or> kbd_port s = 0x36 then s1\<lparr>shift_status := True\<rparr>
          else if kbd_port s = 0x38 then s1\<lparr>alt_status := True\<rparr> else s1\<lparr>caps_lock_status := \<not> caps_lock_status s1\<rparr>)"
        using press press_mod [OF mod, of "(kmods s)\<lparr>m_ext := False\<rparr>"] unfolding ext by (simp_all add: s1 set_mods_def kmods_def)
      ultimately show ?thesis by (intro ret trans [OF go]) (simp only: offer_char_def option.case)
    qed
  qed
qed

lemma handler_step:
  fixes s :: "'a keyboard_scheme"
  assumes off: "intr_get_status s = INTR_OFF" and ring: "ring_ok (ioqs s (kbd_buf s))" "consumer (ioqs s (kbd_buf s)) = NULL"
    and step: "kbd_step (kbd_port s) (kmods s) = (m', c)"
  shows "\<exists>s'. intr_keyboard_handler s = Inr s' \<and> same_but_kmsg (offer_char c (set_mods m' s)) s'"
proof -
  let ?b = "kbd_port s"
  define s1 where "s1 = (if ext_scancode s then s\<lparr>ext_scancode := False\<rparr> else s)"
  define sc where "sc = (if ext_scancode s then 0xe000 OR ucast ?b else (ucast ?b :: u16))"
  have s1: "s1 = set_mods ((kmods s)\<lparr>m_ext := False\<rparr>) s" by (simp add: s1_def set_mods_def kmods_def)
  have s1f: "intr_get_status s1 = INTR_OFF" "ring_ok (ioqs s1 (kbd_buf s1))" "consumer (ioqs s1 (kbd_buf s1)) = NULL"
    "shift_status s1 = shift_status s" "caps_lock_status s1 = caps_lock_status s"
    using off ring by (simp_all add: s1_def intr_get_status_ext)
  have ret: ?thesis if "intr_keyboard_handler s = Inr (offer_char c (set_mods m' s))"
    using that same_but_kmsg_refl by blast
  show ?thesis
  proof (cases "?b = 0xe0")
    case True
    then have "m' = (kmods s)\<lparr>m_ext := True\<rparr>" "c = None" using step by (simp_all add: kbd_step_def)
    then show ?thesis
      using True by (intro ret) (simp add: intr_keyboard_handler_def Let_def wide_eqs offer_char_def set_mods_def kmods_def)
  next
    case not_prefix: False
    have top: "sc AND 0x80 \<noteq> 0 \<longleftrightarrow> \<not> ?b < 0x80"
      unfolding sc_def and_0x80 by (simp add: bit_ext top_bit) (simp add: bit_simps top_bit)
    have run: "intr_keyboard_handler s = (if \<not> ?b < 0x80 then Inr (handle_break (sc AND 0xff7f) s1)
        else if (sc > 0 \<and> sc < 0x3b) \<or> sc = 0xe038 \<or> sc = 0xe01d then handle_make sc (shift_status s) (caps_lock_status s) s1
        else Inr (kprintf ''unknown key\<newline>'' [] s1))"
      unfolding intr_keyboard_handler_def Let_def sc_def [symmetric] s1_def [symmetric] wide_eqs top using not_prefix by simp
    show ?thesis
    proof (cases "?b < 0x80")
      case False
      have "sc AND 0xff7f = (if ext_scancode s then 0xe000 OR ucast (?b AND 0x7f) else ucast (?b AND 0x7f))"
        unfolding sc_def by (simp only: break_ext break_plain split: if_split) simp
      moreover have "m' = release (m_ext (kmods s)) (?b AND 0x7f) ((kmods s)\<lparr>m_ext := False\<rparr>)" "c = None"
        using step not_prefix False by (simp_all add: kbd_step_def)
      ultimately show ?thesis
        using False unfolding s1
        by (intro ret) (simp add: run handle_break_plain handle_break_ext release_def offer_char_def s1 set_mods_def kmods_def)
    next
      case down: True
      have press: "press (m_ext (kmods s)) ?b ((kmods s)\<lparr>m_ext := False\<rparr>) = (m', c)"
        using step not_prefix down by (simp add: kbd_step_def)
      from make_step [OF off ring press] show ?thesis
        using down unfolding run sc_def s1 by (simp only: if_True not_True_eq_False if_False)
    qed
  qed
qed

section \<open>Sequences of scan codes\<close>

definition kbd_ready :: "'a keyboard_scheme \<Rightarrow> bool" where
  "kbd_ready s \<longleftrightarrow> intr_get_status s = INTR_OFF \<and> ring_ok (ioqs s (kbd_buf s)) \<and> consumer (ioqs s (kbd_buf s)) = NULL"

lemma ring_offer_keeps:
  "ring_ok r \<Longrightarrow> ring_ok (ring_offer c r)" "consumer (ring_offer c r) = consumer r" "producer (ring_offer c r) = producer r"
  using ring.put_ok [of r c] by (simp_all add: ring_offer_def) (simp_all add: ring_put_def)

lemma step_fields:
  fixes s :: "'a keyboard_scheme"
  assumes "same_but_kmsg (offer_char c (set_mods m s)) s'"
  shows "kmods s' = m" "kbd_buf s' = kbd_buf s" "intr_get_status s' = intr_get_status s" "tasks s' = tasks s"
    "ioqs s' = (ioqs s)(kbd_buf s := fold ring_offer (case c of None \<Rightarrow> [] | Some c \<Rightarrow> [c]) (ioqs s (kbd_buf s)))"
proof -
  obtain k where s': "s' = (offer_char c (set_mods m s))\<lparr>kmsg := k\<rparr>" using assms by (auto simp: same_but_kmsg_def)
  show "kmods s' = m" "kbd_buf s' = kbd_buf s" "intr_get_status s' = intr_get_status s" "tasks s' = tasks s"
    "ioqs s' = (ioqs s)(kbd_buf s := fold ring_offer (case c of None \<Rightarrow> [] | Some c \<Rightarrow> [c]) (ioqs s (kbd_buf s)))"
    by (cases c; simp add: s' offer_char_def set_mods_def kmods_def upd_ioq_def intr_get_status_def)+
qed

lemma kbd_step_ready:
  fixes s :: "'a keyboard_scheme"
  assumes "kbd_ready s" and "kbd_step b (kmods s) = (m', c)"
  shows "\<exists>s'. intr_keyboard_handler (s\<lparr>kbd_port := b\<rparr>) = Inr s' \<and> kbd_ready s' \<and> kmods s' = m' \<and>
    kbd_buf s' = kbd_buf s \<and> tasks s' = tasks s \<and>
    ioqs s' = (ioqs s)(kbd_buf s := fold ring_offer (case c of None \<Rightarrow> [] | Some c \<Rightarrow> [c]) (ioqs s (kbd_buf s)))"
proof -
  let ?s = "s\<lparr>kbd_port := b\<rparr>"
  have ready: "intr_get_status ?s = INTR_OFF" "ring_ok (ioqs ?s (kbd_buf ?s))" "consumer (ioqs ?s (kbd_buf ?s)) = NULL"
    using assms(1) by (simp_all add: kbd_ready_def intr_get_status_def)
  have "kbd_step (kbd_port ?s) (kmods ?s) = (m', c)" using assms(2) by (simp add: kmods_def)
  from handler_step [OF ready this] obtain s' where
    s': "intr_keyboard_handler ?s = Inr s'" "same_but_kmsg (offer_char c (set_mods m' ?s)) s'" by blast
  note f = step_fields [OF s'(2)]
  have "kbd_ready s'"
    using ready by (cases c) (simp_all add: kbd_ready_def f ring_offer_keeps)
  then show ?thesis using s'(1) f by simp
qed

lemma key_run_steps:
  fixes s :: "'a keyboard_scheme"
  assumes "kbd_ready s" and "kbd_steps bs (kmods s) = (m', cs)"
  shows "\<exists>s'. key_run bs s = Inr s' \<and> kbd_ready s' \<and> kmods s' = m' \<and> kbd_buf s' = kbd_buf s \<and> tasks s' = tasks s \<and>
    ioqs s' = (ioqs s)(kbd_buf s := fold ring_offer cs (ioqs s (kbd_buf s)))"
  using assms
proof (induction bs arbitrary: s m' cs)
  case Nil
  then show ?case by simp
next
  case (Cons b bs)
  obtain m1 c where st: "kbd_step b (kmods s) = (m1, c)" by (cases "kbd_step b (kmods s)")
  obtain m2 cs2 where rest: "kbd_steps bs m1 = (m2, cs2)" by (cases "kbd_steps bs m1")
  from Cons.prems(2) have out: "m' = m2" "cs = (case c of None \<Rightarrow> [] | Some c \<Rightarrow> [c]) @ cs2"
    by (simp_all add: st rest split: option.splits)
  obtain s1 where s1: "intr_keyboard_handler (s\<lparr>kbd_port := b\<rparr>) = Inr s1" "kbd_ready s1" "kmods s1 = m1"
    "kbd_buf s1 = kbd_buf s" "tasks s1 = tasks s"
    "ioqs s1 = (ioqs s)(kbd_buf s := fold ring_offer (case c of None \<Rightarrow> [] | Some c \<Rightarrow> [c]) (ioqs s (kbd_buf s)))"
    using kbd_step_ready [OF Cons.prems(1) st] by blast
  have "kbd_steps bs (kmods s1) = (m2, cs2)" by (simp add: s1(3) rest)
  from Cons.IH [OF s1(2) this] show ?case
    unfolding out s1(4-6) fun_upd_upd fun_upd_same key_run.simps s1(1) rbind_simps by simp
qed

lemma ring_items_offers:
  "ring_ok r \<Longrightarrow> ring_items (fold ring_offer cs r) = take 63 (ring_items r @ cs)"
  using ring.offer_all [of r cs] by (simp flip: ring_offer_def)

section \<open>Typing a text\<close>

text \<open>The scan codes of a key that goes down and up, of a character, and of a text.\<close>

definition tap :: "u8 \<Rightarrow> u8 list" where
  "tap key = [key, key OR 0x80]"

fun key_of :: "u8 \<Rightarrow> (u8 \<times> u8) list \<Rightarrow> u8 \<Rightarrow> (u8 \<times> bool) option" where
  "key_of c [] k = None"
| "key_of c ((plain, shifted) # rows) k =
     (if plain = c then Some (k, False) else if shifted = c then Some (k, True) else key_of c rows (k + 1))"

definition char_codes :: "u8 \<Rightarrow> u8 list" where
  "char_codes c = (case key_of c keymap 0 of None \<Rightarrow> [] | Some (k, False) \<Rightarrow> tap k
     | Some (k, True) \<Rightarrow> 0x2a # tap k @ [0x2a OR 0x80])"

definition scan_codes :: "u8 list \<Rightarrow> u8 list" where
  "scan_codes cs = concat (map char_codes cs)"

definition typable :: "u8 \<Rightarrow> bool" where
  "typable c \<longleftrightarrow> c \<noteq> 0 \<and> (c \<in> set keymap_plain \<or> c \<in> set keymap_shift)"

definition no_mods :: mods where
  "no_mods = \<lparr>m_ctrl = False, m_shift = False, m_alt = False, m_caps = False, m_ext = False\<rparr>"

lemma kbd_steps_append:
  "kbd_steps (as @ bs) m = (let (m1, cs) = kbd_steps as m; (m2, ds) = kbd_steps bs m1 in (m2, cs @ ds))"
  by (induction as arbitrary: m) (auto simp: split_beta Let_def split: option.splits)

lemma break_codes:
  assumes "unat (k :: u8) < 59"
  shows "\<not> (k OR 0x80) < 0x80" "k OR 0x80 \<noteq> 0xe0" "(k OR 0x80) AND 0x7f = k"
proof -
  have all: "list_all (\<lambda>n. let b = of_nat n OR 0x80 :: u8 in \<not> b < 0x80 \<and> b \<noteq> 0xe0 \<and> b AND 0x7f = of_nat n) [0..<59]"
    by code_simp
  have "of_nat (unat k) = k" by simp
  then show "\<not> (k OR 0x80) < 0x80" "k OR 0x80 \<noteq> 0xe0" "(k OR 0x80) AND 0x7f = k"
    using all [unfolded list_all_iff, rule_format, of "unat k"] assms unfolding Let_def by simp_all
qed

lemma key_of_Some:
  assumes "key_of c rows k0 = Some (k, b)" and "unat k0 + length rows \<le> 255"
  shows "unat k0 \<le> unat k \<and> unat k < unat k0 + length rows \<and>
    (if b then snd else fst) (rows ! (unat k - unat k0)) = c"
  using assms
proof (induction c rows k0 rule: key_of.induct)
  case (2 c plain shifted rows k0)
  have inc: "unat (k0 + 1) = Suc (unat k0)" using 2(3) by (simp add: unat_word_ariths)
  show ?case
  proof (cases "plain = c \<or> shifted = c")
    case True
    then show ?thesis using 2(2) by (auto split: if_splits)
  next
    case False
    then have "key_of c rows (k0 + 1) = Some (k, b)" using 2(2) by simp
    moreover have "unat (k0 + 1) + length rows \<le> 255" using 2(3) by (simp add: inc)
    ultimately have "Suc (unat k0) \<le> unat k \<and> unat k < Suc (unat k0) + length rows \<and>
        (if b then snd else fst) (rows ! (unat k - Suc (unat k0))) = c"
      using 2(1) False by (simp add: inc)
    moreover from this have "unat k - unat k0 = Suc (unat k - Suc (unat k0))" by (elim conjE) linarith
    ultimately show ?thesis by simp
  qed
qed simp

lemma key_of_in: "c \<in> fst ` set rows \<union> snd ` set rows \<Longrightarrow> key_of c rows k \<noteq> None"
  by (induction c rows k rule: key_of.induct) auto

lemma typable_key:
  assumes "typable c"
  obtains k b where "key_of c keymap 0 = Some (k, b)" and "unat k < 59" and "k \<notin> {0, 0x1d, 0x2a, 0x36, 0x38, 0x3a}"
    and "c = typed k b False"
proof -
  have "fst ` set keymap = set keymap_plain" "snd ` set keymap = set keymap_shift"
    by (simp_all add: keymap_def length_keymap flip: set_map)
  then obtain k b where k: "key_of c keymap 0 = Some (k, b)"
    using key_of_in [of c keymap 0] assms by (auto simp: typable_def)
  from key_of_Some [OF k] have lt: "unat k < 59" and c: "(if b then snd else fst) (keymap ! unat k) = c"
    by (simp_all add: length_keymap)
  have pair: "keymap ! unat k = (keymap_plain ! unat k, keymap_shift ! unat k)"
    using lt by (simp add: keymap_def length_keymap)
  have special: "unat k \<in> {0, 0x1d, 0x2a, 0x36, 0x38, 0x3a} \<longleftrightarrow> k \<in> {0, 0x1d, 0x2a, 0x36, 0x38, 0x3a}"
    by (simp add: word_unat_eq_iff)
  have "k \<notin> {0, 0x1d, 0x2a, 0x36, 0x38, 0x3a}"
    using key_row [OF lt, unfolded key_row_ok_def special] c assms pair by (auto simp: typable_def split: if_splits)
  moreover have "c = typed k b False" using c pair by (auto simp: typed_def Let_def)
  ultimately show thesis using that k lt by blast
qed

lemma tap_steps:
  assumes "unat k < 59" and "k \<notin> {0, 0x1d, 0x2a, 0x36, 0x38, 0x3a}"
  shows "kbd_steps (tap k) (m\<lparr>m_ext := False\<rparr>) = (m\<lparr>m_ext := False\<rparr>, [typed k (m_shift m) (m_caps m)])"
proof -
  have "k < 0x80" "k \<noteq> 0xe0" using assms(1) by (auto simp: word_less_nat_alt)
  moreover have "kbd_step (k OR 0x80) (m\<lparr>m_ext := False\<rparr>) = (m\<lparr>m_ext := False\<rparr>, None)"
    using break_codes [OF assms(1)] assms(2) by (simp add: kbd_step_def release_def)
  ultimately show ?thesis using press_char [OF assms] by (simp add: tap_def kbd_step_def)
qed

lemma type_char: "typable c \<Longrightarrow> kbd_steps (char_codes c) no_mods = (no_mods, [c])"
proof (erule typable_key)
  fix k b assume k: "key_of c keymap 0 = Some (k, b)" "unat k < 59" "k \<notin> {0, 0x1d, 0x2a, 0x36, 0x38, 0x3a}"
    "c = typed k b False"
  show "kbd_steps (char_codes c) no_mods = (no_mods, [c])"
  proof (cases b)
    case False
    then show ?thesis using tap_steps [OF k(2,3), of no_mods] k by (simp add: char_codes_def no_mods_def)
  next
    case True
    have "kbd_step 0x2a no_mods = (no_mods\<lparr>m_shift := True\<rparr>, None)"
      "kbd_step 0xaa (no_mods\<lparr>m_shift := True\<rparr>) = (no_mods, None)"
      by (simp_all add: kbd_step_def press_def release_def no_mods_def)
    then show ?thesis
      using True tap_steps [OF k(2,3), of "no_mods\<lparr>m_shift := True\<rparr>"] k
      by (simp add: char_codes_def kbd_steps_append) (simp add: no_mods_def)
  qed
qed

lemma type_text: "list_all typable cs \<Longrightarrow> kbd_steps (scan_codes cs) no_mods = (no_mods, cs)"
  by (induction cs) (simp_all add: scan_codes_def kbd_steps_append type_char)

section \<open>A reader that waits for a key\<close>

lemma handle_make_put:
  assumes off: "intr_get_status s = INTR_OFF" and room: "\<not> ring_full (ioqs s (kbd_buf s))"
    and key: "unat key < 59" "key \<notin> {0, 0x1d, 0x2a, 0x36, 0x38, 0x3a}"
    and put: "ioq_putchar (kbd_buf s) (typed key shift caps) s = Inr (r, s')"
  shows "handle_make (ucast key) shift caps s = Inr s'"
proof -
  have c: "typed key shift caps \<noteq> 0" using key_char(2) [OF key] .
  have full: "ioq_full (kbd_buf s) s = Inr False" using off room by (simp add: ioq_full_def assert_intr_off_def)
  have ch: "(if (if shift_only (ucast key) then shift else if shift \<and> caps then False else shift \<or> caps) then snd else fst)
      (keymap ! unat key) = typed key shift caps"
    unfolding key_char(1) [OF key(1)] using key(2) by (rule if_not_P)
  show ?thesis unfolding handle_make_def Let_def low_plain unat_wide ch full rbind_simps using c put by simp
qed

section \<open>Properties\<close>

text \<open>
  C20: the handler of the keyboard interrupt implements the machine over scan codes. From a state with
  interrupts off and nobody waiting for a character, any sequence of scan codes is handled without
  a fault; the modifiers end as the machine says, and the buffer holds what it held and then the
  characters the machine gives, cut off at 63.
\<close>

theorem keyboard_refines:
  assumes "kbd_ready s"
  shows "\<exists>s'. key_run bs s = Inr s' \<and> kbd_ready s' \<and> kbd_buf s' = kbd_buf s \<and>
    kmods s' = fst (kbd_steps bs (kmods s)) \<and>
    ring_items (ioqs s' (kbd_buf s)) = take 63 (ring_items (ioqs s (kbd_buf s)) @ snd (kbd_steps bs (kmods s)))"
proof -
  have ok: "ring_ok (ioqs s (kbd_buf s))" using assms by (simp add: kbd_ready_def)
  obtain m' cs where st: "kbd_steps bs (kmods s) = (m', cs)" by (cases "kbd_steps bs (kmods s)")
  from key_run_steps [OF assms st] obtain s' where "key_run bs s = Inr s'" "kbd_ready s'" "kmods s' = m'"
    "kbd_buf s' = kbd_buf s" "ioqs s' = (ioqs s)(kbd_buf s := fold ring_offer cs (ioqs s (kbd_buf s)))" by blast
  then show ?thesis using ring_items_offers [OF ok] by (intro exI [of _ s']) (simp add: st)
qed

text \<open>
  C30: a text typed on the keyboard arrives. After \<open>keyboard_init\<close> the scan codes of a text of at
  most 63 characters of the table, each key pressed and released, under shift where the character
  needs it, put exactly this text into the buffer, and leave all modifiers up.
\<close>

theorem typed_text_arrives:
  assumes "intr_get_status s = INTR_OFF" and "kmods s = no_mods" and "length (buf (ioqs s (kbd_buf s))) = 64"
    and "length (c_interrupt_entry_table s) = 48" and "list_all typable txt" and "length txt \<le> 63"
  shows "\<exists>s'. rbind (keyboard_init s) (key_run (scan_codes txt)) = Inr s' \<and>
    ring_items (ioqs s' (kbd_buf s)) = txt \<and> kmods s' = no_mods"
proof -
  have num: "unat (0x21 :: u8) = 33" by simp
  obtain s1 where s1: "keyboard_init s = Inr s1" "kbd_buf s1 = kbd_buf s" "intr_get_status s1 = INTR_OFF" "kmods s1 = no_mods"
    "ioqs s1 (kbd_buf s) = (ioqs s (kbd_buf s))\<lparr>producer := NULL, consumer := NULL, head := 0, tail := 0\<rparr>"
    using assms(1,2,4) by (simp add: keyboard_init_def register_handler_def ioq_init_def upd_ioq_def lock_init_def
        sema_init_def list_init_def set_next_def set_prev_def set_value_def set_repeat_def set_holder_def kprintf_def
        num intr_get_status_def kmods_def)
  have ready: "kbd_ready s1" using s1 assms(3) by (simp add: kbd_ready_def ring_ok_def)
  have "kbd_steps (scan_codes txt) (kmods s1) = (no_mods, txt)" using type_text [OF assms(5)] by (simp add: s1)
  from key_run_steps [OF ready this] obtain s' where s': "key_run (scan_codes txt) s1 = Inr s'" "kmods s' = no_mods"
    "ioqs s' = (ioqs s1)(kbd_buf s1 := fold ring_offer txt (ioqs s1 (kbd_buf s1)))" by blast
  have "ring_items (ioqs s1 (kbd_buf s)) = []" by (simp add: s1 ring_items_def ring_count_def)
  then have "ring_items (ioqs s' (kbd_buf s)) = txt"
    using ring_items_offers [of "ioqs s1 (kbd_buf s)"] ready assms(6) by (simp add: s' s1(2) kbd_ready_def)
  then show ?thesis using s1(1) s' by simp
qed

text \<open>The sample machine of the ring buffer, with the buffer of the keyboard at \<open>0x900\<close>.\<close>

definition sample_keyboard :: keyboard where
  "sample_keyboard = io.extend sample_io
     \<lparr>ctrl_status = False, shift_status = False, alt_status = False, caps_lock_status = False, ext_scancode = False,
      kbd_buf = 0x900, kbd_port = 0x1e\<rparr>"

lemma sample_keyboard_fields:
  "ioqs sample_keyboard = (\<lambda>_. sample_ring)" "kbd_buf sample_keyboard = 0x900" "kmods sample_keyboard = no_mods"
  "intr_get_status sample_keyboard = INTR_OFF" "c_interrupt_entry_table sample_keyboard = replicate 48 None"
  "kbd_port sample_keyboard = 0x1e" "shift_status sample_keyboard = False" "caps_lock_status sample_keyboard = False"
  "ext_scancode sample_keyboard = False"
  by (simp_all add: sample_keyboard_def io.defs kmods_def no_mods_def intr_get_status_def sample_io_fields)
    (simp add: sample_io_def segments.defs sample_segments_def interrupts.defs sample_interrupts_def memory.defs)

lemma sample_keyboard_ready: "kbd_ready sample_keyboard"
  using sample_io_queue(5) by (simp add: kbd_ready_def sample_keyboard_fields) (simp add: sample_ring_def)

text \<open>Shift down, A, shift up, B.\<close>

lemma keyboard_refines_witness:
  "\<exists>s'. key_run [0x2a, 0x1e, 0x9e, 0xaa, 0x30, 0xb0] sample_keyboard = Inr s' \<and> ring_items (ioqs s' 0x900) = str8 ''Ab''"
proof -
  have "snd (kbd_steps [0x2a, 0x1e, 0x9e, 0xaa, 0x30, 0xb0] no_mods) = str8 ''Ab''" by code_simp
  then show ?thesis
    using keyboard_refines [OF sample_keyboard_ready, of "[0x2a, 0x1e, 0x9e, 0xaa, 0x30, 0xb0]"] sample_io_queue(6)
    by (auto simp: sample_keyboard_fields str8_def)
qed

lemma typed_text_arrives_witness:
  "\<exists>s'. rbind (keyboard_init sample_keyboard) (key_run (scan_codes (str8 ''Lizi OS!''))) = Inr s' \<and>
    ring_items (ioqs s' 0x900) = str8 ''Lizi OS!''"
proof -
  have "list_all typable (str8 ''Lizi OS!'')" by code_simp
  moreover have "length (str8 ''Lizi OS!'') \<le> 63" by (simp add: str8_def)
  ultimately show ?thesis
    using typed_text_arrives [of sample_keyboard "str8 ''Lizi OS!''"] by (auto simp: sample_keyboard_fields sample_ring_def)
qed

text \<open>
  A key wakes the thread that waits for it. When a thread is blocked in \<open>ioq_getchar\<close> on the
  keyboard's buffer, the interrupt of a key with a character puts the character of the key under
  the current modifiers into the buffer and makes the thread the next one to run.
\<close>

theorem key_wakes_reader:
  fixes s :: "'a keyboard_scheme"
  assumes inv: "sched_inv T spc s n ns" and off: "intr_get_status s = INTR_OFF"
    and ring: "ring_ok (ioqs s (kbd_buf s))" "ring_items (ioqs s (kbd_buf s)) = []"
    and waits: "consumer (ioqs s (kbd_buf s)) = t" "t \<in> T" "status (tasks s t) = TASK_BLOCKED"
    and wl: "is_list s (wait_list (kbd_buf s)) []" "queue_apart (kbd_buf s) T (thread_ready_list s)"
    and key: "unat (kbd_port s) < 59" "kbd_port s \<notin> {0, 0x1d, 0x2a, 0x36, 0x38, 0x3a}" "\<not> ext_scancode s"
  shows "\<exists>s'. intr_keyboard_handler s = Inr s' \<and>
    ring_items (ioqs s' (kbd_buf s)) = [typed (kbd_port s) (shift_status s) (caps_lock_status s)] \<and>
    consumer (ioqs s' (kbd_buf s)) = NULL \<and> status (tasks s' t) = TASK_READY \<and> sched_inv T spc s' n (t # ns)"
proof -
  let ?r = "ioqs s (kbd_buf s)" and ?c = "typed (kbd_port s) (shift_status s) (caps_lock_status s)"
  have nf: "\<not> ring_full ?r" using ring.full_iff [OF ring(1)] ring(2) by simp
  obtain s2 where s2: "ioq_putchar (kbd_buf s) ?c s = Inr (Done (), s2)" "sched_inv T spc s2 n (t # ns)"
    "ioqs s2 = (ioqs s)(kbd_buf s := (ring_put ?c ?r)\<lparr>consumer := NULL\<rparr>)"
    by (rule putchar_wakes [OF inv off ring(1) nf waits wl]) blast
  have b: "kbd_port s < 0x80" "kbd_port s \<noteq> 0xe0" using key(1) by (auto simp: word_less_nat_alt)
  have top: "(ucast (kbd_port s) :: u16) AND 0x80 = 0"
    using and_0x80 [of "ucast (kbd_port s)"] top_bit [of "kbd_port s"] b by (simp add: bit_simps)
  have range: "0 < (ucast (kbd_port s) :: u16) \<and> (ucast (kbd_port s) :: u16) < 0x3b" using key wide_range by auto
  have "intr_keyboard_handler s = handle_make (ucast (kbd_port s)) (shift_status s) (caps_lock_status s) s"
    unfolding intr_keyboard_handler_def Let_def wide_eqs using b range key(3) top by simp
  then have run: "intr_keyboard_handler s = Inr s2" using handle_make_put [OF off nf key(1,2) s2(1)] by simp
  have "ring_items ((ring_put ?c ?r)\<lparr>consumer := NULL\<rparr>) = ring_items (ring_put ?c ?r)"
    by (simp add: ring_items_def ring_count_def)
  then have "ring_items (ioqs s2 (kbd_buf s)) = [?c]" using ring.put_items [OF ring(1) nf] ring(2) by (simp add: s2(3))
  moreover have "status (tasks s2 t) = TASK_READY" using s2(2) by (auto simp: sched_inv_def)
  ultimately show ?thesis using run s2 by simp
qed

text \<open>The waiting thread of the witness: \<open>0x3000\<close> of the sample, entered as the consumer.\<close>

definition sample_reader :: keyboard where
  "sample_reader = upd_ioq 0x900 (set_waiter Consumer 0x3000) sample_keyboard"

lemma key_wakes_reader_witness:
  "\<exists>s'. intr_keyboard_handler sample_reader = Inr s' \<and> ring_items (ioqs s' 0x900) = [97] \<and>
    status (tasks s' 0x3000) = TASK_READY"
proof -
  have same: "lnext sample_reader = lnext sample_io" "lprev sample_reader = lprev sample_io"
    "tasks sample_reader = tasks sample_io" "esp sample_reader = esp sample_io" "cr3 sample_reader = cr3 sample_io"
    "thread_ready_list sample_reader = thread_ready_list sample_io" "phys sample_reader = phys sample_io"
    by (simp_all add: sample_reader_def sample_keyboard_def io.defs)
  have inv: "sched_inv sample_set (\<lambda>_. 0x100000) sample_reader 0x1000 [0x2000]"
    using sample_io_sched by (rule sched_inv_cong) (simp_all add: same running_thread_def)
  have wl: "is_list sample_reader (wait_list 0x900) []" "queue_apart 0x900 sample_set (thread_ready_list sample_reader)"
    using sample_io_queue(2,3) is_list_cong [of sample_reader sample_io] by (simp_all add: same sample_io_fields)
  have f: "kbd_buf sample_reader = 0x900" "ioqs sample_reader 0x900 = sample_ring\<lparr>consumer := 0x3000\<rparr>"
    "intr_get_status sample_reader = INTR_OFF" "kbd_port sample_reader = 0x1e" "shift_status sample_reader = False"
    "caps_lock_status sample_reader = False" "ext_scancode sample_reader = False"
    by (simp_all add: sample_reader_def sample_keyboard_fields)
      (simp_all add: upd_ioq_def sample_keyboard_def io.defs)
  have ring: "ring_ok (sample_ring\<lparr>consumer := 0x3000\<rparr>)" "ring_items (sample_ring\<lparr>consumer := 0x3000\<rparr>) = []"
    using sample_io_queue(5,6) by (simp_all add: ring_ok_def ring_items_def ring_count_def)
  have t: "0x3000 \<in> sample_set" "status (tasks sample_reader 0x3000) = TASK_BLOCKED"
    by (simp_all add: sample_set_def same sample_io_fields sample_threads_def sample_task_def zero_task_def)
  have "typed 0x1e False False = 97" by code_simp
  then show ?thesis
    using key_wakes_reader [OF inv f(3), unfolded f, OF ring _ t wl] by (auto simp: f)
qed

end
