(* ===== verification/Console.thy ===== *)
theory Console
  imports Keyboard
begin

text \<open>
  \<open>src/kernel/console.c\<close>: printing under a lock. A call whose lock is taken leaves the processor
  (\<open>call_lock\<close> gives \<open>Blocked\<close>); the theorems here are about calls that find the lock free or
  held by their own thread, those of \<open>Locks\<close> about threads that compete for a lock.
\<close>

section \<open>The code\<close>

record console = keyboard +
  console_lock :: u32

definition console_init :: "'a console_scheme \<Rightarrow> 'a console_scheme" where
  "console_init s = kprintf ''console_init is done.\<newline>'' [] (lock_init (console_lock s) s)"

definition console_acquire :: "'a console_scheme \<Rightarrow> 'a console_scheme outcome" where
  "console_acquire s = call_lock ''lock_acquire'' (lock_acquire (console_lock s)) s"

definition console_release :: "'a console_scheme \<Rightarrow> 'a console_scheme outcome" where
  "console_release s = call_lock ''lock_release'' (lock_release (console_lock s)) s"

text \<open>The argument of \<open>%s\<close> is the address of the text; a \<open>char\<close> argument is promoted to \<open>int\<close>.\<close>

definition console_print_str :: "u32 \<Rightarrow> 'a console_scheme \<Rightarrow> 'a console_scheme outcome" where
  "console_print_str str s =
     rbind (console_acquire s) (\<lambda>s1. console_release (kprintf ''%s'' [str] s1))"

definition console_print_char :: "u8 \<Rightarrow> 'a console_scheme \<Rightarrow> 'a console_scheme outcome" where
  "console_print_char c s =
     rbind (console_acquire s) (\<lambda>s1. console_release (kprintf ''%c'' [scast c] s1))"

definition console_print_num :: "u32 \<Rightarrow> 'a console_scheme \<Rightarrow> 'a console_scheme outcome" where
  "console_print_num num s =
     rbind (console_acquire s) (\<lambda>s1. console_release (kprintf ''%d'' [num] s1))"

section \<open>A call with the lock free\<close>

lemma lock_back:
  assumes "lock_available l s"
  shows "lock_given_back l (kprintf f a (lock_taken l s)) = kprintf f a s"
  using assms
  by (simp add: lock_available_def lock_given_back_def lock_taken_def set_value_def set_repeat_def set_holder_def
      kprintf_def fun_upd_idem)

lemma kprintf_sync [simp]:
  "frames (kprintf f a s) = frames s" "holder (kprintf f a s) = holder s"
  "holder_repeat_nr (kprintf f a s) = holder_repeat_nr s" "sem_value (kprintf f a s) = sem_value s"
  "lnext (kprintf f a s) = lnext s" "running_thread (kprintf f a s) = running_thread s"
  by (simp_all add: kprintf_def running_thread_def)

lemma print_free:
  assumes "lock_available (console_lock s) s"
  shows "rbind (console_acquire s) (\<lambda>s1. console_release (kprintf f a s1)) = Inr (kprintf f a s)"
proof -
  let ?l = "console_lock s"
  let ?s1 = "lock_taken ?l s"
  have acq: "console_acquire s = Inr ?s1" unfolding console_acquire_def using assms by (rule call_acquire)
  have l: "console_lock (kprintf f a ?s1) = ?l"
    by (simp add: kprintf_def lock_taken_def set_value_def set_repeat_def set_holder_def)
  have "console_release (kprintf f a ?s1) = Inr (lock_given_back ?l (kprintf f a ?s1))"
    unfolding console_release_def l using assms
    by (intro call_release)
      (simp_all add: lock_available_def lock_taken_def set_value_def set_repeat_def set_holder_def list_empty_def
        running_thread_def kprintf_def)
  then show ?thesis by (simp add: acq lock_back [OF assms])
qed

end
