(* ===== verification/PageAlloc.thy ===== *)
theory PageAlloc
  imports PageIO
begin

text \<open>
  Allocation of runs of kernel pages: what \<open>malloc_kernel_pages\<close> does to the translation of
  addresses, to the pool and to the lock. The loader gives every directory entry from
  768 on a page table of its own, so that no allocation of the kernel changes a directory, and
  every address space that has copied these entries sees the new pages too.
\<close>

section \<open>The kernel's half of an address space\<close>

definition kern :: "u32 \<Rightarrow> bool" where
  "kern v \<longleftrightarrow> 768 \<le> unat (PDE_IDX v) \<and> unat (PDE_IDX v) < 1023"

definition kernel_tables :: "mem \<Rightarrow> u32 \<Rightarrow> bool" where
  "kernel_tables m cr \<longleftrightarrow> space_ok m cr \<and> (\<forall>v. kern v \<longrightarrow> present (load32 m (pde_addr cr v))) \<and>
     (\<forall>v w. kern v \<and> kern w \<and> page_frame (load32 m (pde_addr cr v)) = page_frame (load32 m (pde_addr cr w)) \<longrightarrow>
        PDE_IDX v = PDE_IDX w)"

text \<open>Two directories with the same entries for the kernel's half.\<close>

definition shares_kernel :: "mem \<Rightarrow> u32 \<Rightarrow> u32 \<Rightarrow> bool" where
  "shares_kernel m cr cr' \<longleftrightarrow> (\<forall>v. kern v \<longrightarrow> load32 m (pde_addr cr' v) = load32 m (pde_addr cr v))"

lemma shares_kernel_mmu: "shares_kernel m cr cr' \<Longrightarrow> kern v \<Longrightarrow> mmu m cr' v = mmu m cr v"
  by (simp add: shares_kernel_def mmu_def pte_addr_def)

lemma kern_not_window: "kern v \<Longrightarrow> PDE_IDX v \<noteq> 1023"
  by (auto simp: kern_def)

lemma kern_iff: "kern v \<longleftrightarrow> 0xc0000000 \<le> unat v \<and> unat v < 0xffc00000"
proof -
  have "768 \<le> unat v div 2 ^ 22 \<longleftrightarrow> 768 * 2 ^ 22 \<le> unat v" by (rule less_eq_div_iff_mult_less_eq) simp
  moreover have "unat v div 2 ^ 22 < 1023 \<longleftrightarrow> unat v < 1023 * 2 ^ 22" by (rule div_less_iff_less_mult) simp
  ultimately show ?thesis by (simp add: kern_def unat_PDE_IDX)
qed

section \<open>One mapping\<close>

text \<open>
  What a mapping of the kernel page \<open>v\<close> to the frame \<open>pg\<close> does: no directory entry changes, in
  the kernel's half one page does, older mappings stay, and frames that are not part of the
  tables keep their content.
\<close>

definition maps_kernel :: "u32 \<Rightarrow> u32 \<Rightarrow> u32 \<Rightarrow> mem \<Rightarrow> mem \<Rightarrow> bool" where
  "maps_kernel cr v pg m m' \<longleftrightarrow>
     (\<forall>w. load32 m' (pde_addr cr w) = load32 m (pde_addr cr w)) \<and>
     (\<forall>w. kern w \<longrightarrow> mmu m' cr w = (if same_page w v then Some (page_frame pg + (w AND 0xfff)) else mmu m cr w)) \<and>
     (\<forall>w p. PDE_IDX w \<noteq> 1023 \<and> mmu m cr w = Some p \<longrightarrow> mmu m' cr w = Some p) \<and>
     (\<forall>a. spare_frame m cr (page_frame a) \<longrightarrow> m' a = m a)"

lemma bind_kernel:
  fixes s :: "'a memory_scheme"
  assumes ok: "kernel_tables (phys s) (cr3 s)" and v: "kern v" and free: "mmu (phys s) (cr3 s) v = None"
  obtains m' where "bind_vaddr_paddr_page v pg s = Inr (s\<lparr>phys := m'\<rparr>)" and "maps_kernel (cr3 s) v pg (phys s) m'"
proof -
  let ?m = "phys s" and ?cr = "cr3 s"
  let ?m' = "store32 ?m (pte_addr ?m ?cr v) (pg OR 7)"
  have space: "space_ok ?m ?cr" and pres: "present (load32 ?m (pde_addr ?cr v))"
    using ok v by (auto simp: kernel_tables_def)
  note idx = kern_not_window [OF v]
  note S = store_pte [OF space idx pres, where pg = pg]
  have absent: "\<not> present (load32 ?m (pte_addr ?m ?cr v))" using free pres by (simp add: mmu_def split: if_splits)
  have only: "maps_only ?cr v pg ?m ?m'" using store_pte_maps [OF space idx pres absent] .
  have apart: "pte_addr ?m ?cr w = pte_addr ?m ?cr v \<longleftrightarrow> same_page w v" if w: "kern w" for w
  proof
    assume eq: "pte_addr ?m ?cr w = pte_addr ?m ?cr v"
    have "page_frame (load32 ?m (pde_addr ?cr w)) = page_frame (load32 ?m (pde_addr ?cr v))"
      using pte_addr_frame [of 0 ?m ?cr w] pte_addr_frame [of 0 ?m ?cr v] eq by simp
    then have "PDE_IDX w = PDE_IDX v" using ok v w unfolding kernel_tables_def by blast
    then show "same_page w v" using pte_addr_eq eq by (simp add: same_page_idx)
  qed (simp add: same_page_addrs)
  have "load32 ?m' (pde_addr ?cr w) = load32 ?m (pde_addr ?cr w)" for w by (rule S(1))
  moreover have "mmu ?m' ?cr w = (if same_page w v then Some (page_frame pg + (w AND 0xfff)) else mmu ?m ?cr w)"
    if "kern w" for w
    unfolding S(2) using apart [OF that] ok that by (auto simp: kernel_tables_def)
  moreover have "?m' a = ?m a" if "spare_frame ?m ?cr (page_frame a)" for a
    using that pres idx by (intro S(3)) (auto simp: spare_frame_def)
  ultimately have "maps_kernel ?cr v pg ?m ?m'" using only by (auto simp: maps_kernel_def maps_only_def)
  then show thesis using that bind_with_table [OF space idx pres free, of pg] by blast
qed

lemma same_pdes:
  assumes pde: "\<And>w. load32 m' (pde_addr cr w) = load32 m (pde_addr cr w)"
  shows "kernel_tables m' cr = kernel_tables m cr" "spare_frame m' cr f = spare_frame m cr f"
proof -
  have "PDE_IDX 0xffc00000 = 1023" by (simp add: PDE_IDX_def)
  then have "self_map m' cr = self_map m cr" using pde [of "0xffc00000"] by (simp add: self_map_def pde_addr_self)
  then show "kernel_tables m' cr = kernel_tables m cr" by (simp add: kernel_tables_def space_ok_def pde)
  show "spare_frame m' cr f = spare_frame m cr f" by (simp add: spare_frame_def pde)
qed

lemma maps_kernel_keeps:
  assumes "maps_kernel cr v pg m m'"
  shows "kernel_tables m' cr = kernel_tables m cr" "spare_frame m' cr f = spare_frame m cr f"
  by (rule same_pdes; use assms in \<open>simp add: maps_kernel_def\<close>)+

text \<open>Another directory with the same kernel entries, in a frame that is not part of the tables.\<close>

lemma maps_kernel_shares:
  assumes "maps_kernel cr v pg m m'" and "shares_kernel m cr cr'" and "spare_frame m cr (page_frame cr')"
  shows "shares_kernel m' cr cr'"
  unfolding shares_kernel_def
proof (intro allI impI)
  fix w assume w: "kern w"
  have "load32 m' (pde_addr cr' w) = load32 m (pde_addr cr' w)"
    by (rule load32_frame_cong [OF pde_addr_frame]) (assumption, use assms(1,3) in \<open>simp add: maps_kernel_def\<close>)
  then show "load32 m' (pde_addr cr' w) = load32 m' (pde_addr cr w)"
    using assms(1,2) w by (simp add: maps_kernel_def shares_kernel_def)
qed

section \<open>A run of pages\<close>

definition page_nr :: "u32 \<Rightarrow> nat \<Rightarrow> u32" where
  "page_nr v i = v + of_nat i * PG_SIZE"

lemma page_nr_0 [simp]: "page_nr v 0 = v"
  by (simp add: page_nr_def)

lemma page_nr_Suc: "page_nr v (Suc i) = page_nr (v + PG_SIZE) i"
  by (simp add: page_nr_def algebra_simps)

definition maps_run :: "u32 \<Rightarrow> u32 \<Rightarrow> u32 list \<Rightarrow> mem \<Rightarrow> mem \<Rightarrow> bool" where
  "maps_run cr v fs m m' \<longleftrightarrow>
     (\<forall>w. load32 m' (pde_addr cr w) = load32 m (pde_addr cr w)) \<and>
     (\<forall>i w. i < length fs \<and> same_page w (page_nr v i) \<longrightarrow> mmu m' cr w = Some (fs ! i + (w AND 0xfff))) \<and>
     (\<forall>w. kern w \<and> (\<forall>i < length fs. \<not> same_page w (page_nr v i)) \<longrightarrow> mmu m' cr w = mmu m cr w) \<and>
     (\<forall>w p. PDE_IDX w \<noteq> 1023 \<and> mmu m cr w = Some p \<longrightarrow> mmu m' cr w = Some p) \<and>
     (\<forall>a. spare_frame m cr (page_frame a) \<longrightarrow> m' a = m a)"

lemma maps_run_Nil: "maps_run cr v [] m m"
  by (simp add: maps_run_def)

lemma maps_run_Cons:
  assumes one: "maps_kernel cr v f m m1" and run: "maps_run cr (v + PG_SIZE) fs m1 m'"
    and f: "page_frame f = f" and v: "kern v"
  shows "maps_run cr v (f # fs) m m'"
  unfolding maps_run_def
proof (intro conjI allI impI)
  show "load32 m' (pde_addr cr w) = load32 m (pde_addr cr w)" for w
    using one run by (simp add: maps_run_def maps_kernel_def)
  show "mmu m' cr w = Some ((f # fs) ! i + (w AND 0xfff))"
    if w: "i < length (f # fs) \<and> same_page w (page_nr v i)" for i w
  proof (cases i)
    case 0
    have k: "kern w" "PDE_IDX w \<noteq> 1023"
      using w v kern_not_window [OF v] by (simp_all add: 0 same_page_idx kern_def)
    then have "mmu m1 cr w = Some (f + (w AND 0xfff))" using one w f by (simp add: maps_kernel_def 0)
    then show ?thesis using run k(2) by (simp add: maps_run_def 0)
  next
    case (Suc n)
    then show ?thesis using run w by (simp add: maps_run_def page_nr_Suc)
  qed
  show "mmu m' cr w = mmu m cr w" if "kern w \<and> (\<forall>i < length (f # fs). \<not> same_page w (page_nr v i))" for w
  proof -
    have "\<not> same_page w v" using that by fastforce
    then have "mmu m1 cr w = mmu m cr w" using one that by (simp add: maps_kernel_def)
    moreover have "\<not> same_page w (page_nr (v + PG_SIZE) i)" if "i < length fs" for i
      using \<open>kern w \<and> _\<close> that by (auto simp flip: page_nr_Suc)
    ultimately show ?thesis using run that by (simp add: maps_run_def)
  qed
  show "mmu m' cr w = Some p" if "PDE_IDX w \<noteq> 1023 \<and> mmu m cr w = Some p" for w p
    using one run that by (simp add: maps_run_def maps_kernel_def)
  show "m' a = m a" if "spare_frame m cr (page_frame a)" for a
    using one run that maps_kernel_keeps(2) [OF one] by (simp add: maps_run_def maps_kernel_def)
qed

lemma maps_run_keeps:
  assumes "maps_run cr v fs m m'"
  shows "kernel_tables m' cr = kernel_tables m cr" "spare_frame m' cr f = spare_frame m cr f"
  by (rule same_pdes; use assms in \<open>simp add: maps_run_def\<close>)+

text \<open>The pool and the tables, as an allocation needs them and keeps them.\<close>

definition pool_ready :: "'a memory_scheme \<Rightarrow> bool" where
  "pool_ready s \<longleftrightarrow> kernel_tables (phys s) (cr3 s) \<and> pool_ok (kernel_pool s) \<and> phy_addr_start (kernel_pool s) \<noteq> 0 \<and>
     bitmaps_apart (pool_bitmap (kernel_pool s)) (addr_bitmap (kernel_vaddr s)) \<and>
     (\<forall>i \<in> free_pages s. spare_frame (phys s) (cr3 s) (pool_page (kernel_pool s) i))"

text \<open>The bytes of data memory that are in neither bitmap are kept.\<close>

definition keeps_data :: "'a memory_scheme \<Rightarrow> mem \<Rightarrow> mem \<Rightarrow> bool" where
  "keeps_data s m m' \<longleftrightarrow> (\<forall>a. a \<notin> region (bm_bits (pool_bitmap (kernel_pool s))) (unat (bm_length (pool_bitmap (kernel_pool s)))) \<and>
     a \<notin> region (bm_bits (addr_bitmap (kernel_vaddr s))) (unat (bm_length (addr_bitmap (kernel_vaddr s)))) \<longrightarrow> m' a = m a)"

lemma keeps_data_refl [simp]: "keeps_data s m m"
  by (simp add: keeps_data_def)

lemma keeps_data_trans: "keeps_data s m m' \<Longrightarrow> keeps_data s m' m'' \<Longrightarrow> keeps_data s m m''"
  by (simp add: keeps_data_def)

lemma keeps_data_cong:
  "kernel_pool s' = kernel_pool s \<Longrightarrow> kernel_vaddr s' = kernel_vaddr s \<Longrightarrow> keeps_data s' m m' = keeps_data s m m'"
  by (simp add: keeps_data_def)

lemma take_frame:
  fixes s :: "'a memory_scheme"
  assumes ok: "pool_ready s" and some: "free_pages s \<noteq> {}"
  obtains k km' where "paddr_get_page KERNEL_POOL s = Inr (pool_page (kernel_pool s) k, s\<lparr>kmem := km'\<rparr>)"
    and "k \<in> free_pages s" and "free_pages (s\<lparr>kmem := km'\<rparr>) = free_pages s - {k}"
    and "\<And>x. x < bm_bits_count (addr_bitmap (kernel_vaddr s)) \<Longrightarrow>
      bit_set km' (addr_bitmap (kernel_vaddr s)) x = bit_set (kmem s) (addr_bitmap (kernel_vaddr s)) x"
    and "keeps_data s (kmem s) km'"
proof -
  let ?p = "kernel_pool s" and ?bm = "pool_bitmap (kernel_pool s)" and ?va = "addr_bitmap (kernel_vaddr s)"
  have p_ok: "pool_ok ?p" and apart: "bitmaps_apart ?bm ?va" using ok by (auto simp: pool_ready_def)
  have pool: "pool_of KERNEL_POOL s = ?p" by (simp add: pool_of_def)
  obtain i where "i < bm_bits_count ?bm" "\<not> bit_set (kmem s) ?bm i" using some by (auto simp: free_pages_def)
  then obtain k where k: "paddr_get_page KERNEL_POOL s = Inr (pool_page ?p k,
      s\<lparr>kmem := bitmap_set_bit (kmem s) ?bm (of_nat k) 1\<rparr>)"
    "k < bm_bits_count ?bm" "\<not> bit_set (kmem s) ?bm k"
    using paddr_get_page_free [of KERNEL_POOL s i] p_ok unfolding pool by blast
  have N: "bm_bits_count ?bm < 2 ^ 20" using pool_ok_count [OF p_ok] .
  have "bit_set (bitmap_set_bit (kmem s) ?bm (of_nat k) 1) ?bm x \<longleftrightarrow> x = k \<or> bit_set (kmem s) ?bm x"
    if "x < bm_bits_count ?bm" for x using bit_set_after_set [of k x "kmem s" ?bm 1] that k(2) N by simp
  then have free: "free_pages (s\<lparr>kmem := bitmap_set_bit (kmem s) ?bm (of_nat k) 1\<rparr>) = free_pages s - {k}"
    using k(2) by (auto simp: free_pages_def)
  have "bit_set (bitmap_set_bit (kmem s) ?bm (of_nat k) 1) ?va x = bit_set (kmem s) ?va x"
    if "x < bm_bits_count ?va" for x
    using set_bit_apart [OF apart _ that, of "of_nat k" "kmem s" 1] k(2) N unat_of_nat32 [of k] by simp
  moreover have "keeps_data s (kmem s) (bitmap_set_bit (kmem s) ?bm (of_nat k) 1)"
  proof -
    have "k div 8 < unat (bm_length ?bm)" using k(2) by (simp add: bm_bits_count_def less_mult_imp_div_less)
    then have "bm_bits ?bm + of_nat (k div 8) \<in> region (bm_bits ?bm) (unat (bm_length ?bm))" by (rule in_regionI)
    moreover have "(of_nat k :: u32) div 8 = of_nat (k div 8)" using k(2) N by (intro of_nat_div8) simp
    ultimately show ?thesis unfolding keeps_data_def by (auto intro!: set_bit_other_byte)
  qed
  ultimately show thesis using that [OF k(1) _ free] k(2,3) by (simp add: free_pages_def)
qed

lemma pool_ready_page:
  assumes "pool_ready s" and "k \<in> free_pages s"
  shows "pool_page (kernel_pool s) k \<noteq> NULL" "page_frame (pool_page (kernel_pool s) k) = pool_page (kernel_pool s) k"
  using assms pool_page_not_null pool_page_aligned by (auto simp: pool_ready_def free_pages_def)

lemma map_pages_kernel:
  fixes s :: "'a memory_scheme"
  assumes "pool_ready s" and "cnt \<le> card (free_pages s)"
    and "\<And>i. i < cnt \<Longrightarrow> kern (page_nr v i) \<and> mmu (phys s) (cr3 s) (page_nr v i) = None"
    and "\<And>i j. i < j \<Longrightarrow> j < cnt \<Longrightarrow> \<not> same_page (page_nr v j) (page_nr v i)"
  shows "\<exists>m' km' ks. map_pages KERNEL_POOL v cnt s = Inr (True, s\<lparr>phys := m', kmem := km'\<rparr>) \<and>
    length ks = cnt \<and> distinct ks \<and> set ks \<subseteq> free_pages s \<and>
    free_pages (s\<lparr>phys := m', kmem := km'\<rparr>) = free_pages s - set ks \<and>
    maps_run (cr3 s) v (map (pool_page (kernel_pool s)) ks) (phys s) m' \<and>
    (\<forall>x < bm_bits_count (addr_bitmap (kernel_vaddr s)).
       bit_set km' (addr_bitmap (kernel_vaddr s)) x = bit_set (kmem s) (addr_bitmap (kernel_vaddr s)) x) \<and>
    keeps_data s (kmem s) km'"
  using assms
proof (induction cnt arbitrary: v s)
  case 0
  show ?case
    by (rule exI [of _ "phys s"], rule exI [of _ "kmem s"], rule exI [of _ "[]"]) (simp add: maps_run_Nil)
next
  case (Suc cnt)
  let ?p = "kernel_pool s" and ?va = "addr_bitmap (kernel_vaddr s)"
  have "free_pages s \<noteq> {}" using Suc.prems(2) by auto
  then obtain k km1 where k: "paddr_get_page KERNEL_POOL s = Inr (pool_page ?p k, s\<lparr>kmem := km1\<rparr>)"
    "k \<in> free_pages s" "free_pages (s\<lparr>kmem := km1\<rparr>) = free_pages s - {k}"
    "\<And>x. x < bm_bits_count ?va \<Longrightarrow> bit_set km1 ?va x = bit_set (kmem s) ?va x" "keeps_data s (kmem s) km1"
    by (rule take_frame [OF Suc.prems(1)]) blast
  note page = pool_ready_page [OF Suc.prems(1) k(2)]
  let ?s1 = "s\<lparr>kmem := km1\<rparr>"
  have v0: "kern v" "mmu (phys s) (cr3 s) v = None" using Suc.prems(3) [of 0] by simp_all
  obtain m1 where m1: "bind_vaddr_paddr_page v (pool_page ?p k) ?s1 = Inr (?s1\<lparr>phys := m1\<rparr>)"
    "maps_kernel (cr3 s) v (pool_page ?p k) (phys s) m1"
    by (rule bind_kernel [of ?s1 v "pool_page ?p k"]) (use Suc.prems(1) v0 in \<open>simp_all add: pool_ready_def\<close>)
  define s2 where "s2 = ?s1\<lparr>phys := m1\<rparr>"
  have f2: "kernel_pool s2 = ?p" "kernel_vaddr s2 = kernel_vaddr s" "cr3 s2 = cr3 s" "phys s2 = m1" "kmem s2 = km1"
    "free_pages s2 = free_pages s - {k}"
    using k(3) by (simp_all add: s2_def free_pages_def)
  have ready2: "pool_ready s2"
    using Suc.prems(1) maps_kernel_keeps [OF m1(2)] by (simp add: pool_ready_def f2)
  have nxt: "page_nr (v + PG_SIZE) i = page_nr v (Suc i)" for i by (simp add: page_nr_Suc)
  have "\<exists>m' km' ks. map_pages KERNEL_POOL (v + PG_SIZE) cnt s2 = Inr (True, s2\<lparr>phys := m', kmem := km'\<rparr>) \<and>
      length ks = cnt \<and> distinct ks \<and> set ks \<subseteq> free_pages s2 \<and>
      free_pages (s2\<lparr>phys := m', kmem := km'\<rparr>) = free_pages s2 - set ks \<and>
      maps_run (cr3 s2) (v + PG_SIZE) (map (pool_page (kernel_pool s2)) ks) (phys s2) m' \<and>
      (\<forall>x < bm_bits_count (addr_bitmap (kernel_vaddr s2)).
        bit_set km' (addr_bitmap (kernel_vaddr s2)) x = bit_set (kmem s2) (addr_bitmap (kernel_vaddr s2)) x) \<and>
      keeps_data s2 (kmem s2) km'"
  proof (rule Suc.IH [OF ready2])
    show "cnt \<le> card (free_pages s2)" using Suc.prems(2) k(2) by (simp add: f2)
    fix i assume i: "i < cnt"
    have "\<not> same_page (page_nr v (Suc i)) v" using Suc.prems(4) [of 0 "Suc i"] i by simp
    moreover have "kern (page_nr v (Suc i)) \<and> mmu (phys s) (cr3 s) (page_nr v (Suc i)) = None"
      using Suc.prems(3) [of "Suc i"] i by simp
    ultimately show "kern (page_nr (v + PG_SIZE) i) \<and> mmu (phys s2) (cr3 s2) (page_nr (v + PG_SIZE) i) = None"
      using m1(2) by (simp add: nxt f2 maps_kernel_def)
  next
    fix i j :: nat assume "i < j" "j < cnt"
    then show "\<not> same_page (page_nr (v + PG_SIZE) j) (page_nr (v + PG_SIZE) i)"
      unfolding nxt using Suc.prems(4) [of "Suc i" "Suc j"] by simp
  qed
  then obtain m' km' ks where ih: "map_pages KERNEL_POOL (v + PG_SIZE) cnt s2 = Inr (True, s2\<lparr>phys := m', kmem := km'\<rparr>)"
    "length ks = cnt" "distinct ks" "set ks \<subseteq> free_pages s - {k}"
    "free_pages (s2\<lparr>phys := m', kmem := km'\<rparr>) = free_pages s - {k} - set ks"
    "maps_run (cr3 s) (v + PG_SIZE) (map (pool_page ?p) ks) m1 m'"
    "\<forall>x < bm_bits_count ?va. bit_set km' ?va x = bit_set km1 ?va x" "keeps_data s km1 km'"
    unfolding f2 keeps_data_cong [OF f2(1,2)] by blast
  have same: "s2\<lparr>phys := m', kmem := km'\<rparr> = s\<lparr>phys := m', kmem := km'\<rparr>" by (simp add: s2_def)
  have run: "map_pages KERNEL_POOL v (Suc cnt) s = Inr (True, s\<lparr>phys := m', kmem := km'\<rparr>)"
    using k(1) page(1) m1(1) ih(1) same by (simp add: s2_def)
  have maps: "maps_run (cr3 s) v (map (pool_page ?p) (k # ks)) (phys s) m'"
    using maps_run_Cons [OF m1(2) ih(6) page(2) v0(1)] by simp
  show ?case
    using run ih(2-5,7) k(2,4) maps keeps_data_trans [OF k(5) ih(8)] unfolding same
    by (intro exI [of _ m'] exI [of _ km'] exI [of _ "k # ks"]) auto
qed

section \<open>Clearing a run\<close>

lemma vmemset_append:
  "vmemset v ch (k + l) s = rbind (vmemset v ch k s) (vmemset (v + of_nat k) ch l)"
proof (induction k arbitrary: v s)
  case 0
  then show ?case by simp
next
  case (Suc k)
  show ?case
  proof (cases "vstore8 v ch s")
    case (Inr s1)
    show ?thesis using Suc.IH [of "v + 1" s1] Inr by (simp add: add.assoc)
  qed simp
qed

lemma page_at_other:
  assumes "page_at s v g" and "spare_frame (phys s) (cr3 s) f" and "same_but f (phys s) (phys s')" and "cr3 s' = cr3 s"
  shows "page_at s' v g"
proof -
  have v: "page_frame v = v" "PDE_IDX v \<noteq> 1023" using assms(1) by (auto simp: page_at_def)
  have "mmu (phys s') (cr3 s) (v + of_nat i) = mmu (phys s) (cr3 s) (v + of_nat i)" if "i < 4096" for i
    by (rule spare_mmu [OF assms(2,3)]) (simp add: page_offset_fields [OF v(1) that] v(2))
  then show ?thesis using assms spare_spare [OF assms(2,3)] by (simp add: page_at_def)
qed

lemma clear_page:
  assumes at: "page_at s v f" and n: "n \<le> 4096"
  obtains m' where "vmemset v 0 n s = Inr (s\<lparr>phys := m'\<rparr>)" and "same_but f (phys s) m'"
    and "\<And>j. j < n \<Longrightarrow> m' (f + of_nat j) = 0"
proof -
  let ?bs = "replicate n 0 :: u8 list"
  let ?m = "store_bytes (phys s) f ?bs"
  have "vmemset v 0 n s = Inr (s\<lparr>phys := ?m\<rparr>)"
    using vstore_bytes_page [OF at, of 0 ?bs] n by (simp add: vmemset_bytes)
  moreover have "same_but f (phys s) ?m"
    using same_but_store [OF page_at_frame [OF at], of 0 ?bs] n by simp
  moreover have "?m (f + of_nat j) = 0" if "j < n" for j
    using store_bytes_inside [of j ?bs "phys s" f] that n by simp
  ultimately show thesis by (rule that)
qed

definition zero_frame :: "mem \<Rightarrow> u32 \<Rightarrow> bool" where
  "zero_frame m f \<longleftrightarrow> (\<forall>j < 4096. m (f + of_nat j) = 0)"

lemma clear_run:
  assumes "\<And>i. i < length fs \<Longrightarrow> page_at s (page_nr v i) (fs ! i)" and "distinct fs"
  shows "\<exists>m'. vmemset v 0 (length fs * 4096) s = Inr (s\<lparr>phys := m'\<rparr>) \<and>
    (\<forall>a. page_frame a \<notin> set fs \<longrightarrow> m' a = phys s a) \<and> (\<forall>f \<in> set fs. zero_frame m' f)"
  using assms
proof (induction fs arbitrary: v s)
  case Nil
  show ?case by (rule exI [of _ "phys s"]) simp
next
  case (Cons f fs)
  have at: "page_at s v f" using Cons.prems(1) [of 0] by simp
  obtain m1 where m1: "vmemset v 0 4096 s = Inr (s\<lparr>phys := m1\<rparr>)" "same_but f (phys s) m1"
    "\<And>j. j < 4096 \<Longrightarrow> m1 (f + of_nat j) = 0" by (rule clear_page [OF at order_refl]) blast
  let ?s = "s\<lparr>phys := m1\<rparr>"
  have spare: "spare_frame (phys s) (cr3 s) f" using at by (simp add: page_at_def)
  have "page_at ?s (page_nr (v + PG_SIZE) i) (fs ! i)" if "i < length fs" for i
  proof (rule page_at_other [OF _ spare])
    show "page_at s (page_nr (v + PG_SIZE) i) (fs ! i)"
      using Cons.prems(1) [of "Suc i"] that by (simp only: page_nr_Suc length_Cons Suc_less_eq nth_Cons_Suc)
  qed (simp_all add: m1(2))
  moreover have "distinct fs" using Cons.prems(2) by simp
  ultimately have "\<exists>m'. vmemset (v + PG_SIZE) 0 (length fs * 4096) ?s = Inr (?s\<lparr>phys := m'\<rparr>) \<and>
      (\<forall>a. page_frame a \<notin> set fs \<longrightarrow> m' a = phys ?s a) \<and> (\<forall>f \<in> set fs. zero_frame m' f)"
    by (rule Cons.IH)
  then obtain m' where m': "vmemset (v + PG_SIZE) 0 (length fs * 4096) ?s = Inr (?s\<lparr>phys := m'\<rparr>)"
    "\<forall>a. page_frame a \<notin> set fs \<longrightarrow> m' a = phys ?s a" "\<forall>g \<in> set fs. zero_frame m' g" by blast
  have "(of_nat 4096 :: u32) = PG_SIZE" by (simp add: PG_SIZE_def)
  then have run: "vmemset v 0 (4096 + length fs * 4096) s = Inr (s\<lparr>phys := m'\<rparr>)"
    unfolding vmemset_append m1(1) rbind_simps using m'(1) by simp
  have "m' (f + of_nat j) = m1 (f + of_nat j)" if "j < 4096" for j
    using m'(2) Cons.prems(2) page_in_frame [OF at that] by simp
  then have zero: "zero_frame m' f" using m1(3) by (simp add: zero_frame_def)
  have keep: "m' a = phys s a" if "page_frame a \<notin> set (f # fs)" for a
    using m'(2) m1(2) that by (simp add: same_but_def)
  have "length (f # fs) * 4096 = 4096 + length fs * 4096" by simp
  then show ?case using run zero m'(3) keep by (intro exI [of _ m']) simp
qed

section \<open>The heap\<close>

definition heap_page :: "'a memory_scheme \<Rightarrow> nat \<Rightarrow> u32" where
  "heap_page s = page_nr (addr_start (kernel_vaddr s))"

text \<open>The heap is in the kernel's half, and its free pages are not mapped.\<close>

definition heap_ready :: "'a memory_scheme \<Rightarrow> bool" where
  "heap_ready s \<longleftrightarrow> pool_ready s \<and>
     bitmaps_apart (addr_bitmap (kernel_vaddr s)) (pool_bitmap (kernel_pool s)) \<and>
     unat (addr_start (kernel_vaddr s)) mod 4096 = 0 \<and> 0xc0000000 \<le> unat (addr_start (kernel_vaddr s)) \<and>
     unat (addr_start (kernel_vaddr s)) + 4096 * bm_bits_count (addr_bitmap (kernel_vaddr s)) \<le> 0xffc00000 \<and>
     (\<forall>h < bm_bits_count (addr_bitmap (kernel_vaddr s)). \<not> bit_set (kmem s) (addr_bitmap (kernel_vaddr s)) h \<longrightarrow>
        mmu (phys s) (cr3 s) (heap_page s h) = None)"

lemma unat_heap_page:
  assumes "heap_ready s" and "h < bm_bits_count (addr_bitmap (kernel_vaddr s))"
  shows "unat (heap_page s h) = unat (addr_start (kernel_vaddr s)) + 4096 * h"
proof -
  let ?n = "bm_bits_count (addr_bitmap (kernel_vaddr s))" and ?a = "addr_start (kernel_vaddr s)"
  have le: "unat ?a + 4096 * ?n \<le> 0xffc00000" using assms(1) by (simp add: heap_ready_def)
  then have "h < 2 ^ 32" using assms(2) by simp
  then have h: "unat (of_nat h :: u32) = h" by (rule unat_of_nat32)
  have "h * 4096 < 2 ^ 32" using le assms(2) by simp
  then have "unat (of_nat h * PG_SIZE :: u32) = h * 4096" by (subst unat_mult32) (simp_all add: PG_SIZE_def h)
  then show ?thesis
    unfolding heap_page_def page_nr_def using le assms(2) by (subst unat_add32) simp_all
qed

lemma heap_page_facts:
  assumes "heap_ready s" and "h < bm_bits_count (addr_bitmap (kernel_vaddr s))"
  shows "kern (heap_page s h)" "page_frame (heap_page s h) = heap_page s h" "heap_page s h \<noteq> NULL"
proof -
  note u = unat_heap_page [OF assms]
  have b: "0xc0000000 \<le> unat (addr_start (kernel_vaddr s))" "unat (addr_start (kernel_vaddr s)) mod 4096 = 0"
    "unat (addr_start (kernel_vaddr s)) + 4096 * bm_bits_count (addr_bitmap (kernel_vaddr s)) \<le> 0xffc00000"
    using assms(1) by (auto simp: heap_ready_def)
  show "kern (heap_page s h)" unfolding kern_iff u using b assms(2) by simp
  show "page_frame (heap_page s h) = heap_page s h" by (rule page_frame_aligned) (simp add: u b(2))
  show "heap_page s h \<noteq> NULL" using u b(1) by auto
qed

lemma heap_page_same:
  assumes "heap_ready s" and "h < bm_bits_count (addr_bitmap (kernel_vaddr s))" "k < bm_bits_count (addr_bitmap (kernel_vaddr s))"
  shows "same_page (heap_page s h) (heap_page s k) \<longleftrightarrow> h = k"
proof -
  have "heap_page s h = heap_page s k \<longleftrightarrow> h = k"
    using unat_heap_page [OF assms(1,2)] unat_heap_page [OF assms(1,3)] by (auto simp: word_unat_eq_iff)
  then show ?thesis unfolding same_page_def heap_page_facts(2) [OF assms(1,2)] heap_page_facts(2) [OF assms(1,3)] .
qed

lemma heap_page_add: "page_nr (heap_page s t) i = heap_page s (t + i)"
  by (simp add: heap_page_def page_nr_def algebra_simps)

section \<open>The allocation\<close>

lemma spares_same:
  assumes F: "\<And>f. f \<in> F \<Longrightarrow> spare_frame m cr f" and same: "\<And>a. page_frame a \<notin> F \<Longrightarrow> m' a = m a"
  shows "load32 m' (pde_addr cr v) = load32 m (pde_addr cr v)"
    and "PDE_IDX v \<noteq> 1023 \<Longrightarrow> mmu m' cr v = mmu m cr v"
    and "spare_frame m' cr g = spare_frame m cr g" and "kernel_tables m' cr = kernel_tables m cr"
proof -
  have cr: "page_frame cr \<notin> F" using F by (auto simp: spare_frame_def)
  have pde: "load32 m' (pde_addr cr v) = load32 m (pde_addr cr v)" for v
    by (rule load32_frame_cong [OF pde_addr_frame]) (assumption, use same cr in simp)
  then show "load32 m' (pde_addr cr v) = load32 m (pde_addr cr v)" .
  show "mmu m' cr v = mmu m cr v" if v: "PDE_IDX v \<noteq> 1023"
  proof (cases "present (load32 m (pde_addr cr v))")
    case True
    then have "page_frame (load32 m (pde_addr cr v)) \<notin> F" using F v by (auto simp: spare_frame_def)
    then show ?thesis by (intro mmu_cong(2)) (use same cr in auto)
  next
    case False
    then show ?thesis using pde by (simp add: mmu_def)
  qed
  show "spare_frame m' cr g = spare_frame m cr g" "kernel_tables m' cr = kernel_tables m cr"
    using same_pdes [OF pde] by blast+
qed

text \<open>
  \<open>heap_grown s s' t ks\<close>: \<open>s'\<close> has the pages of the heap from \<open>t\<close> on mapped to the frames \<open>ks\<close> of
  the pool, cleared, and nothing else of \<open>s\<close> has changed.
\<close>

definition heap_grown :: "'a memory_scheme \<Rightarrow> 'a memory_scheme \<Rightarrow> nat \<Rightarrow> nat list \<Rightarrow> bool" where
  "heap_grown s s' t ks \<longleftrightarrow>
     t + length ks \<le> bm_bits_count (addr_bitmap (kernel_vaddr s)) \<and>
     run_clear (kmem s) (addr_bitmap (kernel_vaddr s)) t (length ks) \<and>
     (\<forall>x < bm_bits_count (addr_bitmap (kernel_vaddr s)). bit_set (kmem s') (addr_bitmap (kernel_vaddr s)) x \<longleftrightarrow>
        t \<le> x \<and> x < t + length ks \<or> bit_set (kmem s) (addr_bitmap (kernel_vaddr s)) x) \<and>
     distinct ks \<and> set ks \<subseteq> free_pages s \<and> free_pages s' = free_pages s - set ks \<and>
     (\<forall>i < length ks. page_at s' (heap_page s (t + i)) (pool_page (kernel_pool s) (ks ! i)) \<and>
        zero_frame (phys s') (pool_page (kernel_pool s) (ks ! i))) \<and>
     (\<forall>w. load32 (phys s') (pde_addr (cr3 s) w) = load32 (phys s) (pde_addr (cr3 s) w)) \<and>
     (\<forall>w. kern w \<and> (\<forall>i < length ks. \<not> same_page w (heap_page s (t + i))) \<longrightarrow>
        mmu (phys s') (cr3 s) w = mmu (phys s) (cr3 s) w) \<and>
     (\<forall>w p. PDE_IDX w \<noteq> 1023 \<and> mmu (phys s) (cr3 s) w = Some p \<longrightarrow> mmu (phys s') (cr3 s) w = Some p) \<and>
     (\<forall>a. spare_frame (phys s) (cr3 s) (page_frame a) \<and> page_frame a \<notin> pool_page (kernel_pool s) ` set ks \<longrightarrow>
        phys s' a = phys s a) \<and>
     keeps_data s (kmem s) (kmem s')"

lemma same_page_offset: "page_frame v = v \<Longrightarrow> same_page w v \<Longrightarrow> w = v + (w AND 0xfff)"
  using frame_plus_offset [of w] by (simp add: same_page_def page_frame_def)

lemma pool_page_inj_on:
  assumes "pool_ready s"
  shows "inj_on (pool_page (kernel_pool s)) (free_pages s)"
proof (rule inj_onI)
  fix i j assume "i \<in> free_pages s" "j \<in> free_pages s"
    and eq: "pool_page (kernel_pool s) i = pool_page (kernel_pool s) j"
  then have "i < bm_bits_count (pool_bitmap (kernel_pool s))" "j < bm_bits_count (pool_bitmap (kernel_pool s))"
    by (simp_all add: free_pages_def)
  moreover have "pool_ok (kernel_pool s)" using assms by (simp add: pool_ready_def)
  ultimately show "i = j" using pool_page_inj eq by blast
qed

lemma run_mapped:
  fixes s :: "'a memory_scheme"
  assumes ready: "heap_ready s" and t: "t + length ks \<le> bm_bits_count (addr_bitmap (kernel_vaddr s))"
    and ks: "set ks \<subseteq> free_pages s" "distinct ks"
    and maps: "maps_run (cr3 s) (heap_page s t) (map (pool_page (kernel_pool s)) ks) (phys s) m1"
    and s1: "phys s1 = m1" "cr3 s1 = cr3 s"
  obtains m' where "vmemset (heap_page s t) 0 (length ks * 4096) s1 = Inr (s1\<lparr>phys := m'\<rparr>)"
    and "\<And>a. page_frame a \<notin> pool_page (kernel_pool s) ` set ks \<Longrightarrow> m' a = m1 a"
    and "\<And>f. f \<in> pool_page (kernel_pool s) ` set ks \<Longrightarrow> zero_frame m' f \<and> spare_frame m1 (cr3 s) f"
    and "\<And>i. i < length ks \<Longrightarrow> page_at (s1\<lparr>phys := m'\<rparr>) (heap_page s (t + i)) (pool_page (kernel_pool s) (ks ! i))"
proof -
  let ?p = "kernel_pool s" and ?fs = "map (pool_page (kernel_pool s)) ks"
  have pool: "pool_ready s" using ready by (simp add: heap_ready_def)
  have spare: "spare_frame m1 (cr3 s) f" if "f \<in> pool_page ?p ` set ks" for f
    using that pool ks(1) maps_run_keeps(2) [OF maps] by (auto simp: pool_ready_def)
  have at: "page_at s1 (heap_page s (t + i)) (pool_page ?p (ks ! i))" if i: "i < length ks" for i
    unfolding page_at_def s1
  proof (intro conjI allI impI)
    have h: "t + i < bm_bits_count (addr_bitmap (kernel_vaddr s))" using t i by simp
    note hp = heap_page_facts [OF ready h]
    show "spare_frame m1 (cr3 s) (pool_page ?p (ks ! i))" using i by (intro spare) simp
    show "page_frame (heap_page s (t + i)) = heap_page s (t + i)" by (rule hp)
    show "PDE_IDX (heap_page s (t + i)) \<noteq> 1023" using hp(1) by (rule kern_not_window)
    fix j :: nat assume j: "j < 4096"
    have "same_page (heap_page s (t + i) + of_nat j) (page_nr (heap_page s t) i)"
      unfolding heap_page_add using page_offset_fields(2) [OF hp(2) j] .
    moreover have "(heap_page s (t + i) + of_nat j) AND 0xfff = of_nat j"
      using page_frame_add(2) [OF j, of "heap_page s (t + i)"] hp(2) by simp
    ultimately show "mmu m1 (cr3 s) (heap_page s (t + i) + of_nat j) = Some (pool_page ?p (ks ! i) + of_nat j)"
      using maps i by (simp add: maps_run_def)
  qed
  have "inj_on (pool_page ?p) (set ks)"
    using pool_page_inj_on [OF pool] ks(1) by (rule inj_on_subset)
  then have dist: "distinct ?fs" using ks(2) by (simp add: distinct_map)
  have "\<exists>m'. vmemset (heap_page s t) 0 (length ?fs * 4096) s1 = Inr (s1\<lparr>phys := m'\<rparr>) \<and>
      (\<forall>a. page_frame a \<notin> set ?fs \<longrightarrow> m' a = phys s1 a) \<and> (\<forall>f \<in> set ?fs. zero_frame m' f)"
    using at by (intro clear_run [OF _ dist]) (simp add: heap_page_add)
  then obtain m' where m': "vmemset (heap_page s t) 0 (length ks * 4096) s1 = Inr (s1\<lparr>phys := m'\<rparr>)"
    "\<And>a. page_frame a \<notin> pool_page ?p ` set ks \<Longrightarrow> m' a = m1 a"
    "\<And>f. f \<in> pool_page ?p ` set ks \<Longrightarrow> zero_frame m' f" by (auto simp: s1)
  have at': "page_at (s1\<lparr>phys := m'\<rparr>) (heap_page s (t + i)) (pool_page ?p (ks ! i))" if i: "i < length ks" for i
  proof -
    note S = spares_same [of "pool_page ?p ` set ks" m1 "cr3 s" m', OF spare m'(2)]
    have old: "page_frame (heap_page s (t + i)) = heap_page s (t + i)" "PDE_IDX (heap_page s (t + i)) \<noteq> 1023"
      using at [OF i] by (simp_all add: page_at_def)
    then show ?thesis
      using at [OF i] S(2,3) page_offset_fields(1) [OF old(1)] by (simp add: page_at_def s1)
  qed
  show thesis by (rule that [OF m'(1,2) _ at']) (use m'(3) spare in auto)
qed

lemma heap_grownI:
  fixes s :: "'a memory_scheme"
  defines "va \<equiv> addr_bitmap (kernel_vaddr s)" and "p \<equiv> kernel_pool s"
  assumes t: "t + length ks \<le> bm_bits_count va" "run_clear (kmem s) va t (length ks)"
    and bits: "\<And>x. x < bm_bits_count va \<Longrightarrow> bit_set km va x \<longleftrightarrow> t \<le> x \<and> x < t + length ks \<or> bit_set (kmem s) va x"
    and ks: "distinct ks" "set ks \<subseteq> free_pages s" "free_pages (s\<lparr>phys := m', kmem := km\<rparr>) = free_pages s - set ks"
    and maps: "maps_run (cr3 s) (heap_page s t) (map (pool_page p) ks) (phys s) m1"
    and same: "\<And>a. page_frame a \<notin> pool_page p ` set ks \<Longrightarrow> m' a = m1 a"
    and zero: "\<And>f. f \<in> pool_page p ` set ks \<Longrightarrow> zero_frame m' f \<and> spare_frame m1 (cr3 s) f"
    and at: "\<And>i. i < length ks \<Longrightarrow> page_at (s\<lparr>phys := m', kmem := km\<rparr>) (heap_page s (t + i)) (pool_page p (ks ! i))"
    and data: "keeps_data s (kmem s) km"
  shows "heap_grown s (s\<lparr>phys := m', kmem := km\<rparr>) t ks"
proof -
  note S = spares_same [of "pool_page p ` set ks" m1 "cr3 s" m', OF _ same]
  have mmu: "mmu m' (cr3 s) w = mmu m1 (cr3 s) w" if "PDE_IDX w \<noteq> 1023" for w using S(2) zero that by blast
  have pde: "load32 m' (pde_addr (cr3 s) w) = load32 m1 (pde_addr (cr3 s) w)" for w using S(1) zero by blast
  have "mmu m' (cr3 s) w = mmu (phys s) (cr3 s) w"
    if w: "kern w" "\<forall>i < length ks. \<not> same_page w (heap_page s (t + i))" for w
  proof -
    have "mmu m1 (cr3 s) w = mmu (phys s) (cr3 s) w"
      using maps w unfolding maps_run_def heap_page_add length_map by blast
    then show ?thesis using mmu kern_not_window [OF w(1)] by simp
  qed
  moreover have "mmu m' (cr3 s) w = Some q" if "PDE_IDX w \<noteq> 1023" "mmu (phys s) (cr3 s) w = Some q" for w q
    using mmu maps that by (simp add: maps_run_def)
  moreover have "m' a = phys s a"
    if "spare_frame (phys s) (cr3 s) (page_frame a)" "page_frame a \<notin> pool_page p ` set ks" for a
    using same maps that by (simp add: maps_run_def)
  moreover have "load32 m' (pde_addr (cr3 s) w) = load32 (phys s) (pde_addr (cr3 s) w)" for w
    using pde maps by (simp add: maps_run_def)
  ultimately show ?thesis
    using t bits ks zero at data unfolding heap_grown_def va_def p_def by auto
qed

text \<open>The frames, taken one by one and mapped.\<close>

lemma map_run_in_heap:
  fixes s :: "'a memory_scheme"
  defines "va \<equiv> addr_bitmap (kernel_vaddr s)"
  assumes ready: "heap_ready s" and le: "t + cnt \<le> bm_bits_count va" and clear: "run_clear (kmem s) va t cnt"
    and pages: "cnt \<le> card (free_pages s)" and km: "free_pages (s\<lparr>kmem := km\<rparr>) = free_pages s"
  shows "\<exists>m' km' ks. map_pages KERNEL_POOL (heap_page s t) cnt (s\<lparr>kmem := km\<rparr>) = Inr (True, s\<lparr>kmem := km, phys := m', kmem := km'\<rparr>) \<and>
    length ks = cnt \<and> distinct ks \<and> set ks \<subseteq> free_pages s \<and>
    free_pages (s\<lparr>kmem := km, phys := m', kmem := km'\<rparr>) = free_pages s - set ks \<and>
    maps_run (cr3 s) (heap_page s t) (map (pool_page (kernel_pool s)) ks) (phys s) m' \<and>
    (\<forall>x < bm_bits_count va. bit_set km' va x = bit_set km va x) \<and> keeps_data s km km'"
proof -
  let ?s1 = "s\<lparr>kmem := km\<rparr>"
  have f1: "phys ?s1 = phys s" "cr3 ?s1 = cr3 s" "kernel_pool ?s1 = kernel_pool s" "kernel_vaddr ?s1 = kernel_vaddr s"
    "kmem ?s1 = km" by simp_all
  have ready1: "pool_ready ?s1" using ready unfolding heap_ready_def pool_ready_def f1 km by simp
  have free: "kern (page_nr (heap_page s t) i) \<and> mmu (phys s) (cr3 s) (page_nr (heap_page s t) i) = None" if i: "i < cnt" for i
  proof -
    have h: "t + i < bm_bits_count va" "\<not> bit_set (kmem s) va (t + i)"
      using le clear i by (simp_all add: run_clear_def)
    then show ?thesis
      using ready heap_page_facts(1) [OF ready h(1) [unfolded va_def]] unfolding heap_page_add va_def
      by (auto simp: heap_ready_def)
  qed
  have apart: "\<not> same_page (page_nr (heap_page s t) j) (page_nr (heap_page s t) i)" if ij: "i < j" "j < cnt" for i j
  proof -
    have h: "t + j < bm_bits_count va" "t + i < bm_bits_count va" using le ij by simp_all
    show ?thesis unfolding heap_page_add heap_page_same [OF ready h [unfolded va_def]] using ij by simp
  qed
  show ?thesis
    using map_pages_kernel [OF ready1, of cnt "heap_page s t", unfolded f1 km keeps_data_cong [OF f1(3,4)], OF pages free apart]
    unfolding va_def by simp
qed

text \<open>The virtual pages: the first run of free bits, and no bit of the pool.\<close>

lemma reserve_run:
  fixes s :: "'a memory_scheme"
  assumes ready: "heap_ready s" and count: "0 < unat count"
    and run: "run_clear (kmem s) (addr_bitmap (kernel_vaddr s)) t (unat count)"
      "t + unat count \<le> bm_bits_count (addr_bitmap (kernel_vaddr s))"
  obtains t0 km where "vaddr_get_pages KERNEL_POOL count s = Inr (heap_page s t0, s\<lparr>kmem := km\<rparr>)"
    and "first_run (kmem s) (addr_bitmap (kernel_vaddr s)) (unat count) (bm_bits_count (addr_bitmap (kernel_vaddr s))) t0"
    and "\<And>x. x < bm_bits_count (addr_bitmap (kernel_vaddr s)) \<Longrightarrow> bit_set km (addr_bitmap (kernel_vaddr s)) x \<longleftrightarrow>
      t0 \<le> x \<and> x < t0 + unat count \<or> bit_set (kmem s) (addr_bitmap (kernel_vaddr s)) x"
    and "free_pages (s\<lparr>kmem := km\<rparr>) = free_pages s" and "keeps_data s (kmem s) km"
proof -
  let ?va = "addr_bitmap (kernel_vaddr s)" and ?bm = "pool_bitmap (kernel_pool s)"
  have apart: "bitmaps_apart ?va ?bm" and geo: "unat (addr_start (kernel_vaddr s)) + 4096 * bm_bits_count ?va \<le> 0xffc00000"
    using ready by (auto simp: heap_ready_def)
  have N: "bm_bits_count ?va < 2 ^ 32 - 1" using geo by simp
  obtain t0 where t0: "bitmap_request_bits (kmem s) ?va count = Inr (of_nat t0)"
    "first_run (kmem s) ?va (unat count) (bm_bits_count ?va) t0"
    by (rule request_run [OF N count(1) run])
  have le: "t0 + unat count \<le> bm_bits_count ?va" using t0(2) by (auto simp: first_run_def)
  then have small: "t0 < 2 ^ 32 - 1" "t0 + unat count < 2 ^ 32" using N count(1) by linarith+
  have u: "unat (of_nat t0 :: u32) = t0" using small by (intro unat_of_nat32) simp
  have e: "unat (of_nat t0 + count) = t0 + unat count" using small(2) by (subst unat_add32) (simp_all add: u)
  let ?km = "set_range (kmem s) ?va (of_nat t0) (of_nat t0 + count)"
  have bits: "bit_set ?km ?va x \<longleftrightarrow> t0 \<le> x \<and> x < t0 + unat count \<or> bit_set (kmem s) ?va x" if "x < bm_bits_count ?va" for x
    using set_range_bits [of "of_nat t0" "of_nat t0 + count" x] that N by (simp add: u e)
  have out: "?km a = kmem s a" if "a \<notin> region (bm_bits ?va) (unat (bm_length ?va))" for a
  proof -
    have "t0 + unat count - 1 < 8 * unat (bm_length ?va)" using le count(1) by (simp add: bm_bits_count_def)
    then have "Suc ((t0 + unat count - 1) div 8) \<le> unat (bm_length ?va)" by (simp add: Suc_le_eq less_mult_imp_div_less)
    from region_mono [OF this, of "bm_bits ?va"] have "a \<notin> region (bm_bits ?va) (Suc ((t0 + unat count - 1) div 8))"
      using that by auto
    then show ?thesis by (intro set_range_outside) (simp_all add: u e)
  qed
  have "bit_set ?km ?bm x = bit_set (kmem s) ?bm x" if x: "x < bm_bits_count ?bm" for x
    by (rule bit_set_cong_region [OF _ x]) (use apart out in \<open>auto simp: bitmaps_apart_def\<close>)
  then have free: "free_pages (s\<lparr>kmem := ?km\<rparr>) = free_pages s" by (auto simp: free_pages_def)
  have "addr_start (kernel_vaddr s) + of_nat t0 * PG_SIZE = heap_page s t0" by (simp add: heap_page_def page_nr_def)
  then have "vaddr_get_pages KERNEL_POOL count s = Inr (heap_page s t0, s\<lparr>kmem := ?km\<rparr>)"
    using t0(1) of_nat_not_minus_one [OF small(1)] by (simp add: vaddr_get_pages_def Let_def)
  moreover have "keeps_data s (kmem s) ?km" using out by (simp add: keeps_data_def)
  ultimately show thesis using that t0(2) bits free by blast
qed

lemma malloc_run:
  fixes s :: "'a memory_scheme"
  assumes ready: "heap_ready s" and count: "0 < unat count" "unat count < 3840"
    and run: "run_clear (kmem s) (addr_bitmap (kernel_vaddr s)) t (unat count)"
      "t + unat count \<le> bm_bits_count (addr_bitmap (kernel_vaddr s))"
    and pages: "unat count \<le> card (free_pages s)"
  obtains t0 ks m' km' where "malloc_pages KERNEL_POOL count s = Inr (heap_page s t0, s\<lparr>phys := m', kmem := km'\<rparr>)"
    and "length ks = unat count" and "heap_grown s (s\<lparr>phys := m', kmem := km'\<rparr>) t0 ks"
    and "first_run (kmem s) (addr_bitmap (kernel_vaddr s)) (unat count) (bm_bits_count (addr_bitmap (kernel_vaddr s))) t0"
proof -
  let ?va = "addr_bitmap (kernel_vaddr s)" and ?p = "kernel_pool s"
  obtain t0 km where R: "vaddr_get_pages KERNEL_POOL count s = Inr (heap_page s t0, s\<lparr>kmem := km\<rparr>)"
    "first_run (kmem s) ?va (unat count) (bm_bits_count ?va) t0"
    "\<And>x. x < bm_bits_count ?va \<Longrightarrow> bit_set km ?va x \<longleftrightarrow> t0 \<le> x \<and> x < t0 + unat count \<or> bit_set (kmem s) ?va x"
    "free_pages (s\<lparr>kmem := km\<rparr>) = free_pages s" "keeps_data s (kmem s) km"
    by (rule reserve_run [OF ready count(1) run]) blast
  have le: "t0 + unat count \<le> bm_bits_count ?va" and clear: "run_clear (kmem s) ?va t0 (unat count)"
    using R(2) by (auto simp: first_run_def)
  obtain m1 km1 ks where M: "map_pages KERNEL_POOL (heap_page s t0) (unat count) (s\<lparr>kmem := km\<rparr>) =
      Inr (True, s\<lparr>kmem := km, phys := m1, kmem := km1\<rparr>)"
    "length ks = unat count" "distinct ks" "set ks \<subseteq> free_pages s"
    "free_pages (s\<lparr>kmem := km, phys := m1, kmem := km1\<rparr>) = free_pages s - set ks"
    "maps_run (cr3 s) (heap_page s t0) (map (pool_page ?p) ks) (phys s) m1"
    "\<forall>x < bm_bits_count ?va. bit_set km1 ?va x = bit_set km ?va x" "keeps_data s km km1"
    using map_run_in_heap [OF ready le clear pages R(4)] by blast
  have le': "t0 + length ks \<le> bm_bits_count ?va" using le by (simp add: M(2))
  let ?s2 = "s\<lparr>kmem := km, phys := m1, kmem := km1\<rparr>"
  obtain m' where V: "vmemset (heap_page s t0) 0 (length ks * 4096) ?s2 = Inr (?s2\<lparr>phys := m'\<rparr>)"
    "\<And>a. page_frame a \<notin> pool_page ?p ` set ks \<Longrightarrow> m' a = m1 a"
    "\<And>f. f \<in> pool_page ?p ` set ks \<Longrightarrow> zero_frame m' f \<and> spare_frame m1 (cr3 s) f"
    "\<And>i. i < length ks \<Longrightarrow> page_at (?s2\<lparr>phys := m'\<rparr>) (heap_page s (t0 + i)) (pool_page ?p (ks ! i))"
    by (rule run_mapped [OF ready le' M(4,3,6), of ?s2]) simp_all
  let ?s' = "s\<lparr>phys := m', kmem := km1\<rparr>"
  have s2: "?s2\<lparr>phys := m'\<rparr> = ?s'" by simp
  have "length ks * 4096 < 2 ^ 32" using count(2) M(2) by simp
  then have len: "unat (count * PG_SIZE) = length ks * 4096" by (subst unat_mult32) (simp_all add: PG_SIZE_def M(2))
  have t0n: "t0 < bm_bits_count ?va" using le count(1) by simp
  have c: "count > 0 \<and> count < 3840" using count by (simp add: word_less_nat_alt)
  have res: "malloc_pages KERNEL_POOL count s = Inr (heap_page s t0, ?s')"
    using c R(1) M(1) V(1) heap_page_facts(3) [OF ready t0n] by (simp add: malloc_pages_def len)
  have "heap_grown s ?s' t0 ks"
  proof (rule heap_grownI [OF le' _ _ M(3,4) _ M(6) V(2,3) _ keeps_data_trans [OF R(5) M(8)]])
    show "run_clear (kmem s) ?va t0 (length ks)" using clear by (simp add: M(2))
    show "bit_set km1 ?va x \<longleftrightarrow> t0 \<le> x \<and> x < t0 + length ks \<or> bit_set (kmem s) ?va x"
      if "x < bm_bits_count ?va" for x using M(7) R(3) [OF that] that by (simp add: M(2))
    show "free_pages ?s' = free_pages s - set ks" using M(5) by (simp add: free_pages_def)
    show "page_at ?s' (heap_page s (t0 + i)) (pool_page ?p (ks ! i))" if "i < length ks" for i
      using V(4) [OF that] unfolding s2 .
  qed
  then show thesis using that [OF res M(2)] R(2) by blast
qed

end
