(* ===== verification/Loader.thy ===== *)
theory Loader
  imports PageAlloc
begin

text \<open>
  The memory that the loader (\<open>src/boot/loader.asm\<close>, \<open>setup_page\<close>) leaves: the page directory
  at \<open>0x100000\<close>, with its first table at the entries 0 and 768, 254 more tables from entry 769
  on, and itself at entry 1023; the first table maps the first megabyte, the others map nothing.
  The loader does not clear the tables: that they are empty is an assumption on the memory at
  power-on, which the assertion of \<open>bind_vaddr_paddr_page\<close> depends on.
\<close>

section \<open>The tables\<close>

definition loader_dir :: "nat \<Rightarrow> u32" where
  "loader_dir i = (if i = 0 \<or> i = 768 then 0x101000 OR 7
     else if 769 \<le> i \<and> i < 1023 then (0x101000 + PG_SIZE * of_nat (i - 768)) OR 7
     else if i = 1023 then 0x100000 OR 7 else 0)"

definition loader_table :: "nat \<Rightarrow> u32" where
  "loader_table i = (if i < 256 then PG_SIZE * of_nat i OR 7 else 0)"

definition entry_byte :: "(nat \<Rightarrow> u32) \<Rightarrow> nat \<Rightarrow> u8" where
  "entry_byte e k = ucast (drop_bit (8 * (k mod 4)) (e (k div 4)))"

definition loader_phys :: mem where
  "loader_phys a = (if page_frame a = 0x100000 then entry_byte loader_dir (unat (a AND 0xfff))
     else if page_frame a = 0x101000 then entry_byte loader_table (unat (a AND 0xfff)) else 0)"

definition loader_memory :: "mem \<Rightarrow> bool" where
  "loader_memory m \<longleftrightarrow> (\<forall>a. 0x100000 \<le> unat a \<and> unat a < 0x200000 \<longrightarrow> m a = loader_phys a)"

section \<open>Reading an entry\<close>

lemma table_word:
  assumes i: "unat i < 1024" and m: "\<And>k. k < 4096 \<Longrightarrow> m (page_frame f + of_nat k) = entry_byte e k"
  shows "load32 m (page_frame f + i * 4) = e (unat i)"
proof -
  let ?a = "page_frame f + i * 4"
  have byte: "m (?a + of_nat j) = ucast (drop_bit (8 * j) (e (unat i)))" if j: "j < 4" for j
    unfolding entry_offset(1) [OF i j] using m [OF entry_offset(2) [OF i j]] j by (simp add: entry_byte_def)
  have "m b = store32 m ?a (e (unat i)) b" if "b \<in> region ?a 4" for b
  proof -
    have "b = ?a \<or> b = ?a + 1 \<or> b = ?a + 2 \<or> b = ?a + 3" using that by (simp add: region4)
    then show ?thesis using byte [of 0] byte [of 1] byte [of 2] byte [of 3] by (auto simp: store32_def)
  qed
  then have "load32 m ?a = load32 (store32 m ?a (e (unat i))) ?a" by (intro load32_cong)
  then show ?thesis by (simp add: load32_store32_same)
qed

lemma frame_bytes:
  assumes "loader_memory m" and f: "page_frame f = f" "0x100000 \<le> unat f" "unat f < 0x200000" and k: "k < 4096"
  shows "m (f + of_nat k) = (if f = 0x100000 then entry_byte loader_dir k
    else if f = 0x101000 then entry_byte loader_table k else 0)"
proof -
  let ?a = "f + of_nat k"
  have k': "unat (of_nat k :: u32) = k" using k by (intro unat_of_nat32) simp
  have fk: "page_frame ?a = f" "?a AND 0xfff = of_nat k" using page_frame_add [OF k, of f] f(1) by simp_all
  have u: "unat ?a = unat f + k" using f(3) k by (subst unat_add32) (simp_all add: k')
  have "unat f = unat f div 4096 * 4096" using f(1) unat_frame [of f] by (simp add: page_frame_def)
  moreover have "unat f div 4096 < 512" using f(3) by (intro div_less_iff_less_mult [THEN iffD2]) simp_all
  ultimately have "unat f + k < 0x200000" using k by linarith
  then have "unat ?a < 0x200000" unfolding u .
  then have "m ?a = loader_phys ?a" using assms(1) f(2) u by (simp add: loader_memory_def)
  then show ?thesis unfolding loader_phys_def fk k' .
qed

lemma loader_pde:
  assumes "loader_memory m"
  shows "load32 m (pde_addr 0x100000 v) = loader_dir (unat (PDE_IDX v))"
proof -
  have f: "page_frame (0x100000 :: u32) = 0x100000" by (simp add: page_frame_def)
  show ?thesis unfolding pde_addr_def
    by (rule table_word [OF idx_less(1)]) (use frame_bytes [OF assms f] in \<open>simp add: f\<close>)
qed

lemma loader_first_table:
  assumes "loader_memory m" and "page_frame t = 0x101000"
  shows "load32 m (page_frame t + PTE_IDX v * 4) = loader_table (unat (PTE_IDX v))"
proof -
  have f: "page_frame (0x101000 :: u32) = 0x101000" by (simp add: page_frame_def)
  show ?thesis
    by (rule table_word [OF idx_less(2)]) (use frame_bytes [OF assms(1) f] in \<open>simp add: assms(2)\<close>)
qed

lemma loader_other_table:
  assumes "loader_memory m" and "0x102000 \<le> unat (page_frame t)" "unat (page_frame t) < 0x200000"
  shows "load32 m (page_frame t + PTE_IDX v * 4) = 0"
proof -
  have "page_frame t \<noteq> 0x100000" "page_frame t \<noteq> 0x101000" using assms(2) by auto
  then show ?thesis
    using assms(2,3) by (intro table_word [OF idx_less(2), where e = "\<lambda>_. 0"]) (simp add: frame_bytes [OF assms(1)] entry_byte_def)
qed

section \<open>The directory\<close>

text \<open>The frame of table \<open>n\<close>.\<close>

definition table_frame :: "nat \<Rightarrow> u32" where
  "table_frame n = 0x101000 + PG_SIZE * of_nat n"

lemma table_frame:
  assumes "n < 255"
  shows "unat (table_frame n) = 0x101000 + 4096 * n" "page_frame (table_frame n) = table_frame n"
proof -
  have n: "unat (of_nat n :: u32) = n" using assms by (intro unat_of_nat32) simp
  have p: "unat (PG_SIZE * of_nat n :: u32) = 4096 * n" using assms by (subst unat_mult32) (simp_all add: PG_SIZE_def n)
  show u: "unat (table_frame n) = 0x101000 + 4096 * n"
    unfolding table_frame_def using assms by (subst unat_add32) (simp_all add: p)
  have "(0x101000 + 4096 * n) mod 4096 = 0" by simp
  then show "page_frame (table_frame n) = table_frame n" by (intro page_frame_aligned) (simp only: u)
qed

lemma loader_dir_cases:
  assumes "i < 1024"
  shows "loader_dir i = (if i = 0 then table_frame 0 OR 7 else if i = 1023 then 0x100000 OR 7
    else if 768 \<le> i then table_frame (i - 768) OR 7 else 0)"
  using assms by (auto simp: loader_dir_def table_frame_def PG_SIZE_def)

lemma loader_space:
  assumes m: "loader_memory m"
  shows "space_ok m 0x100000" "kernel_tables m 0x100000"
    and "page_frame f = f \<Longrightarrow> unat f < 0x100000 \<or> 0x200000 \<le> unat f \<Longrightarrow> spare_frame m 0x100000 f"
proof -
  have cr: "page_frame (0x100000 :: u32) = 0x100000" by (simp add: page_frame_def)
  note pde = loader_pde [OF m]
  have entry: "loader_dir (unat (PDE_IDX v)) = (if unat (PDE_IDX v) = 0 then table_frame 0 OR 7
      else if unat (PDE_IDX v) = 1023 then 0x100000 OR 7
      else if 768 \<le> unat (PDE_IDX v) then table_frame (unat (PDE_IDX v) - 768) OR 7 else 0)" for v
    by (rule loader_dir_cases [OF idx_less(1)])
  have win: "PDE_IDX 0xffc00000 = 1023" by (simp add: PDE_IDX_def)
  have top: "load32 m (page_frame 0x100000 + 1023 * 4) = 0x100000 OR 7"
    using pde [of "0xffc00000"] unfolding pde_addr_self [OF win] win by (simp add: loader_dir_def)
  have used: "\<exists>n < 255. page_frame (load32 m (pde_addr 0x100000 v)) = table_frame n"
    if v: "PDE_IDX v \<noteq> 1023" "present (load32 m (pde_addr 0x100000 v))" for v
  proof -
    have i: "unat (PDE_IDX v) \<noteq> 1023" "unat (PDE_IDX v) < 1024" using v(1) idx_less(1) by (auto simp: word_unat_eq_iff)
    show ?thesis
      using v(2) i entry_flags(2) unfolding pde entry by (auto simp: table_frame(2) split: if_splits intro!: exI [of _ "unat (PDE_IDX v) - 768"])
  qed
  have not_dir: "table_frame n \<noteq> 0x100000" if "n < 255" for n using table_frame(1) [OF that] by auto
  have other: "page_frame (load32 m (pde_addr 0x100000 v)) \<noteq> 0x100000"
    if "PDE_IDX v \<noteq> 1023" "present (load32 m (pde_addr 0x100000 v))" for v
    using used [OF that] not_dir by metis
  show space: "space_ok m 0x100000"
    unfolding space_ok_def self_map_def top unfolding entry_flags cr using other by (simp add: present_def)
  show "spare_frame m 0x100000 f" if "page_frame f = f" "unat f < 0x100000 \<or> 0x200000 \<le> unat f"
  proof -
    have "f \<noteq> table_frame n" if "n < 255" for n
      using table_frame(1) [OF that] \<open>unat f < 0x100000 \<or> 0x200000 \<le> unat f\<close> that by auto
    then show ?thesis using that used by (fastforce simp: spare_frame_def cr)
  qed
  have kern: "load32 m (pde_addr 0x100000 v) = table_frame (unat (PDE_IDX v) - 768) OR 7"
    "unat (PDE_IDX v) - 768 < 255" if "kern v" for v
    using that unfolding pde entry kern_def by auto
  show "kernel_tables m 0x100000"
    unfolding kernel_tables_def
  proof (intro conjI allI impI)
    show "present (load32 m (pde_addr 0x100000 v))" if "kern v" for v unfolding kern(1) [OF that] by (rule entry_flags)
    fix v w assume A: "kern v \<and> kern w \<and>
      page_frame (load32 m (pde_addr 0x100000 v)) = page_frame (load32 m (pde_addr 0x100000 w))"
    have kv: "kern v" "kern w" using A by simp_all
    have fr: "page_frame (load32 m (pde_addr 0x100000 u)) = table_frame (unat (PDE_IDX u) - 768)" if "kern u" for u
      unfolding kern(1) [OF that] entry_flags by (rule table_frame(2) [OF kern(2) [OF that]])
    have "table_frame (unat (PDE_IDX v) - 768) = table_frame (unat (PDE_IDX w) - 768)"
      using A fr [OF kv(1)] fr [OF kv(2)] by metis
    then have "0x101000 + 4096 * (unat (PDE_IDX v) - 768) = 0x101000 + 4096 * (unat (PDE_IDX w) - 768)"
      using table_frame(1) [OF kern(2) [OF kv(1)]] table_frame(1) [OF kern(2) [OF kv(2)]] by metis
    then have "unat (PDE_IDX v) - 768 = unat (PDE_IDX w) - 768" by (simp only: add_left_cancel mult_cancel1) simp
    then show "PDE_IDX v = PDE_IDX w" using kv unfolding kern_def by (intro word32_eqI) linarith
  qed (rule space)
qed

lemma first_heap_entry:
  assumes "768 * 1024 + 256 \<le> x" and "x < 769 * (1024 :: nat)"
  shows "256 \<le> x mod 1024"
proof -
  obtain y where "x = 768 * 1024 + y" using assms(1) by (metis add_leD1 le_Suc_ex)
  moreover from this have "256 \<le> y" "y < 1024" using assms by simp_all
  moreover have "(768 * 1024 + y) mod 1024 = y mod 1024" by (rule mod_mult_self3)
  ultimately show ?thesis by (simp only: mod_less)
qed

text \<open>The first megabyte is where it is and at \<open>0xc0000000\<close>; the heap is not mapped.\<close>

lemma loader_mmu:
  assumes m: "loader_memory m"
  shows "unat v < 0x100000 \<Longrightarrow> mmu m 0x100000 v = Some v"
    and "0xc0100000 \<le> unat v \<Longrightarrow> unat v < 0xffc00000 \<Longrightarrow> mmu m 0x100000 v = None"
proof -
  note pde = loader_pde [OF m]
  show "mmu m 0x100000 v = Some v" if v: "unat v < 0x100000"
  proof -
    have i: "unat (PDE_IDX v) = 0" "unat (PTE_IDX v) = unat v div 4096" using v
      by (simp_all add: unat_PDE_IDX unat_PTE_IDX)
    then have d: "load32 m (pde_addr 0x100000 v) = table_frame 0 OR 7" unfolding pde by (simp add: loader_dir_cases)
    have f0: "page_frame (table_frame 0 OR 7) = 0x101000" by (simp add: page_frame_def table_frame_def)
    have "unat v div 4096 < 256" using v by (simp add: less_mult_imp_div_less)
    then have t: "load32 m (pte_addr m 0x100000 v) = PG_SIZE * of_nat (unat v div 4096) OR 7"
      unfolding pte_addr_def d using loader_first_table [OF m f0, of v] by (simp add: i loader_table_def)
    have "unat (of_nat (unat v div 4096) :: u32) = unat v div 4096" using unat_bound32 [of v]
      by (intro unat_of_nat32) (simp add: less_mult_imp_div_less)
    then have "unat (PG_SIZE * of_nat (unat v div 4096) :: u32) = unat v div 4096 * 4096"
      using v by (subst unat_mult32) (simp_all add: PG_SIZE_def mult.commute div_times_less_eq_dividend [THEN le_less_trans])
    then have "PG_SIZE * of_nat (unat v div 4096) = page_frame v"
      by (intro word32_eqI) (simp add: page_frame_def unat_frame)
    then show ?thesis
      using frame_plus_offset [of v, folded page_frame_def]
      by (simp only: mmu_def d t entry_flags page_frame_idem simp_thms if_True)
  qed
  show "mmu m 0x100000 v = None" if v: "0xc0100000 \<le> unat v" "unat v < 0xffc00000"
  proof -
    have k: "kern v" using v by (simp add: kern_iff)
    let ?n = "unat (PDE_IDX v) - 768"
    have d: "load32 m (pde_addr 0x100000 v) = table_frame ?n OR 7" and n: "?n < 255"
      using k unfolding pde loader_dir_cases [OF idx_less(1)] by (auto simp: kern_def)
    note T = table_frame [OF n]
    have fr: "page_frame (table_frame ?n OR 7) = table_frame ?n" using T(2) by (simp add: entry_flags)
    have "load32 m (pte_addr m 0x100000 v) = 0"
    proof (cases "?n = 0")
      case True
      have "unat v div 2 ^ 22 < 769" using True k unfolding kern_def unat_PDE_IDX by simp
      then have "unat v < 769 * 2 ^ 22" by (rule div_less_iff_less_mult [THEN iffD1, rotated]) simp
      moreover have "768 * 1024 + 256 \<le> unat v div 4096" using div_le_mono [OF v(1), of 4096] by simp
      moreover have "unat v div 4096 < 769 * 1024"
        using \<open>unat v < 769 * 2 ^ 22\<close> by (intro div_less_iff_less_mult [THEN iffD2]) simp_all
      ultimately have "256 \<le> unat (PTE_IDX v)" unfolding unat_PTE_IDX using first_heap_entry [of "unat v div 4096"] by simp
      then show ?thesis
        unfolding pte_addr_def d using loader_first_table [OF m, of "table_frame ?n OR 7" v] True fr
        by (simp add: table_frame_def loader_table_def)
    next
      case False
      then show ?thesis
        unfolding pte_addr_def d by (rule_tac loader_other_table [OF m]; unfold fr T(2) T(1); use n in simp)
    qed
    then show ?thesis by (simp add: mmu_def)
  qed
qed

text \<open>The same megabyte at the start of the kernel's half.\<close>

lemma loader_mmu_high:
  assumes m: "loader_memory m" and v: "unat v < 0x100000"
  shows "mmu m 0x100000 (0xc0000000 + v) = Some v"
proof -
  let ?w = "0xc0000000 + v"
  have w: "unat ?w = 0xc0000000 + unat v" using v by (subst unat_add32) simp_all
  have i: "unat (PDE_IDX v) = 0" "unat (PDE_IDX ?w) = 768" using v by (simp_all add: unat_PDE_IDX w)
  have "(0xc0000000 + unat v) div 4096 = 768 * 1024 + unat v div 4096" by simp
  then have "(0xc0000000 + unat v) div 4096 mod 1024 = unat v div 4096 mod 1024" by (simp only: mod_mult_self3)
  then have j: "PTE_IDX ?w = PTE_IDX v" by (intro word32_eqI) (simp add: unat_PTE_IDX w)
  have "(0xc0000000 + unat v) = 0xc0000 * 4096 + unat v" by simp
  then have "(0xc0000000 + unat v) mod 4096 = unat v mod 4096" by (simp only: mod_mult_self3)
  then have off: "?w AND 0xfff = v AND 0xfff" by (intro word32_eqI) (simp add: unat_offset w)
  have pde: "load32 m (pde_addr 0x100000 ?w) = load32 m (pde_addr 0x100000 v)"
    using i by (simp add: loader_pde [OF m] loader_dir_cases idx_less)
  then have "pte_addr m 0x100000 ?w = pte_addr m 0x100000 v" by (simp add: pte_addr_def j)
  then have "mmu m 0x100000 ?w = mmu m 0x100000 v" using pde off by (simp add: mmu_def)
  then show ?thesis using loader_mmu(1) [OF m v] by simp
qed

end
