(* ===== verification/KernelHeap.thy ===== *)
theory KernelHeap
  imports Loader
begin

text \<open>
  \<open>malloc_kernel_pages\<close> under its lock, and the invariant of the kernel heap that it keeps: every
  call can be followed by another.
\<close>

section \<open>The invariant is kept\<close>

lemma heap_grown_ready:
  assumes grown: "heap_grown s s' t ks" and ready: "heap_ready s"
    and same: "cr3 s' = cr3 s" "kernel_pool s' = kernel_pool s" "kernel_vaddr s' = kernel_vaddr s"
  shows "heap_ready s'"
proof -
  let ?va = "addr_bitmap (kernel_vaddr s)"
  have le: "t + length ks \<le> bm_bits_count ?va"
    and bits: "\<And>x. x < bm_bits_count ?va \<Longrightarrow> bit_set (kmem s') ?va x \<longleftrightarrow>
      t \<le> x \<and> x < t + length ks \<or> bit_set (kmem s) ?va x"
    and pdes: "\<And>w. load32 (phys s') (pde_addr (cr3 s) w) = load32 (phys s) (pde_addr (cr3 s) w)"
    and free: "free_pages s' = free_pages s - set ks"
    and mmu: "\<And>w. kern w \<Longrightarrow> \<forall>i < length ks. \<not> same_page w (heap_page s (t + i)) \<Longrightarrow>
      mmu (phys s') (cr3 s) w = mmu (phys s) (cr3 s) w"
    using grown unfolding heap_grown_def by blast+
  have pool: "pool_ready s" using ready by (simp add: heap_ready_def)
  then have pool': "pool_ready s'" using same_pdes [OF pdes] by (simp add: pool_ready_def same free)
  have page: "heap_page s' = heap_page s" by (simp add: heap_page_def same)
  have "mmu (phys s') (cr3 s) (heap_page s h) = None" if h: "h < bm_bits_count ?va" "\<not> bit_set (kmem s') ?va h" for h
  proof -
    have old: "\<not> bit_set (kmem s) ?va h" "\<not> (t \<le> h \<and> h < t + length ks)" using bits [OF h(1)] h(2) by auto
    have "\<not> same_page (heap_page s h) (heap_page s (t + i))" if "i < length ks" for i
      using heap_page_same [OF ready h(1), of "t + i"] that le old(2) by auto
    then have "mmu (phys s') (cr3 s) (heap_page s h) = mmu (phys s) (cr3 s) (heap_page s h)"
      using mmu heap_page_facts(1) [OF ready h(1)] by blast
    then show ?thesis using ready h(1) old(1) by (simp add: heap_ready_def)
  qed
  then show ?thesis using ready pool' unfolding heap_ready_def same page by blast
qed

section \<open>The locked call\<close>

lemma lock_around:
  assumes "lock_available l s"
  shows "lock_given_back l ((lock_taken l s)\<lparr>phys := m', kmem := km'\<rparr>) = s\<lparr>phys := m', kmem := km'\<rparr>"
  using assms
  by (simp add: lock_available_def lock_given_back_def lock_taken_def set_value_def set_repeat_def set_holder_def
      fun_upd_idem)

lemma lock_available_memory [simp]:
  "lock_available l (s\<lparr>phys := m', kmem := km'\<rparr>) = lock_available l s"
  by (simp add: lock_available_def running_thread_def list_empty_def)

lemma heap_of_taken:
  fixes s :: "'a memory_scheme"
  shows "heap_page (lock_taken l s) = heap_page s" "free_pages (lock_taken l s) = free_pages s"
    "heap_ready (lock_taken l s) = heap_ready s"
proof -
  show page: "heap_page (lock_taken l s) = heap_page s" by (simp add: heap_page_def)
  show "free_pages (lock_taken l s) = free_pages s" by (simp add: free_pages_def)
  then have "pool_ready (lock_taken l s) = pool_ready s" by (simp add: pool_ready_def)
  then show "heap_ready (lock_taken l s) = heap_ready s" by (simp add: heap_ready_def page)
qed

lemma heap_grown_taken:
  fixes s :: "'a memory_scheme"
  shows "heap_grown (lock_taken l s) ((lock_taken l s)\<lparr>phys := m', kmem := km'\<rparr>) t ks =
    heap_grown s (s\<lparr>phys := m', kmem := km'\<rparr>) t ks"
  by (simp add: heap_grown_def heap_of_taken page_at_def free_pages_def keeps_data_def)

lemma malloc_kernel_run:
  fixes s :: "'a memory_scheme"
  assumes ready: "heap_ready s" and lock: "lock_available (plock (kernel_pool s)) s"
    and count: "0 < unat count" "unat count < 3840"
    and run: "run_clear (kmem s) (addr_bitmap (kernel_vaddr s)) t (unat count)"
      "t + unat count \<le> bm_bits_count (addr_bitmap (kernel_vaddr s))"
    and pages: "unat count \<le> card (free_pages s)"
  obtains t0 ks m' km' where "malloc_kernel_pages count s = Inr (heap_page s t0, s\<lparr>phys := m', kmem := km'\<rparr>)"
    and "length ks = unat count" and "heap_grown s (s\<lparr>phys := m', kmem := km'\<rparr>) t0 ks"
    and "first_run (kmem s) (addr_bitmap (kernel_vaddr s)) (unat count) (bm_bits_count (addr_bitmap (kernel_vaddr s))) t0"
proof -
  let ?l = "plock (kernel_pool s)"
  define s1 where "s1 = lock_taken ?l s"
  have f1: "kmem s1 = kmem s" "kernel_vaddr s1 = kernel_vaddr s" "kernel_pool s1 = kernel_pool s"
    by (simp_all add: s1_def)
  have ready1: "heap_ready s1" "free_pages s1 = free_pages s" "heap_page s1 = heap_page s"
    using ready by (simp_all add: s1_def heap_of_taken)
  obtain t0 ks m' km' where M: "malloc_pages KERNEL_POOL count s1 = Inr (heap_page s t0, s1\<lparr>phys := m', kmem := km'\<rparr>)"
    "length ks = unat count" "heap_grown s1 (s1\<lparr>phys := m', kmem := km'\<rparr>) t0 ks"
    "first_run (kmem s) (addr_bitmap (kernel_vaddr s)) (unat count) (bm_bits_count (addr_bitmap (kernel_vaddr s))) t0"
    by (rule malloc_run [OF ready1(1) count, of t, unfolded f1 ready1(2,3), OF run pages]) blast
  let ?s2 = "s1\<lparr>phys := m', kmem := km'\<rparr>"
  have acq: "call_lock ''lock_acquire'' (lock_acquire ?l) s = Inr s1"
    unfolding s1_def using lock by (rule call_acquire)
  have "call_lock ''lock_release'' (lock_release ?l) ?s2 = Inr (lock_given_back ?l ?s2)"
    using lock by (intro call_release)
      (simp_all add: s1_def lock_available_def lock_taken_def set_value_def set_repeat_def set_holder_def list_empty_def
        running_thread_def)
  then have rel: "call_lock ''lock_release'' (lock_release ?l) ?s2 = Inr (s\<lparr>phys := m', kmem := km'\<rparr>)"
    unfolding s1_def lock_around [OF lock] .
  have pool: "pool_of KERNEL_POOL s = kernel_pool s" "pool_of KERNEL_POOL ?s2 = kernel_pool s"
    by (simp_all add: pool_of_def f1)
  have "malloc_kernel_pages count s = Inr (heap_page s t0, s\<lparr>phys := m', kmem := km'\<rparr>)"
    unfolding malloc_kernel_pages_def malloc_locked_def pool acq rbind_simps M(1) prod.case pool rel ..
  then show thesis using that [OF _ M(2) _ M(4)] M(3) by (simp add: s1_def heap_grown_taken)
qed

section \<open>Properties\<close>


text \<open>The sample pools on the tables of the loader.\<close>

definition sample_loader :: memory where
  "sample_loader = sample_memory\<lparr>phys := loader_phys, cr3 := 0x100000\<rparr>"

lemma sample_loader_fields:
  "phys sample_loader = loader_phys" "cr3 sample_loader = 0x100000" "kmem sample_loader = (\<lambda>_. 0)"
  "kernel_pool sample_loader = kernel_pool sample_memory" "kernel_vaddr sample_loader = kernel_vaddr sample_memory"
  by (simp_all add: sample_loader_def)

lemma sample_loader_ready:
  "heap_ready sample_loader" "free_pages sample_loader = {..<16}"
proof -
  have m: "loader_memory loader_phys" by (simp add: loader_memory_def)
  have apart: "bitmaps_apart \<lparr>bm_length = 2, bm_bits = 0xc009a000\<rparr> \<lparr>bm_length = 2, bm_bits = 0xc009a004\<rparr>"
    "bitmaps_apart \<lparr>bm_length = 2, bm_bits = 0xc009a004\<rparr> \<lparr>bm_length = 2, bm_bits = 0xc009a000\<rparr>"
    using region_apart [of 0 2 4 2 "0xc009a000 :: u32"] by (simp_all add: bitmaps_apart_def Int_commute)
  show free: "free_pages sample_loader = {..<16}"
    by (auto simp: free_pages_def sample_loader_fields bm_bits_count_def bit_set_def)
  have ok: "pool_ok (kernel_pool sample_memory)" by (simp add: pool_ok_def bm_bits_count_def)
  have "spare_frame loader_phys 0x100000 (pool_page (kernel_pool sample_memory) i)" if i: "i < 16" for i
  proof (rule loader_space(3) [OF m])
    have c: "i < bm_bits_count (pool_bitmap (kernel_pool sample_memory))" using i by (simp add: bm_bits_count_def)
    show "page_frame (pool_page (kernel_pool sample_memory) i) = pool_page (kernel_pool sample_memory) i"
      using ok c by (rule pool_page_aligned)
    show "unat (pool_page (kernel_pool sample_memory) i) < 0x100000 \<or> 0x200000 \<le> unat (pool_page (kernel_pool sample_memory) i)"
      unfolding unat_pool_page [OF ok c] by simp
  qed
  then have pool: "pool_ready sample_loader"
    using loader_space(2) [OF m] ok apart(1) unfolding pool_ready_def free sample_loader_fields by simp
  have "mmu loader_phys 0x100000 (heap_page sample_loader h) = None" if "h < 16" for h
  proof (rule loader_mmu(2) [OF m])
    have "unat (of_nat h * PG_SIZE :: u32) = h * 4096"
      using that by (subst unat_mult32) (simp_all add: PG_SIZE_def unat_of_nat32)
    then have "unat (heap_page sample_loader h) = 0xc0100000 + h * 4096"
      unfolding heap_page_def page_nr_def sample_loader_fields using that by (subst unat_add32) simp_all
    then show "0xc0100000 \<le> unat (heap_page sample_loader h)" "unat (heap_page sample_loader h) < 0xffc00000"
      using that by simp_all
  qed
  then show "heap_ready sample_loader"
    using pool apart(2) unfolding heap_ready_def sample_loader_fields by (simp add: bm_bits_count_def)
qed


end
