(* ===== verification/Process.thy ===== *)
theory Process
  imports Console KernelHeap
begin

text \<open>
  \<open>src/kernel/process.c\<close> and the creation of threads in \<open>thread.c\<close>: \<open>thread_start\<close>, and
  \<open>process_execute\<close> with the page directory and the address space bitmap it makes. The objects
  of type \<open>struct intr_stack\<close> are a map by address; \<open>intr_exit\<close> of \<open>interrupt_handler.asm\<close> loads
  the registers from one. A pointer to \<open>start_process\<close> and the text that \<open>create_page_dir\<close>
  prints are addresses that the linker chooses.
\<close>

section \<open>Data\<close>

record intr_stack =
  is_vec_no :: u32
  is_edi :: u32
  is_esi :: u32
  is_ebp :: u32
  is_esp_dummy :: u32
  is_ebx :: u32
  is_edx :: u32
  is_ecx :: u32
  is_eax :: u32
  is_gs :: u32
  is_fs :: u32
  is_es :: u32
  is_ds :: u32
  is_err_code :: u32
  is_eip :: u32
  is_cs :: u32
  is_eflags :: u32
  is_esp :: u32
  is_ss :: u32

text \<open>The registers that a return from an interrupt loads, flags and stack pointer apart.\<close>

record regs =
  r_edi :: u32
  r_esi :: u32
  r_ebp :: u32
  r_ebx :: u32
  r_edx :: u32
  r_ecx :: u32
  r_eax :: u32
  r_gs :: u32
  r_fs :: u32
  r_es :: u32
  r_ds :: u32
  r_eip :: u32
  r_cs :: u32
  r_ss :: u32

record processes = console +
  intr_stacks :: "u32 \<Rightarrow> intr_stack"
  cpu_regs :: regs
  start_process_addr :: u32
  page_dir_failed_text :: u32

definition USER_VADDR_START :: u32 where
  "USER_VADDR_START = 0x8048000"

definition DIV_ROUND_UP :: "u32 \<Rightarrow> u32 \<Rightarrow> u32" where
  "DIV_ROUND_UP x step = (x + step - 1) div step"

section \<open>Threads\<close>

text \<open>
  The \<open>thread_stack\<close> that \<open>thread_create\<close> writes, as the pending steps of the thread: it will
  begin in \<open>kernel_thread\<close>, which enables interrupts and calls the function.
\<close>

definition new_stack :: "u32 \<Rightarrow> 'a sync_scheme \<Rightarrow> 'a sync_scheme" where
  "new_stack thread s = s\<lparr>frames := (frames s)(thread := [KernelThread])\<rparr>"

definition kernel_thread :: "(u32 \<Rightarrow> 'a cpu_scheme \<Rightarrow> 'a cpu_scheme outcome) \<Rightarrow> u32 \<Rightarrow> 'a cpu_scheme \<Rightarrow> 'a cpu_scheme outcome" where
  "kernel_thread function func_arg s = function func_arg (snd (intr_enable s))"

text \<open>The end of \<open>thread_start\<close> and of \<open>process_execute\<close>: the new thread joins the two lists.\<close>

definition join_lists :: "string \<Rightarrow> u32 \<Rightarrow> 'a threads_scheme \<Rightarrow> 'a threads_scheme outcome" where
  "join_lists fn thread s =
     rbind (assert_not_in fn ''!elem_find(&thread_ready_list, &thread->general_tag)''
              (thread_ready_list s) (general_tag thread) s) (\<lambda>_.
       let s1 = list_append (thread_ready_list s) (general_tag thread) s
       in rbind (assert_not_in fn ''!elem_find(&thread_all_list, &thread->all_list_tag)''
                   (thread_all_list s1) (all_list_tag thread) s1)
            (\<lambda>_. Inr (list_append (thread_all_list s1) (all_list_tag thread) s1)))"

definition thread_start :: "u8 list \<Rightarrow> u32 \<Rightarrow> u32 \<Rightarrow> u32 \<Rightarrow> 'a memory_scheme \<Rightarrow> (u32 \<times> 'a memory_scheme) outcome" where
  "thread_start name prio function func_arg s =
     rbind (malloc_kernel_pages 1 s) (\<lambda>(thread, s1).
       rbind (init_thread thread name prio s1) (\<lambda>s2.
         rbind (join_lists ''thread_start'' thread (new_stack thread (thread_create thread function func_arg s2)))
           (\<lambda>s3. Inr (thread, s3))))"

section \<open>Processes\<close>

text \<open>The directory entries from \<open>0x300\<close> on are copied through the recursive mapping.\<close>

definition create_page_dir :: "'a console_scheme \<Rightarrow> u32 \<Rightarrow> (u32 \<times> 'a console_scheme) outcome" where
  "create_page_dir s failed_text =
     rbind (malloc_kernel_pages 1 s) (\<lambda>(page_dir_vaddr, s1).
       if page_dir_vaddr = NULL
       then rbind (console_print_str failed_text s1) (\<lambda>s2. Inr (NULL, s2))
       else rbind (vmemcpy (page_dir_vaddr + 0x300 * 4) (0xfffff000 + 0x300 * 4) 1024 s1) (\<lambda>s2.
         rbind (vaddr_to_paddr s2 page_dir_vaddr) (\<lambda>new_page_dir_phy_addr.
           rbind (vstore32 (page_dir_vaddr + 1023 * 4) (new_page_dir_phy_addr OR 4 OR 2 OR 1) s2)
             (\<lambda>s3. Inr (page_dir_vaddr, s3)))))"

definition user_bitmap_length :: u32 where
  "user_bitmap_length = (0xc0000000 - USER_VADDR_START) div PG_SIZE div 8"

definition set_user_vaddr :: "u32 \<Rightarrow> (virtual_addr \<Rightarrow> virtual_addr) \<Rightarrow> 'a threads_scheme \<Rightarrow> 'a threads_scheme" where
  "set_user_vaddr p f s = upd_task p (\<lambda>t. t\<lparr>userprog_vaddr := f (userprog_vaddr t)\<rparr>) s"

definition create_user_vaddr_bitmap :: "u32 \<Rightarrow> 'a memory_scheme \<Rightarrow> 'a memory_scheme outcome" where
  "create_user_vaddr_bitmap user_prog s =
     (let s1 = set_user_vaddr user_prog (\<lambda>v. v\<lparr>addr_start := USER_VADDR_START\<rparr>) s;
          bitmap_pg_cnt = DIV_ROUND_UP user_bitmap_length PG_SIZE
      in rbind (malloc_kernel_pages bitmap_pg_cnt s1) (\<lambda>(bits, s2).
           let s3 = set_user_vaddr user_prog
                 (\<lambda>v. v\<lparr>addr_bitmap := (addr_bitmap v)\<lparr>bm_bits := bits, bm_length := user_bitmap_length\<rparr>\<rparr>) s2
           in Inr (s3\<lparr>kmem := bitmap_init (kmem s3) (addr_bitmap (userprog_vaddr (tasks s3 user_prog)))\<rparr>)))"

definition process_execute :: "u32 \<Rightarrow> u8 list \<Rightarrow> 'a processes_scheme \<Rightarrow> 'a processes_scheme outcome" where
  "process_execute filename name s =
     rbind (malloc_kernel_pages 1 s) (\<lambda>(thread, s1).
       rbind (init_thread thread name 31 s1) (\<lambda>s2.
         rbind (create_user_vaddr_bitmap thread s2) (\<lambda>s3.
           let s4 = new_stack thread (thread_create thread (start_process_addr s3) filename s3)
           in rbind (create_page_dir s4 (page_dir_failed_text s4)) (\<lambda>(pd, s5).
                let s6 = upd_task thread (\<lambda>t. t\<lparr>pgdir := pd\<rparr>) s5;
                    (old_status, s7) = intr_disable s6
                in rbind (join_lists ''process_execute'' thread s7)
                     (\<lambda>s8. Inr (snd (intr_set_status old_status s8)))))))"

text \<open>
  Loading a segment register: the processor reads the descriptor from the table whose linear address
  is in its register, through the page tables. The null selector is allowed for data segments.
\<close>

definition read_descriptor :: "u32 \<Rightarrow> 'a segments_scheme \<Rightarrow> unit outcome" where
  "read_descriptor sel s =
     (let i = sel AND 0xfff8
      in if unat (gdtr_limit s) < unat i + 7 then Inl (Undefined ''general protection'')
         else rbind (vload32 s (gdtr_base s + i)) (\<lambda>_. rbind (vload32 s (gdtr_base s + i + 4)) (\<lambda>_. Inr ())))"

definition load_data_segment :: "u32 \<Rightarrow> 'a segments_scheme \<Rightarrow> unit outcome" where
  "load_data_segment sel s = (if sel AND 0xfffc = 0 then Inr () else read_descriptor sel s)"

definition load_inner_segment :: "u32 \<Rightarrow> 'a segments_scheme \<Rightarrow> unit outcome" where
  "load_inner_segment sel s =
     (if sel AND 0xfffc = 0 then Inl (Undefined ''general protection'') else read_descriptor sel s)"

text \<open>The pops of \<open>intr_exit\<close> and its \<open>iretd\<close>, to an outer privilege level.\<close>

definition intr_exit :: "u32 \<Rightarrow> 'a processes_scheme \<Rightarrow> 'a processes_scheme outcome" where
  "intr_exit p s =
     (let k = intr_stacks s p
      in rbind (load_data_segment (is_gs k) s) (\<lambda>_.
         rbind (load_data_segment (is_fs k) s) (\<lambda>_.
         rbind (load_data_segment (is_es k) s) (\<lambda>_.
         rbind (load_data_segment (is_ds k) s) (\<lambda>_.
         rbind (load_inner_segment (is_cs k) s) (\<lambda>_.
         rbind (load_inner_segment (is_ss k) s) (\<lambda>_.
         Inr (s\<lparr>cpu_regs := \<lparr>r_edi = is_edi k, r_esi = is_esi k, r_ebp = is_ebp k, r_ebx = is_ebx k, r_edx = is_edx k,
             r_ecx = is_ecx k, r_eax = is_eax k, r_gs = is_gs k, r_fs = is_fs k, r_es = is_es k, r_ds = is_ds k,
             r_eip = is_eip k, r_cs = is_cs k, r_ss = is_ss k\<rparr>,
           eflags := is_eflags k, esp := is_esp k\<rparr>))))))))"

text \<open>
  \<open>self_kstack\<close> is a pointer to words, so adding \<open>sizeof(struct thread_stack)\<close>, which is 32,
  moves it by 128 bytes; the flags are \<open>(1 < 1) | (1 << 9)\<close>.
\<close>

definition start_process :: "u32 \<Rightarrow> 'a processes_scheme \<Rightarrow> 'a processes_scheme outcome" where
  "start_process filename s =
     (let cur = running_thread s;
          s1 = upd_task cur (\<lambda>t. t\<lparr>self_kstack := self_kstack t + 4 * 32\<rparr>) s;
          proc_stack = self_kstack (tasks s1 cur);
          s2 = s1\<lparr>intr_stacks := (intr_stacks s1)(proc_stack := (intr_stacks s1 proc_stack)
                 \<lparr>is_edi := 0, is_esi := 0, is_ebp := 0, is_esp_dummy := 0,
                  is_ebx := 0, is_edx := 0, is_ecx := 0, is_eax := 0,
                  is_gs := 0, is_ds := 0x33, is_es := 0x33, is_fs := 0x33,
                  is_eip := filename, is_cs := 0x2b, is_eflags := 0 OR push_bit 9 1\<rparr>)\<rparr>
      in rbind (get_a_page USER_POOL (0xc0000000 - 0x1000) s2) (\<lambda>(page, s3).
           intr_exit proc_stack
             (s3\<lparr>intr_stacks := (intr_stacks s3)(proc_stack := (intr_stacks s3 proc_stack)
                   \<lparr>is_esp := page + PG_SIZE, is_ss := 0x33\<rparr>)\<rparr>)))"

end
