(* ===== verification/Boot.thy ===== *)
theory Boot
  imports Process
begin

text \<open>
  \<open>src/kernel/main.c\<close>: the initialisation of the kernel, in the order of \<open>main\<close>, the two demo
  threads and programs; the dispatch of interrupts to the C handlers (\<open>interrupt_handler.asm\<close>);
  and the report of a failed assertion (\<open>src/kernel/assert.c\<close>).
\<close>

section \<open>The code\<close>

text \<open>
  \<open>u_prog_a_addr\<close> and \<open>u_prog_b_addr\<close> are the addresses of the functions, \<open>v_a_text\<close> and \<open>v_b_text\<close> those of the texts
  \<open>v_a:\<close> and \<open>v_b:\<close>.
\<close>

record kernel = processes +
  test_var_a :: u32
  test_var_b :: u32
  u_prog_a_addr :: u32
  u_prog_b_addr :: u32
  v_a_text :: u32
  v_b_text :: u32

text \<open>All of \<open>main\<close> up to \<open>process_execute\<close>, and all up to its endless loop.\<close>

definition kernel_init :: "'a kernel_scheme \<Rightarrow> 'a kernel_scheme outcome" where
  "kernel_init s =
     (let s1 = interrupt_init (kprintf ''\<newline>\<newline>LiziOS is initializing the kernel...\<newline>'' [] s)
      in rbind (memory_init s1) (\<lambda>s2.
         rbind (thread_init s2) (\<lambda>s3.
         rbind (timer_init s3) (\<lambda>s4.
         rbind (keyboard_init (console_init s4)) tss_init))))"

definition main :: "'a kernel_scheme \<Rightarrow> 'a kernel_scheme outcome" where
  "main s =
     rbind (kernel_init s) (\<lambda>s1.
       rbind (process_execute (u_prog_a_addr s1) (str8 ''user_prog_a'') s1) (\<lambda>s2. Inr (snd (intr_enable s2))))"

text \<open>One round of each loop. A signed counter that overflows is undefined.\<close>

definition next_int :: "string \<Rightarrow> u32 \<Rightarrow> u32 outcome" where
  "next_int fn n = (if n = 0x7fffffff then Inl (Undefined fn) else Inr (n + 1))"

definition k_thread_a :: "'a kernel_scheme \<Rightarrow> 'a kernel_scheme outcome" where
  "k_thread_a s =
     rbind (console_print_str (v_a_text s) s) (\<lambda>s1.
       rbind (next_int ''k_thread_a'' (test_var_a s1)) (\<lambda>n.
         console_print_num (test_var_a s1) (s1\<lparr>test_var_a := n\<rparr>)))"

definition k_thread_b :: "'a kernel_scheme \<Rightarrow> 'a kernel_scheme outcome" where
  "k_thread_b s =
     rbind (console_print_str (v_b_text s) s) (\<lambda>s1.
       rbind (next_int ''k_thread_b'' (test_var_b s1)) (\<lambda>n.
         console_print_num (test_var_b s1) (s1\<lparr>test_var_b := n\<rparr>)))"

definition u_prog_a :: "'a kernel_scheme \<Rightarrow> 'a kernel_scheme outcome" where
  "u_prog_a s = rbind (next_int ''u_prog_a'' (test_var_a s)) (\<lambda>n. Inr (s\<lparr>test_var_a := n\<rparr>))"

definition u_prog_b :: "'a kernel_scheme \<Rightarrow> 'a kernel_scheme outcome" where
  "u_prog_b s = rbind (next_int ''u_prog_b'' (test_var_b s)) (\<lambda>n. Inr (s\<lparr>test_var_b := n\<rparr>))"

text \<open>
  The report of a failed assertion, before the endless loop; the arguments are the addresses
  of the texts.
\<close>

definition panic_spin :: "u32 \<Rightarrow> u32 \<Rightarrow> u32 \<Rightarrow> u32 \<Rightarrow> 'a cpu_scheme \<Rightarrow> 'a cpu_scheme" where
  "panic_spin filename line func condition s =
     (let s1 = snd (intr_disable s);
          s2 = kprintf ''\<newline>-----ASSERT-----\<newline>'' [] s1;
          s3 = kprintf ''filename: %s\<newline>'' [filename] s2;
          s4 = kprintf ''line: %d\<newline>'' [line] s3;
          s5 = kprintf ''function: %s\<newline>'' [func] s4;
          s6 = kprintf ''condition: %s\<newline>'' [condition] s5
      in kprintf ''----------------\<newline>'' [] s6)"

text \<open>
  The entry of a vector: the end of interrupt goes to both controllers, then the handler of
  the vector is called. The flags are restored by \<open>Iret\<close> of the theory \<open>Sync\<close>.
\<close>

fun call_handler :: "intr_handler \<Rightarrow> u8 \<Rightarrow> 'a keyboard_scheme \<Rightarrow> 'a keyboard_scheme outcome" where
  "call_handler DefaultHandler vec s = default_interrupt_handler vec s"
| "call_handler ClockHandler vec s = clock_interrupt_handler s"
| "call_handler KeyboardHandler vec s = intr_keyboard_handler s"

definition interrupt_entry :: "u8 \<Rightarrow> 'a keyboard_scheme \<Rightarrow> 'a keyboard_scheme outcome" where
  "interrupt_entry vec s =
     (case c_interrupt_entry_table s ! unat vec of
        None \<Rightarrow> Inl (Undefined ''interrupt_entry'')
      | Some h \<Rightarrow> call_handler h vec (outb 0x20 0x20 (outb 0xa0 0x20 (cli s))))"

end
