(* ===== verification/PageDir.thy ===== *)
theory PageDir
  imports Process
begin

text \<open>
  \<open>create_page_dir\<close>: the directory of a new process has the entries of the kernel, itself at entry
  1023 and nothing below; with it the kernel's half is translated as with the directory that was
  active, and the user's half is empty.
\<close>

section \<open>The content of the new page\<close>

lemma load32_shift:
  assumes "\<And>j. j < 4 \<Longrightarrow> m' (a + of_nat j) = m (b + of_nat j)"
  shows "load32 m' a = load32 m b"
  using assms [of 0] assms [of 1] assms [of 2] assms [of 3] by (simp add: load32_def)

definition copied_dir :: "mem \<Rightarrow> u32 \<Rightarrow> u32 \<Rightarrow> mem" where
  "copied_dir m cr f = store_bytes m (f + of_nat 0xc00) (map (\<lambda>j. m (page_frame cr + of_nat (0xc00 + j))) [0..<1024])"

definition new_dir :: "mem \<Rightarrow> u32 \<Rightarrow> u32 \<Rightarrow> mem" where
  "new_dir m cr f = store32 (copied_dir m cr f) (f + of_nat 4092) (f OR 7)"

lemma copied_dir_byte:
  assumes "k < 4096"
  shows "copied_dir m cr f (f + of_nat k) = (if k < 0xc00 then m (f + of_nat k) else m (page_frame cr + of_nat k))"
proof -
  let ?bs = "map (\<lambda>j. m (page_frame cr + of_nat (0xc00 + j))) [0..<1024]"
  show ?thesis
  proof (cases "k < 0xc00")
    case True
    have "f + of_nat k \<noteq> f + of_nat 0xc00 + of_nat j" if "j < 1024" for j
      using True that add_offset_eq_iff [where p = f and i = k and j = "0xc00 + j"] by (auto simp: add.assoc)
    then have "f + of_nat k \<notin> region (f + of_nat 0xc00) (length ?bs)" by (auto simp: region_def)
    then show ?thesis unfolding copied_dir_def using True by (subst store_bytes_outside) auto
  next
    case False
    define j where "j = k - 0xc00"
    have j: "k = 0xc00 + j" "j < 1024" using False assms by (simp_all add: j_def)
    have "store_bytes m (f + of_nat 0xc00) ?bs (f + of_nat 0xc00 + of_nat j) = ?bs ! j"
      using j(2) by (intro store_bytes_inside) simp_all
    then show ?thesis unfolding copied_dir_def using j False by (simp add: add.assoc)
  qed
qed

lemma new_dir_frame:
  assumes f: "page_frame f = f"
  shows "same_but f m (copied_dir m cr f)" "same_but f (copied_dir m cr f) (new_dir m cr f)"
proof -
  let ?bs = "map (\<lambda>j. m (page_frame cr + of_nat (0xc00 + j))) [0..<1024]"
  show "same_but f m (copied_dir m cr f)"
    unfolding copied_dir_def by (rule same_but_store [OF f]) simp
  have "page_frame (f + of_nat 4092) = f" using page_frame_add(1) [of 4092 f] f by simp
  moreover have "aligned4 (f + of_nat 4092)" using entry_aligned [of 1023 f] f by simp
  ultimately show "same_but f (copied_dir m cr f) (new_dir m cr f)"
    unfolding new_dir_def by (rule store32_same_but)
qed

text \<open>The 1024 entries.\<close>

lemma new_dir_entry:
  assumes f: "page_frame f = f" and zero: "zero_frame m f" and i: "unat i < 1024"
  shows "load32 (new_dir m cr f) (f + i * 4) = (if unat i = 1023 then f OR 7
    else if 768 \<le> unat i then load32 m (page_frame cr + i * 4) else 0)"
proof -
  have off: "f + i * 4 + of_nat j = f + of_nat (unat i * 4 + j)" "unat i * 4 + j < 4096"
    "page_frame cr + i * 4 + of_nat j = page_frame cr + of_nat (unat i * 4 + j)" if "j < 4" for j
    using entry_offset(1) [OF i that, of f] entry_offset(2) [OF i that] entry_offset(1) [OF i that, of cr] f by simp_all
  show ?thesis
  proof (cases "unat i = 1023")
    case True
    then have "f + i * 4 = f + of_nat 4092" using off(1) [of 0] by simp
    then show ?thesis using True by (simp add: new_dir_def load32_store32_same)
  next
    case False
    have byte: "new_dir m cr f (f + of_nat k) = copied_dir m cr f (f + of_nat k)" if "k < 4092" for k
    proof -
      have "f + of_nat k \<noteq> f + of_nat (4092 + j)" if "j < 4" for j
        using \<open>k < 4092\<close> that add_offset_eq_iff [where p = f and i = k and j = "4092 + j"] by simp
      then have "f + of_nat k \<notin> region (f + of_nat 4092) 4" by (auto simp: region_def add.assoc)
      then show ?thesis unfolding new_dir_def by (rule store32_outside)
    qed
    have lt: "unat i * 4 + j < 4092" if "j < 4" for j using False i that by simp
    show ?thesis
    proof (cases "768 \<le> unat i")
      case True
      have "load32 (new_dir m cr f) (f + i * 4) = load32 m (page_frame cr + i * 4)"
      proof (rule load32_shift)
        fix j :: nat assume j: "j < 4"
        have "\<not> unat i * 4 + j < 0xc00" using True by simp
        then show "new_dir m cr f (f + i * 4 + of_nat j) = m (page_frame cr + i * 4 + of_nat j)"
          unfolding off(1,3) [OF j] byte [OF lt [OF j]] copied_dir_byte [OF off(2) [OF j]] by simp
      qed
      then show ?thesis using True False by simp
    next
      case low: False
      have "load32 (new_dir m cr f) (f + i * 4) = 0"
      proof (rule load32_zero)
        fix j :: nat assume j: "j < 4"
        have k: "unat i * 4 + j < 0xc00" using low j by simp
        have "m (f + of_nat (unat i * 4 + j)) = 0" using zero off(2) [OF j] unfolding zero_frame_def by blast
        then show "new_dir m cr f (f + i * 4 + of_nat j) = 0"
          unfolding off(1) [OF j] byte [OF lt [OF j]] copied_dir_byte [OF off(2) [OF j]] if_P [OF k] .
      qed
      then show ?thesis using low False by simp
    qed
  qed
qed

text \<open>The address space of the new directory.\<close>

lemma new_dir_space:
  assumes tables: "kernel_tables m cr" and f: "spare_frame m cr f" and zero: "zero_frame m f"
  shows "shares_kernel (new_dir m cr f) cr f" "self_map (new_dir m cr f) f"
    and "unat (PDE_IDX v) < 768 \<Longrightarrow> \<not> present (load32 (new_dir m cr f) (pde_addr f v))"
    and "kern v \<Longrightarrow> mmu (new_dir m cr f) f v = mmu m cr v"
    and "kernel_tables (new_dir m cr f) f"
proof -
  let ?m = "new_dir m cr f"
  have ff: "page_frame f = f" "f \<noteq> page_frame cr" using f by (auto simp: spare_frame_def)
  have same: "same_but f m ?m" using new_dir_frame [OF ff(1)] by (rule same_but_trans)
  have pde: "load32 ?m (pde_addr f v) = (if unat (PDE_IDX v) = 1023 then f OR 7
      else if 768 \<le> unat (PDE_IDX v) then load32 m (pde_addr cr v) else 0)" for v
    using new_dir_entry [OF ff(1) zero idx_less(1)] by (simp add: pde_addr_def ff(1))
  have old: "load32 ?m (pde_addr cr v) = load32 m (pde_addr cr v)" for v by (rule spare_pde [OF f same])
  have shared: "load32 ?m (pde_addr f v) = load32 m (pde_addr cr v)" if "kern v" for v
    using that unfolding pde by (simp add: kern_def)
  show shares: "shares_kernel ?m cr f" by (simp add: shares_kernel_def shared old)
  have win: "PDE_IDX 0xffc00000 = 1023" by (simp add: PDE_IDX_def)
  have "load32 ?m (page_frame f + 1023 * 4) = f OR 7"
    using pde [of "0xffc00000"] unfolding pde_addr_self [OF win] win by simp
  then show self: "self_map ?m f" by (simp add: self_map_def ff(1))
  show "\<not> present (load32 ?m (pde_addr f v))" if "unat (PDE_IDX v) < 768" using that by (simp add: pde)
  show "mmu ?m f v = mmu m cr v" if "kern v"
    unfolding shares_kernel_mmu [OF shares that] by (rule spare_mmu [OF f same kern_not_window [OF that]])
  have ok: "space_ok m cr" using tables by (simp add: kernel_tables_def)
  have "page_frame (load32 ?m (pde_addr f v)) \<noteq> page_frame f"
    if v: "PDE_IDX v \<noteq> 1023" "present (load32 ?m (pde_addr f v))" for v
  proof -
    have "unat (PDE_IDX v) \<noteq> 1023" using v(1) by (simp add: word_unat_eq_iff)
    then have "768 \<le> unat (PDE_IDX v)" and eq: "load32 ?m (pde_addr f v) = load32 m (pde_addr cr v)"
      using v(2) unfolding pde by (auto split: if_splits)
    then show ?thesis using f v unfolding eq by (simp add: spare_frame_def ff(1))
  qed
  then have space: "space_ok ?m f" using self by (simp add: space_ok_def)
  show "kernel_tables ?m f"
    unfolding kernel_tables_def
  proof (intro conjI allI impI)
    fix v w assume A: "kern v \<and> kern w \<and> page_frame (load32 ?m (pde_addr f v)) = page_frame (load32 ?m (pde_addr f w))"
    then show "PDE_IDX v = PDE_IDX w" using tables shared unfolding kernel_tables_def by metis
  qed (use tables space shared in \<open>simp_all add: kernel_tables_def\<close>)
qed

section \<open>The code\<close>

lemma window_mmu: "self_map m cr \<Longrightarrow> k < 4096 \<Longrightarrow> mmu m cr (0xfffff000 + of_nat k) = Some (page_frame cr + of_nat k)"
proof -
  assume self: "self_map m cr" and k: "k < 4096"
  have fr: "page_frame (0xfffff000 :: u32) = 0xfffff000" by (simp add: page_frame_def)
  have page: "same_page (0xfffff000 + of_nat k) 0xfffff000" using page_offset_fields(2) [OF fr k] .
  have base: "PDE_IDX 0xfffff000 = 1023" "PTE_IDX 0xfffff000 = 1023" by (simp_all add: PDE_IDX_def PTE_IDX_def)
  have off: "(0xfffff000 + of_nat k) AND 0xfff = (of_nat k :: u32)" using page_frame_add(2) [OF k, of "0xfffff000"] fr by simp
  have "pde_addr cr (0xfffff000 + of_nat k) = page_frame cr + 1023 * 4"
    "pte_addr m cr (0xfffff000 + of_nat k) = page_frame cr + 1023 * 4"
    using page self unfolding pte_addr_def pde_addr_def same_page_idx base by (simp_all add: self_map_def)
  then show ?thesis using self unfolding mmu_def off by (simp add: self_map_def)
qed

lemma copy_kernel_entries:
  fixes s :: "'a paging_scheme"
  assumes at: "page_at s v f" and self: "self_map (phys s) (cr3 s)"
  shows "vmemcpy (v + 0x300 * 4) (0xfffff000 + 0x300 * 4) 1024 s = Inr (s\<lparr>phys := copied_dir (phys s) (cr3 s) f\<rparr>)"
proof -
  let ?g = "\<lambda>j. phys s (page_frame (cr3 s) + of_nat (0xc00 + j))"
  have spare: "spare_frame (phys s) (cr3 s) f" using at by (simp add: page_at_def)
  have "vmemcpy (v + of_nat 0xc00) (0xfffff000 + of_nat 0xc00) 1024 s = vstore_bytes (v + of_nat 0xc00) (map ?g [0..<1024]) s"
  proof (rule vmemcpy_bytes [OF at])
    fix j :: nat and s' :: "'a paging_scheme"
    assume j: "j < 1024" and same: "same_but f (phys s) (phys s')" and cr: "cr3 s' = cr3 s"
    have k: "0xc00 + j < 4096" using j by simp
    have self': "self_map (phys s') (cr3 s)" using self spare_self_map [OF spare same] by simp
    have "mmu (phys s') (cr3 s') (0xfffff000 + of_nat 0xc00 + of_nat j) = Some (page_frame (cr3 s) + of_nat (0xc00 + j))"
      using window_mmu [OF self' k] by (simp add: cr add.assoc)
    moreover have "phys s' (page_frame (cr3 s) + of_nat (0xc00 + j)) = ?g j"
      using same spare page_frame_add(1) [OF k, of "cr3 s"] by (auto simp: same_but_def spare_frame_def)
    ultimately show "vload8 s' (0xfffff000 + of_nat 0xc00 + of_nat j) = Inr (?g j)" by (simp add: vload8_def translate_def)
  qed simp
  also have "\<dots> = Inr (s\<lparr>phys := copied_dir (phys s) (cr3 s) f\<rparr>)"
    unfolding copied_dir_def by (rule vstore_bytes_page [OF at]) simp
  finally show ?thesis by simp
qed

lemma heap_ready_cong:
  assumes "phys s' = phys s" "cr3 s' = cr3 s" "kmem s' = kmem s" "kernel_pool s' = kernel_pool s" "kernel_vaddr s' = kernel_vaddr s"
  shows "heap_ready s' = heap_ready s" "free_pages s' = free_pages s" "heap_page s' = heap_page s"
proof -
  show free: "free_pages s' = free_pages s" by (simp add: free_pages_def assms)
  show page: "heap_page s' = heap_page s" by (simp add: heap_page_def assms)
  have "pool_ready s' = pool_ready s" unfolding pool_ready_def free by (simp add: assms)
  then show "heap_ready s' = heap_ready s" unfolding heap_ready_def page by (simp add: assms)
qed

lemma heap_ready_spare:
  assumes ready: "heap_ready s" and f: "spare_frame (phys s) (cr3 s) f" and same: "same_but f (phys s) m'"
  shows "heap_ready (s\<lparr>phys := m'\<rparr>)"
proof -
  let ?s = "s\<lparr>phys := m'\<rparr>"
  have page: "heap_page ?s = heap_page s" and free: "free_pages ?s = free_pages s"
    by (simp_all add: heap_page_def free_pages_def)
  have pdes: "load32 m' (pde_addr (cr3 s) w) = load32 (phys s) (pde_addr (cr3 s) w)" for w by (rule spare_pde [OF f same])
  have "pool_ready ?s" using ready same_pdes [OF pdes] unfolding heap_ready_def pool_ready_def free by simp
  moreover have "mmu m' (cr3 s) (heap_page s h) = mmu (phys s) (cr3 s) (heap_page s h)"
    if "h < bm_bits_count (addr_bitmap (kernel_vaddr s))" for h
    using heap_page_facts(1) [OF ready that] by (intro spare_mmu [OF f same] kern_not_window)
  ultimately show ?thesis using ready unfolding heap_ready_def page by simp
qed

text \<open>The heap can be used from the new address space too.\<close>

lemma new_dir_heap:
  assumes ready: "heap_ready s" and f: "spare_frame (phys s) (cr3 s) f" and zero: "zero_frame (phys s) f"
    and used: "\<And>i. i \<in> free_pages s \<Longrightarrow> pool_page (kernel_pool s) i \<noteq> f"
  shows "heap_ready (s\<lparr>phys := new_dir (phys s) (cr3 s) f, cr3 := f\<rparr>)"
proof -
  let ?m = "new_dir (phys s) (cr3 s) f"
  let ?s = "s\<lparr>phys := ?m, cr3 := f\<rparr>"
  have page: "heap_page ?s = heap_page s" and free: "free_pages ?s = free_pages s" by (simp_all add: heap_page_def free_pages_def)
  have P: "pool_ready s" using ready by (simp add: heap_ready_def)
  then have tables: "kernel_tables (phys s) (cr3 s)" by (simp add: pool_ready_def)
  have ff: "page_frame f = f" using f by (simp add: spare_frame_def)
  note space = new_dir_space [OF tables f zero]
  have pde: "load32 ?m (pde_addr f v) = (if unat (PDE_IDX v) = 1023 then f OR 7
      else if 768 \<le> unat (PDE_IDX v) then load32 (phys s) (pde_addr (cr3 s) v) else 0)" for v
    using new_dir_entry [OF ff zero idx_less(1)] by (simp add: pde_addr_def ff)
  have "spare_frame ?m f (pool_page (kernel_pool s) i)" if i: "i \<in> free_pages s" for i
  proof -
    have old: "spare_frame (phys s) (cr3 s) (pool_page (kernel_pool s) i)" using P i by (simp add: pool_ready_def)
    have "page_frame (load32 ?m (pde_addr f v)) \<noteq> pool_page (kernel_pool s) i"
      if v: "PDE_IDX v \<noteq> 1023" "present (load32 ?m (pde_addr f v))" for v
    proof -
      have "unat (PDE_IDX v) \<noteq> 1023" using v(1) by (simp add: word_unat_eq_iff)
      then have "load32 ?m (pde_addr f v) = load32 (phys s) (pde_addr (cr3 s) v)" using v(2) unfolding pde by (auto split: if_splits)
      then show ?thesis using old v by (simp add: spare_frame_def)
    qed
    then show ?thesis using old used [OF i] by (simp add: spare_frame_def ff)
  qed
  then have "pool_ready ?s" using P space(5) unfolding pool_ready_def free by simp
  moreover have "mmu ?m f (heap_page s h) = mmu (phys s) (cr3 s) (heap_page s h)"
    if "h < bm_bits_count (addr_bitmap (kernel_vaddr s))" for h
    by (rule space(4) [OF heap_page_facts(1) [OF ready that]])
  ultimately show ?thesis using ready unfolding heap_ready_def page by simp
qed

lemma fill_directory:
  fixes s :: "'a paging_scheme"
  assumes at: "page_at s v f" and self: "self_map (phys s) (cr3 s)"
  shows "rbind (vmemcpy (v + 0x300 * 4) (0xfffff000 + 0x300 * 4) 1024 s) (\<lambda>s2.
      rbind (vaddr_to_paddr s2 v) (\<lambda>p. rbind (vstore32 (v + 1023 * 4) (p OR 4 OR 2 OR 1) s2) (\<lambda>s3. Inr (v, s3)))) =
    Inr (v, s\<lparr>phys := new_dir (phys s) (cr3 s) f\<rparr>)"
proof -
  let ?s2 = "s\<lparr>phys := copied_dir (phys s) (cr3 s) f\<rparr>"
  have spare: "spare_frame (phys s) (cr3 s) f" and ff: "page_frame f = f"
    using at by (auto simp: page_at_def spare_frame_def)
  note same = new_dir_frame(1) [OF ff, of "phys s" "cr3 s"]
  have at2: "page_at ?s2 v f" by (rule page_at_same [OF at]) (simp_all add: same)
  have "self_map (phys ?s2) (cr3 ?s2)" using self spare_self_map [OF spare same] by simp
  then have addr: "vaddr_to_paddr ?s2 v = Inr f"
    using page_atD [OF at2, of 0] by (intro vaddr_to_paddr_mapped) simp_all
  have "vstore32 (v + of_nat 4092) (f OR 7) ?s2 = Inr (s\<lparr>phys := new_dir (phys s) (cr3 s) f\<rparr>)"
    using vstore32_page [OF at2, of 4092 "f OR 7"] by (simp add: new_dir_def)
  then have store: "vstore32 (v + 1023 * 4) (f OR 4 OR 2 OR 1) ?s2 = Inr (s\<lparr>phys := new_dir (phys s) (cr3 s) f\<rparr>)" by simp
  show ?thesis unfolding copy_kernel_entries [OF at self] rbind_simps addr store ..
qed

text \<open>
  \<open>dir_made s s' t k\<close>: page \<open>t\<close> of the heap is a new directory in frame \<open>k\<close> of the pool.
\<close>

definition dir_made :: "'a memory_scheme \<Rightarrow> 'a memory_scheme \<Rightarrow> nat \<Rightarrow> nat \<Rightarrow> bool" where
  "dir_made s s' t k \<longleftrightarrow>
     (let f = pool_page (kernel_pool s) k; va = addr_bitmap (kernel_vaddr s)
      in heap_ready s' \<and> t < bm_bits_count va \<and> \<not> bit_set (kmem s) va t \<and>
        (\<forall>x < bm_bits_count va. bit_set (kmem s') va x \<longleftrightarrow> x = t \<or> bit_set (kmem s) va x) \<and>
        k \<in> free_pages s \<and> free_pages s' = free_pages s - {k} \<and>
        page_at s' (heap_page s t) f \<and> shares_kernel (phys s') (cr3 s) f \<and>
        self_map (phys s') f \<and> kernel_tables (phys s') f \<and>
        (\<forall>v. unat (PDE_IDX v) < 768 \<longrightarrow> \<not> present (load32 (phys s') (pde_addr f v))) \<and>
        (\<forall>v p. PDE_IDX v \<noteq> 1023 \<and> mmu (phys s) (cr3 s) v = Some p \<longrightarrow> mmu (phys s') (cr3 s) v = Some p) \<and>
        heap_ready (s'\<lparr>cr3 := f\<rparr>) \<and> keeps_data s (kmem s) (kmem s'))"

lemma create_page_dir_run:
  fixes s :: "'a console_scheme"
  assumes ready: "heap_ready s" and lock: "lock_available (plock (kernel_pool s)) s"
    and bit: "h < bm_bits_count (addr_bitmap (kernel_vaddr s))" "\<not> bit_set (kmem s) (addr_bitmap (kernel_vaddr s)) h"
    and pages: "free_pages s \<noteq> {}"
  obtains t k m' km' where "create_page_dir s txt = Inr (heap_page s t, s\<lparr>phys := m', kmem := km'\<rparr>)"
    and "dir_made s (s\<lparr>phys := m', kmem := km'\<rparr>) t k"
proof -
  let ?va = "addr_bitmap (kernel_vaddr s)"
  have run: "run_clear (kmem s) ?va h (unat (1 :: u32))" "h + unat (1 :: u32) \<le> bm_bits_count ?va"
    using bit by (simp_all add: run_clear_def)
  have "finite (free_pages s)" by (simp add: free_pages_def)
  then have card: "unat (1 :: u32) \<le> card (free_pages s)" using pages by (simp add: Suc_le_eq card_gt_0_iff)
  obtain t ks m1 km1 where M: "malloc_kernel_pages 1 s = Inr (heap_page s t, s\<lparr>phys := m1, kmem := km1\<rparr>)"
    "length ks = unat (1 :: u32)" "heap_grown s (s\<lparr>phys := m1, kmem := km1\<rparr>) t ks"
    by (rule malloc_kernel_run [OF ready lock _ _ run card]) auto
  obtain k where ks: "ks = [k]" using M(2) by (auto simp: length_Suc_conv)
  let ?s1 = "s\<lparr>phys := m1, kmem := km1\<rparr>" and ?f = "pool_page (kernel_pool s) k"
  let ?m = "new_dir m1 (cr3 s) ?f"
  let ?s' = "s\<lparr>phys := ?m, kmem := km1\<rparr>"
  have ready1: "heap_ready ?s1" by (rule heap_grown_ready [OF M(3) ready]) simp_all
  have at: "page_at ?s1 (heap_page s t) ?f" and zero: "zero_frame m1 ?f" and t: "t < bm_bits_count ?va" "\<not> bit_set (kmem s) ?va t"
    and k: "k \<in> free_pages s" "free_pages ?s1 = free_pages s - {k}"
    and old: "\<And>w p. PDE_IDX w \<noteq> 1023 \<Longrightarrow> mmu (phys s) (cr3 s) w = Some p \<Longrightarrow> mmu m1 (cr3 s) w = Some p"
    and bits: "\<And>x. x < bm_bits_count ?va \<Longrightarrow> bit_set km1 ?va x \<longleftrightarrow> x = t \<or> bit_set (kmem s) ?va x"
    and data: "keeps_data s (kmem s) km1"
    using M(3) by (auto simp: heap_grown_def ks run_clear_def)
  have tables: "kernel_tables m1 (cr3 s)" and self: "self_map m1 (cr3 s)"
    using ready1 by (auto simp: heap_ready_def pool_ready_def kernel_tables_def space_ok_def)
  have spare: "spare_frame m1 (cr3 s) ?f" and ff: "page_frame ?f = ?f" using at by (auto simp: page_at_def spare_frame_def)
  note same = same_but_trans [OF new_dir_frame [OF ff, of m1 "cr3 s"]]
  note space = new_dir_space [OF tables spare zero]
  have s': "?s1\<lparr>phys := ?m\<rparr> = ?s'" by simp
  have fill: "rbind (vmemcpy (heap_page s t + 0x300 * 4) (0xfffff000 + 0x300 * 4) 1024 ?s1) (\<lambda>s2.
      rbind (vaddr_to_paddr s2 (heap_page s t)) (\<lambda>p. rbind (vstore32 (heap_page s t + 1023 * 4) (p OR 4 OR 2 OR 1) s2)
        (\<lambda>s3. Inr (heap_page s t, s3)))) = Inr (heap_page s t, ?s')"
    using fill_directory [OF at] self s' by simp
  have "create_page_dir s txt = Inr (heap_page s t, ?s')"
    unfolding create_page_dir_def M(1) rbind_simps prod.case if_not_P [OF heap_page_facts(3) [OF ready t(1)]] by (rule fill)
  moreover have "dir_made s ?s' t k"
    unfolding dir_made_def Let_def
  proof (intro conjI allI impI)
    have "heap_ready (?s1\<lparr>phys := ?m\<rparr>)" by (rule heap_ready_spare [OF ready1, where f = ?f]) (simp_all add: spare same)
    then show "heap_ready ?s'" unfolding s' .
    show "page_at ?s' (heap_page s t) ?f" by (rule page_at_same [OF at]) (simp_all add: same)
    show "free_pages ?s' = free_pages s - {k}" using k(2) by (simp add: free_pages_def)
    have "pool_page (kernel_pool s) i \<noteq> ?f" if "i \<in> free_pages s - {k}" for i
      using pool_page_inj_on [OF ready [unfolded heap_ready_def, THEN conjunct1]] that k(1) unfolding inj_on_def by blast
    then have "heap_ready (?s1\<lparr>phys := ?m, cr3 := ?f\<rparr>)"
      using new_dir_heap [OF ready1, of ?f] spare zero unfolding k(2) by simp
    moreover have "?s1\<lparr>phys := ?m, cr3 := ?f\<rparr> = ?s'\<lparr>cr3 := ?f\<rparr>" by simp
    ultimately show "heap_ready (?s'\<lparr>cr3 := ?f\<rparr>)" by (simp only:)
    show "mmu (phys ?s') (cr3 s) v = Some p" if "PDE_IDX v \<noteq> 1023 \<and> mmu (phys s) (cr3 s) v = Some p" for v p
      using old spare_mmu [OF spare same] that by simp
  qed (use t k(1) bits space data in simp_all)
  ultimately show thesis by (rule that)
qed

section \<open>Properties\<close>

text \<open>
  C9: the address space of a new process. When the heap has a free page and the pool a free frame,
  \<open>create_page_dir\<close> returns a page whose frame is a page directory: it maps itself as the kernel's
  directory does, in the kernel's half every address translates as it does now, and below
  \<open>0xc0000000\<close> nothing is mapped; the heap is ready for the next call.
\<close>

theorem create_page_dir_shares:
  fixes s :: "'a console_scheme"
  assumes "heap_ready s" and "lock_available (plock (kernel_pool s)) s" and "free_pages s \<noteq> {}"
    and "h < bm_bits_count (addr_bitmap (kernel_vaddr s))" and "\<not> bit_set (kmem s) (addr_bitmap (kernel_vaddr s)) h"
  shows "\<exists>s' pd f. create_page_dir s txt = Inr (pd, s') \<and> vaddr_to_paddr s' pd = Inr f \<and>
    self_map (phys s') f \<and> (\<forall>v. kern v \<longrightarrow> mmu (phys s') f v = mmu (phys s') (cr3 s') v) \<and>
    (\<forall>v. unat v < 0xc0000000 \<longrightarrow> mmu (phys s') f v = None) \<and> heap_ready s'"
proof -
  obtain t k m' km' where run: "create_page_dir s txt = Inr (heap_page s t, s\<lparr>phys := m', kmem := km'\<rparr>)"
    and made: "dir_made s (s\<lparr>phys := m', kmem := km'\<rparr>) t k"
    by (rule create_page_dir_run [OF assms(1,2,4,5,3)])
  let ?s' = "s\<lparr>phys := m', kmem := km'\<rparr>" and ?f = "pool_page (kernel_pool s) k"
  have D: "heap_ready ?s'" "page_at ?s' (heap_page s t) ?f" "shares_kernel m' (cr3 s) ?f" "self_map m' ?f"
    "\<And>v. unat (PDE_IDX v) < 768 \<Longrightarrow> mmu m' ?f v = None"
    using made by (simp_all add: dir_made_def Let_def mmu_def)
  have self: "self_map (phys ?s') (cr3 ?s')"
    using D(1) by (auto simp: heap_ready_def pool_ready_def kernel_tables_def space_ok_def)
  have "vaddr_to_paddr ?s' (heap_page s t) = Inr ?f"
    using vaddr_to_paddr_mapped [OF self] page_atD [OF D(2), of 0] by simp
  moreover have "mmu m' ?f v = None" if "unat v < 0xc0000000" for v
    using that by (intro D(5)) (simp add: unat_PDE_IDX div_less_iff_less_mult)
  ultimately show ?thesis
    using run D(1,4) shares_kernel_mmu [OF D(3)] by (intro exI [of _ ?s'] exI [of _ "heap_page s t"] exI [of _ ?f]) simp
qed

text \<open>
  A process has no descriptor table. \<open>tss_init\<close> leaves in the register the address of the table
  that the loader wrote, which is in the first megabyte; in the directory of every process
  none of its bytes is mapped, so the processor cannot load a segment once this directory is active.
\<close>

theorem process_loses_gdt:
  fixes s :: "'a console_scheme"
  assumes "heap_ready s" and "lock_available (plock (kernel_pool s)) s" and "free_pages s \<noteq> {}"
    and "h < bm_bits_count (addr_bitmap (kernel_vaddr s))" and "\<not> bit_set (kmem s) (addr_bitmap (kernel_vaddr s)) h"
    and "page_at s 0 f0" and "vload32 s 0xd04 = Inr (of_nat i)" and "i + 0x38 \<le> 4096"
  shows "\<exists>s1 s2 pd f. tss_init s = Inr s1 \<and> create_page_dir s1 txt = Inr (pd, s2) \<and> vaddr_to_paddr s2 pd = Inr f \<and>
    gdtr_base s2 = of_nat i \<and> gdtr_limit s2 = 55 \<and>
    (\<forall>j < 56. mmu (phys s2) f (gdtr_base s2 + of_nat j) = None)"
proof -
  let ?bs = "desc_bytes (tss_desc s) @ desc_bytes user_code_desc @ desc_bytes user_data_desc"
  define m where "m = store_bytes (phys s) (f0 + of_nat (i + 0x20)) ?bs"
  define s1 where "s1 = kprintf ''tss_init is done.\<newline>'' [] (with_tss (of_nat i) m s)"
  have tss: "tss_init s = Inr s1"
    using tss_init_run [of s 0 i f0] assms(6-8) by (simp add: s1_def m_def)
  have f0: "spare_frame (phys s) (cr3 s) f0" "page_frame f0 = f0" using assms(6) by (auto simp: page_at_def spare_frame_def)
  have same: "same_but f0 (phys s) m" unfolding m_def using assms(8) by (intro same_but_store [OF f0(2)]) simp
  have "heap_ready (s\<lparr>phys := m\<rparr>)" by (rule heap_ready_spare [OF assms(1) f0(1) same])
  moreover have F: "phys s1 = m" "cr3 s1 = cr3 s" "kmem s1 = kmem s" "kernel_pool s1 = kernel_pool s"
    "kernel_vaddr s1 = kernel_vaddr s" "gdtr_base s1 = of_nat i" "gdtr_limit s1 = 55"
    by (simp_all add: s1_def kprintf_def with_tss_def)
  ultimately have ready: "heap_ready s1" using heap_ready_cong [of s1 "s\<lparr>phys := m\<rparr>"] by simp
  have lock: "lock_available (plock (kernel_pool s1)) s1" "free_pages s1 = free_pages s"
    using assms(2) by (simp_all add: F free_pages_def)
      (simp add: s1_def kprintf_def with_tss_def lock_available_def running_thread_def list_empty_def)
  obtain t k m' km' where run: "create_page_dir s1 txt = Inr (heap_page s1 t, s1\<lparr>phys := m', kmem := km'\<rparr>)"
    and made: "dir_made s1 (s1\<lparr>phys := m', kmem := km'\<rparr>) t k"
    by (rule create_page_dir_run [OF ready lock(1), of h]) (use assms(3-5) lock(2) F in simp_all)
  let ?s2 = "s1\<lparr>phys := m', kmem := km'\<rparr>" and ?f = "pool_page (kernel_pool s) k"
  have D: "heap_ready ?s2" "page_at ?s2 (heap_page s1 t) ?f" "\<And>v. unat (PDE_IDX v) < 768 \<Longrightarrow> mmu m' ?f v = None"
    using made by (simp_all add: mmu_def dir_made_def Let_def F)
  have self: "self_map (phys ?s2) (cr3 ?s2)"
    using D(1) by (auto simp: heap_ready_def pool_ready_def kernel_tables_def space_ok_def)
  have "vaddr_to_paddr ?s2 (heap_page s1 t) = Inr ?f"
    using vaddr_to_paddr_mapped [OF self] page_atD [OF D(2), of 0] by simp
  moreover have "mmu m' ?f (of_nat i + of_nat j) = None" if "j < 56" for j
  proof (rule D(3))
    have "unat (of_nat (i + j) :: u32) = i + j" using that assms(8) by (intro unat_of_nat32) simp
    then show "unat (PDE_IDX (of_nat i + of_nat j)) < 768" using that assms(8) by (simp add: unat_PDE_IDX)
  qed
  ultimately show ?thesis
    using tss run F by (intro exI [of _ s1] exI [of _ ?s2] exI [of _ "heap_page s1 t"] exI [of _ ?f]) simp
qed

text \<open>The sample machine on the tables of the loader, with the descriptor table at \<open>0xd40\<close>.\<close>

definition sample_console :: console where
  "sample_console = keyboard.extend (sample_keyboard\<lparr>phys := store32 loader_phys 0xd04 0xd40\<rparr>) \<lparr>console_lock = 0xb00\<rparr>"

lemma sample_console_fields:
  "phys sample_console = store32 loader_phys 0xd04 0xd40" "cr3 sample_console = 0x100000"
  "kmem sample_console = (\<lambda>_. 0)" "kernel_pool sample_console = kernel_pool sample_memory"
  "kernel_vaddr sample_console = kernel_vaddr sample_memory"
  by (simp_all add: sample_console_def keyboard.defs sample_keyboard_def io.defs sample_io_fields)
    (simp_all add: sample_io_def segments.defs sample_segments_def interrupts.defs sample_interrupts_def memory.defs)

lemma sample_low_word:
  "same_but 0 loader_phys (store32 loader_phys 0xd04 0xd40)" "spare_frame loader_phys 0x100000 0"
proof -
  show "same_but 0 loader_phys (store32 loader_phys 0xd04 0xd40)"
    by (rule store32_same_but) (simp_all add: page_frame_def aligned4_def)
  show "spare_frame loader_phys 0x100000 0"
    by (rule loader_space(3)) (simp_all add: loader_memory_def page_frame_def)
qed

lemma sample_console_ready: "heap_ready sample_console" "free_pages sample_console = {..<16}"
proof -
  let ?s = "sample_loader\<lparr>phys := store32 loader_phys 0xd04 0xd40\<rparr>"
  have F: "phys sample_console = phys ?s" "cr3 sample_console = cr3 ?s" "kmem sample_console = kmem ?s"
    "kernel_pool sample_console = kernel_pool ?s" "kernel_vaddr sample_console = kernel_vaddr ?s"
    by (simp_all add: sample_console_fields sample_loader_fields)
  have "heap_ready ?s"
    using sample_low_word by (intro heap_ready_spare [OF sample_loader_ready(1)]) (simp_all add: sample_loader_fields)
  then show "heap_ready sample_console" using heap_ready_cong(1) [OF F] by simp
  show "free_pages sample_console = {..<16}"
    using heap_ready_cong(2) [OF F] sample_loader_ready(2) by (simp add: free_pages_def)
qed

lemma sample_console_lock: "lock_available (plock (kernel_pool sample_console)) sample_console"
proof -
  have "lnext sample_console = lnext sample_io" "frames sample_console = frames sample_io" "holder sample_console = holder sample_io"
    "holder_repeat_nr sample_console = holder_repeat_nr sample_io" "sem_value sample_console = sem_value sample_io"
    "esp sample_console = esp sample_io"
    by (simp_all add: sample_console_def keyboard.defs sample_keyboard_def io.defs)
  then show ?thesis
    using sample_io_queue(1) by (simp add: lock_available_def list_empty_def running_thread_def sample_console_fields)
qed

lemma sample_console_page:
  "page_at sample_console 0 0" "vload32 sample_console 0xd04 = Inr 0xd40"
proof -
  have m: "loader_memory loader_phys" by (simp add: loader_memory_def)
  note low = sample_low_word
  have win: "PDE_IDX 0 \<noteq> 1023" by (simp add: PDE_IDX_def)
  have "mmu (store32 loader_phys 0xd04 0xd40) 0x100000 (of_nat i) = Some (of_nat i)" if i: "i < 4096" for i
  proof -
    have u: "unat (of_nat i :: u32) = i" using i by (intro unat_of_nat32) simp
    then have "PDE_IDX (of_nat i) \<noteq> 1023" using i by (simp add: word_unat_eq_iff unat_PDE_IDX)
    then show ?thesis using spare_mmu [OF low(2,1)] loader_mmu(1) [OF m, of "of_nat i"] i by (simp add: u)
  qed
  then show at: "page_at sample_console 0 0"
    unfolding page_at_def using spare_spare [OF low(2,1)] low(2) win by (simp add: sample_console_fields page_frame_def)
  have "mmu (phys sample_console) (cr3 sample_console) 0xd04 = Some 0xd04"
    using page_atD [OF at, of "0xd04"] by simp
  then show "vload32 sample_console 0xd04 = Inr 0xd40"
    by (simp add: vload32_def translate_def sample_console_fields load32_store32_same)
qed

lemma sample_console_free: "free_pages sample_console \<noteq> {}"
proof -
  have "0 \<in> {..<16 :: nat}" by simp
  then show ?thesis unfolding sample_console_ready(2) [symmetric] by blast
qed

lemma create_page_dir_shares_witness:
  "\<exists>s' pd f. create_page_dir sample_console 0 = Inr (pd, s') \<and> mmu (phys s') f 0x8048000 = None"
proof -
  have "free_pages sample_console \<noteq> {}" by (rule sample_console_free)
  moreover have "0 < bm_bits_count (addr_bitmap (kernel_vaddr sample_console))"
    "\<not> bit_set (kmem sample_console) (addr_bitmap (kernel_vaddr sample_console)) 0"
    by (simp_all add: sample_console_fields bm_bits_count_def bit_set_def)
  ultimately obtain s' pd f where run: "create_page_dir sample_console 0 = Inr (pd, s')"
    and low: "\<forall>v. unat v < 0xc0000000 \<longrightarrow> mmu (phys s') f v = None"
    using create_page_dir_shares [OF sample_console_ready(1) sample_console_lock] by blast
  have "mmu (phys s') f 0x8048000 = None" using low by simp
  then show ?thesis using run by blast
qed

lemma process_loses_gdt_witness:
  "\<exists>s1 s2 pd f. tss_init sample_console = Inr s1 \<and> create_page_dir s1 0 = Inr (pd, s2) \<and>
    mmu (phys s2) f (gdtr_base s2 + of_nat 8) = None"
proof -
  have at: "page_at sample_console 0 0" "vload32 sample_console 0xd04 = Inr (of_nat 0xd40)"
    by (simp_all add: sample_console_page)
  have "free_pages sample_console \<noteq> {}" by (rule sample_console_free)
  moreover have "0 < bm_bits_count (addr_bitmap (kernel_vaddr sample_console))"
    "\<not> bit_set (kmem sample_console) (addr_bitmap (kernel_vaddr sample_console)) 0"
    by (simp_all add: sample_console_fields bm_bits_count_def bit_set_def)
  ultimately have "\<exists>s1 s2 pd f. tss_init sample_console = Inr s1 \<and> create_page_dir s1 0 = Inr (pd, s2) \<and> vaddr_to_paddr s2 pd = Inr f \<and>
      gdtr_base s2 = of_nat 0xd40 \<and> gdtr_limit s2 = 55 \<and> (\<forall>j < 56. mmu (phys s2) f (gdtr_base s2 + of_nat j) = None)"
    by (rule process_loses_gdt [OF sample_console_ready(1) sample_console_lock _ _ _ at]) simp
  moreover have "(8 :: nat) < 56" by simp
  ultimately show ?thesis by blast
qed

end
