(* ===== verification/Spawn.thy ===== *)
theory Spawn
  imports PageDir
begin

text \<open>
  \<open>process_execute\<close>: the control block, the bitmap of the user's address space and the page directory
  come from the kernel heap, in three allocations; then the new thread joins the ready list. The
  theorem joins the invariants of the heap, of the page tables and of the scheduler.
\<close>

section \<open>What the construction of a thread leaves alone\<close>

text \<open>
  \<open>building s s' t\<close>: between \<open>s\<close> and \<open>s'\<close> only memory, the flags and what belongs to thread \<open>t\<close> have changed.
\<close>

definition building :: "'a processes_scheme \<Rightarrow> 'a processes_scheme \<Rightarrow> u32 \<Rightarrow> bool" where
  "building s s' t \<longleftrightarrow>
     (cr3 s' = cr3 s \<and> esp s' = esp s \<and> kernel_pool s' = kernel_pool s \<and> kernel_vaddr s' = kernel_vaddr s) \<and>
     (thread_ready_list s' = thread_ready_list s \<and> thread_all_list s' = thread_all_list s \<and> main_thread s' = main_thread s) \<and>
     (holder s' = holder s \<and> holder_repeat_nr s' = holder_repeat_nr s \<and> sem_value s' = sem_value s) \<and>
     (start_process_addr s' = start_process_addr s \<and> kernel_thread_addr s' = kernel_thread_addr s \<and> eflags s' = eflags s) \<and>
     (c_interrupt_entry_table s' = c_interrupt_entry_table s \<and> gdtr_base s' = gdtr_base s \<and> gdtr_limit s' = gdtr_limit s) \<and>
     user_pool s' = user_pool s \<and>
     (\<forall>u. u \<noteq> t \<longrightarrow> tasks s' u = tasks s u \<and> frames s' u = frames s u) \<and>
     (\<forall>a. a \<noteq> general_tag t \<and> a \<noteq> all_list_tag t \<longrightarrow> lnext s' a = lnext s a \<and> lprev s' a = lprev s a)"

lemma building_trans: "building s s' t \<Longrightarrow> building s' s'' t \<Longrightarrow> building s s'' t"
  by (simp add: building_def)

lemma building_lists:
  assumes "building s s' t" and "is_list s l xs" and "general_tag t \<notin> list_nodes l xs" and "all_list_tag t \<notin> list_nodes l xs"
  shows "is_list s' l xs"
proof (rule is_list_same_links [OF assms(2)], unfold same_links_def, rule ballI)
  fix a assume "a \<in> list_nodes l xs"
  then have "a \<noteq> general_tag t" "a \<noteq> all_list_tag t" using assms(3,4) by auto
  then show "lnext s' a = lnext s a \<and> lprev s' a = lprev s a" using assms(1) by (simp add: building_def)
qed

lemma building_lock:
  assumes "building s s' t" and "lock_available l s" and "running_thread s \<noteq> t"
    and "head_of (waiters (semaphore_of l)) \<noteq> general_tag t" "head_of (waiters (semaphore_of l)) \<noteq> all_list_tag t"
  shows "lock_available l s'"
proof -
  have run: "running_thread s' = running_thread s" using assms(1) by (simp add: building_def running_thread_def)
  show ?thesis using assms unfolding lock_available_def run building_def list_empty_def by simp
qed

section \<open>What an allocation does to the heap\<close>

text \<open>The pages \<open>H\<close> of the heap and \<open>n\<close> frames are used up; what was mapped stays mapped.\<close>

definition heap_step :: "'a memory_scheme \<Rightarrow> 'a memory_scheme \<Rightarrow> nat set \<Rightarrow> nat \<Rightarrow> bool" where
  "heap_step s s' H n \<longleftrightarrow> heap_ready s' \<and>
     cr3 s' = cr3 s \<and> kernel_pool s' = kernel_pool s \<and> kernel_vaddr s' = kernel_vaddr s \<and>
     (\<forall>h \<in> H. h < bm_bits_count (addr_bitmap (kernel_vaddr s)) \<and> \<not> bit_set (kmem s) (addr_bitmap (kernel_vaddr s)) h) \<and>
     (\<forall>x < bm_bits_count (addr_bitmap (kernel_vaddr s)).
        bit_set (kmem s') (addr_bitmap (kernel_vaddr s)) x \<longleftrightarrow> x \<in> H \<or> bit_set (kmem s) (addr_bitmap (kernel_vaddr s)) x) \<and>
     card (free_pages s) = card (free_pages s') + n \<and>
     (\<forall>v p. PDE_IDX v \<noteq> 1023 \<and> mmu (phys s) (cr3 s) v = Some p \<longrightarrow> mmu (phys s') (cr3 s) v = Some p)"

lemma heap_step_trans:
  "heap_step s s' H n \<Longrightarrow> heap_step s' s'' H' n' \<Longrightarrow> heap_step s s'' (H \<union> H') (n + n')"
  unfolding heap_step_def by auto

lemma heap_ready_self: "heap_ready s \<Longrightarrow> self_map (phys s) (cr3 s)"
  by (simp add: heap_ready_def pool_ready_def kernel_tables_def space_ok_def)

lemma finite_free [simp]: "finite (free_pages s)"
  by (simp add: free_pages_def)

lemma heap_grown_step:
  assumes grown: "heap_grown s (s\<lparr>phys := m', kmem := km'\<rparr>) t ks" and ready: "heap_ready s"
  shows "heap_step s (s\<lparr>phys := m', kmem := km'\<rparr>) {t ..< t + length ks} (length ks)"
proof -
  have G: "t + length ks \<le> bm_bits_count (addr_bitmap (kernel_vaddr s))"
    "run_clear (kmem s) (addr_bitmap (kernel_vaddr s)) t (length ks)"
    "\<forall>x < bm_bits_count (addr_bitmap (kernel_vaddr s)). bit_set km' (addr_bitmap (kernel_vaddr s)) x \<longleftrightarrow>
        t \<le> x \<and> x < t + length ks \<or> bit_set (kmem s) (addr_bitmap (kernel_vaddr s)) x"
    "distinct ks" "set ks \<subseteq> free_pages s" "free_pages (s\<lparr>phys := m', kmem := km'\<rparr>) = free_pages s - set ks"
    "\<forall>w p. PDE_IDX w \<noteq> 1023 \<and> mmu (phys s) (cr3 s) w = Some p \<longrightarrow> mmu m' (cr3 s) w = Some p"
    using grown unfolding heap_grown_def by auto
  have "card (free_pages s) = card (free_pages (s\<lparr>phys := m', kmem := km'\<rparr>)) + length ks"
    using G(4,5) card_mono [OF finite_free G(5)] by (simp add: G(6) card_Diff_subset distinct_card)
  moreover have "h < bm_bits_count (addr_bitmap (kernel_vaddr s)) \<and> \<not> bit_set (kmem s) (addr_bitmap (kernel_vaddr s)) h"
    if "t \<le> h" "h < t + length ks" for h
    using run_clearD [OF G(2) that] that G(1) by simp
  moreover have "heap_ready (s\<lparr>phys := m', kmem := km'\<rparr>)" by (rule heap_grown_ready [OF grown ready]) simp_all
  ultimately show ?thesis using G(3,7) unfolding heap_step_def by auto
qed

lemma dir_made_step:
  assumes "dir_made s (s\<lparr>phys := m', kmem := km'\<rparr>) t k"
  shows "heap_step s (s\<lparr>phys := m', kmem := km'\<rparr>) {t} 1"
proof -
  have D: "k \<in> free_pages s" "free_pages (s\<lparr>phys := m', kmem := km'\<rparr>) = free_pages s - {k}"
    using assms by (simp_all add: dir_made_def Let_def)
  have "0 < card (free_pages s)" using D(1) by (auto simp: card_gt_0_iff)
  then have "card (free_pages s) = card (free_pages (s\<lparr>phys := m', kmem := km'\<rparr>)) + 1"
    using D(1) by (simp add: D(2))
  then show ?thesis using assms unfolding heap_step_def dir_made_def Let_def by simp
qed

lemma heap_step_cong:
  assumes "phys t = phys s" "cr3 t = cr3 s" "kmem t = kmem s" "kernel_pool t = kernel_pool s" "kernel_vaddr t = kernel_vaddr s"
    and "phys t' = phys s'" "cr3 t' = cr3 s'" "kmem t' = kmem s'" "kernel_pool t' = kernel_pool s'" "kernel_vaddr t' = kernel_vaddr s'"
  shows "heap_step t t' H n = heap_step s s' H n"
  unfolding heap_step_def heap_ready_cong [OF assms(6-10)] heap_ready_cong [OF assms(1-5)] by (simp add: assms)

lemma heap_step_refl: "heap_ready s \<Longrightarrow> heap_step s s {} 0"
  by (simp add: heap_step_def)

text \<open>A write to data memory that both bitmaps survive.\<close>

lemma bitmap_init_step:
  assumes ready: "heap_ready s" and apart: "bitmaps_apart bm (pool_bitmap (kernel_pool s))" "bitmaps_apart bm (addr_bitmap (kernel_vaddr s))"
  shows "heap_step s (s\<lparr>kmem := bitmap_init (kmem s) bm\<rparr>) {} 0"
proof -
  let ?s = "s\<lparr>kmem := bitmap_init (kmem s) bm\<rparr>"
  have same: "bit_set (bitmap_init (kmem s) bm) b x = bit_set (kmem s) b x" if "bitmaps_apart bm b" "x < bm_bits_count b" for b x
    by (rule bit_set_cong_region [OF bitmap_init_outside that(2)]) (use that(1) in \<open>auto simp: bitmaps_apart_def\<close>)
  have free: "free_pages ?s = free_pages s" using same [OF apart(1)] by (auto simp: free_pages_def)
  have page: "heap_page ?s = heap_page s" by (simp add: heap_page_def)
  have "pool_ready ?s = pool_ready s" unfolding pool_ready_def free by simp
  then have "heap_ready ?s" using ready same [OF apart(2)] unfolding heap_ready_def page by simp
  then show ?thesis using same [OF apart(2)] free by (simp add: heap_step_def)
qed

lemma alloc_step:
  fixes s :: "'a memory_scheme"
  assumes ready: "heap_ready s" and lock: "lock_available (plock (kernel_pool s)) s"
    and count: "0 < unat count" "unat count < 3840"
    and run: "run_clear (kmem s) (addr_bitmap (kernel_vaddr s)) t (unat count)"
      "t + unat count \<le> bm_bits_count (addr_bitmap (kernel_vaddr s))"
    and pages: "unat count \<le> card (free_pages s)"
  obtains h m' km' where "malloc_kernel_pages count s = Inr (heap_page s h, s\<lparr>phys := m', kmem := km'\<rparr>)"
    and "heap_step s (s\<lparr>phys := m', kmem := km'\<rparr>) {h ..< h + unat count} (unat count)"
    and "keeps_data s (kmem s) km'" and "h \<le> t"
proof -
  obtain h ks m' km' where M: "malloc_kernel_pages count s = Inr (heap_page s h, s\<lparr>phys := m', kmem := km'\<rparr>)"
    "length ks = unat count" "heap_grown s (s\<lparr>phys := m', kmem := km'\<rparr>) h ks"
    "first_run (kmem s) (addr_bitmap (kernel_vaddr s)) (unat count) (bm_bits_count (addr_bitmap (kernel_vaddr s))) h"
    by (rule malloc_kernel_run [OF assms]) blast
  have "keeps_data s (kmem s) km'" using M(3) by (simp add: heap_grown_def)
  moreover have "h \<le> t" using M(4) run(1) by (simp add: first_run_def)
  ultimately show thesis using that [OF M(1)] heap_grown_step [OF M(3) ready] by (simp add: M(2))
qed

section \<open>Addresses in use\<close>

definition in_use :: "'a memory_scheme \<Rightarrow> u32 \<Rightarrow> bool" where
  "in_use s a \<longleftrightarrow> (\<forall>h < bm_bits_count (addr_bitmap (kernel_vaddr s)).
     \<not> bit_set (kmem s) (addr_bitmap (kernel_vaddr s)) h \<longrightarrow> page_frame a \<noteq> heap_page s h)"

lemma heap_step_page: "heap_step s s' H n \<Longrightarrow> heap_page s' = heap_page s"
  by (simp add: heap_step_def heap_page_def)

lemma in_use_step: "heap_step s s' H n \<Longrightarrow> in_use s a \<Longrightarrow> in_use s' a"
  using heap_step_page [of s s' H n] unfolding in_use_def heap_step_def by simp

lemma in_use_new: "heap_step s s' H n \<Longrightarrow> h \<in> H \<Longrightarrow> in_use s a \<Longrightarrow> page_frame a \<noteq> heap_page s h"
  unfolding in_use_def heap_step_def by blast

text \<open>A new page becomes a place in use.\<close>

lemma new_in_use:
  assumes step: "heap_step s s' H n" and h: "h \<in> H" and ready: "heap_ready s" and a: "page_frame a = heap_page s h"
  shows "in_use s' a"
  unfolding in_use_def heap_step_page [OF step] a
proof (intro allI impI notI)
  fix k assume k: "k < bm_bits_count (addr_bitmap (kernel_vaddr s'))"
    "\<not> bit_set (kmem s') (addr_bitmap (kernel_vaddr s')) k" "heap_page s h = heap_page s k"
  have va: "kernel_vaddr s' = kernel_vaddr s" and hN: "h < bm_bits_count (addr_bitmap (kernel_vaddr s))"
    using step h by (auto simp: heap_step_def)
  have "same_page (heap_page s h) (heap_page s k)" using k(3) by (simp add: same_page_def)
  then have "h = k" using heap_page_same [OF ready hN] k(1) by (simp add: va)
  then show False using k(2) hN h step by (simp add: heap_step_def va)
qed

lemma heap_run_page:
  assumes ready: "heap_ready s" and le: "h + k \<le> bm_bits_count (addr_bitmap (kernel_vaddr s))" and n: "n \<le> 4096 * k"
    and a: "a \<in> region (heap_page s h) n"
  obtains i where "i < k" and "page_frame a = heap_page s (h + i)"
proof -
  obtain j where j: "j < n" "a = heap_page s h + of_nat j" using a by (auto simp: region_def)
  have i: "j div 4096 < k" using j(1) n by (simp add: less_mult_imp_div_less mult.commute)
  have "of_nat j = of_nat (j div 4096) * PG_SIZE + (of_nat (j mod 4096) :: u32)"
    unfolding PG_SIZE_def by (metis div_mult_mod_eq of_nat_add of_nat_mult of_nat_numeral)
  then have "a = heap_page s (h + j div 4096) + of_nat (j mod 4096)"
    by (simp add: j(2) heap_page_def page_nr_def algebra_simps)
  moreover have "page_frame (heap_page s (h + j div 4096)) = heap_page s (h + j div 4096)"
    using heap_page_facts(2) [OF ready] le i by simp
  ultimately have "page_frame a = heap_page s (h + j div 4096)"
    using page_frame_add(1) [of "j mod 4096" "heap_page s (h + j div 4096)"] by simp
  then show thesis using that i by blast
qed

text \<open>The data in use, the two bitmaps apart, is kept.\<close>

definition keeps_used :: "'a memory_scheme \<Rightarrow> mem \<Rightarrow> bool" where
  "keeps_used s m' \<longleftrightarrow> (\<forall>a. in_use s a \<and> (\<forall>b \<in> {pool_bitmap (kernel_pool s), addr_bitmap (kernel_vaddr s)}.
     a \<notin> region (bm_bits b) (unat (bm_length b))) \<longrightarrow> m' a = kmem s a)"

lemma keeps_data_used: "keeps_data s (kmem s) m' \<Longrightarrow> keeps_used s m'"
  by (simp add: keeps_data_def keeps_used_def)

lemma keeps_used_trans:
  "heap_step s s' H n \<Longrightarrow> keeps_used s (kmem s') \<Longrightarrow> keeps_used s' m'' \<Longrightarrow> keeps_used s m''"
  using in_use_step [of s s' H n] unfolding keeps_used_def heap_step_def by auto

lemma keeps_used_cong:
  "kmem s' = kmem s \<Longrightarrow> kernel_pool s' = kernel_pool s \<Longrightarrow> kernel_vaddr s' = kernel_vaddr s \<Longrightarrow> keeps_used s' m = keeps_used s m"
  by (simp add: keeps_used_def in_use_def heap_page_def)

section \<open>The steps of the construction\<close>

definition new_task :: "u32 \<Rightarrow> u8 list \<Rightarrow> u32 \<Rightarrow> task_struct" where
  "new_task t name prio = zero_task\<lparr>tname := name @ replicate (16 - length name) 0, status := TASK_READY,
     self_kstack := t + PG_SIZE, priority := ucast prio, ticks := ucast prio, pgdir := NULL, stack_magic := 0x19870916\<rparr>"

lemma init_thread_run:
  assumes "length name < 16" and "t \<noteq> main_thread s"
  shows "init_thread t name prio s = Inr (s\<lparr>tasks := (tasks s)(t := new_task t name prio),
    lprev := (lprev s)(all_list_tag t := 0, general_tag t := 0), lnext := (lnext s)(all_list_tag t := 0, general_tag t := 0)\<rparr>)"
  using assms by (simp add: init_thread_def new_task_def memset_task_def upd_task_def set_next_def set_prev_def Let_def)

lemma thread_create_run:
  "new_stack t (thread_create t fn arg s) = s\<lparr>tasks := (tasks s)(t := (tasks s t)\<lparr>self_kstack := self_kstack (tasks s t) - 432\<rparr>),
     kstacks := (kstacks s)(self_kstack (tasks s t) - 432 := (kstacks s (self_kstack (tasks s t) - 432))\<lparr>ts_ebp := 0, ts_ebx := 0,
       ts_esi := 0, ts_edi := 0, ts_eip := kernel_thread_addr s, ts_function := fn, ts_func_arg := arg\<rparr>),
     frames := (frames s)(t := [KernelThread])\<rparr>"
  by (simp add: thread_create_def new_stack_def upd_task_def Let_def)

lemma page_tags:
  assumes "page_frame t = t"
  shows "page_frame (general_tag t) = t" "page_frame (all_list_tag t) = t"
  using page_frame_add(1) [of 28 t] page_frame_add(1) [of 36 t] assms by (simp_all add: general_tag_def all_list_tag_def)

text \<open>An address in use is not a tag of a new control block.\<close>

lemma in_use_tags:
  assumes "heap_step s s' H n" and "h \<in> H" and "heap_ready s" and "in_use s a"
  shows "a \<noteq> heap_page s h" "a \<noteq> general_tag (heap_page s h)" "a \<noteq> all_list_tag (heap_page s h)"
proof -
  have "h < bm_bits_count (addr_bitmap (kernel_vaddr s))" using assms(1,2) by (simp add: heap_step_def)
  then have fr: "page_frame (heap_page s h) = heap_page s h" using heap_page_facts(2) [OF assms(3)] by simp
  have "page_frame a \<noteq> heap_page s h" using in_use_new [OF assms(1,2,4)] .
  then show "a \<noteq> heap_page s h" "a \<noteq> general_tag (heap_page s h)" "a \<noteq> all_list_tag (heap_page s h)"
    using fr page_tags [OF fr] by auto
qed

lemma control_block_step:
  fixes s :: "'a processes_scheme"
  assumes ready: "heap_ready s" and lock: "lock_available (plock (kernel_pool s)) s"
    and run: "x < bm_bits_count (addr_bitmap (kernel_vaddr s))" "\<not> bit_set (kmem s) (addr_bitmap (kernel_vaddr s)) x"
    and pages: "free_pages s \<noteq> {}" and name: "length name < 16" and main: "in_use s (main_thread s)"
  obtains h s1 s2 where "malloc_kernel_pages 1 s = Inr (heap_page s h, s1)" and "init_thread (heap_page s h) name prio s1 = Inr s2"
    and "heap_step s s2 {h} 1" and "building s s2 (heap_page s h)" and "tasks s2 (heap_page s h) = new_task (heap_page s h) name prio"
    and "keeps_data s (kmem s) (kmem s2)" and "h \<le> x" and "kstacks s2 = kstacks s"
proof -
  have r: "run_clear (kmem s) (addr_bitmap (kernel_vaddr s)) x (unat (1 :: u32))"
    "x + unat (1 :: u32) \<le> bm_bits_count (addr_bitmap (kernel_vaddr s))" using run by (simp_all add: run_clear_def)
  have card: "unat (1 :: u32) \<le> card (free_pages s)" using pages by (simp add: Suc_le_eq card_gt_0_iff)
  obtain h m' km' where M: "malloc_kernel_pages 1 s = Inr (heap_page s h, s\<lparr>phys := m', kmem := km'\<rparr>)"
    "heap_step s (s\<lparr>phys := m', kmem := km'\<rparr>) {h ..< h + unat (1 :: u32)} (unat (1 :: u32))"
    "keeps_data s (kmem s) km'" "h \<le> x"
    by (rule alloc_step [OF ready lock _ _ r card]) auto
  let ?s1 = "s\<lparr>phys := m', kmem := km'\<rparr>" and ?t = "heap_page s h"
  have step: "heap_step s ?s1 {h} 1" using M(2) by simp
  have "main_thread s \<noteq> ?t" using in_use_tags(1) [OF step _ ready main] by simp
  then have main: "?t \<noteq> main_thread ?s1" by simp
  define s2 where "s2 = ?s1\<lparr>tasks := (tasks s)(?t := new_task ?t name prio),
      lprev := (lprev s)(all_list_tag ?t := 0, general_tag ?t := 0), lnext := (lnext s)(all_list_tag ?t := 0, general_tag ?t := 0)\<rparr>"
  have init: "init_thread ?t name prio ?s1 = Inr s2" unfolding s2_def init_thread_run [OF name main] by simp
  have "heap_step s s2 {h} 1 = heap_step s ?s1 {h} 1" by (rule heap_step_cong) (simp_all add: s2_def)
  then have "heap_step s s2 {h} 1" using step by simp
  moreover have "building s s2 ?t" by (simp add: building_def s2_def)
  ultimately show thesis
    using M(3) by (intro that [OF M(1) init _ _ _ _ M(4)]) (simp_all add: s2_def)
qed

lemma user_bitmap_step:
  fixes s :: "'a processes_scheme"
  assumes ready: "heap_ready s" and lock: "lock_available (plock (kernel_pool s)) s"
    and run: "run_clear (kmem s) (addr_bitmap (kernel_vaddr s)) x 23" "x + 23 \<le> bm_bits_count (addr_bitmap (kernel_vaddr s))"
    and pages: "23 \<le> card (free_pages s)"
    and data: "\<And>a b. b \<in> {pool_bitmap (kernel_pool s), addr_bitmap (kernel_vaddr s)} \<Longrightarrow>
      a \<in> region (bm_bits b) (unat (bm_length b)) \<Longrightarrow> in_use s a"
  obtains h s' where "create_user_vaddr_bitmap t s = Inr s'" and "heap_step s s' {h ..< h + 23} 23" and "building s s' t"
    and "tasks s' t = (tasks s t)\<lparr>userprog_vaddr := \<lparr>addr_bitmap = \<lparr>bm_length = user_bitmap_length, bm_bits = heap_page s h\<rparr>,
      addr_start = USER_VADDR_START\<rparr>\<rparr>"
    and "\<And>i. i < 8 * unat user_bitmap_length \<Longrightarrow> \<not> bit_set (kmem s') \<lparr>bm_length = user_bitmap_length, bm_bits = heap_page s h\<rparr> i"
    and "\<And>a. a \<in> region (heap_page s h) (unat user_bitmap_length) \<Longrightarrow> \<not> in_use s a"
    and "keeps_used s (kmem s')"
proof -
  define s1 where "s1 = set_user_vaddr t (\<lambda>v. v\<lparr>addr_start := USER_VADDR_START\<rparr>) s"
  have f1: "heap_ready s1 = heap_ready s" "free_pages s1 = free_pages s" "heap_page s1 = heap_page s" "kmem s1 = kmem s"
    "kernel_pool s1 = kernel_pool s" "kernel_vaddr s1 = kernel_vaddr s" "cr3 s1 = cr3 s" "phys s1 = phys s"
    by (intro heap_ready_cong; simp add: s1_def set_user_vaddr_def upd_task_def)+ (simp_all add: s1_def set_user_vaddr_def upd_task_def)
  have lock1: "lock_available (plock (kernel_pool s)) s1 = lock_available (plock (kernel_pool s)) s"
    by (simp add: s1_def set_user_vaddr_def upd_task_def lock_available_def list_empty_def running_thread_def)
  have c: "DIV_ROUND_UP user_bitmap_length PG_SIZE = 23" "unat (23 :: u32) = 23" "unat user_bitmap_length = 94199"
    by (simp_all add: DIV_ROUND_UP_def user_bitmap_length_def USER_VADDR_START_def PG_SIZE_def)
  obtain h m' km' where M: "malloc_kernel_pages 23 s1 = Inr (heap_page s h, s1\<lparr>phys := m', kmem := km'\<rparr>)"
    "heap_step s1 (s1\<lparr>phys := m', kmem := km'\<rparr>) {h ..< h + 23} 23" "keeps_data s1 (kmem s) km'"
    by (rule alloc_step [of s1 23 x, unfolded f1 lock1 c, OF ready lock _ _ run pages]) simp_all
  let ?bm = "\<lparr>bm_length = user_bitmap_length, bm_bits = heap_page s h\<rparr>" and ?s2 = "s1\<lparr>phys := m', kmem := km'\<rparr>"
  have le: "h + 23 \<le> bm_bits_count (addr_bitmap (kernel_vaddr s))"
  proof -
    have "h + 22 \<in> {h ..< h + 23}" by simp
    then have "h + 22 < bm_bits_count (addr_bitmap (kernel_vaddr s1))" using M(2) unfolding heap_step_def by blast
    then show ?thesis by (simp add: f1)
  qed
  have new: "\<not> in_use s a" if mem: "a \<in> region (heap_page s h) (unat user_bitmap_length)" for a
  proof
    assume a: "in_use s a"
    obtain i where i: "i < 23" "page_frame a = heap_page s (h + i)"
      by (rule heap_run_page [OF ready le _ mem]) (simp_all add: c)
    have "h + i \<in> {h ..< h + 23}" using i(1) by simp
    moreover have "in_use s1 a" using a by (simp add: in_use_def f1)
    ultimately have "page_frame a \<noteq> heap_page s (h + i)" using in_use_new [OF M(2)] by (simp add: f1)
    then show False using i(2) by simp
  qed
  have apart: "bitmaps_apart ?bm b" if "b \<in> {pool_bitmap (kernel_pool s), addr_bitmap (kernel_vaddr s)}" for b
    using new data [OF that] by (auto simp: bitmaps_apart_def)
  define s3 where "s3 = set_user_vaddr t (\<lambda>v. v\<lparr>addr_bitmap := (addr_bitmap v)\<lparr>bm_bits := heap_page s h, bm_length := user_bitmap_length\<rparr>\<rparr>) ?s2"
  have bm3: "addr_bitmap (userprog_vaddr (tasks s3 t)) = ?bm" by (simp add: s3_def set_user_vaddr_def)
  have km3: "kmem s3 = km'" by (simp add: s3_def set_user_vaddr_def upd_task_def)
  define s' where "s' = s3\<lparr>kmem := bitmap_init km' ?bm\<rparr>"
  have run': "create_user_vaddr_bitmap t s = Inr s'"
    unfolding create_user_vaddr_bitmap_def s1_def [symmetric] Let_def c(1) M(1) rbind_simps prod.case s3_def [symmetric] bm3 km3 s'_def ..
  have step2: "heap_step ?s2 (?s2\<lparr>kmem := bitmap_init (kmem ?s2) ?bm\<rparr>) {} 0"
    by (rule bitmap_init_step) (use M(2) apart in \<open>simp_all add: heap_step_def f1\<close>)
  have "heap_step s s' ({h ..< h + 23} \<union> {}) (23 + 0) = heap_step s1 (?s2\<lparr>kmem := bitmap_init (kmem ?s2) ?bm\<rparr>) ({h ..< h + 23} \<union> {}) (23 + 0)"
    by (rule heap_step_cong) (simp_all add: s'_def s3_def f1 set_user_vaddr_def upd_task_def)
  then have "heap_step s s' {h ..< h + 23} 23" using heap_step_trans [OF M(2) step2] by simp
  moreover have "building s s' t" by (simp add: building_def s'_def s3_def s1_def set_user_vaddr_def upd_task_def)
  moreover have "tasks s' t = (tasks s t)\<lparr>userprog_vaddr := \<lparr>addr_bitmap = ?bm, addr_start = USER_VADDR_START\<rparr>\<rparr>"
    by (simp add: s'_def s3_def s1_def set_user_vaddr_def upd_task_def)
  moreover have "\<not> bit_set (kmem s') ?bm i" if "i < 8 * unat user_bitmap_length" for i
    using that bitmap_init_clear [of i ?bm km'] by (simp add: s'_def bm_bits_count_def)
  moreover have "keeps_used s (kmem s')"
    unfolding keeps_used_def
  proof (intro allI impI, elim conjE)
    fix a assume a: "in_use s a" "\<forall>b \<in> {pool_bitmap (kernel_pool s), addr_bitmap (kernel_vaddr s)}. a \<notin> region (bm_bits b) (unat (bm_length b))"
    then have "a \<notin> region (bm_bits ?bm) (unat (bm_length ?bm))" using new by auto
    then have "kmem s' a = km' a" by (simp add: s'_def bitmap_init_outside)
    then show "kmem s' a = kmem s a" using M(3) a(2) by (simp add: keeps_data_def f1)
  qed
  ultimately show thesis using that run' new by blast
qed

lemma tags_differ: "general_tag t \<noteq> all_list_tag t"
proof -
  have "t + 28 \<noteq> t + (36 :: u32)" by (simp only: add_left_cancel) simp
  then show ?thesis by (simp add: general_tag_def all_list_tag_def)
qed

text \<open>The new thread joins the two lists.\<close>

lemma join_run:
  fixes s :: "'a processes_scheme"
  assumes ready: "is_list s (thread_ready_list s) (map general_tag rs)" and all: "is_list s (thread_all_list s) (map all_list_tag as)"
    and disj: "list_nodes (thread_ready_list s) (map general_tag rs) \<inter> list_nodes (thread_all_list s) (map all_list_tag as) = {}"
    and fresh: "general_tag t \<notin> list_nodes (thread_ready_list s) (map general_tag rs)" "general_tag t \<notin> list_nodes (thread_all_list s) (map all_list_tag as)"
      "all_list_tag t \<notin> list_nodes (thread_ready_list s) (map general_tag rs)" "all_list_tag t \<notin> list_nodes (thread_all_list s) (map all_list_tag as)"
  obtains n p where "join_lists fn t s = Inr (s\<lparr>lnext := n, lprev := p\<rparr>)"
    and "is_list (s\<lparr>lnext := n, lprev := p\<rparr>) (thread_ready_list s) (map general_tag (rs @ [t]))"
    and "is_list (s\<lparr>lnext := n, lprev := p\<rparr>) (thread_all_list s) (map all_list_tag (as @ [t]))"
    and "\<And>A. A \<inter> ({general_tag t, all_list_tag t} \<union> list_nodes (thread_ready_list s) (map general_tag rs) \<union>
      list_nodes (thread_all_list s) (map all_list_tag as)) = {} \<Longrightarrow> same_links A s (s\<lparr>lnext := n, lprev := p\<rparr>)"
proof -
  let ?r = "thread_ready_list s" and ?a = "thread_all_list s"
  let ?s1 = "list_append ?r (general_tag t) s"
  have disj1: "list_nodes ?a (map all_list_tag as) \<inter> insert (general_tag t) (list_nodes ?r (map general_tag rs)) = {}"
    using disj fresh(2) by auto
  have r1: "is_list ?s1 ?r (map general_tag rs @ [general_tag t])" using lq.rep_enq [OF ready fresh(1)] .
  have a1: "is_list ?s1 ?a (map all_list_tag as)" using lq.enq_other [OF ready all disj1] .
  let ?s2 = "list_append ?a (all_list_tag t) ?s1"
  have disj2: "list_nodes ?r (map general_tag rs @ [general_tag t]) \<inter> insert (all_list_tag t) (list_nodes ?a (map all_list_tag as)) = {}"
    using disj fresh(3) tags_differ [of t] disj1 unfolding lq.nodes_snoc by blast
  have a2: "is_list ?s2 ?a (map all_list_tag as @ [all_list_tag t])" using lq.rep_enq [OF a1 fresh(4)] .
  have r2: "is_list ?s2 ?r (map general_tag rs @ [general_tag t])" using lq.enq_other [OF a1 r1 disj2] .
  have find: "elem_find s ?r (general_tag t) = Some False" "elem_find ?s1 ?a (all_list_tag t) = Some False"
    using lq.mem_iff [OF ready, of "general_tag t"] lq.mem_iff [OF a1, of "all_list_tag t"] fresh(1,4) by (simp_all add: list_nodes_def)
  have join: "join_lists fn t s = Inr ?s2"
    unfolding join_lists_def assert_not_in_def find Let_def list_append_fields
    by (simp only: find terminates_simps rbind_simps c_assert_simps simp_thms)
  have links: "\<exists>n p. list_append l e u = u\<lparr>lnext := n, lprev := p\<rparr>" for l e and u :: "'a processes_scheme"
    unfolding list_append_def list_insert_before_eq by blast
  obtain n1 p1 where s1: "?s1 = s\<lparr>lnext := n1, lprev := p1\<rparr>" using links by blast
  obtain n p where "?s2 = ?s1\<lparr>lnext := n, lprev := p\<rparr>" using links by blast
  then have s2: "?s2 = s\<lparr>lnext := n, lprev := p\<rparr>" unfolding s1 by simp
  have links: "same_links A s (s\<lparr>lnext := n, lprev := p\<rparr>)"
    if A: "A \<inter> ({general_tag t, all_list_tag t} \<union> list_nodes ?r (map general_tag rs) \<union> list_nodes ?a (map all_list_tag as)) = {}" for A
    unfolding s2 [symmetric]
  proof (rule same_links_trans)
    show "same_links A s ?s1" by (rule append_frame [OF ready]) (use A in blast)
    show "same_links A ?s1 ?s2" by (rule append_frame [OF a1]) (use A in blast)
  qed
  show thesis by (rule that [OF join [unfolded s2] _ _ links]) (use r2 a2 in \<open>simp_all flip: s2\<close>)
qed

text \<open>The same under the interrupt guard of \<open>process_execute\<close>.\<close>

lemma join_step:
  fixes s :: "'a processes_scheme"
  assumes ready: "is_list s (thread_ready_list s) (map general_tag rs)" and all: "is_list s (thread_all_list s) (map all_list_tag as)"
    and disj: "list_nodes (thread_ready_list s) (map general_tag rs) \<inter> list_nodes (thread_all_list s) (map all_list_tag as) = {}"
    and fresh: "general_tag t \<notin> list_nodes (thread_ready_list s) (map general_tag rs)" "general_tag t \<notin> list_nodes (thread_all_list s) (map all_list_tag as)"
      "all_list_tag t \<notin> list_nodes (thread_ready_list s) (map general_tag rs)" "all_list_tag t \<notin> list_nodes (thread_all_list s) (map all_list_tag as)"
  obtains n p where "rbind (join_lists fn t (cli s)) (\<lambda>s8. Inr (snd (intr_set_status (intr_get_status s) s8))) = Inr (s\<lparr>lnext := n, lprev := p\<rparr>)"
    and "is_list (s\<lparr>lnext := n, lprev := p\<rparr>) (thread_ready_list s) (map general_tag (rs @ [t]))"
    and "is_list (s\<lparr>lnext := n, lprev := p\<rparr>) (thread_all_list s) (map all_list_tag (as @ [t]))"
    and "\<And>A. A \<inter> ({general_tag t, all_list_tag t} \<union> list_nodes (thread_ready_list s) (map general_tag rs) \<union>
      list_nodes (thread_all_list s) (map all_list_tag as)) = {} \<Longrightarrow> same_links A s (s\<lparr>lnext := n, lprev := p\<rparr>)"
proof -
  have lists: "thread_ready_list (cli s) = thread_ready_list s" "thread_all_list (cli s) = thread_all_list s" by (simp_all add: cli_def)
  have cl: "is_list (cli s) l xs \<longleftrightarrow> is_list s l xs" for l xs by (rule is_list_cong) simp_all
  obtain n p where J: "join_lists fn t (cli s) = Inr ((cli s)\<lparr>lnext := n, lprev := p\<rparr>)"
    "is_list ((cli s)\<lparr>lnext := n, lprev := p\<rparr>) (thread_ready_list s) (map general_tag (rs @ [t]))"
    "is_list ((cli s)\<lparr>lnext := n, lprev := p\<rparr>) (thread_all_list s) (map all_list_tag (as @ [t]))"
    "\<And>A. A \<inter> ({general_tag t, all_list_tag t} \<union> list_nodes (thread_ready_list s) (map general_tag rs) \<union>
      list_nodes (thread_all_list s) (map all_list_tag as)) = {} \<Longrightarrow> same_links A (cli s) ((cli s)\<lparr>lnext := n, lprev := p\<rparr>)"
    by (rule join_run [of "cli s", unfolded lists cl, OF ready all disj fresh]) blast
  have same: "is_list (s\<lparr>lnext := n, lprev := p\<rparr>) l xs \<longleftrightarrow> is_list ((cli s)\<lparr>lnext := n, lprev := p\<rparr>) l xs" for l xs
    by (rule is_list_cong) simp_all
  have res: "rbind (join_lists fn t (cli s)) (\<lambda>s8. Inr (snd (intr_set_status (intr_get_status s) s8))) = Inr (s\<lparr>lnext := n, lprev := p\<rparr>)"
    unfolding J(1) rbind_simps intr_restore_links ..
  have links: "same_links A s (s\<lparr>lnext := n, lprev := p\<rparr>)"
    if "A \<inter> ({general_tag t, all_list_tag t} \<union> list_nodes (thread_ready_list s) (map general_tag rs) \<union>
      list_nodes (thread_all_list s) (map all_list_tag as)) = {}" for A
    using J(4) [OF that] by (simp add: same_links_def)
  show thesis by (rule that [OF res _ _ links]) (use J(2,3) in \<open>simp_all add: same\<close>)
qed

section \<open>The invariant\<close>

text \<open>
  What \<open>process_execute\<close> relies on: the heap and its lock, the scheduler, the list of all threads,
  all threads so far in the kernel's address space, and nothing of the kernel in a free page.
\<close>

definition spawn_ready :: "u32 set \<Rightarrow> (u32 \<Rightarrow> u32) \<Rightarrow> 'a processes_scheme \<Rightarrow> u32 \<Rightarrow> u32 list \<Rightarrow> u32 list \<Rightarrow> bool" where
  "spawn_ready T spc s cur rs as \<longleftrightarrow>
     heap_ready s \<and> lock_available (plock (kernel_pool s)) s \<and> sched_inv T spc s cur rs \<and>
     is_list s (thread_all_list s) (map all_list_tag as) \<and>
     list_nodes (thread_ready_list s) (map general_tag rs) \<inter> list_nodes (thread_all_list s) (map all_list_tag as) = {} \<and>
     main_thread s \<in> T \<and> (\<forall>u \<in> T. pgdir (tasks s u) = NULL \<and> in_use s u) \<and>
     (\<forall>a \<in> list_nodes (thread_ready_list s) (map general_tag rs) \<union> list_nodes (thread_all_list s) (map all_list_tag as). in_use s a) \<and>
     in_use s (head_of (waiters (semaphore_of (plock (kernel_pool s))))) \<and>
     (\<forall>b \<in> {pool_bitmap (kernel_pool s), addr_bitmap (kernel_vaddr s)}. \<forall>a \<in> region (bm_bits b) (unat (bm_length b)). in_use s a)"

text \<open>The address spaces after the creation: one directory for the kernel threads, one for the process.\<close>

lemma spawned_spaces:
  assumes T: "\<And>u. u \<in> T \<Longrightarrow> pgdir (tk u) = NULL \<and> spc u = cr" and cr: "cr = 0x100000" and t: "t \<notin> T" "pgdir (tk t) \<noteq> NULL"
    and at: "mmu m cr (pgdir (tk t)) = Some f" and k: "kern (pgdir (tk t))"
    and self: "self_map m cr" "self_map m f" and shares: "shares_kernel m cr f"
  shows "spaces_agree (insert t T) (spc(t := f)) m tk"
proof -
  let ?s = "\<lambda>c. \<lparr>eflags = 0, kmsg = [], lprev = (\<lambda>_. 0), lnext = (\<lambda>_. 0), phys = m, cr3 = c\<rparr>"
  have old: "vaddr_to_paddr (?s cr) (pgdir (tk t)) = Inr f" using self(1) at by (intro vaddr_to_paddr_mapped) simp_all
  have "mmu m f (pgdir (tk t)) = Some f" using shares_kernel_mmu [OF shares k] at by simp
  then have new: "vaddr_to_paddr (?s f) (pgdir (tk t)) = Inr f" using self(2) by (intro vaddr_to_paddr_mapped) simp_all
  have ne: "u \<noteq> t" if "u \<in> T" for u using that t(1) by auto
  show ?thesis
    unfolding spaces_agree_def
  proof (intro ballI)
    fix u assume u: "u \<in> insert t T"
    show "if pgdir (tk u) = NULL then (spc(t := f)) u = 0x100000
      else \<forall>w \<in> insert t T. vaddr_to_paddr (?s ((spc(t := f)) w)) (pgdir (tk u)) = Inr ((spc(t := f)) u)"
    proof (cases "u = t")
      case True
      have "vaddr_to_paddr (?s ((spc(t := f)) w)) (pgdir (tk t)) = Inr f" if "w \<in> insert t T" for w
        using that new old T ne by (cases "w = t") simp_all
      then show ?thesis using True t(2) by simp
    next
      case False
      then show ?thesis using u T cr by simp
    qed
  qed
qed

lemma spawned_sched:
  fixes s s' :: "'a processes_scheme"
  assumes inv: "sched_inv T spc s cur rs" and t: "t \<notin> T" "t \<noteq> NULL"
    and tag: "general_tag t \<notin> list_nodes (thread_ready_list s) (map general_tag rs)"
    and list: "is_list s' (thread_ready_list s) (map general_tag (rs @ [t]))"
    and same: "esp s' = esp s" "cr3 s' = cr3 s" "thread_ready_list s' = thread_ready_list s" "\<And>u. u \<noteq> t \<Longrightarrow> tasks s' u = tasks s u"
    and new: "stack_magic (tasks s' t) = 0x19870916" "status (tasks s' t) = TASK_READY" "page_frame (self_kstack (tasks s' t) + 20) = t"
    and spaces: "spaces_agree (insert t T) (spc(t := f)) (phys s') (tasks s')"
  shows "sched_inv (insert t T) (spc(t := f)) s' cur (rs @ [t])"
proof -
  have ne: "u \<noteq> t" if "u \<in> T" for u using that t(1) by auto
  have cur: "running_thread s = cur" "cur \<in> T" "set rs \<subseteq> T" "cur \<notin> set rs" "cr3 s = spc cur"
    and old: "\<And>u. u \<in> T \<Longrightarrow> u \<noteq> NULL \<and> general_tag u \<notin> {head_of (thread_ready_list s), tail_of (thread_ready_list s)} \<and>
      stack_magic (tasks s u) = 0x19870916 \<and> (status (tasks s u) = TASK_RUNNING \<longleftrightarrow> u = cur) \<and>
      (status (tasks s u) = TASK_READY \<longleftrightarrow> u \<in> set rs) \<and> (u \<noteq> cur \<longrightarrow> page_frame (self_kstack (tasks s u) + 20) = u)"
    using inv unfolding sched_inv_def by auto
  have "running_thread s' = cur" using cur(1) same(1) by (simp add: running_thread_def)
  moreover have "general_tag t \<notin> {head_of (thread_ready_list s), tail_of (thread_ready_list s)}"
    using tag by (auto simp: list_nodes_def)
  moreover have "cr3 s' = (spc(t := f)) cur" using cur(2,5) ne same(2) by simp
  ultimately show ?thesis
    unfolding sched_inv_def same(3)
    using cur ne old t new same(4) list spaces by (intro conjI ballI) auto
qed

text \<open>The free pages left for the later allocations.\<close>

lemma bit_left:
  assumes "card H \<le> n" and "finite H" and "x + n < N"
  shows "\<exists>z. x \<le> z \<and> z \<le> x + n \<and> z < N \<and> z \<notin> H"
proof (rule ccontr)
  assume "\<not> ?thesis"
  then have "{x ..< x + Suc n} \<subseteq> H" using assms(3) by auto
  then have "card {x ..< x + Suc n} \<le> card H" by (rule card_mono [OF assms(2)])
  then show False using assms(1) by simp
qed

text \<open>
  \<open>shell s s' t\<close>: thread \<open>t\<close> has its control block, its stack and the bitmap of its address space, and
  one more page can be allocated.
\<close>

definition shell :: "'a processes_scheme \<Rightarrow> 'a processes_scheme \<Rightarrow> u32 \<Rightarrow> u8 list \<Rightarrow> u32 \<Rightarrow> bitmap \<Rightarrow> bool" where
  "shell s s' t name filename ub \<longleftrightarrow>
     building s s' t \<and> (\<exists>H. heap_step s s' H 24) \<and> keeps_used s (kmem s') \<and>
     lock_available (plock (kernel_pool s)) s' \<and> free_pages s' \<noteq> {} \<and>
     tasks s' t = (new_task t name 31)\<lparr>userprog_vaddr := \<lparr>addr_bitmap = ub, addr_start = USER_VADDR_START\<rparr>, self_kstack := t + 3664\<rparr> \<and>
     bm_length ub = user_bitmap_length \<and> (\<forall>i < 8 * unat user_bitmap_length. \<not> bit_set (kmem s') ub i) \<and>
     bitmaps_apart ub (pool_bitmap (kernel_pool s)) \<and> bitmaps_apart ub (addr_bitmap (kernel_vaddr s)) \<and>
     (\<forall>a \<in> region (bm_bits ub) (unat (bm_length ub)). \<not> in_use s a) \<and>
     frames s' t = [KernelThread] \<and> ts_eip (kstacks s' (t + 3664)) = kernel_thread_addr s \<and>
     ts_function (kstacks s' (t + 3664)) = start_process_addr s \<and> ts_func_arg (kstacks s' (t + 3664)) = filename"

lemma stack_step:
  fixes s :: "'a processes_scheme"
  assumes b: "building s s3 t" and heap: "heap_step s s3 H 24" "keeps_used s (kmem s3)" "free_pages s3 \<noteq> {}"
    and lock: "lock_available (plock (kernel_pool s)) s3" "running_thread s3 \<noteq> t"
    and tk: "tasks s3 t = (new_task t name 31)\<lparr>userprog_vaddr := \<lparr>addr_bitmap = ub, addr_start = USER_VADDR_START\<rparr>\<rparr>"
    and ub: "bm_length ub = user_bitmap_length" "\<forall>i < 8 * unat user_bitmap_length. \<not> bit_set (kmem s3) ub i"
      "bitmaps_apart ub (pool_bitmap (kernel_pool s))" "bitmaps_apart ub (addr_bitmap (kernel_vaddr s))"
      "\<forall>a \<in> region (bm_bits ub) (unat (bm_length ub)). \<not> in_use s a"
  shows "shell s (new_stack t (thread_create t (start_process_addr s3) filename s3)) t name filename ub"
proof -
  define s4 where "s4 = new_stack t (thread_create t (start_process_addr s3) filename s3)"
  have f4: "phys s4 = phys s3" "cr3 s4 = cr3 s3" "kmem s4 = kmem s3" "kernel_pool s4 = kernel_pool s3" "kernel_vaddr s4 = kernel_vaddr s3"
    by (simp_all add: s4_def thread_create_run)
  have "self_kstack (tasks s3 t) - 432 = t + 3664" by (simp add: tk new_task_def PG_SIZE_def)
  moreover have "building s3 s4 t" by (simp add: building_def s4_def thread_create_run)
  moreover have "lock_available (plock (kernel_pool s)) s4"
    using lock by (simp add: s4_def thread_create_run lock_available_def list_empty_def running_thread_def)
  moreover have "heap_step s s4 H 24 = heap_step s s3 H 24" by (rule heap_step_cong) (simp_all add: f4)
  moreover have "free_pages s4 \<noteq> {}" using heap heap_ready_cong [OF f4] by simp
  moreover have "start_process_addr s3 = start_process_addr s" "kernel_thread_addr s3 = kernel_thread_addr s"
    using b by (simp_all add: building_def)
  moreover have "tasks s4 t = (tasks s3 t)\<lparr>self_kstack := self_kstack (tasks s3 t) - 432\<rparr>" by (simp add: s4_def thread_create_run)
  ultimately show ?thesis
    using building_trans [OF b] ub tk heap(1,2) unfolding shell_def s4_def [symmetric]
    by (simp add: f4(3)) (simp add: s4_def thread_create_run, blast)
qed

lemma shell_step:
  fixes s :: "'a processes_scheme"
  assumes ready: "spawn_ready T spc s cur rs as" and name: "length name < 16"
    and run: "run_clear (kmem s) (addr_bitmap (kernel_vaddr s)) x 25" "x + 25 \<le> bm_bits_count (addr_bitmap (kernel_vaddr s))"
    and pages: "25 \<le> card (free_pages s)"
  obtains t s1 s2 s3 ub z where "malloc_kernel_pages 1 s = Inr (t, s1)" and "init_thread t name 31 s1 = Inr s2"
    and "create_user_vaddr_bitmap t s2 = Inr s3" and "shell s (new_stack t (thread_create t (start_process_addr s3) filename s3)) t name filename ub"
    and "z < bm_bits_count (addr_bitmap (kernel_vaddr s))" "\<not> bit_set (kmem s3) (addr_bitmap (kernel_vaddr s)) z"
    and "page_frame t = t" and "t \<noteq> NULL" and "\<And>a. in_use s a \<Longrightarrow> a \<noteq> t \<and> a \<noteq> general_tag t \<and> a \<noteq> all_list_tag t"
proof -
  let ?va = "addr_bitmap (kernel_vaddr s)"
  have hs: "heap_ready s" "lock_available (plock (kernel_pool s)) s" "in_use s (main_thread s)"
    "in_use s (head_of (waiters (semaphore_of (plock (kernel_pool s)))))" "in_use s (running_thread s)"
    and store: "\<And>a b. b \<in> {pool_bitmap (kernel_pool s), ?va} \<Longrightarrow> a \<in> region (bm_bits b) (unat (bm_length b)) \<Longrightarrow> in_use s a"
    using ready unfolding spawn_ready_def sched_inv_def by auto
  have x: "x < bm_bits_count ?va" "\<not> bit_set (kmem s) ?va x" and f: "free_pages s \<noteq> {}"
    using run run_clearD [OF run(1), of x] pages by auto
  obtain h s1 s2 where C: "malloc_kernel_pages 1 s = Inr (heap_page s h, s1)" "init_thread (heap_page s h) name 31 s1 = Inr s2"
    "heap_step s s2 {h} 1" "building s s2 (heap_page s h)" "tasks s2 (heap_page s h) = new_task (heap_page s h) name 31" "h \<le> x"
    "keeps_data s (kmem s) (kmem s2)"
    by (rule control_block_step [OF hs(1,2) x f name hs(3), where prio = 31]) blast
  define t where "t = heap_page s h"
  have hN: "h < bm_bits_count ?va" using C(6) x(1) by simp
  have tt: "page_frame t = t" "t \<noteq> NULL" using heap_page_facts [OF hs(1) hN] by (simp_all add: t_def)
  have apart: "a \<noteq> t \<and> a \<noteq> general_tag t \<and> a \<noteq> all_list_tag t" if "in_use s a" for a
    using in_use_tags [OF C(3) _ hs(1) that] by (simp add: t_def)
  have S: "heap_ready s2" "kernel_pool s2 = kernel_pool s" "kernel_vaddr s2 = kernel_vaddr s" "card (free_pages s) = card (free_pages s2) + 1"
    and bits2: "\<And>y. y < bm_bits_count ?va \<Longrightarrow> bit_set (kmem s2) ?va y \<longleftrightarrow> y = h \<or> bit_set (kmem s) ?va y"
    using C(3) by (simp_all add: heap_step_def)
  have lock: "lock_available (plock (kernel_pool s)) s2"
    by (rule building_lock [OF C(4) hs(2)]) (use apart hs(4,5) in \<open>simp_all add: t_def\<close>)
  define y where "y = (if h = x then x + 1 else x)"
  have "\<not> bit_set (kmem s2) ?va (y + i)" if "i < 23" for i
    using run_clearD [OF run(1), of "y + i"] bits2 [of "y + i"] that run(2) C(6) by (simp add: y_def split: if_splits)
  then have run2: "run_clear (kmem s2) ?va y 23" "y + 23 \<le> bm_bits_count ?va" using run(2) by (simp_all add: run_clear_def y_def)
  have pages2: "23 \<le> card (free_pages s2)" using pages S(4) by simp
  note store2 = in_use_step [OF C(3) store]
  obtain h1 s3 where B: "create_user_vaddr_bitmap t s2 = Inr s3" "heap_step s2 s3 {h1 ..< h1 + 23} 23" "building s2 s3 t"
    "tasks s3 t = (tasks s2 t)\<lparr>userprog_vaddr := \<lparr>addr_bitmap = \<lparr>bm_length = user_bitmap_length, bm_bits = heap_page s2 h1\<rparr>, addr_start = USER_VADDR_START\<rparr>\<rparr>"
    "\<And>i. i < 8 * unat user_bitmap_length \<Longrightarrow> \<not> bit_set (kmem s3) \<lparr>bm_length = user_bitmap_length, bm_bits = heap_page s2 h1\<rparr> i"
    "\<And>a. a \<in> region (heap_page s2 h1) (unat user_bitmap_length) \<Longrightarrow> \<not> in_use s2 a" "keeps_used s2 (kmem s3)"
    by (rule user_bitmap_step [where t = t, OF S(1) _ _ _ pages2, unfolded S(2,3), OF lock run2 store2]) blast+
  have b3: "building s s3 t" using building_trans [OF C(4) [folded t_def] B(3)] .
  have step3: "heap_step s s3 ({h} \<union> {h1 ..< h1 + 23}) (1 + 23)" using heap_step_trans [OF C(3) B(2)] .
  have "card ({h} \<union> {h1 ..< h1 + 23}) \<le> 24" using card_Un_le [of "{h}" "{h1 ..< h1 + 23}"] by simp
  then obtain z where z: "x \<le> z" "z \<le> x + 24" "z < bm_bits_count ?va" "z \<notin> {h} \<union> {h1 ..< h1 + 23}"
    using bit_left [of "{h} \<union> {h1 ..< h1 + 23}" 24 x "bm_bits_count ?va"] run(2) by auto
  have z3: "\<not> bit_set (kmem s3) ?va z" using step3 z run_clearD [OF run(1), of z] unfolding heap_step_def by auto
  have "running_thread s3 = running_thread s" using b3 by (simp add: building_def running_thread_def)
  then have r3: "running_thread s3 \<noteq> t" using apart [OF hs(5)] by simp
  have lock3: "lock_available (plock (kernel_pool s)) s3"
    by (rule building_lock [OF b3 hs(2)]) (use apart hs(4,5) in simp_all)
  have ub: "bitmaps_apart \<lparr>bm_length = user_bitmap_length, bm_bits = heap_page s2 h1\<rparr> b" if "b \<in> {pool_bitmap (kernel_pool s), ?va}" for b
    using B(6) store2 [OF that] by (auto simp: bitmaps_apart_def)
  have data: "keeps_used s (kmem s3)" by (rule keeps_used_trans [OF C(3) keeps_data_used [OF C(7)] B(7)])
  have new: "\<not> in_use s a" if "a \<in> region (heap_page s2 h1) (unat user_bitmap_length)" for a
    using B(6) [OF that] in_use_step [OF C(3)] by blast
  have step24: "heap_step s s3 ({h} \<union> {h1 ..< h1 + 23}) 24" using step3 by simp
  then have "card (free_pages s) = card (free_pages s3) + 24" by (simp add: heap_step_def)
  then have "free_pages s3 \<noteq> {}" using pages by auto
  then have sh: "shell s (new_stack t (thread_create t (start_process_addr s3) filename s3)) t name filename
      \<lparr>bm_length = user_bitmap_length, bm_bits = heap_page s2 h1\<rparr>"
    by (intro stack_step [OF b3 step24 data]) (use lock3 r3 B(4,5) C(5) ub new in \<open>simp_all add: t_def\<close>)
  show thesis by (rule that [OF C(1) [folded t_def] C(2) [folded t_def] B(1) sh z(3) z3 tt apart])
qed

text \<open>
  The page directory completes the thread. \<open>fresh_space s s' t f\<close>: thread \<open>t\<close> has the directory in frame
  \<open>f\<close> and the cleared bitmap of an empty user's half, in memory that was free; the heap can be used
  from its address space too, with 25 pages and frames less than before.
\<close>

definition fresh_space :: "'a memory_scheme \<Rightarrow> 'a memory_scheme \<Rightarrow> u32 \<Rightarrow> u32 \<Rightarrow> bool" where
  "fresh_space s s' t f \<longleftrightarrow>
     (let ub = addr_bitmap (userprog_vaddr (tasks s' t))
      in (\<exists>H. heap_step s s' H 25) \<and> heap_ready (s'\<lparr>cr3 := f\<rparr>) \<and> keeps_used s (kmem s') \<and> pgdir (tasks s' t) \<noteq> NULL \<and>
        addr_start (userprog_vaddr (tasks s' t)) = USER_VADDR_START \<and> bm_length ub = user_bitmap_length \<and>
        (\<forall>i < bm_bits_count ub. \<not> bit_set (kmem s') ub i) \<and> (\<forall>a \<in> region (bm_bits ub) (unat (bm_length ub)). \<not> in_use s a) \<and>
        bitmaps_apart ub (pool_bitmap (kernel_pool s)) \<and> (\<forall>v. unat v < 0xc0000000 \<longrightarrow> \<not> present (load32 (phys s') (pde_addr f v))))"

lemma fresh_space_cong:
  assumes "phys s'' = phys s'" "cr3 s'' = cr3 s'" "kmem s'' = kmem s'" "kernel_pool s'' = kernel_pool s'" "kernel_vaddr s'' = kernel_vaddr s'"
    and "tasks s'' t = tasks s' t"
  shows "fresh_space s s'' t f = fresh_space s s' t f"
proof -
  have "heap_step s s'' H 25 = heap_step s s' H 25" for H by (rule heap_step_cong) (use assms in simp_all)
  moreover have "heap_ready (s''\<lparr>cr3 := f\<rparr>) = heap_ready (s'\<lparr>cr3 := f\<rparr>)" by (rule heap_ready_cong) (use assms in simp_all)
  ultimately show ?thesis by (simp add: fresh_space_def assms)
qed

lemma fresh_spaceD:
  assumes "fresh_space s s' t f"
  shows "heap_ready s'" "heap_ready (s'\<lparr>cr3 := f\<rparr>)" "pgdir (tasks s' t) \<noteq> NULL" "card (free_pages s) = card (free_pages s') + 25"
    and "addr_start (userprog_vaddr (tasks s' t)) = USER_VADDR_START"
    and "\<forall>i < bm_bits_count (addr_bitmap (userprog_vaddr (tasks s' t))). \<not> bit_set (kmem s') (addr_bitmap (userprog_vaddr (tasks s' t))) i"
    and "PDE_IDX v \<noteq> 1023 \<Longrightarrow> mmu (phys s) (cr3 s) v = Some p \<Longrightarrow> mmu (phys s') (cr3 s) v = Some p"
  using assms unfolding fresh_space_def Let_def heap_step_def by auto

definition complete :: "'a processes_scheme \<Rightarrow> 'a processes_scheme \<Rightarrow> u32 \<Rightarrow> u8 list \<Rightarrow> u32 \<Rightarrow> u32 \<Rightarrow> bool" where
  "complete s s' t name filename f \<longleftrightarrow>
     building s s' t \<and> fresh_space s s' t f \<and> kern (pgdir (tasks s' t)) \<and>
     mmu (phys s') (cr3 s) (pgdir (tasks s' t)) = Some f \<and> self_map (phys s') (cr3 s) \<and> self_map (phys s') f \<and>
     shares_kernel (phys s') (cr3 s) f \<and> (\<forall>v. unat v < 0xc0000000 \<longrightarrow> mmu (phys s') f v = None) \<and>
     stack_magic (tasks s' t) = 0x19870916 \<and> status (tasks s' t) = TASK_READY \<and> self_kstack (tasks s' t) = t + 3664 \<and>
     frames s' t = [KernelThread] \<and> ts_eip (kstacks s' (t + 3664)) = kernel_thread_addr s \<and>
     ts_function (kstacks s' (t + 3664)) = start_process_addr s \<and> ts_func_arg (kstacks s' (t + 3664)) = filename"

lemma directory_step:
  fixes s :: "'a processes_scheme"
  assumes sh: "shell s s4 t name filename ub"
    and z: "z < bm_bits_count (addr_bitmap (kernel_vaddr s))" "\<not> bit_set (kmem s4) (addr_bitmap (kernel_vaddr s)) z"
  obtains pd s5 f where "create_page_dir s4 txt = Inr (pd, s5)" and "complete s (upd_task t (\<lambda>k. k\<lparr>pgdir := pd\<rparr>) s5) t name filename f"
proof -
  have b4: "building s s4 t" using sh by (simp add: shell_def)
  have same4: "kernel_pool s4 = kernel_pool s" "kernel_vaddr s4 = kernel_vaddr s" "cr3 s4 = cr3 s" using b4 by (simp_all add: building_def)
  obtain H where step4: "heap_step s s4 H 24" and used4: "keeps_used s (kmem s4)"
    and new: "\<And>a. a \<in> region (bm_bits ub) (unat (bm_length ub)) \<Longrightarrow> \<not> in_use s a" using sh by (auto simp: shell_def)
  have ready4: "heap_ready s4" using step4 by (simp add: heap_step_def)
  have S: "heap_ready s4" "lock_available (plock (kernel_pool s4)) s4" "free_pages s4 \<noteq> {}"
    "tasks s4 t = (new_task t name 31)\<lparr>userprog_vaddr := \<lparr>addr_bitmap = ub, addr_start = USER_VADDR_START\<rparr>, self_kstack := t + 3664\<rparr>"
    "bm_length ub = user_bitmap_length" "\<And>i. i < 8 * unat user_bitmap_length \<Longrightarrow> \<not> bit_set (kmem s4) ub i"
    "bitmaps_apart ub (pool_bitmap (kernel_pool s))" "bitmaps_apart ub (addr_bitmap (kernel_vaddr s))"
    using sh ready4 by (simp_all add: shell_def same4)
  obtain h k m' km' where P: "create_page_dir s4 txt = Inr (heap_page s4 h, s4\<lparr>phys := m', kmem := km'\<rparr>)"
    "dir_made s4 (s4\<lparr>phys := m', kmem := km'\<rparr>) h k"
    by (rule create_page_dir_run [OF S(1,2) z [folded same4(2)] S(3)])
  let ?s5 = "s4\<lparr>phys := m', kmem := km'\<rparr>" and ?pd = "heap_page s4 h" and ?f = "pool_page (kernel_pool s) k"
  have D: "heap_ready ?s5" "h < bm_bits_count (addr_bitmap (kernel_vaddr s4))" "page_at ?s5 ?pd ?f" "shares_kernel m' (cr3 s) ?f" "self_map m' ?f"
    "\<And>v. unat (PDE_IDX v) < 768 \<Longrightarrow> \<not> present (load32 m' (pde_addr ?f v))" "keeps_data s4 (kmem s4) km'" "heap_ready (?s5\<lparr>cr3 := ?f\<rparr>)"
    using P(2) by (simp_all add: dir_made_def Let_def same4)
  let ?s6 = "upd_task t (\<lambda>k. k\<lparr>pgdir := ?pd\<rparr>) ?s5"
  have f6: "phys ?s6 = m'" "kmem ?s6 = km'" "frames ?s6 = frames s4" "kstacks ?s6 = kstacks s4"
    "tasks ?s6 t = (tasks s4 t)\<lparr>pgdir := ?pd\<rparr>" by (simp_all add: upd_task_def)
  have absent: "\<not> present (load32 m' (pde_addr ?f v))" if "unat v < 0xc0000000" for v
    using that by (intro D(6)) (simp add: unat_PDE_IDX div_less_iff_less_mult)
  have fresh: "fresh_space s ?s6 t ?f"
    unfolding fresh_space_def Let_def
  proof (intro conjI allI impI ballI)
    have "heap_step s4 ?s6 {h} 1 = heap_step s4 ?s5 {h} 1" by (rule heap_step_cong) (simp_all add: upd_task_def)
    then have "heap_step s4 ?s6 {h} 1" using dir_made_step [OF P(2)] by (simp only:)
    then have "heap_step s ?s6 (H \<union> {h}) (24 + 1)" by (rule heap_step_trans [OF step4])
    then show "\<exists>H. heap_step s ?s6 H 25" by auto
    have "heap_ready (?s6\<lparr>cr3 := ?f\<rparr>) = heap_ready (?s5\<lparr>cr3 := ?f\<rparr>)" by (rule heap_ready_cong) (simp_all add: upd_task_def)
    then show "heap_ready (?s6\<lparr>cr3 := ?f\<rparr>)" using D(8) by simp
    show "keeps_used s (kmem ?s6)" unfolding f6 by (rule keeps_used_trans [OF step4 used4 keeps_data_used [OF D(7)]])
    show "pgdir (tasks ?s6 t) \<noteq> NULL" using heap_page_facts [OF S(1) D(2)] by (simp add: f6)
    fix i assume i: "i < bm_bits_count (addr_bitmap (userprog_vaddr (tasks ?s6 t)))"
    have "km' a = kmem s4 a" if "a \<in> region (bm_bits ub) (unat (bm_length ub))" for a
      using D(7) S(7,8) that unfolding keeps_data_def same4 bitmaps_apart_def by blast
    then have "bit_set km' ub i = bit_set (kmem s4) ub i" using i by (intro bit_set_cong_region) (simp_all add: f6 S(4))
    then show "\<not> bit_set (kmem ?s6) (addr_bitmap (userprog_vaddr (tasks ?s6 t))) i" using S(5,6) i by (simp add: bm_bits_count_def f6 S(4))
  qed (use new S(5,7) absent in \<open>simp_all add: f6 S(4)\<close>)
  have "building s4 ?s6 t" by (simp add: building_def upd_task_def)
  then have "building s ?s6 t" by (rule building_trans [OF b4])
  moreover have "self_map m' (cr3 s)" using heap_ready_self [OF D(1)] same4(3) by simp
  moreover have "mmu m' (cr3 s) ?pd = Some ?f" using page_atD [OF D(3), of 0] same4(3) by simp
  moreover have "mmu m' ?f v = None" if "unat v < 0xc0000000" for v
    using absent [OF that] by (simp add: mmu_def)
  moreover have "kern ?pd" "?pd \<noteq> NULL" using heap_page_facts [OF S(1) D(2)] by simp_all
  moreover have "stack_magic (new_task t name 31) = 0x19870916" "status (new_task t name 31) = TASK_READY" by (simp_all add: new_task_def)
  moreover have "frames s4 t = [KernelThread]" "ts_eip (kstacks s4 (t + 3664)) = kernel_thread_addr s"
    "ts_function (kstacks s4 (t + 3664)) = start_process_addr s" "ts_func_arg (kstacks s4 (t + 3664)) = filename"
    using sh by (simp_all add: shell_def)
  ultimately have "complete s ?s6 t name filename ?f"
    using D(4,5) fresh unfolding complete_def f6 S(4) by simp
  then show thesis using that P(1) by blast
qed

text \<open>
  \<open>spawned T spc s cur rs as filename s' t f\<close>: from \<open>s\<close> to \<open>s'\<close> thread \<open>t\<close> with the directory in frame \<open>f\<close> has
  joined the threads \<open>T\<close>.
\<close>

definition spawned :: "u32 set \<Rightarrow> (u32 \<Rightarrow> u32) \<Rightarrow> 'a processes_scheme \<Rightarrow> u32 \<Rightarrow> u32 list \<Rightarrow> u32 list \<Rightarrow> u32 \<Rightarrow>
    'a processes_scheme \<Rightarrow> u32 \<Rightarrow> u32 \<Rightarrow> bool" where
  "spawned T spc s cur rs as filename s' t f \<longleftrightarrow> t \<notin> T \<and>
    sched_inv (insert t T) (spc(t := f)) s' cur (rs @ [t]) \<and> is_list s' (thread_all_list s') (map all_list_tag (as @ [t])) \<and>
    (\<forall>v. kern v \<longrightarrow> mmu (phys s') f v = mmu (phys s') (cr3 s') v) \<and> (\<forall>v. unat v < 0xc0000000 \<longrightarrow> mmu (phys s') f v = None) \<and>
    fresh_space s s' t f \<and> frames s' t = [KernelThread] \<and> ts_eip (kstacks s' (self_kstack (tasks s' t))) = kernel_thread_addr s \<and>
    ts_function (kstacks s' (self_kstack (tasks s' t))) = start_process_addr s \<and> ts_func_arg (kstacks s' (self_kstack (tasks s' t))) = filename \<and>
    (eflags s' = eflags s \<and> cr3 s' = cr3 s \<and> thread_ready_list s' = thread_ready_list s \<and> thread_all_list s' = thread_all_list s) \<and>
    (c_interrupt_entry_table s' = c_interrupt_entry_table s \<and> gdtr_base s' = gdtr_base s \<and> gdtr_limit s' = gdtr_limit s) \<and>
    (user_pool s' = user_pool s \<and> kernel_pool s' = kernel_pool s \<and> kernel_vaddr s' = kernel_vaddr s) \<and>
    (holder s' = holder s \<and> holder_repeat_nr s' = holder_repeat_nr s \<and> sem_value s' = sem_value s) \<and>
    (\<forall>A. (\<forall>a \<in> A. in_use s a) \<and> A \<inter> (list_nodes (thread_ready_list s) (map general_tag rs) \<union>
       list_nodes (thread_all_list s) (map all_list_tag as)) = {} \<longrightarrow> same_links A s s') \<and>
    (\<forall>a. in_use s a \<longrightarrow> a \<noteq> general_tag t) \<and> t \<noteq> NULL"

lemma process_execute_run:
  fixes s :: "'a processes_scheme"
  assumes "spawn_ready T spc s cur rs as" and "length name < 16"
    and "run_clear (kmem s) (addr_bitmap (kernel_vaddr s)) x 25" and "x + 25 \<le> bm_bits_count (addr_bitmap (kernel_vaddr s))"
    and "25 \<le> card (free_pages s)"
  obtains s' t f where "process_execute filename name s = Inr s'" and "spawned T spc s cur rs as filename s' t f"
proof -
  obtain t s1 s2 s3 ub z where L: "malloc_kernel_pages 1 s = Inr (t, s1)" "init_thread t name 31 s1 = Inr s2"
    "create_user_vaddr_bitmap t s2 = Inr s3" "shell s (new_stack t (thread_create t (start_process_addr s3) filename s3)) t name filename ub"
    "z < bm_bits_count (addr_bitmap (kernel_vaddr s))" "\<not> bit_set (kmem s3) (addr_bitmap (kernel_vaddr s)) z"
    "page_frame t = t" "t \<noteq> NULL" "\<And>a. in_use s a \<Longrightarrow> a \<noteq> t \<and> a \<noteq> general_tag t \<and> a \<noteq> all_list_tag t"
    by (rule shell_step [OF assms, where filename = filename]) blast
  let ?s4 = "new_stack t (thread_create t (start_process_addr s3) filename s3)"
  have z: "\<not> bit_set (kmem ?s4) (addr_bitmap (kernel_vaddr s)) z" using L(6) by (simp add: thread_create_run)
  obtain pd s5 f where P: "create_page_dir ?s4 (page_dir_failed_text ?s4) = Inr (pd, s5)"
    "complete s (upd_task t (\<lambda>k. k\<lparr>pgdir := pd\<rparr>) s5) t name filename f"
    by (rule directory_step [OF L(4,5) z])
  define s6 where "s6 = upd_task t (\<lambda>k. k\<lparr>pgdir := pd\<rparr>) s5"
  have c: "complete s s6 t name filename f" using P(2) by (simp add: s6_def)
  then have b: "building s s6 t" and fs: "fresh_space s s6 t f" by (simp_all add: complete_def)
  then have lists: "thread_ready_list s6 = thread_ready_list s" "thread_all_list s6 = thread_all_list s" by (simp_all add: building_def)
  have ready: "is_list s (thread_ready_list s) (map general_tag rs)" "is_list s (thread_all_list s) (map all_list_tag as)"
    "list_nodes (thread_ready_list s) (map general_tag rs) \<inter> list_nodes (thread_all_list s) (map all_list_tag as) = {}"
    "sched_inv T spc s cur rs" "\<And>u. u \<in> T \<Longrightarrow> pgdir (tasks s u) = NULL \<and> in_use s u"
    "\<And>a. a \<in> list_nodes (thread_ready_list s) (map general_tag rs) \<union> list_nodes (thread_all_list s) (map all_list_tag as) \<Longrightarrow> in_use s a"
    using assms(1) by (auto simp: spawn_ready_def sched_inv_def)
  have fresh: "general_tag t \<notin> list_nodes (thread_ready_list s) (map general_tag rs)" "general_tag t \<notin> list_nodes (thread_all_list s) (map all_list_tag as)"
    "all_list_tag t \<notin> list_nodes (thread_ready_list s) (map general_tag rs)" "all_list_tag t \<notin> list_nodes (thread_all_list s) (map all_list_tag as)"
    using L(9) ready(6) by blast+
  obtain n p where J: "rbind (join_lists ''process_execute'' t (cli s6)) (\<lambda>s8. Inr (snd (intr_set_status (intr_get_status s6) s8))) = Inr (s6\<lparr>lnext := n, lprev := p\<rparr>)"
    "is_list (s6\<lparr>lnext := n, lprev := p\<rparr>) (thread_ready_list s) (map general_tag (rs @ [t]))"
    "is_list (s6\<lparr>lnext := n, lprev := p\<rparr>) (thread_all_list s) (map all_list_tag (as @ [t]))"
    "\<And>A. A \<inter> ({general_tag t, all_list_tag t} \<union> list_nodes (thread_ready_list s) (map general_tag rs) \<union>
      list_nodes (thread_all_list s) (map all_list_tag as)) = {} \<Longrightarrow> same_links A s6 (s6\<lparr>lnext := n, lprev := p\<rparr>)"
    by (rule join_step [of s6, unfolded lists, OF building_lists [OF b ready(1) fresh(1,3)] building_lists [OF b ready(2) fresh(2,4)] ready(3) fresh]) blast
  let ?s' = "s6\<lparr>lnext := n, lprev := p\<rparr>"
  have run: "process_execute filename name s = Inr ?s'"
    unfolding process_execute_def L(1) rbind_simps prod.case L(2) L(3) Let_def P(1) s6_def [symmetric] intr_disable_eq by (rule J(1))
  have T: "t \<notin> T" using L(9) ready(5) by blast
  have "sched_inv (insert t T) (spc(t := f)) ?s' cur (rs @ [t])"
  proof (rule spawned_sched [OF ready(4) T L(8) fresh(1) J(2)])
    have "(t + of_nat 3684) AND 0xfffff000 = t" using page_frame_add(1) [of 3684 t] L(7) by (simp add: page_frame_def)
    then show "page_frame (self_kstack (tasks ?s' t) + 20) = t" using c by (simp add: complete_def page_frame_def add.assoc)
    show "spaces_agree (insert t T) (spc(t := f)) (phys ?s') (tasks ?s')"
    proof (rule spawned_spaces [where cr = "cr3 s"])
      have tk: "tasks s6 u = tasks s u" if "u \<in> T" for u using b that T by (auto simp: building_def)
      have sp: "spc u = 0x100000" if "u \<in> T" for u using ready(4,5) that by (auto simp: sched_inv_def spaces_agree_def)
      show cr: "cr3 s = 0x100000" using ready(4) sp by (auto simp: sched_inv_def)
      show "pgdir (tasks ?s' u) = NULL \<and> spc u = cr3 s" if "u \<in> T" for u using ready(5) that by (simp add: tk sp cr)
    qed (use c T fresh_spaceD(3) [OF fs] in \<open>simp_all add: complete_def\<close>)
  qed (use b c in \<open>simp_all add: building_def complete_def\<close>)
  moreover have "fresh_space s ?s' t f = fresh_space s s6 t f" by (rule fresh_space_cong) simp_all
  moreover have "same_links A s ?s'"
    if A: "(\<forall>a \<in> A. in_use s a) \<and> A \<inter> (list_nodes (thread_ready_list s) (map general_tag rs) \<union> list_nodes (thread_all_list s) (map all_list_tag as)) = {}" for A
  proof (rule same_links_trans)
    have "a \<noteq> general_tag t \<and> a \<noteq> all_list_tag t" if "a \<in> A" for a using L(9) A that by blast
    then show "same_links A s s6" using b by (simp add: same_links_def building_def)
    show "same_links A s6 ?s'" by (rule J(4)) (use A L(9) in blast)
  qed
  moreover have "mmu (phys s6) f v = mmu (phys s6) (cr3 s6) v" if "kern v" for v
    using shares_kernel_mmu [OF _ that] c b by (simp add: complete_def building_def)
  moreover have "eflags s6 = eflags s" "cr3 s6 = cr3 s" "c_interrupt_entry_table s6 = c_interrupt_entry_table s" "gdtr_base s6 = gdtr_base s" "gdtr_limit s6 = gdtr_limit s"
    "user_pool s6 = user_pool s" "kernel_pool s6 = kernel_pool s" "kernel_vaddr s6 = kernel_vaddr s"
    "holder s6 = holder s" "holder_repeat_nr s6 = holder_repeat_nr s" "sem_value s6 = sem_value s"
    using b by (simp_all add: building_def)
  ultimately have "spawned T spc s cur rs as filename ?s' t f"
    using T J(3) c lists L(8,9) by (simp add: complete_def spawned_def)
  then show thesis using that run by blast
qed

section \<open>Properties\<close>


end
