(* ===== verification/UserPage.thy ===== *)
theory UserPage
  imports KernelHeap
begin

text \<open>
  \<open>get_a_page\<close> of a process: a page of the user's half is marked in the bitmap of the process and
  mapped to a frame of the user pool, with a page table from the kernel pool where there is none.
\<close>

section \<open>The invariant\<close>

text \<open>The bitmap of the address space of the running process.\<close>

definition own_bitmap :: "'a memory_scheme \<Rightarrow> bitmap" where
  "own_bitmap s = addr_bitmap (userprog_vaddr (tasks s (running_thread s)))"

definition user_index :: "'a memory_scheme \<Rightarrow> u32 \<Rightarrow> u32" where
  "user_index s v = (v - addr_start (userprog_vaddr (tasks s (running_thread s)))) div PG_SIZE"

definition user_free :: "'a memory_scheme \<Rightarrow> nat set" where
  "user_free s = {i. i < bm_bits_count (pool_bitmap (user_pool s)) \<and> \<not> bit_set (kmem s) (pool_bitmap (user_pool s)) i}"

definition user_ready :: "'a memory_scheme \<Rightarrow> bool" where
  "user_ready s \<longleftrightarrow>
     pgdir (tasks s (running_thread s)) \<noteq> NULL \<and> lock_available (plock (user_pool s)) s \<and>
     space_ok (phys s) (cr3 s) \<and> table_source s \<and>
     pool_ok (user_pool s) \<and> phy_addr_start (user_pool s) \<noteq> 0 \<and> user_free s \<noteq> {} \<and>
     bitmaps_apart (own_bitmap s) (pool_bitmap (user_pool s)) \<and> bitmaps_apart (own_bitmap s) (pool_bitmap (kernel_pool s)) \<and>
     bitmaps_apart (pool_bitmap (user_pool s)) (pool_bitmap (kernel_pool s))"

section \<open>The call\<close>

lemma bitmaps_apart_sym: "bitmaps_apart a b \<Longrightarrow> bitmaps_apart b a"
  by (auto simp: bitmaps_apart_def)

lemma set_nat_bit_apart:
  assumes "bitmaps_apart a b" and "i < bm_bits_count a" and "bm_bits_count a < 2 ^ 32" and "j < bm_bits_count b"
  shows "bit_set (bitmap_set_bit m a (of_nat i) v) b j = bit_set m b j"
  using assms by (intro set_bit_apart) (simp_all add: unat_of_nat32)

lemma table_source_bits:
  assumes "table_source s" and "phys s' = phys s" "cr3 s' = cr3 s" "kernel_pool s' = kernel_pool s"
    and "\<And>j. j < bm_bits_count (pool_bitmap (kernel_pool s)) \<Longrightarrow>
      bit_set (kmem s') (pool_bitmap (kernel_pool s)) j = bit_set (kmem s) (pool_bitmap (kernel_pool s)) j"
  shows "table_source s'"
  using assms unfolding table_source_def by auto

text \<open>A frame of the user pool, and perhaps one of the kernel pool for a table.\<close>

lemma bind_user_frame:
  fixes s :: "'a memory_scheme"
  assumes space: "space_ok (phys s) (cr3 s)" and src: "table_source s" and p_ok: "pool_ok (user_pool s)" and some: "user_free s \<noteq> {}"
    and apart: "bitmaps_apart (pool_bitmap (user_pool s)) (pool_bitmap (kernel_pool s))"
    and v: "PDE_IDX v \<noteq> 1023" "mmu (phys s) (cr3 s) v = None"
  obtains k s1 m' km' where "paddr_get_page USER_POOL s = Inr (pool_page (user_pool s) k, s1)"
    and "bind_vaddr_paddr_page v (pool_page (user_pool s) k) s1 = Inr (s\<lparr>phys := m', kmem := km'\<rparr>)"
    and "k \<in> user_free s" and "maps_only (cr3 s) v (pool_page (user_pool s) k) (phys s) m'"
    and "bit_set km' (pool_bitmap (user_pool s)) k"
    and "\<And>b j. bitmaps_apart (pool_bitmap (user_pool s)) b \<Longrightarrow> bitmaps_apart (pool_bitmap (kernel_pool s)) b \<Longrightarrow> j < bm_bits_count b \<Longrightarrow>
      bit_set km' b j = bit_set (kmem s) b j"
proof -
  let ?p = "user_pool s" and ?bm = "pool_bitmap (user_pool s)" and ?kb = "pool_bitmap (kernel_pool s)"
  obtain i where i: "i < bm_bits_count ?bm" "\<not> bit_set (kmem s) ?bm i" using some by (auto simp: user_free_def)
  have N: "bm_bits_count ?bm < 2 ^ 20" using pool_ok_count [OF p_ok] .
  have KN: "bm_bits_count ?kb < 2 ^ 20" using src pool_ok_count by (simp add: table_source_def)
  have pool: "pool_of USER_POOL s = ?p" by (simp add: pool_of_def)
  obtain k where k: "paddr_get_page USER_POOL s = Inr (pool_page ?p k, s\<lparr>kmem := bitmap_set_bit (kmem s) ?bm (of_nat k) 1\<rparr>)"
    "k < bm_bits_count ?bm" "\<not> bit_set (kmem s) ?bm k"
    using paddr_get_page_free [of USER_POOL s i] p_ok i unfolding pool by blast
  define k1 where "k1 = bitmap_set_bit (kmem s) ?bm (of_nat k) 1"
  define s1 where "s1 = s\<lparr>kmem := k1\<rparr>"
  have keep1: "bit_set k1 b j = bit_set (kmem s) b j" if "bitmaps_apart ?bm b" "j < bm_bits_count b" for b j
    unfolding k1_def using that k(2) N by (intro set_nat_bit_apart) simp_all
  have same1: "phys s1 = phys s" "cr3 s1 = cr3 s" "kernel_pool s1 = kernel_pool s" "kmem s1 = k1" by (simp_all add: s1_def)
  have src1: "table_source s1" by (rule table_source_bits [OF src same1(1-3)]) (simp add: same1 keep1 [OF apart])
  obtain m' km' where B: "bind_vaddr_paddr_page v (pool_page ?p k) s1 = Inr (s1\<lparr>phys := m', kmem := km'\<rparr>)"
    "maps_only (cr3 s) v (pool_page ?p k) (phys s) m'"
    "km' = k1 \<or> (\<exists>t < bm_bits_count ?kb. \<not> bit_set k1 ?kb t \<and> km' = bitmap_set_bit k1 ?kb (of_nat t) 1)"
    by (rule bind_ok [of s1 v "pool_page ?p k", unfolded same1, OF space v src1]) blast
  have keep2: "bit_set km' b j = bit_set k1 b j" if b: "bitmaps_apart ?kb b" and j: "j < bm_bits_count b" for b j
    using B(3)
  proof (elim disjE exE conjE)
    fix t assume t: "t < bm_bits_count ?kb" "km' = bitmap_set_bit k1 ?kb (of_nat t) 1"
    then show ?thesis using b j KN by (simp add: set_nat_bit_apart)
  qed simp
  have "bit_set k1 ?bm k" unfolding k1_def using bit_set_after_set [of k k "kmem s" ?bm 1] k(2) N by simp
  then have "bit_set km' ?bm k" using keep2 [OF bitmaps_apart_sym [OF apart] k(2)] by simp
  moreover have "s1\<lparr>phys := m', kmem := km'\<rparr> = s\<lparr>phys := m', kmem := km'\<rparr>" by (simp add: s1_def)
  moreover have "k \<in> user_free s" using k(2,3) by (simp add: user_free_def)
  ultimately show thesis
    using that [of k s1 km' m'] k(1) B(1,2) keep1 keep2 by (simp add: s1_def k1_def)
qed

text \<open>What the call leaves.\<close>

definition page_given :: "'a memory_scheme \<Rightarrow> u32 \<Rightarrow> nat \<Rightarrow> mem \<Rightarrow> mem \<Rightarrow> bool" where
  "page_given s v k m' km' \<longleftrightarrow> k \<in> user_free s \<and>
     maps_only (cr3 s) v (pool_page (user_pool s) k) (phys s) m' \<and>
     bit_set km' (own_bitmap s) (unat (user_index s v)) \<and> bit_set km' (pool_bitmap (user_pool s)) k"

lemma get_a_page_user:
  fixes s :: "'a memory_scheme"
  assumes ready: "user_ready s"
    and idx: "sint (user_index s v) > 0" "unat (user_index s v) < bm_bits_count (own_bitmap s)"
    and v: "PDE_IDX v \<noteq> 1023" "mmu (phys s) (cr3 s) v = None"
  obtains m' km' k where "get_a_page USER_POOL v s = Inr (v, s\<lparr>phys := m', kmem := km'\<rparr>)" and "page_given s v k m' km'"
proof -
  let ?l = "plock (user_pool s)" and ?p = "user_pool s" and ?bm = "pool_bitmap (user_pool s)"
  let ?kb = "pool_bitmap (kernel_pool s)" and ?ub = "own_bitmap s" and ?i = "user_index s v"
  have R: "pgdir (tasks s (running_thread s)) \<noteq> NULL" "lock_available ?l s" "space_ok (phys s) (cr3 s)" "table_source s"
    "pool_ok ?p" "phy_addr_start ?p \<noteq> 0" "user_free s \<noteq> {}" "bitmaps_apart ?ub ?bm" "bitmaps_apart ?ub ?kb" "bitmaps_apart ?bm ?kb"
    using ready by (simp_all add: user_ready_def)
  define s1 where "s1 = lock_taken ?l s"
  define k1 where "k1 = bitmap_set_bit (kmem s) ?ub ?i 1"
  define s2 where "s2 = s1\<lparr>kmem := k1\<rparr>"
  have acq: "call_lock ''lock_acquire'' (lock_acquire ?l) s = Inr s1" unfolding s1_def using R(2) by (rule call_acquire)
  have run1: "running_thread s1 = running_thread s" "tasks s1 = tasks s" by (simp_all add: s1_def)
  have set: "set_vaddr_bit (userprog_vaddr (tasks s (running_thread s))) v s1 = Inr s2"
    using idx(1) by (simp add: set_vaddr_bit_def Let_def user_index_def own_bitmap_def s2_def s1_def k1_def)
  have keep1: "bit_set k1 b j = bit_set (kmem s) b j" if "bitmaps_apart ?ub b" "j < bm_bits_count b" for b j
    unfolding k1_def using that(1) idx(2) that(2) by (rule set_bit_apart)
  have same2: "phys s2 = phys s" "cr3 s2 = cr3 s" "kernel_pool s2 = kernel_pool s" "user_pool s2 = ?p" "kmem s2 = k1"
    by (simp_all add: s2_def s1_def)
  have src: "table_source s2" by (rule table_source_bits [OF R(4) same2(1-3)]) (simp add: same2 keep1 [OF R(9)])
  have free2: "user_free s2 = user_free s" using keep1 [OF R(8)] by (auto simp: user_free_def same2)
  obtain k s3 m' km' where B: "paddr_get_page USER_POOL s2 = Inr (pool_page ?p k, s3)"
    "bind_vaddr_paddr_page v (pool_page ?p k) s3 = Inr (s2\<lparr>phys := m', kmem := km'\<rparr>)"
    "k \<in> user_free s" "maps_only (cr3 s) v (pool_page ?p k) (phys s) m'" "bit_set km' ?bm k"
    "\<And>b j. bitmaps_apart ?bm b \<Longrightarrow> bitmaps_apart ?kb b \<Longrightarrow> j < bm_bits_count b \<Longrightarrow> bit_set km' b j = bit_set k1 b j"
    by (rule bind_user_frame [of s2 v, unfolded same2 free2, OF R(3) src R(5,7,10) v]) blast
  have s4: "s2\<lparr>phys := m', kmem := km'\<rparr> = s1\<lparr>phys := m', kmem := km'\<rparr>" by (simp add: s2_def)
  have rel: "call_lock ''lock_release'' (lock_release ?l) (s1\<lparr>phys := m', kmem := km'\<rparr>) = Inr (s\<lparr>phys := m', kmem := km'\<rparr>)"
    unfolding lock_around [OF R(2), folded s1_def, symmetric] using R(2)
    by (intro call_release) (simp_all add: s1_def lock_taken_def lock_available_def list_empty_def running_thread_def
        set_value_def set_repeat_def set_holder_def)
  have page: "pool_page ?p k \<noteq> NULL" using R(5,6) B(3) by (intro pool_page_not_null) (simp_all add: user_free_def)
  have pools: "plock (pool_of USER_POOL s) = ?l" "plock (pool_of USER_POOL (s1\<lparr>phys := m', kmem := km'\<rparr>)) = ?l"
    by (simp_all add: pool_of_def s1_def)
  have run: "get_a_page USER_POOL v s = Inr (v, s\<lparr>phys := m', kmem := km'\<rparr>)"
    using R(1) by (simp add: get_a_page_def pools(1) acq Let_def run1 set B(1) page B(2) s4 pools(2) rel)
  have "bit_set k1 ?ub (unat ?i)"
    unfolding k1_def using bit_set_after_set [of "unat ?i" "unat ?i" "kmem s" ?ub 1] unat_bound32 [of ?i] by simp
  then have "bit_set km' ?ub (unat ?i)" using B(6) [OF bitmaps_apart_sym [OF R(8)] bitmaps_apart_sym [OF R(9)] idx(2)] by simp
  then show thesis using that [OF run] B(3-5) by (simp add: page_given_def)
qed

end
