(* ===== verification/Startup.thy ===== *)
theory Startup
  imports Boot Spawn UserPage
begin

text \<open>
  The start of the kernel: from the memory that the loader leaves and the addresses that the linker
  chooses, \<open>kernel_init\<close> establishes the invariants that the other theories keep, and \<open>main\<close> adds the
  first process.
\<close>

section \<open>Before the kernel runs\<close>

text \<open>The links that the initialisation writes: both ends of six lists, and the tags of the main thread.\<close>

definition lock_lists :: "'a kernel_scheme \<Rightarrow> u32 list" where
  "lock_lists s = map (\<lambda>l. waiters (semaphore_of l)) [plock (user_pool s), plock (kernel_pool s), console_lock s, kbd_buf s]"

definition link_nodes :: "'a kernel_scheme \<Rightarrow> u32 list" where
  "link_nodes s = concat (map (\<lambda>l. [head_of l, tail_of l]) (thread_ready_list s # thread_all_list s # lock_lists s)) @
     [general_tag (running_thread s), all_list_tag (running_thread s)]"

text \<open>
  The machine has \<open>mem\<close> bytes, the loader left the table of descriptors at \<open>gdt\<close>, the data of the kernel
  is in the first megabyte, as \<open>0xc0000000\<close> and above, and no two objects overlap.
\<close>

definition powered :: "u32 \<Rightarrow> u32 \<Rightarrow> 'a kernel_scheme \<Rightarrow> bool" where
  "powered mem gdt s \<longleftrightarrow>
     loader_memory (phys s) \<and> cr3 s = 0x100000 \<and>
     load32 (phys s) 0xd00 = mem \<and> mem_size_ok mem \<and> 64 \<le> total_pages mem \<and>
     load32 (phys s) 0xd04 = gdt \<and> unat gdt + 56 \<le> 0x100000 \<and> unat gdt mod 4096 + 56 \<le> 4096 \<and>
     frames s (running_thread s) = [] \<and> running_thread s \<noteq> NULL \<and> unat (running_thread s) < 0xc0100000 \<and>
     distinct [plock (user_pool s), plock (kernel_pool s), console_lock s, kbd_buf s] \<and>
     distinct (link_nodes s) \<and> (\<forall>a \<in> set (link_nodes s). unat a < 0xc0100000)"

section \<open>What the steps leave alone\<close>

definition settled :: "'a kernel_scheme \<Rightarrow> 'a kernel_scheme \<Rightarrow> bool" where
  "settled s s' \<longleftrightarrow>
     (cr3 s' = cr3 s \<and> esp s' = esp s \<and> frames s' = frames s \<and> eflags s' = eflags s) \<and>
     (thread_ready_list s' = thread_ready_list s \<and> thread_all_list s' = thread_all_list s) \<and>
     (console_lock s' = console_lock s \<and> kbd_buf s' = kbd_buf s) \<and>
     (plock (kernel_pool s') = plock (kernel_pool s) \<and> plock (user_pool s') = plock (user_pool s)) \<and>
     (u_prog_a_addr s' = u_prog_a_addr s \<and> start_process_addr s' = start_process_addr s)"

lemma settled_trans: "settled s s' \<Longrightarrow> settled s' s'' \<Longrightarrow> settled s s''"
  by (simp add: settled_def)

text \<open>After the pools exist: memory, the pools and the locks.\<close>

definition heap_same :: "'a kernel_scheme \<Rightarrow> 'a kernel_scheme \<Rightarrow> bool" where
  "heap_same s s' \<longleftrightarrow> phys s' = phys s \<and> cr3 s' = cr3 s \<and> kmem s' = kmem s \<and> kernel_pool s' = kernel_pool s \<and>
     user_pool s' = user_pool s \<and> kernel_vaddr s' = kernel_vaddr s"

lemma heap_same_trans: "heap_same s s' \<Longrightarrow> heap_same s' s'' \<Longrightarrow> heap_same s s''"
  by (simp add: heap_same_def)

text \<open>A lock that is free, whoever may run.\<close>

definition lock_free :: "u32 \<Rightarrow> 'a sync_scheme \<Rightarrow> bool" where
  "lock_free l s \<longleftrightarrow> holder s l = NULL \<and> holder_repeat_nr s l = 0 \<and> sem_value s (semaphore_of l) = 1 \<and>
     is_list s (waiters (semaphore_of l)) []"

definition locks_same :: "u32 \<Rightarrow> 'a sync_scheme \<Rightarrow> 'a sync_scheme \<Rightarrow> bool" where
  "locks_same l s s' \<longleftrightarrow> holder s' l = holder s l \<and> holder_repeat_nr s' l = holder_repeat_nr s l \<and>
     sem_value s' (semaphore_of l) = sem_value s (semaphore_of l) \<and>
     same_links {head_of (waiters (semaphore_of l)), tail_of (waiters (semaphore_of l))} s s'"

lemma lock_free_same: "lock_free l s \<Longrightarrow> locks_same l s s' \<Longrightarrow> lock_free l s'"
  using is_list_same_links [of s "waiters (semaphore_of l)" "[]" s'] by (simp add: lock_free_def locks_same_def list_nodes_def)

lemma lock_free_available:
  "lock_free l s \<Longrightarrow> frames s (running_thread s) = [] \<Longrightarrow> running_thread s \<noteq> NULL \<Longrightarrow> lock_available l s"
  using list_empty_iff [of s "waiters (semaphore_of l)" "[]"] by (simp add: lock_free_def lock_available_def)

lemma list_init_links: "A \<inter> {head_of l, tail_of l} = {} \<Longrightarrow> same_links A s (list_init l s)"
  by (auto simp: same_links_def list_init_def)

lemma lock_init_free: "lock_free l (lock_init l s)"
  by (simp add: lock_free_def lock_init_def sema_init_def set_value_def set_repeat_def set_holder_def list_init_def
      set_next_def set_prev_def is_list_def)

lemma lock_init_same:
  assumes "k \<noteq> l" and "{head_of (waiters (semaphore_of k)), tail_of (waiters (semaphore_of k))} \<inter>
    {head_of (waiters (semaphore_of l)), tail_of (waiters (semaphore_of l))} = {}"
  shows "locks_same k s (lock_init l s)"
  using assms by (auto simp: locks_same_def lock_init_def sema_init_def set_value_def set_repeat_def set_holder_def list_init_def
      set_next_def set_prev_def same_links_def)

lemma lock_init_links:
  assumes "A \<inter> {head_of (waiters (semaphore_of l)), tail_of (waiters (semaphore_of l))} = {}"
  shows "same_links A s (lock_init l s)"
  using assms by (auto simp: lock_init_def sema_init_def set_value_def set_repeat_def set_holder_def list_init_def
      set_next_def set_prev_def same_links_def)

lemma lock_init_fields:
  fixes s :: "'a kernel_scheme"
  shows "settled s (lock_init l s)" "heap_same s (lock_init l s)" "tasks (lock_init l s) = tasks s"
    "main_thread (lock_init l s) = main_thread s" "c_interrupt_entry_table (lock_init l s) = c_interrupt_entry_table s"
  by (simp_all add: settled_def heap_same_def lock_init_def sema_init_def set_value_def set_repeat_def set_holder_def list_init_def
      set_next_def set_prev_def)

section \<open>The steps\<close>

lemma interrupt_step:
  fixes s :: "'a kernel_scheme"
  shows "settled s (interrupt_init s)" "heap_same s (interrupt_init s)"
    "length (c_interrupt_entry_table (interrupt_init s)) = interrupt_num"
  by (simp_all add: settled_def heap_same_def interrupt_init_def idt_init_def pic_init_def outb_def lidt_def kprintf_def Let_def)

lemma kprintf_step:
  fixes s :: "'a kernel_scheme"
  shows "settled s (kprintf f a s)" "heap_same s (kprintf f a s)" "tasks (kprintf f a s) = tasks s"
    "main_thread (kprintf f a s) = main_thread s" "c_interrupt_entry_table (kprintf f a s) = c_interrupt_entry_table s"
    "lock_free l (kprintf f a s) = lock_free l s" "locks_same l s (kprintf f a s)" "same_links A s (kprintf f a s)"
    "is_list (kprintf f a s) q xs = is_list s q xs" "ioqs (kprintf f a s) = ioqs s"
proof -
  have links: "is_list (kprintf f a s) q xs = is_list s q xs" for q xs by (rule is_list_cong) (simp_all add: kprintf_def)
  then show "is_list (kprintf f a s) q xs = is_list s q xs" by simp
  show "lock_free l (kprintf f a s) = lock_free l s" unfolding lock_free_def links by (simp add: kprintf_def)
qed (simp_all add: settled_def heap_same_def kprintf_def locks_same_def same_links_def)

text \<open>The heap on a machine where nothing has been allocated.\<close>

lemma memory_geometry:
  fixes s :: "'a memory_scheme"
  assumes size: "mem_size_ok mem"
  defines "s' \<equiv> mem_pool_init mem s" and "n \<equiv> total_pages mem div 2 div 8"
  shows "addr_start (kernel_vaddr s') = 0xc0100000" "bm_bits_count (addr_bitmap (kernel_vaddr s')) = 8 * n"
    and "bitmaps_apart (pool_bitmap (kernel_pool s')) (addr_bitmap (kernel_vaddr s'))"
    and "bitmaps_apart (addr_bitmap (kernel_vaddr s')) (pool_bitmap (kernel_pool s'))"
    and "b \<in> {pool_bitmap (kernel_pool s'), addr_bitmap (kernel_vaddr s')} \<Longrightarrow> a \<in> region (bm_bits b) (unat (bm_length b)) \<Longrightarrow> unat a < 0xc0100000"
    and "n < 2 ^ 12"
proof -
  define K U where "K = (ucast (kernel_free_pages mem) :: u32)" and "U = (ucast (user_free_pages mem) :: u32)"
  define u where "u = (total_pages mem - total_pages mem div 2) div 8"
  note fields = mem_pool_init_fields [of mem s, folded s'_def K_def U_def]
  have F: "total_pages mem < 2 ^ 16" using page_counts [OF size] by simp
  then show n: "n < 2 ^ 12" by (simp add: n_def)
  have u': "u < 2 ^ 13" using F by (simp add: u_def)
  have K8: "K div 8 = of_nat n"
    by (rule word32_eqI) (use F page_counts [OF size] in \<open>simp add: n_def K_def unat_div32 unat_of_nat32\<close>)
  have U8: "U div 8 = of_nat u"
    by (rule word32_eqI) (use F page_counts [OF size] in \<open>simp add: u_def U_def unat_div32 unat_of_nat32\<close>)
  have len: "unat (of_nat n :: u32) = n" "unat (of_nat u :: u32) = u" using n u' by (simp_all add: unat_of_nat32)
  show "addr_start (kernel_vaddr s') = 0xc0100000" by (simp add: fields K_HEAP_START_def)
  show "bm_bits_count (addr_bitmap (kernel_vaddr s')) = 8 * n" by (simp add: fields bm_bits_count_def K8 len)
  have "region (MEM_BITMAP_BASE + of_nat 0) n \<inter> region (MEM_BITMAP_BASE + of_nat (n + u)) n = {}"
    by (rule region_apart) (use n u' in simp_all)
  then show "bitmaps_apart (pool_bitmap (kernel_pool s')) (addr_bitmap (kernel_vaddr s'))"
    "bitmaps_apart (addr_bitmap (kernel_vaddr s')) (pool_bitmap (kernel_pool s'))"
    by (auto simp: bitmaps_apart_def fields K8 U8 len add.assoc)
  have below: "unat a < 0xc0100000" if mem: "a \<in> region (MEM_BITMAP_BASE + of_nat k) n" and "k \<le> n + u" for a k
  proof -
    obtain j where "j < n" "a = MEM_BITMAP_BASE + of_nat k + of_nat j" using mem by (auto simp: region_def)
    then have j: "j < n" "a = MEM_BITMAP_BASE + of_nat (k + j)" by (simp_all add: add.assoc)
    have kj: "k + j < 2 ^ 14" using j(1) \<open>k \<le> n + u\<close> n u' by simp
    then have "unat (of_nat (k + j) :: u32) = k + j" by (intro unat_of_nat32) simp
    then show ?thesis unfolding j(2) using kj by (subst unat_add32) (simp_all add: MEM_BITMAP_BASE_def)
  qed
  show "unat a < 0xc0100000" if "b \<in> {pool_bitmap (kernel_pool s'), addr_bitmap (kernel_vaddr s')}" "a \<in> region (bm_bits b) (unat (bm_length b))"
    using that below [of a 0] below [of a "n + u"] by (auto simp: fields K8 U8 len add.assoc)
qed

text \<open>\<open>memory_init\<close>: the heap is ready and empty, the locks of the pools are free.\<close>

lemma in_use_low:
  assumes "heap_ready s" and "addr_start (kernel_vaddr s) = 0xc0100000" and "unat a < 0xc0100000"
  shows "in_use s a"
  unfolding in_use_def
proof (intro allI impI notI)
  fix h assume h: "h < bm_bits_count (addr_bitmap (kernel_vaddr s))" "page_frame a = heap_page s h"
  have "unat (page_frame a) \<le> unat a" by (simp add: page_frame_def unat_frame)
  then show False using unat_heap_page [OF assms(1) h(1)] assms(2,3) h(2) by simp
qed

lemma fresh_heap_ready:
  fixes s :: "'a memory_scheme"
  assumes size: "mem_size_ok mem" and m: "loader_memory (phys s)" and cr: "cr3 s = 0x100000"
  shows "heap_ready (mem_pool_init mem s)"
    and "card (free_pages (mem_pool_init mem s)) = 8 * (total_pages mem div 2 div 8)"
    and "run_clear (kmem (mem_pool_init mem s)) (addr_bitmap (kernel_vaddr (mem_pool_init mem s))) 0 (8 * (total_pages mem div 2 div 8))"
proof -
  let ?s = "mem_pool_init mem s" and ?n = "total_pages mem div 2 div 8"
  note G = memory_geometry(1-5) [OF size, where s = s] memory_geometry(6) [OF size] and P = mem_pool_init_pools [OF size, where s = s] and L = loader_space [OF m]
  have same: "phys ?s = phys s" "cr3 ?s = 0x100000" by (simp_all add: mem_pool_init_def Let_def kprintf_def cr)
  have free: "free_pages ?s = {..< 8 * ?n}" using P(3,7) by (auto simp: free_pages_def)
  then show "card (free_pages ?s) = 8 * ?n" by simp
  show "run_clear (kmem ?s) (addr_bitmap (kernel_vaddr ?s)) 0 (8 * ?n)" using P(9) G(2) by (simp add: run_clear_def)
  have page: "spare_frame (phys s) 0x100000 (pool_page (kernel_pool ?s) i)" if "i < 8 * ?n" for i
  proof (rule L(3))
    have i: "i < bm_bits_count (pool_bitmap (kernel_pool ?s))" using that P(3) by simp
    show "page_frame (pool_page (kernel_pool ?s) i) = pool_page (kernel_pool ?s) i" using P(5) i by (rule pool_page_aligned)
    show "unat (pool_page (kernel_pool ?s) i) < 0x100000 \<or> 0x200000 \<le> unat (pool_page (kernel_pool ?s) i)"
      using unat_pool_page [OF P(5) i] P(1) by simp
  qed
  have "phy_addr_start (kernel_pool ?s) \<noteq> 0" using P(1) by auto
  then have pool: "pool_ready ?s" using L(2) P(5) G(3) page unfolding pool_ready_def same free by blast
  have hp: "unat (heap_page ?s h) = 0xc0100000 + 4096 * h" if "h < 8 * ?n" for h
  proof -
    have h: "h < 2 ^ 15" using that G(6) by simp
    then have "unat (of_nat h :: u32) = h" by (intro unat_of_nat32) simp
    then have "unat (of_nat h * PG_SIZE :: u32) = h * 4096" using h by (subst unat_mult32) (simp_all add: PG_SIZE_def)
    then show ?thesis using h by (simp add: heap_page_def page_nr_def G(1)) (subst unat_add32, simp_all)
  qed
  have "mmu (phys s) 0x100000 (heap_page ?s h) = None" if "h < 8 * ?n" for h
    using hp [OF that] that G(6) by (intro loader_mmu(2) [OF m]) simp_all
  then show "heap_ready ?s"
    unfolding heap_ready_def same G(1,2) using pool G(4,6) by simp
qed

definition lock_nodes :: "u32 \<Rightarrow> u32 set" where
  "lock_nodes l = {head_of (waiters (semaphore_of l)), tail_of (waiters (semaphore_of l))}"

lemma locks_same_links:
  "holder s' = holder s \<Longrightarrow> holder_repeat_nr s' = holder_repeat_nr s \<Longrightarrow> sem_value s' = sem_value s \<Longrightarrow>
   same_links (lock_nodes l) s s' \<Longrightarrow> locks_same l s s'"
  by (simp add: locks_same_def lock_nodes_def)

lemma memory_step:
  fixes s :: "'a kernel_scheme"
  assumes m: "loader_memory (phys s)" "cr3 s = 0x100000" "load32 (phys s) 0xd00 = mem" "mem_size_ok mem"
    and locks: "plock (user_pool s) \<noteq> plock (kernel_pool s)" "lock_nodes (plock (user_pool s)) \<inter> lock_nodes (plock (kernel_pool s)) = {}"
  obtains s' where "memory_init s = Inr s'" and "settled s s'" and "phys s' = phys s"
    and "heap_same (mem_pool_init mem s) s'" and "c_interrupt_entry_table s' = c_interrupt_entry_table s"
    and "lock_free (plock (kernel_pool s)) s'" "lock_free (plock (user_pool s)) s'"
proof -
  have id: "mmu (phys s) 0x100000 0xd00 = Some 0xd00" by (rule loader_mmu(1) [OF m(1)]) simp
  have load: "vload32 s 0xd00 = Inr mem" by (simp add: vload32_def translate_def m(2,3) id)
  let ?u = "plock (user_pool s)" and ?k = "plock (kernel_pool s)"
  define s1 where "s1 = mem_pool_init mem s"
  define s2 where "s2 = lock_init ?u s1"
  define s3 where "s3 = lock_init ?k s2"
  define s' where "s' = kprintf ''memory_init done\<newline>'' [] s3"
  have s1: "settled s s1" "phys s1 = phys s" "c_interrupt_entry_table s1 = c_interrupt_entry_table s"
    by (simp_all add: s1_def mem_pool_init_def Let_def kprintf_def settled_def)
  have pl: "plock (user_pool s1) = ?u" "plock (kernel_pool s2) = ?k"
    using s1(1) lock_init_fields(1) [of s1 ?u] by (simp_all add: settled_def s2_def)
  have run: "memory_init s = Inr s'"
    unfolding memory_init_def load rbind_simps Let_def s1_def [symmetric] pl(1) s2_def [symmetric] pl(2) s3_def [symmetric] s'_def ..
  have same: "heap_same s1 s'"
    unfolding s'_def s3_def s2_def by (rule heap_same_trans [OF lock_init_fields(2) heap_same_trans [OF lock_init_fields(2) kprintf_step(2)]])
  have settled: "settled s s'"
    unfolding s'_def s3_def s2_def
    by (rule settled_trans [OF s1(1) settled_trans [OF lock_init_fields(1) settled_trans [OF lock_init_fields(1) kprintf_step(1)]]])
  have k: "lock_free ?k s'" using lock_init_free [of ?k s2] by (simp add: s'_def s3_def kprintf_step)
  have "locks_same ?u s2 s3" unfolding s3_def by (rule lock_init_same) (use locks in \<open>simp_all add: lock_nodes_def\<close>)
  then have "lock_free ?u s3" by (rule lock_free_same [OF lock_init_free [of ?u s1, folded s2_def]])
  then have u: "lock_free ?u s'" by (simp add: s'_def kprintf_step)
  have "c_interrupt_entry_table s' = c_interrupt_entry_table s"
    by (simp add: s'_def s3_def s2_def kprintf_step lock_init_fields s1(3))
  moreover have "phys s' = phys s" using same s1(2) by (simp add: heap_same_def)
  ultimately show thesis using that run settled same k u by (simp add: s1_def)
qed

text \<open>\<open>thread_init\<close>: the code that runs becomes the main thread.\<close>

definition main_task :: "u32 \<Rightarrow> task_struct" where
  "main_task p = zero_task\<lparr>tname := [0x6d, 0x61, 0x69, 0x6e] @ replicate 12 0, status := TASK_RUNNING,
     self_kstack := p + PG_SIZE, priority := 31, ticks := 31, pgdir := NULL, stack_magic := 0x19870916\<rparr>"

lemma init_main_run:
  "p = main_thread s \<Longrightarrow> init_thread p [0x6d, 0x61, 0x69, 0x6e] 31 s = Inr (s\<lparr>tasks := (tasks s)(p := main_task p),
    lprev := (lprev s)(all_list_tag p := 0, general_tag p := 0), lnext := (lnext s)(all_list_tag p := 0, general_tag p := 0)\<rparr>)"
  by (simp add: init_thread_def main_task_def memset_task_def upd_task_def set_next_def set_prev_def Let_def)

lemma thread_step:
  fixes s :: "'a kernel_scheme"
  defines "r \<equiv> thread_ready_list s" and "a \<equiv> thread_all_list s" and "p \<equiv> running_thread s"
  assumes apart: "{head_of r, tail_of r} \<inter> {head_of a, tail_of a} = {}"
    and tags: "{general_tag p, all_list_tag p} \<inter> {head_of r, tail_of r, head_of a, tail_of a} = {}"
  obtains s' where "thread_init s = Inr s'" and "settled s s'" and "heap_same s s'"
    and "c_interrupt_entry_table s' = c_interrupt_entry_table s" and "tasks s' = (tasks s)(p := main_task p)" and "main_thread s' = p"
    and "is_list s' r []" and "is_list s' a [all_list_tag p]"
    and "\<And>l. lock_nodes l \<inter> {head_of r, tail_of r, head_of a, tail_of a, general_tag p, all_list_tag p} = {} \<Longrightarrow> locks_same l s s'"
proof -
  define s1 where "s1 = list_init a (list_init r s)"
  define s2 where "s2 = s1\<lparr>main_thread := p\<rparr>"
  define s3 where "s3 = s2\<lparr>tasks := (tasks s2)(p := main_task p),
    lprev := (lprev s2)(all_list_tag p := 0, general_tag p := 0), lnext := (lnext s2)(all_list_tag p := 0, general_tag p := 0)\<rparr>"
  define s4 where "s4 = list_append a (all_list_tag p) s3"
  define s' where "s' = kprintf ''thread_init is done.\<newline>'' [] s4"
  have f1: "running_thread s1 = p" "thread_ready_list s1 = r" "thread_all_list s1 = a"
    by (simp_all add: s1_def r_def a_def p_def running_thread_def list_init_def set_next_def set_prev_def)
  have links3: "\<And>x. x \<noteq> general_tag p \<Longrightarrow> x \<noteq> all_list_tag p \<Longrightarrow> lnext s3 x = lnext s1 x \<and> lprev s3 x = lprev s1 x"
    by (simp add: s3_def s2_def)
  have r3: "is_list s3 r []" and a3: "is_list s3 a []"
    using links3 tags apart by (simp_all add: is_list_def) (auto simp: s1_def list_init_def)
  have fr: "all_list_tag p \<notin> list_nodes a []" using tags by (auto simp: list_nodes_def)
  have init: "init_thread p [0x6d, 0x61, 0x69, 0x6e] 31 s2 = Inr s3" unfolding s3_def by (rule init_main_run) (simp add: s2_def)
  have f3: "thread_all_list s3 = a" "main_thread s3 = p" by (simp_all add: s3_def s2_def f1)
  have "make_main_thread s1 = Inr s4"
    unfolding make_main_thread_def f1 Let_def s2_def [symmetric] using init fr
    by (simp add: s4_def f3 assert_not_in_def elem_find_is_list [OF a3] s2_def [THEN arg_cong, of main_thread])
  then have run: "thread_init s = Inr s'" by (simp add: thread_init_def s1_def s'_def r_def a_def)
  have a4: "is_list s4 a [all_list_tag p]" unfolding s4_def using append_is_list [OF a3 fr] by simp
  have "list_nodes r [] \<inter> insert (all_list_tag p) (list_nodes a []) = {}" using apart tags by (auto simp: list_nodes_def)
  then have r4: "is_list s4 r []" unfolding s4_def using lq.enq_other [OF a3 r3] by blast
  obtain n q where s4: "s4 = s3\<lparr>lnext := n, lprev := q\<rparr>" unfolding s4_def list_append_def list_insert_before_eq by blast
  have keep: "locks_same l s s'"
    if l: "lock_nodes l \<inter> {head_of r, tail_of r, head_of a, tail_of a, general_tag p, all_list_tag p} = {}" for l
  proof (rule locks_same_links)
    have "same_links (lock_nodes l) s (list_init r s)" "same_links (lock_nodes l) (list_init r s) s1"
      unfolding s1_def by (rule list_init_links; use l in blast)+
    moreover have "same_links (lock_nodes l) s1 s3" using links3 l unfolding same_links_def by blast
    moreover have "lock_nodes l \<inter> insert (all_list_tag p) (list_nodes a []) = {}" using l by (auto simp: list_nodes_def)
    then have "same_links (lock_nodes l) s3 s4" unfolding s4_def by (rule append_frame [OF a3])
    moreover have "same_links (lock_nodes l) s4 s'" unfolding s'_def by (rule kprintf_step)
    ultimately show "same_links (lock_nodes l) s s'" using same_links_trans by blast
  qed (simp_all add: s'_def s4 s3_def s2_def s1_def list_init_def set_next_def set_prev_def)
  have fields: "settled s s4" "heap_same s s4" "c_interrupt_entry_table s4 = c_interrupt_entry_table s"
    "tasks s4 = (tasks s)(p := main_task p)" "main_thread s4 = p"
    by (simp_all add: settled_def heap_same_def s4 s3_def s2_def s1_def list_init_def set_next_def set_prev_def)
  show thesis
    by (rule that [OF run settled_trans [OF fields(1)] heap_same_trans [OF fields(2)] _ _ _ _ _ keep])
      (simp_all add: s'_def kprintf_step fields a4 r4)
qed

text \<open>The devices: they leave memory, the threads and the locks of others.\<close>

definition quiet :: "'a kernel_scheme \<Rightarrow> 'a kernel_scheme \<Rightarrow> bool" where
  "quiet s s' \<longleftrightarrow> settled s s' \<and> heap_same s s' \<and> tasks s' = tasks s \<and> main_thread s' = main_thread s"

lemma quiet_trans: "quiet s s' \<Longrightarrow> quiet s' s'' \<Longrightarrow> quiet s s''"
  using settled_trans [of s s' s''] heap_same_trans [of s s' s''] by (simp add: quiet_def)

lemma timer_step:
  fixes s :: "'a kernel_scheme"
  assumes "length (c_interrupt_entry_table s) = interrupt_num"
  obtains s' where "timer_init s = Inr s'" and "quiet s s'" and "c_interrupt_entry_table s' = (c_interrupt_entry_table s)[0x20 := Some ClockHandler]"
    and "\<And>l. locks_same l s s'" and "\<And>A. same_links A s s'"
proof -
  let ?s' = "kprintf ''timer_init is done\<newline>'' [] (pit_init (s\<lparr>c_interrupt_entry_table := (c_interrupt_entry_table s)[0x20 := Some ClockHandler]\<rparr>))"
  have "timer_init s = Inr ?s'" using assms by (simp add: timer_init_def register_handler_def interrupt_num_def)
  then show thesis
    by (rule that) (simp_all add: quiet_def settled_def heap_same_def kprintf_def pit_init_def outb_def locks_same_def same_links_def)
qed

lemma console_step:
  fixes s :: "'a kernel_scheme"
  shows "quiet s (console_init s)" and "c_interrupt_entry_table (console_init s) = c_interrupt_entry_table s"
    and "lock_free (console_lock s) (console_init s)"
    and "l \<noteq> console_lock s \<Longrightarrow> lock_nodes l \<inter> lock_nodes (console_lock s) = {} \<Longrightarrow> locks_same l s (console_init s)"
    and "A \<inter> lock_nodes (console_lock s) = {} \<Longrightarrow> same_links A s (console_init s)"
proof -
  note f = lock_init_fields [where s = s and l = "console_lock s"]
  show "quiet s (console_init s)"
    unfolding quiet_def console_init_def using settled_trans [OF f(1) kprintf_step(1)] heap_same_trans [OF f(2) kprintf_step(2)]
    by (simp add: kprintf_step f)
  show "locks_same l s (console_init s)" if "l \<noteq> console_lock s" "lock_nodes l \<inter> lock_nodes (console_lock s) = {}"
    using lock_init_same [of l "console_lock s" s] that
    by (simp add: lock_nodes_def console_init_def locks_same_def kprintf_def same_links_def)
  show "same_links A s (console_init s)" if "A \<inter> lock_nodes (console_lock s) = {}"
    using lock_init_links [of A "console_lock s" s] that unfolding lock_nodes_def
    by (simp add: console_init_def kprintf_def same_links_def)
qed (simp_all add: console_init_def kprintf_step lock_init_free lock_init_fields)

lemma keyboard_step:
  fixes s :: "'a kernel_scheme"
  assumes "length (c_interrupt_entry_table s) = interrupt_num"
  obtains s' where "keyboard_init s = Inr s'" and "quiet s s'"
    and "c_interrupt_entry_table s' = (c_interrupt_entry_table s)[0x21 := Some KeyboardHandler]" and "lock_free (kbd_buf s) s'"
    and "\<And>l. l \<noteq> kbd_buf s \<Longrightarrow> lock_nodes l \<inter> lock_nodes (kbd_buf s) = {} \<Longrightarrow> locks_same l s s'"
    and "\<And>A. A \<inter> lock_nodes (kbd_buf s) = {} \<Longrightarrow> same_links A s s'"
    and "head (ioqs s' (kbd_buf s)) = 0" "tail (ioqs s' (kbd_buf s)) = 0"
proof -
  define s1 where "s1 = ioq_init (kbd_buf s) s"
  define s' where "s' = kprintf ''keyboard_init id done.\<newline>'' [] (s1\<lparr>c_interrupt_entry_table := (c_interrupt_entry_table s1)[0x21 := Some KeyboardHandler]\<rparr>)"
  note f = lock_init_fields [where s = s and l = "kbd_buf s"]
  have tab: "c_interrupt_entry_table s1 = c_interrupt_entry_table s" using f(5) by (simp add: s1_def ioq_init_def upd_ioq_def)
  have "keyboard_init s = Inr s'" using assms tab by (simp add: keyboard_init_def register_handler_def s1_def [symmetric] s'_def interrupt_num_def)
  moreover have "quiet s s'"
    using f by (simp add: quiet_def s'_def s1_def settled_def heap_same_def ioq_init_def upd_ioq_def kprintf_def)
  moreover have "locks_same l s s'" if "l \<noteq> kbd_buf s" "lock_nodes l \<inter> lock_nodes (kbd_buf s) = {}" for l
    using lock_init_same [of l "kbd_buf s" s] that
    by (simp add: lock_nodes_def s'_def s1_def ioq_init_def upd_ioq_def locks_same_def kprintf_def same_links_def)
  moreover have "same_links A s s'" if "A \<inter> lock_nodes (kbd_buf s) = {}" for A
    using lock_init_links [of A "kbd_buf s" s] that unfolding lock_nodes_def
    by (simp add: s'_def s1_def ioq_init_def upd_ioq_def kprintf_def same_links_def)
  moreover have "lock_free (kbd_buf s) s'"
    by (rule lock_free_same [OF lock_init_free [of "kbd_buf s" s]])
      (simp add: s'_def s1_def ioq_init_def upd_ioq_def locks_same_def kprintf_def same_links_def)
  ultimately show thesis
    by (intro that) (simp_all add: s'_def tab kprintf_def, simp_all add: s1_def ioq_init_def upd_ioq_def)
qed

text \<open>\<open>tss_init\<close>: the table of descriptors is in the first megabyte, which is mapped where it is.\<close>

lemma tss_step:
  fixes s :: "'a kernel_scheme"
  assumes m: "loader_memory (phys s)" "cr3 s = 0x100000" "load32 (phys s) 0xd04 = gdt"
    and g: "unat gdt + 56 \<le> 0x100000" "unat gdt mod 4096 + 56 \<le> 4096"
  obtains s' f where "tss_init s = Inr s'" and "settled s s'" and "kmem s' = kmem s" "kernel_pool s' = kernel_pool s" "kernel_vaddr s' = kernel_vaddr s"
    and "user_pool s' = user_pool s" and "tasks s' = tasks s" "main_thread s' = main_thread s" and "c_interrupt_entry_table s' = c_interrupt_entry_table s"
    and "spare_frame (phys s) (cr3 s) f" and "same_but f (phys s) (phys s')" and "\<And>l. locks_same l s s'" and "\<And>A. same_links A s s'"
    and "gdtr_base s' = gdt" "gdtr_limit s' = 55" "ioqs s' = ioqs s"
proof -
  define v where "v = page_frame gdt"
  define i where "i = unat (gdt AND 0xfff)"
  have i: "i = unat gdt mod 4096" by (simp add: i_def unat_offset)
  have gd: "v + of_nat i = gdt" using frame_plus_offset [of gdt] by (simp add: v_def i_def page_frame_def)
  have vv: "page_frame v = v" "unat v + i = unat gdt" by (simp_all add: v_def page_frame_def unat_frame i)
  have low: "unat v < 0x100000" using vv(2) g(1) by simp
  have top: "unat v + 4096 \<le> 0x100000"
  proof -
    have "unat v = unat gdt div 4096 * 4096" by (simp add: v_def page_frame_def unat_frame)
    then show ?thesis using low by simp
  qed
  have at: "page_at s v v"
    unfolding page_at_def m(2)
  proof (intro conjI allI impI)
    show "spare_frame (phys s) 0x100000 v" using low vv(1) by (intro loader_space(3) [OF m(1)]) simp_all
    have "unat (PDE_IDX v) < 1023" using low by (simp add: unat_PDE_IDX div_less_iff_less_mult)
    then show "PDE_IDX v \<noteq> 1023" by auto
    fix j :: nat assume j: "j < 4096"
    then have "unat (v + of_nat j) = unat v + j" using top by (subst unat_add32) (simp_all add: unat_of_nat32)
    then show "mmu (phys s) 0x100000 (v + of_nat j) = Some (v + of_nat j)" using j top by (intro loader_mmu(1) [OF m(1)]) simp
  qed (rule vv(1))
  have "mmu (phys s) 0x100000 0xd04 = Some 0xd04" by (rule loader_mmu(1) [OF m(1)]) simp
  then have load: "vload32 s 0xd04 = Inr (v + of_nat i)" by (simp add: vload32_def translate_def m(2,3) gd)
  have ii: "i + 0x38 \<le> 4096" using g(2) by (simp add: i)
  let ?bs = "desc_bytes (tss_desc s) @ desc_bytes user_code_desc @ desc_bytes user_data_desc"
  let ?m = "store_bytes (phys s) (v + of_nat (i + 0x20)) ?bs"
  have run: "tss_init s = Inr (kprintf ''tss_init is done.\<newline>'' [] (with_tss (v + of_nat i) ?m s))" by (rule tss_init_run [OF load at ii])
  have same: "same_but v (phys s) ?m" using ii by (intro same_but_store vv) simp
  show thesis
    by (rule that [OF run, of v])
      (use at same in \<open>simp_all add: with_tss_def kprintf_def settled_def page_at_def locks_same_def same_links_def gd\<close>)
qed

section \<open>The kernel after its initialisation\<close>

text \<open>The disjointness facts behind \<open>link_nodes\<close>.\<close>

definition layout :: "'a kernel_scheme \<Rightarrow> bool" where
  "layout s \<longleftrightarrow>
     (let r = {head_of (thread_ready_list s), tail_of (thread_ready_list s)}; a = {head_of (thread_all_list s), tail_of (thread_all_list s)};
          p = {general_tag (running_thread s), all_list_tag (running_thread s)};
          ls = [plock (user_pool s), plock (kernel_pool s), console_lock s, kbd_buf s]
      in distinct ls \<and> r \<inter> a = {} \<and> p \<inter> (r \<union> a) = {} \<and> (\<forall>l \<in> set ls. lock_nodes l \<inter> (r \<union> a \<union> p) = {}) \<and>
        lock_nodes (plock (user_pool s)) \<inter> lock_nodes (plock (kernel_pool s)) = {} \<and>
        (\<forall>l \<in> {plock (user_pool s), plock (kernel_pool s)}. lock_nodes l \<inter> lock_nodes (console_lock s) = {}) \<and>
        (\<forall>l \<in> {plock (user_pool s), plock (kernel_pool s), console_lock s}. lock_nodes l \<inter> lock_nodes (kbd_buf s) = {}))"

lemma distinct_blocks:
  assumes "distinct (r @ a @ u @ k @ c @ b @ p)"
  shows "set r \<inter> set a = {}" "set p \<inter> (set r \<union> set a) = {}"
    and "x \<in> {set u, set k, set c, set b} \<Longrightarrow> x \<inter> (set r \<union> set a \<union> set p) = {}"
    and "set u \<inter> set k = {}" "set u \<inter> set c = {}" "set u \<inter> set b = {}" "set k \<inter> set c = {}" "set k \<inter> set b = {}" "set c \<inter> set b = {}"
  using assms by auto

lemma powered_layout:
  assumes "powered mem gdt s"
  shows "layout s"
proof -
  let ?q = "\<lambda>l. [head_of (waiters (semaphore_of l)), tail_of (waiters (semaphore_of l))]"
  have "distinct ([head_of (thread_ready_list s), tail_of (thread_ready_list s)] @ [head_of (thread_all_list s), tail_of (thread_all_list s)] @
      ?q (plock (user_pool s)) @ ?q (plock (kernel_pool s)) @ ?q (console_lock s) @ ?q (kbd_buf s) @
      [general_tag (running_thread s), all_list_tag (running_thread s)])"
    using assms by (simp only: powered_def link_nodes_def lock_lists_def concat.simps list.map append.simps)
  note B = distinct_blocks [OF this]
  have q: "lock_nodes l = set (?q l)" for l by (simp add: lock_nodes_def)
  have d: "distinct [plock (user_pool s), plock (kernel_pool s), console_lock s, kbd_buf s]" using assms by (simp only: powered_def)
  show ?thesis
    unfolding layout_def Let_def q
  proof (intro conjI ballI)
    fix l assume "l \<in> set [plock (user_pool s), plock (kernel_pool s), console_lock s, kbd_buf s]"
    then have "set (?q l) \<in> {set (?q (plock (user_pool s))), set (?q (plock (kernel_pool s))), set (?q (console_lock s)), set (?q (kbd_buf s))}"
      by auto
    from B(3) [OF this] show "set (?q l) \<inter> ({head_of (thread_ready_list s), tail_of (thread_ready_list s)} \<union>
        {head_of (thread_all_list s), tail_of (thread_all_list s)} \<union> {general_tag (running_thread s), all_list_tag (running_thread s)}) = {}"
      by simp
  next
    fix l assume "l \<in> {plock (user_pool s), plock (kernel_pool s)}"
    then show "set (?q l) \<inter> set (?q (console_lock s)) = {}" using B(5,7) by blast
  next
    fix l assume "l \<in> {plock (user_pool s), plock (kernel_pool s), console_lock s}"
    then show "set (?q l) \<inter> set (?q (kbd_buf s)) = {}" using B(6,8,9) by blast
  qed (use B(1,2,4) d in simp_all)
qed

lemma layoutD:
  assumes "layout s"
  shows "l \<in> {plock (user_pool s), plock (kernel_pool s), console_lock s, kbd_buf s} \<Longrightarrow> lock_nodes l \<inter>
      {head_of (thread_ready_list s), tail_of (thread_ready_list s), head_of (thread_all_list s), tail_of (thread_all_list s),
       general_tag (running_thread s), all_list_tag (running_thread s)} = {}"
    and "distinct [plock (user_pool s), plock (kernel_pool s), console_lock s, kbd_buf s]"
    and "l \<in> {plock (user_pool s), plock (kernel_pool s)} \<Longrightarrow> lock_nodes l \<inter> lock_nodes (console_lock s) = {}"
    and "l \<in> {plock (user_pool s), plock (kernel_pool s), console_lock s} \<Longrightarrow> lock_nodes l \<inter> lock_nodes (kbd_buf s) = {}"
  using assms unfolding layout_def Let_def by (fastforce, simp, blast, blast)

lemma settled_layout: "settled s s' \<Longrightarrow> layout s' = layout s"
  by (simp add: settled_def layout_def running_thread_def)

lemma powered_low:
  assumes "powered mem gdt s"
  shows "a \<in> {head_of (thread_ready_list s), tail_of (thread_ready_list s), head_of (thread_all_list s), tail_of (thread_all_list s),
      general_tag (running_thread s), all_list_tag (running_thread s), running_thread s, head_of (waiters (semaphore_of (plock (kernel_pool s))))} \<Longrightarrow>
    unat a < 0xc0100000"
  using assms unfolding powered_def link_nodes_def lock_lists_def by auto

text \<open>What \<open>kernel_init\<close> has established before \<open>tss_init\<close>.\<close>

definition devices_ready :: "u32 \<Rightarrow> 'a kernel_scheme \<Rightarrow> 'a kernel_scheme \<Rightarrow> bool" where
  "devices_ready mem s s' \<longleftrightarrow>
     settled s s' \<and> phys s' = phys s \<and> (\<exists>s1. loader_memory (phys s1) \<and> cr3 s1 = 0x100000 \<and> heap_same (mem_pool_init mem s1) s') \<and>
     tasks s' (running_thread s) = main_task (running_thread s) \<and> main_thread s' = running_thread s \<and>
     is_list s' (thread_ready_list s) [] \<and> is_list s' (thread_all_list s) [all_list_tag (running_thread s)] \<and>
     (\<forall>l \<in> {plock (kernel_pool s), plock (user_pool s), console_lock s, kbd_buf s}. lock_free l s') \<and>
     length (c_interrupt_entry_table s') = interrupt_num \<and> c_interrupt_entry_table s' ! 0x20 = Some ClockHandler \<and>
     c_interrupt_entry_table s' ! 0x21 = Some KeyboardHandler \<and> head (ioqs s' (kbd_buf s)) = 0 \<and> tail (ioqs s' (kbd_buf s)) = 0"

lemma devices_step:
  fixes s :: "'a kernel_scheme"
  assumes pw: "powered mem gdt s"
  obtains s2 s3 s4 s6 where "memory_init (interrupt_init (kprintf txt [] s)) = Inr s2" and "thread_init s2 = Inr s3" and "timer_init s3 = Inr s4"
    and "keyboard_init (console_init s4) = Inr s6" and "devices_ready mem s s6"
proof -
  define s1 where "s1 = interrupt_init (kprintf txt [] s)"
  let ?p = "running_thread s"
  have st1: "settled s s1" unfolding s1_def by (rule settled_trans [OF kprintf_step(1) interrupt_step(1)])
  have hs1: "heap_same s s1" unfolding s1_def by (rule heap_same_trans [OF kprintf_step(2) interrupt_step(2)])
  have len1: "length (c_interrupt_entry_table s1) = interrupt_num" unfolding s1_def by (rule interrupt_step)
  note F = pw [unfolded powered_def]
  have m1: "loader_memory (phys s1)" "cr3 s1 = 0x100000" "load32 (phys s1) 0xd00 = mem" "mem_size_ok mem" "phys s1 = phys s"
    using F hs1 by (simp_all add: heap_same_def)
  have lay: "layout s" by (rule powered_layout [OF pw])
  have same1: "plock (user_pool s1) = plock (user_pool s)" "plock (kernel_pool s1) = plock (kernel_pool s)" using st1 by (simp_all add: settled_def)
  obtain s2 where s2: "memory_init s1 = Inr s2" "settled s1 s2" "phys s2 = phys s1" "heap_same (mem_pool_init mem s1) s2"
    "c_interrupt_entry_table s2 = c_interrupt_entry_table s1" "lock_free (plock (kernel_pool s)) s2" "lock_free (plock (user_pool s)) s2"
    by (rule memory_step [OF m1(1-4), unfolded same1]) (use lay in \<open>simp_all add: layout_def Let_def\<close>)
  have st2: "settled s s2" using settled_trans [OF st1 s2(2)] .
  have a2: "thread_ready_list s2 = thread_ready_list s" "thread_all_list s2 = thread_all_list s" "running_thread s2 = ?p"
    using st2 by (simp_all add: settled_def running_thread_def)
  obtain s3 where s3: "thread_init s2 = Inr s3" "settled s2 s3" "heap_same s2 s3" "c_interrupt_entry_table s3 = c_interrupt_entry_table s2"
    "tasks s3 = (tasks s2)(?p := main_task ?p)" "main_thread s3 = ?p"
    "is_list s3 (thread_ready_list s) []" "is_list s3 (thread_all_list s) [all_list_tag ?p]"
    "\<And>l. lock_nodes l \<inter> {head_of (thread_ready_list s), tail_of (thread_ready_list s), head_of (thread_all_list s), tail_of (thread_all_list s),
      general_tag ?p, all_list_tag ?p} = {} \<Longrightarrow> locks_same l s2 s3"
    by (rule thread_step [of s2, unfolded a2]) (use lay in \<open>auto simp: layout_def Let_def\<close>)
  have st3: "settled s s3" using settled_trans [OF st2 s3(2)] .
  obtain s4 where s4: "timer_init s3 = Inr s4" "quiet s3 s4" "c_interrupt_entry_table s4 = (c_interrupt_entry_table s3)[0x20 := Some ClockHandler]"
    "\<And>l. locks_same l s3 s4" "\<And>A. same_links A s3 s4"
    by (rule timer_step [of s3]) (use len1 s2(5) s3(4) in simp_all)
  define s5 where "s5 = console_init s4"
  have st4: "settled s s4" using settled_trans [OF st3] s4(2) by (simp add: quiet_def)
  have c4: "console_lock s4 = console_lock s" using st4 by (simp add: settled_def)
  note s5 = console_step [where s = s4, folded s5_def, unfolded c4]
  have st5: "settled s s5" using settled_trans [OF st4] s5(1) by (simp add: quiet_def)
  have k5: "kbd_buf s5 = kbd_buf s" using st5 by (simp add: settled_def)
  obtain s6 where s6: "keyboard_init s5 = Inr s6" "quiet s5 s6" "c_interrupt_entry_table s6 = (c_interrupt_entry_table s5)[0x21 := Some KeyboardHandler]"
    "lock_free (kbd_buf s) s6" "\<And>l. l \<noteq> kbd_buf s \<Longrightarrow> lock_nodes l \<inter> lock_nodes (kbd_buf s) = {} \<Longrightarrow> locks_same l s5 s6"
    "\<And>A. A \<inter> lock_nodes (kbd_buf s) = {} \<Longrightarrow> same_links A s5 s6" "head (ioqs s6 (kbd_buf s)) = 0" "tail (ioqs s6 (kbd_buf s)) = 0"
    by (rule keyboard_step [of s5, unfolded k5]) (use len1 s2(5) s3(4) s4(3) s5(2) in simp_all)
  note L = layoutD [OF lay]
  have pools: "lock_free l s6" if l: "l \<in> {plock (user_pool s), plock (kernel_pool s)}" "lock_free l s2" for l
  proof -
    have "lock_free l s3" using l by (intro lock_free_same [OF l(2)] s3(9) L(1)) auto
    then have "lock_free l s4" by (rule lock_free_same) (rule s4(4))
    then have "lock_free l s5" using l(1) L(2) by (elim lock_free_same) (intro s5(4) L(3), auto)
    then show ?thesis using l(1) L(2) by (elim lock_free_same) (intro s6(5) L(4), auto)
  qed
  have con: "lock_free (console_lock s) s6" using L(2) by (intro lock_free_same [OF s5(3)] s6(5) L(4)) auto
  have lists: "is_list s6 l xs"
    if "is_list s3 l xs" "list_nodes l xs \<subseteq> {head_of (thread_ready_list s), tail_of (thread_ready_list s), head_of (thread_all_list s), tail_of (thread_all_list s),
      general_tag ?p, all_list_tag ?p}" for l xs
  proof -
    have "list_nodes l xs \<inter> lock_nodes (console_lock s) = {}" "list_nodes l xs \<inter> lock_nodes (kbd_buf s) = {}"
      using that(2) L(1) [of "console_lock s"] L(1) [of "kbd_buf s"] by blast+
    then have "same_links (list_nodes l xs) s4 s5" "same_links (list_nodes l xs) s5 s6" using s5(5) s6(6) by blast+
    then have "same_links (list_nodes l xs) s3 s6" using s4(5) same_links_trans by blast
    then show ?thesis using that(1) is_list_same_links by blast
  qed
  have q: "quiet s3 s6" using quiet_trans [OF s4(2) quiet_trans [OF s5(1) s6(2)]] .
  have st6: "settled s s6" using settled_trans [OF st3] q by (simp add: quiet_def)
  have hs6: "heap_same (mem_pool_init mem s1) s6" using heap_same_trans [OF heap_same_trans [OF s2(4) s3(3)]] q by (simp add: quiet_def)
  have ph: "phys s6 = phys s" using s3(3) q s2(3) m1(5) by (simp add: quiet_def heap_same_def)
  have tab: "length (c_interrupt_entry_table s6) = interrupt_num" "c_interrupt_entry_table s6 ! 0x20 = Some ClockHandler"
    "c_interrupt_entry_table s6 ! 0x21 = Some KeyboardHandler"
    using len1 by (simp_all add: s6(3) s5(2) s4(3) s3(4) s2(5) interrupt_num_def)
  have r6: "is_list s6 (thread_ready_list s) []" and a6: "is_list s6 (thread_all_list s) [all_list_tag ?p]"
    by (rule lists [OF s3(7)] lists [OF s3(8)]; simp add: list_nodes_def)+
  have "devices_ready mem s s6"
    unfolding devices_ready_def using st6 ph hs6 m1(1,2) q s3(5,6) r6 a6 pools s2(6,7) con s6(4,7,8) tab by (auto simp: quiet_def)
  then show thesis using that s2(1) s3(1) s4(1) s6(1) by (simp add: s1_def s5_def)
qed

text \<open>The heap after all steps.\<close>

definition heap_fresh :: "'a memory_scheme \<Rightarrow> bool" where
  "heap_fresh s \<longleftrightarrow> heap_ready s \<and> addr_start (kernel_vaddr s) = 0xc0100000 \<and> 26 \<le> card (free_pages s) \<and>
     25 \<le> bm_bits_count (addr_bitmap (kernel_vaddr s)) \<and> run_clear (kmem s) (addr_bitmap (kernel_vaddr s)) 0 25 \<and>
     (\<forall>b \<in> {pool_bitmap (kernel_pool s), addr_bitmap (kernel_vaddr s)}. \<forall>a \<in> region (bm_bits b) (unat (bm_length b)). unat a < 0xc0100000)"

lemma heap_fresh_cong:
  assumes "phys s' = phys s" "cr3 s' = cr3 s" "kmem s' = kmem s" "kernel_pool s' = kernel_pool s" "kernel_vaddr s' = kernel_vaddr s"
  shows "heap_fresh s' = heap_fresh s"
  unfolding heap_fresh_def heap_ready_cong [OF assms] by (simp add: assms)

lemma heap_fresh_spare:
  assumes fresh: "heap_fresh s" and f: "spare_frame (phys s) (cr3 s) f" and same: "same_but f (phys s) m'"
  shows "heap_fresh (s\<lparr>phys := m'\<rparr>)"
proof -
  have "heap_ready (s\<lparr>phys := m'\<rparr>)" using fresh heap_ready_spare [OF _ f same] by (simp add: heap_fresh_def)
  moreover have "free_pages (s\<lparr>phys := m'\<rparr>) = free_pages s" by (simp add: free_pages_def)
  ultimately show ?thesis using fresh unfolding heap_fresh_def by simp
qed

lemma fresh_heap:
  fixes s :: "'a memory_scheme"
  assumes size: "mem_size_ok mem" "64 \<le> total_pages mem" and m: "loader_memory (phys s)" "cr3 s = 0x100000"
  shows "heap_fresh (mem_pool_init mem s)"
proof -
  let ?n = "total_pages mem div 2 div 8"
  note G = memory_geometry(1,2,5) [OF size(1), where s = s] and H = fresh_heap_ready [OF size(1) m]
  have "64 div 2 div 8 \<le> ?n" by (intro div_le_mono size(2))
  then have n: "26 \<le> 8 * ?n" by simp
  have "run_clear (kmem (mem_pool_init mem s)) (addr_bitmap (kernel_vaddr (mem_pool_init mem s))) 0 25"
    using H(3) n by (auto simp: run_clear_def)
  then show ?thesis unfolding heap_fresh_def using G H(1,2) n by auto
qed

text \<open>The pool of the user is fresh too, and its bitmap is apart from those of the heap.\<close>

definition user_fresh :: "'a memory_scheme \<Rightarrow> bool" where
  "user_fresh s \<longleftrightarrow> pool_ok (user_pool s) \<and> phy_addr_start (user_pool s) \<noteq> 0 \<and> user_free s \<noteq> {} \<and>
     (\<forall>a \<in> region (bm_bits (pool_bitmap (user_pool s))) (unat (bm_length (pool_bitmap (user_pool s)))). unat a < 0xc0100000) \<and>
     bitmaps_apart (pool_bitmap (user_pool s)) (pool_bitmap (kernel_pool s)) \<and>
     bitmaps_apart (pool_bitmap (user_pool s)) (addr_bitmap (kernel_vaddr s))"

lemma user_fresh_cong:
  assumes "kmem s' = kmem s" "kernel_pool s' = kernel_pool s" "user_pool s' = user_pool s" "kernel_vaddr s' = kernel_vaddr s"
  shows "user_fresh s' = user_fresh s"
  by (simp add: user_fresh_def user_free_def assms)

lemma fresh_user:
  fixes s :: "'a memory_scheme"
  assumes size: "mem_size_ok mem" "64 \<le> total_pages mem"
  shows "user_fresh (mem_pool_init mem s)"
proof -
  let ?s = "mem_pool_init mem s"
  define K U where "K = (ucast (kernel_free_pages mem) :: u32)" and "U = (ucast (user_free_pages mem) :: u32)"
  define n u where "n = total_pages mem div 2 div 8" and "u = (total_pages mem - total_pages mem div 2) div 8"
  note fields = mem_pool_init_fields [of mem s, folded K_def U_def]
  note P = mem_pool_init_pools [OF size(1), where s = s]
  have F: "total_pages mem < 2 ^ 16" using page_counts [OF size(1)] by simp
  have nu: "n < 2 ^ 12" "u < 2 ^ 13" "0 < u" using F size(2) by (simp_all add: n_def u_def)
  have K8: "K div 8 = of_nat n"
    by (rule word32_eqI) (use F page_counts [OF size(1)] in \<open>simp add: n_def K_def unat_div32 unat_of_nat32\<close>)
  have U8: "U div 8 = of_nat u"
    by (rule word32_eqI) (use F page_counts [OF size(1)] in \<open>simp add: u_def U_def unat_div32 unat_of_nat32\<close>)
  have len: "unat (of_nat n :: u32) = n" "unat (of_nat u :: u32) = u" using nu by (simp_all add: unat_of_nat32)
  have "region (MEM_BITMAP_BASE + of_nat 0) n \<inter> region (MEM_BITMAP_BASE + of_nat n) u = {}"
    "region (MEM_BITMAP_BASE + of_nat n) u \<inter> region (MEM_BITMAP_BASE + of_nat (n + u)) n = {}"
    by (rule region_apart; use nu in simp)+
  then have apart: "bitmaps_apart (pool_bitmap (user_pool ?s)) (pool_bitmap (kernel_pool ?s))"
    "bitmaps_apart (pool_bitmap (user_pool ?s)) (addr_bitmap (kernel_vaddr ?s))"
    by (auto simp: bitmaps_apart_def fields K8 U8 len add.assoc)
  have low: "unat a < 0xc0100000" if mem: "a \<in> region (MEM_BITMAP_BASE + of_nat n) u" for a
  proof -
    obtain j where "j < u" "a = MEM_BITMAP_BASE + of_nat n + of_nat j" using mem by (auto simp: region_def)
    then have j: "a = MEM_BITMAP_BASE + of_nat (n + j)" "n + j < 2 ^ 14" using nu by (simp_all add: add.assoc)
    then have "unat (of_nat (n + j) :: u32) = n + j" by (intro unat_of_nat32) simp
    then show ?thesis unfolding j(1) using j(2) by (subst unat_add32) (simp_all add: MEM_BITMAP_BASE_def)
  qed
  have "0 \<in> user_free ?s" using P(4,8) nu(3) by (auto simp: user_free_def u_def)
  moreover have "phy_addr_start (user_pool ?s) \<noteq> 0" using P(2) by auto
  ultimately show ?thesis using apart low P(6) by (auto simp: user_fresh_def fields K8 U8 len)
qed

lemma kernel_init_run:
  fixes s :: "'a kernel_scheme"
  assumes pw: "powered mem gdt s"
  defines "p \<equiv> running_thread s"
  obtains s' where "kernel_init s = Inr s'" and "settled s s'" and "heap_fresh s'" and "spawn_ready {p} (\<lambda>_. 0x100000) s' p [] [p]"
    and "\<And>l. l \<in> {plock (kernel_pool s), plock (user_pool s), console_lock s, kbd_buf s} \<Longrightarrow> lock_available l s'"
    and "length (c_interrupt_entry_table s') = interrupt_num" and "c_interrupt_entry_table s' ! 0x20 = Some ClockHandler"
    and "c_interrupt_entry_table s' ! 0x21 = Some KeyboardHandler" and "head (ioqs s' (kbd_buf s)) = 0" "tail (ioqs s' (kbd_buf s)) = 0"
    and "gdtr_base s' = gdt" "gdtr_limit s' = 55" and "user_fresh s'" "lock_free (plock (user_pool s)) s'"
    and "\<And>v p. PDE_IDX v \<noteq> 1023 \<Longrightarrow> mmu (phys s) (cr3 s) v = Some p \<Longrightarrow> mmu (phys s') (cr3 s') v = Some p"
proof -
  obtain s2 s3 s4 s6 where run: "memory_init (interrupt_init (kprintf ''\<newline>\<newline>LiziOS is initializing the kernel...\<newline>'' [] s)) = Inr s2"
    "thread_init s2 = Inr s3" "timer_init s3 = Inr s4" "keyboard_init (console_init s4) = Inr s6" and D: "devices_ready mem s s6"
    by (rule devices_step [OF pw])
  note F = pw [unfolded powered_def]
  have st6: "settled s s6" and ph6: "phys s6 = phys s" using D by (simp_all add: devices_ready_def)
  have cr6: "cr3 s6 = 0x100000" using st6 F by (simp add: settled_def)
  obtain s1 where s1: "loader_memory (phys s1)" "cr3 s1 = 0x100000" "heap_same (mem_pool_init mem s1) s6" using D by (auto simp: devices_ready_def)
  have "heap_fresh (mem_pool_init mem s1)" using F s1(1,2) by (intro fresh_heap) simp_all
  moreover have "heap_fresh s6 = heap_fresh (mem_pool_init mem s1)" using s1(3) by (intro heap_fresh_cong) (simp_all add: heap_same_def)
  ultimately have hf6: "heap_fresh s6" by simp
  have "user_fresh (mem_pool_init mem s1)" using F by (intro fresh_user) simp_all
  moreover have "user_fresh s6 = user_fresh (mem_pool_init mem s1)" using s1(3) by (intro user_fresh_cong) (simp_all add: heap_same_def)
  ultimately have uf6: "user_fresh s6" by simp
  obtain s' f where T: "tss_init s6 = Inr s'" "settled s6 s'" "kmem s' = kmem s6" "kernel_pool s' = kernel_pool s6" "kernel_vaddr s' = kernel_vaddr s6"
    "user_pool s' = user_pool s6" "tasks s' = tasks s6" "main_thread s' = main_thread s6" "c_interrupt_entry_table s' = c_interrupt_entry_table s6"
    "spare_frame (phys s6) (cr3 s6) f" "same_but f (phys s6) (phys s')" "\<And>l. locks_same l s6 s'" "\<And>A. same_links A s6 s'"
    "gdtr_base s' = gdt" "gdtr_limit s' = 55" "ioqs s' = ioqs s6"
    by (rule tss_step [of s6 gdt]) (use F ph6 cr6 in simp_all)
  have st: "settled s s'" using settled_trans [OF st6 T(2)] .
  then have A: "thread_ready_list s' = thread_ready_list s" "thread_all_list s' = thread_all_list s" "running_thread s' = p" "cr3 s' = 0x100000"
    "frames s' p = []" "plock (kernel_pool s') = plock (kernel_pool s)"
    using F by (simp_all add: settled_def running_thread_def p_def)
  have "heap_fresh s' = heap_fresh (s6\<lparr>phys := phys s'\<rparr>)" using T(3-5) A(4) cr6 by (intro heap_fresh_cong) simp_all
  then have hf: "heap_fresh s'" using heap_fresh_spare [OF hf6 T(10,11)] by simp
  have "user_fresh s' = user_fresh s6" using T(3-6) by (intro user_fresh_cong)
  then have uf: "user_fresh s'" using uf6 by simp
  have maps: "mmu (phys s') (cr3 s') v = Some p" if "PDE_IDX v \<noteq> 1023" "mmu (phys s) (cr3 s) v = Some p" for v p
    using spare_mmu [OF T(10,11) that(1)] that(2) F A(4) by (simp add: cr6 ph6)
  have lists: "is_list s' (thread_ready_list s) []" "is_list s' (thread_all_list s) [all_list_tag p]"
    using D is_list_same_links [OF _ T(13)] unfolding devices_ready_def p_def by blast+
  have uw: "lock_free (plock (user_pool s)) s'"
    by (rule lock_free_same [of _ s6]) (use D T(12) in \<open>simp_all add: devices_ready_def\<close>)
  have lock: "lock_available l s'" if "l \<in> {plock (kernel_pool s), plock (user_pool s), console_lock s, kbd_buf s}" for l
  proof (rule lock_free_available)
    have "lock_free l s6" using D that by (simp only: devices_ready_def)
    then show "lock_free l s'" by (rule lock_free_same) (rule T(12))
  qed (use A(3,5) F in \<open>simp_all add: p_def\<close>)
  have tk: "tasks s' p = main_task p" "main_thread s' = p" using D T(7,8) by (simp_all add: devices_ready_def p_def)
  note low = powered_low [OF pw]
  have use: "in_use s' a" if "unat a < 0xc0100000" for a using hf that by (intro in_use_low) (simp_all add: heap_fresh_def)
  have tags: "general_tag p \<notin> {head_of (thread_ready_list s), tail_of (thread_ready_list s)}"
    using layoutD(1) [OF powered_layout [OF pw]] powered_layout [OF pw] by (auto simp: layout_def Let_def p_def)
  have "sched_inv {p} (\<lambda>_. 0x100000) s' p []"
    unfolding sched_inv_def A using lists(1) tags tk F by (simp add: main_task_def spaces_agree_def p_def)
  moreover have "list_nodes (thread_ready_list s) [] \<inter> list_nodes (thread_all_list s) [all_list_tag p] = {}"
    using powered_layout [OF pw] by (auto simp: layout_def Let_def p_def list_nodes_def)
  moreover have "in_use s' a" if "a \<in> list_nodes (thread_ready_list s) [] \<union> list_nodes (thread_all_list s) [all_list_tag p] \<union> {p, head_of (waiters (semaphore_of (plock (kernel_pool s))))}" for a
    using that by (intro use low) (auto simp: list_nodes_def p_def)
  moreover have "in_use s' a" if "b \<in> {pool_bitmap (kernel_pool s'), addr_bitmap (kernel_vaddr s')}" "a \<in> region (bm_bits b) (unat (bm_length b))" for a b
    using hf that by (intro use) (auto simp: heap_fresh_def)
  ultimately have "spawn_ready {p} (\<lambda>_. 0x100000) s' p [] [p]"
    unfolding spawn_ready_def A using lists lock tk hf by (simp add: heap_fresh_def main_task_def)
  moreover have "kernel_init s = Inr s'" unfolding kernel_init_def Let_def run rbind_simps by (rule T(1))
  ultimately show thesis
    using that st hf lock T(14,15) D uf uw maps by (simp add: T(9,16) devices_ready_def)
qed

section \<open>The first process\<close>

lemma intr_enable_same:
  fixes s :: "'a processes_scheme"
  obtains e where "snd (intr_enable s) = s\<lparr>eflags := e\<rparr>" and "bit e 9"
proof (cases "INTR_ON = intr_get_status s")
  case True
  then have "bit (eflags s) 9" by (simp add: intr_get_status_eq split: if_splits)
  moreover have "snd (intr_enable s) = s\<lparr>eflags := eflags s\<rparr>" using True by (simp add: intr_enable_def)
  ultimately show thesis using that by blast
next
  case False
  then have "snd (intr_enable s) = s\<lparr>eflags := eflags (sti s)\<rparr>" by (simp add: intr_enable_def sti_def)
  then show thesis using that [of "eflags (sti s)"] by simp
qed

lemma spawned_eflags:
  assumes "spawned T spc s cur rs as fn s' t f"
  shows "spawned T spc (s\<lparr>eflags := e\<rparr>) cur rs as fn (s'\<lparr>eflags := e\<rparr>) t f"
proof -
  have list: "is_list (s'\<lparr>eflags := e\<rparr>) l xs = is_list s' l xs" for l xs by (rule is_list_cong) simp_all
  have use: "in_use (s\<lparr>eflags := e\<rparr>) = in_use s" by (simp add: in_use_def heap_page_def fun_eq_iff)
  have "sched_inv T' spc' (s'\<lparr>eflags := e\<rparr>) cur rs' = sched_inv T' spc' s' cur rs'" for T' spc' rs'
    by (simp add: sched_inv_def list running_thread_def)
  moreover have "fresh_space (s\<lparr>eflags := e\<rparr>) (s'\<lparr>eflags := e\<rparr>) t f = fresh_space s s' t f"
  proof -
    have "heap_step (s\<lparr>eflags := e\<rparr>) s' H n = heap_step s s' H n" for H n by (rule heap_step_cong) simp_all
    moreover have "keeps_used (s\<lparr>eflags := e\<rparr>) m = keeps_used s m" for m by (rule keeps_used_cong) simp_all
    ultimately have "fresh_space (s\<lparr>eflags := e\<rparr>) s' t f = fresh_space s s' t f" by (simp add: fresh_space_def use)
    moreover have "fresh_space (s\<lparr>eflags := e\<rparr>) (s'\<lparr>eflags := e\<rparr>) t f = fresh_space (s\<lparr>eflags := e\<rparr>) s' t f"
      by (rule fresh_space_cong) simp_all
    ultimately show ?thesis by simp
  qed
  ultimately show ?thesis using assms unfolding spawned_def by (elim conjE) (simp add: list same_links_def use)
qed

lemma main_run:
  fixes s :: "'a kernel_scheme"
  assumes pw: "powered mem gdt s"
  defines "p \<equiv> running_thread s"
  obtains s0 s' t f where "main s = Inr s'" and "intr_get_status s' = INTR_ON" and "spawned {p} (\<lambda>_. 0x100000) s0 p [] [p] (u_prog_a_addr s) s' t f"
    and "gdtr_base s' = gdt" and "c_interrupt_entry_table s' ! 0x20 = Some ClockHandler" and "c_interrupt_entry_table s' ! 0x21 = Some KeyboardHandler"
    and "gdtr_limit s' = 55" "settled s (s0\<lparr>eflags := eflags s\<rparr>)" "heap_fresh s0" "user_fresh s0" "lock_free (plock (user_pool s)) s0"
    and "\<And>v p. PDE_IDX v \<noteq> 1023 \<Longrightarrow> mmu (phys s) (cr3 s) v = Some p \<Longrightarrow> mmu (phys s0) (cr3 s0) v = Some p"
proof -
  obtain s1 where I: "kernel_init s = Inr s1" "settled s s1" "heap_fresh s1" "spawn_ready {p} (\<lambda>_. 0x100000) s1 p [] [p]"
    "c_interrupt_entry_table s1 ! 0x20 = Some ClockHandler" "c_interrupt_entry_table s1 ! 0x21 = Some KeyboardHandler" "gdtr_base s1 = gdt"
    "gdtr_limit s1 = 55" "user_fresh s1" "lock_free (plock (user_pool s)) s1"
    "\<And>v p. PDE_IDX v \<noteq> 1023 \<Longrightarrow> mmu (phys s) (cr3 s) v = Some p \<Longrightarrow> mmu (phys s1) (cr3 s1) v = Some p"
    unfolding p_def by (rule kernel_init_run [OF pw]) blast
  have name: "length (str8 ''user_prog_a'') < 16" by (simp add: str8_def)
  have u: "u_prog_a_addr s1 = u_prog_a_addr s" using I(2) by (simp add: settled_def)
  have heap: "run_clear (kmem s1) (addr_bitmap (kernel_vaddr s1)) 0 25" "0 + 25 \<le> bm_bits_count (addr_bitmap (kernel_vaddr s1))"
    "25 \<le> card (free_pages s1)" using I(3) by (simp_all add: heap_fresh_def)
  obtain s2 t f where X: "process_execute (u_prog_a_addr s) (str8 ''user_prog_a'') s1 = Inr s2"
    "spawned {p} (\<lambda>_. 0x100000) s1 p [] [p] (u_prog_a_addr s) s2 t f"
    by (rule process_execute_run [OF I(4) name heap])
  obtain e where e: "snd (intr_enable s2) = s2\<lparr>eflags := e\<rparr>" "bit e 9" by (rule intr_enable_same)
  have run: "main s = Inr (s2\<lparr>eflags := e\<rparr>)" unfolding main_def I(1) rbind_simps u X(1) e(1) ..
  have on: "intr_get_status (s2\<lparr>eflags := e\<rparr>) = INTR_ON" using e(2) by (simp add: intr_get_status_eq)
  define s0 where "s0 = s1\<lparr>eflags := e\<rparr>"
  have g: "gdtr_base s2 = gdt" "c_interrupt_entry_table s2 = c_interrupt_entry_table s1" "gdtr_limit s2 = 55"
    using X(2) I(7,8) by (simp_all add: spawned_def)
  have same: "heap_fresh s0 = heap_fresh s1" "user_fresh s0 = user_fresh s1"
    by (rule heap_fresh_cong user_fresh_cong; simp add: s0_def)+
  have "lock_free (plock (user_pool s)) s0"
    by (rule lock_free_same [OF I(10)]) (simp add: s0_def locks_same_def same_links_def)
  moreover have "settled s (s0\<lparr>eflags := eflags s\<rparr>)" using I(2) by (simp add: settled_def s0_def)
  moreover have sp: "spawned {p} (\<lambda>_. 0x100000) s0 p [] [p] (u_prog_a_addr s) (s2\<lparr>eflags := e\<rparr>) t f"
    unfolding s0_def by (rule spawned_eflags [OF X(2)])
  ultimately show thesis using I(3,5,6,9,11) g same by (intro that [OF run on sp]) (simp_all add: s0_def)
qed

section \<open>Properties\<close>

text \<open>
  C10: the initialisation. From the memory that the loader leaves, on a machine with 64 pages or more above
  2 MB and less than 258 MB, \<open>kernel_init\<close> runs without a fault and establishes what the
  other parts rely on: the heap is ready, with its first 25 pages free, the running code is the main thread and the only
  one, every lock is free, the clock and the keyboard have their handlers and the keyboard buffer is
  empty; the interrupt flag is as before.
\<close>

theorem kernel_init_ready:
  fixes s :: "'a kernel_scheme"
  assumes "powered mem gdt s"
  shows "\<exists>s'. kernel_init s = Inr s' \<and> spawn_ready {running_thread s} (\<lambda>_. 0x100000) s' (running_thread s) [] [running_thread s] \<and>
    25 \<le> card (free_pages s') \<and> run_clear (kmem s') (addr_bitmap (kernel_vaddr s')) 0 25 \<and>
    (\<forall>l \<in> {plock (kernel_pool s), plock (user_pool s), console_lock s, kbd_buf s}. lock_available l s') \<and>
    c_interrupt_entry_table s' ! 0x20 = Some ClockHandler \<and> c_interrupt_entry_table s' ! 0x21 = Some KeyboardHandler \<and>
    head (ioqs s' (kbd_buf s)) = 0 \<and> tail (ioqs s' (kbd_buf s)) = 0 \<and> eflags s' = eflags s"
  by (rule kernel_init_run [OF assms]) (auto simp: heap_fresh_def settled_def)

text \<open>
  C2: \<open>main\<close>. From the same memory \<open>main\<close> reaches its endless loop without a fault, with interrupts on and a
  second thread, the process, ready to run: the scheduler's invariant holds for the two, the user's half of
  the process is empty and its stack starts it in \<open>kernel_thread\<close>.
\<close>

theorem main_starts_process:
  fixes s :: "'a kernel_scheme"
  assumes "powered mem gdt s"
  shows "\<exists>s' t f. main s = Inr s' \<and> t \<noteq> running_thread s \<and> intr_get_status s' = INTR_ON \<and>
    sched_inv {t, running_thread s} ((\<lambda>_. 0x100000)(t := f)) s' (running_thread s) [t] \<and>
    (\<forall>v. unat v < 0xc0000000 \<longrightarrow> mmu (phys s') f v = None) \<and>
    frames s' t = [KernelThread] \<and> ts_func_arg (kstacks s' (self_kstack (tasks s' t))) = u_prog_a_addr s"
  by (rule main_run [OF assms]) (auto simp: spawned_def)

text \<open>
  The first switch to the process. After \<open>main\<close> the scheduler gives the processor to the process, on its
  own stack and in its own address space; there no byte of the descriptor table is mapped whose address the
  register holds, so the processor cannot load a segment any more.
\<close>

theorem first_switch_loses_gdt:
  fixes s :: "'a kernel_scheme"
  assumes "powered mem gdt s"
  shows "\<exists>s' s'' t. main s = Inr s' \<and> schedule s' = Inr s'' \<and> t \<noteq> running_thread s \<and> running_thread s'' = t \<and>
    frames s'' t = [KernelThread] \<and> gdtr_base s'' = gdt \<and> (\<forall>j < 56. mmu (phys s'') (cr3 s'') (gdtr_base s'' + of_nat j) = None)"
proof -
  let ?p = "running_thread s"
  obtain s0 s' t f where M: "main s = Inr s'" "spawned {?p} (\<lambda>_. 0x100000) s0 ?p [] [?p] (u_prog_a_addr s) s' t f" "gdtr_base s' = gdt"
    by (rule main_run [OF assms])
  have inv: "sched_inv {t, ?p} ((\<lambda>_. 0x100000)(t := f)) s' ?p [t]" and t: "t \<noteq> ?p" and fr: "frames s' t = [KernelThread]"
    and none: "\<And>v. unat v < 0xc0000000 \<Longrightarrow> mmu (phys s') f v = None"
    using M(2) by (simp_all add: spawned_def)
  obtain s'' where S: "schedule s' = Inr s''" "sched_inv {t, ?p} ((\<lambda>_. 0x100000)(t := f)) s'' t [?p]" "cr3 s'' = f" "phys s'' = phys s'"
    by (rule schedule_inv [OF inv]) (auto simp: sched_frame_def)
  have more: "threads.more s'' = threads.more s'" by (rule schedule_more [OF S(1)])
  have g: "gdtr_base s'' = gdt" using more M(3) by (cases s'; cases s''; simp)
  have "mmu (phys s'') (cr3 s'') (gdtr_base s'' + of_nat j) = None" if "j < 56" for j
  proof -
    have "unat gdt + 56 \<le> 0x100000" using assms by (simp add: powered_def)
    moreover have "unat (of_nat j :: u32) = j" using that by (intro unat_of_nat32) simp
    ultimately have "unat (gdt + of_nat j) < 0xc0000000" using that by (subst unat_add32) simp_all
    then show ?thesis using none by (simp add: S(3,4) g)
  qed
  moreover have "running_thread s'' = t" using S(2) by (simp add: sched_inv_def)
  ultimately show ?thesis using M(1) S(1) t g fr more_eqD(4) [OF more] by auto
qed

section \<open>A machine\<close>

text \<open>32 MB, a table of descriptors at \<open>0xd40\<close>, the stack below \<open>0xc009f000\<close>.\<close>

definition sample_low :: mem where
  "sample_low = store32 (store32 loader_phys 0xd00 0x2000000) 0xd04 0xd40"

definition sample_boot :: kernel where
  "sample_boot = (processes.extend (console.extend sample_console (processes.fields
       (\<lambda>_. \<lparr>is_vec_no = 0, is_edi = 0, is_esi = 0, is_ebp = 0, is_esp_dummy = 0, is_ebx = 0, is_edx = 0, is_ecx = 0, is_eax = 0,
          is_gs = 0, is_fs = 0, is_es = 0, is_ds = 0, is_err_code = 0, is_eip = 0, is_cs = 0, is_eflags = 0, is_esp = 0, is_ss = 0\<rparr>)
       \<lparr>r_edi = 0, r_esi = 0, r_ebp = 0, r_ebx = 0, r_edx = 0, r_ecx = 0, r_eax = 0, r_gs = 0, r_fs = 0, r_es = 0, r_ds = 0,
          r_eip = 0, r_cs = 0, r_ss = 0\<rparr>
       0xc0001500 0xc0003000)) (kernel.fields 0 0 0xc0001600 0xc0001700 0xc0003100 0xc0003200))
     \<lparr>phys := sample_low, cr3 := 0x100000, esp := 0xc009ef00, frames := (\<lambda>_. []),
      thread_ready_list := 0xc0001000, thread_all_list := 0xc0001100,
      kernel_pool := (kernel_pool sample_memory)\<lparr>plock := 0xc0002000\<rparr>, user_pool := (user_pool sample_memory)\<lparr>plock := 0xc0002100\<rparr>,
      kbd_buf := 0xc0002200, console_lock := 0xc0002300\<rparr>"

lemma sample_low_words: "loader_memory sample_low" "load32 sample_low 0xd00 = 0x2000000" "load32 sample_low 0xd04 = 0xd40"
proof -
  have out: "a \<notin> region (0xd00 :: u32) 4 \<and> a \<notin> region (0xd04 :: u32) 4" if "0x100000 \<le> unat a" for a
    using that by (auto simp: region4)
  then show "loader_memory sample_low" by (simp add: loader_memory_def sample_low_def store32_outside)
  show "load32 sample_low 0xd04 = 0xd40" by (simp add: sample_low_def load32_store32_same)
  have "load32 sample_low 0xd00 = load32 (store32 loader_phys 0xd00 0x2000000) 0xd00"
    unfolding sample_low_def by (rule load32_store32_other) (simp add: region4)
  then show "load32 sample_low 0xd00 = 0x2000000" by (simp add: load32_store32_same)
qed

lemma sample_powered: "powered 0x2000000 0xd40 sample_boot"
proof -
  have f: "phys sample_boot = sample_low" "cr3 sample_boot = 0x100000" "running_thread sample_boot = 0xc009e000" "frames sample_boot = (\<lambda>_. [])"
    "plock (kernel_pool sample_boot) = 0xc0002000" "plock (user_pool sample_boot) = 0xc0002100" "console_lock sample_boot = 0xc0002300"
    "kbd_buf sample_boot = 0xc0002200" "thread_ready_list sample_boot = 0xc0001000" "thread_all_list sample_boot = 0xc0001100"
    by (simp_all add: sample_boot_def running_thread_def)
  show ?thesis
    unfolding powered_def link_nodes_def lock_lists_def f using sample_low_words
    by (simp add: mem_size_ok_def total_pages_def head_of_def tail_of_def waiters_def semaphore_of_def general_tag_def all_list_tag_def)
qed

lemma kernel_init_ready_witness:
  "\<exists>s'. kernel_init sample_boot = Inr s' \<and> c_interrupt_entry_table s' ! 0x20 = Some ClockHandler"
  using kernel_init_ready [OF sample_powered] by blast

lemma main_starts_process_witness:
  "\<exists>s' t. main sample_boot = Inr s' \<and> intr_get_status s' = INTR_ON \<and> frames s' t = [KernelThread]"
  using main_starts_process [OF sample_powered] by blast

lemma first_switch_loses_gdt_witness:
  "\<exists>s' s''. main sample_boot = Inr s' \<and> schedule s' = Inr s'' \<and> gdtr_base s'' = 0xd40 \<and>
    mmu (phys s'') (cr3 s'') (gdtr_base s'' + of_nat 8) = None"
proof -
  have "(8 :: nat) < 56" by simp
  then show ?thesis using first_switch_loses_gdt [OF sample_powered] by blast
qed


end
