(* ===== verification/StackFrames.thy ===== *)
theory StackFrames
  imports Process
begin

text \<open>
  \<open>src/kernel/switch.asm\<close> and \<open>src/kernel/interrupt_handler.asm\<close>, instruction by instruction, on the
  registers and the bytes of the stack. The other theories use what is shown here: that the bytes
  the stub of a vector pushes are a \<open>struct intr_stack\<close>, that \<open>intr_exit\<close> loads the registers from
  one, and that \<open>switch_to\<close> suspends and resumes a thread.
\<close>

section \<open>The machine\<close>

record machine =
  gregs :: regs
  xesp :: u32
  xeflags :: u32
  xmem :: mem
  xports :: "(u16 \<times> u8) list"

definition push :: "u32 \<Rightarrow> machine \<Rightarrow> machine" where
  "push w s = s\<lparr>xesp := xesp s - 4, xmem := store32 (xmem s) (xesp s - 4) w\<rparr>"

definition pop :: "machine \<Rightarrow> u32 \<times> machine" where
  "pop s = (load32 (xmem s) (xesp s), s\<lparr>xesp := xesp s + 4\<rparr>)"

definition port_out :: "u16 \<Rightarrow> u8 \<Rightarrow> machine \<Rightarrow> machine" where
  "port_out port al s = s\<lparr>xports := xports s @ [(port, al)]\<rparr>"

definition pushad :: "machine \<Rightarrow> machine" where
  "pushad s = (let g = gregs s
     in push (r_edi g) (push (r_esi g) (push (r_ebp g) (push (xesp s)
          (push (r_ebx g) (push (r_edx g) (push (r_ecx g) (push (r_eax g) s))))))))"

definition popad :: "machine \<Rightarrow> machine" where
  "popad s =
     (let (edi, s1) = pop s; (esi, s2) = pop s1; (ebp, s3) = pop s2; (_, s4) = pop s3;
          (ebx, s5) = pop s4; (edx, s6) = pop s5; (ecx, s7) = pop s6; (eax, s8) = pop s7
      in s8\<lparr>gregs := (gregs s8)\<lparr>r_edi := edi, r_esi := esi, r_ebp := ebp, r_ebx := ebx, r_edx := edx, r_ecx := ecx,
           r_eax := eax\<rparr>\<rparr>)"

text \<open>
  The processor on an interrupt: from an outer privilege level it takes the stack of the task state
  segment (\<open>esp0\<close> with selector \<open>2 << 3\<close>) and pushes the old one; the gate clears the flags \<open>IF\<close>, \<open>TF\<close>,
  \<open>NT\<close>, \<open>RF\<close> and \<open>VM\<close>. Some exceptions push an error code.
\<close>

definition cpu_error_code :: "u8 \<Rightarrow> bool" where
  "cpu_error_code vec \<longleftrightarrow> vec \<in> {0x08, 0x0a, 0x0b, 0x0c, 0x0d, 0x0e, 0x11}"

definition outer :: "u32 \<Rightarrow> bool" where
  "outer cs \<longleftrightarrow> cs AND 3 \<noteq> 0"

definition cpu_interrupt :: "u8 \<Rightarrow> u32 \<Rightarrow> u32 \<Rightarrow> machine \<Rightarrow> machine" where
  "cpu_interrupt vec err esp0 s =
     (let g = gregs s;
          s1 = (if outer (r_cs g)
            then push (xesp s) (push (r_ss g) (s\<lparr>xesp := esp0, gregs := g\<lparr>r_ss := push_bit 3 2\<rparr>\<rparr>)) else s);
          s2 = push (r_eip g) (push (r_cs g) (push (xeflags s) s1));
          s3 = s2\<lparr>gregs := (gregs s2)\<lparr>r_cs := push_bit 3 1\<rparr>, xeflags := xeflags s AND NOT 0x34300\<rparr>
      in if cpu_error_code vec then push err s3 else s3)"

definition iretd :: "machine \<Rightarrow> machine" where
  "iretd s =
     (let (eip, s1) = pop s; (cs, s2) = pop s1; (flags, s3) = pop s2;
          s4 = s3\<lparr>gregs := (gregs s3)\<lparr>r_eip := eip, r_cs := cs\<rparr>, xeflags := flags\<rparr>
      in if r_cs (gregs s) AND 3 < cs AND 3
         then let (sp, s5) = pop s4; (ss, s6) = pop s5
              in s6\<lparr>gregs := (gregs s6)\<lparr>r_ss := ss\<rparr>, xesp := sp\<rparr>
         else s4)"

section \<open>The code\<close>

text \<open>The second argument of the macro \<open>VECTOR\<close>: a 0 makes the stub push a dummy error code.\<close>

definition vector_flag :: "u8 \<Rightarrow> nat" where
  "vector_flag vec = (if vec \<in> {0x08, 0x0a, 0x0b, 0x0d, 0x0e, 0x11, 0x18, 0x1a, 0x1b, 0x1d, 0x1e} then 1 else 0)"

text \<open>
  The stub up to the call of the handler; \<open>al\<close> is lost to the end-of-interrupt command, after \<open>pushad\<close>
  has saved it. The call and the return of the handler leave the stack pointer as it is.
\<close>

definition entry_stub :: "u8 \<Rightarrow> machine \<Rightarrow> machine" where
  "entry_stub vec s =
     (let s1 = (if vector_flag vec = 0 then push 0 s else s);
          g = gregs s;
          s2 = push (r_gs g) (push (r_fs g) (push (r_es g) (push (r_ds g) s1)));
          s3 = pushad s2;
          s4 = s3\<lparr>gregs := g\<lparr>r_eax := (r_eax g AND 0xffffff00) OR 0x20\<rparr>\<rparr>
      in push (ucast vec) (port_out 0x20 0x20 (port_out 0xa0 0x20 s4)))"

definition intr_exit_asm :: "machine \<Rightarrow> machine" where
  "intr_exit_asm s =
     (let s1 = popad (s\<lparr>xesp := xesp s + 4\<rparr>);
          (gs, s2) = pop s1; (fs, s3) = pop s2; (es, s4) = pop s3; (ds, s5) = pop s4
      in iretd (s5\<lparr>xesp := xesp s5 + 4, gregs := (gregs s5)\<lparr>r_gs := gs, r_fs := fs, r_es := es, r_ds := ds\<rparr>\<rparr>))"

text \<open>\<open>switch_to\<close> with the return address and the two arguments on the stack.\<close>

definition switch_to_asm :: "machine \<Rightarrow> machine" where
  "switch_to_asm s =
     (let g = gregs s;
          s1 = push (r_ebp g) (push (r_ebx g) (push (r_edi g) (push (r_esi g) s)));
          cur = load32 (xmem s1) (xesp s1 + 20);
          s2 = s1\<lparr>xmem := store32 (xmem s1) cur (xesp s1)\<rparr>;
          next = load32 (xmem s2) (xesp s2 + 24);
          s3 = s2\<lparr>xesp := load32 (xmem s2) next, gregs := g\<lparr>r_eax := next\<rparr>\<rparr>;
          (ebp, s4) = pop s3; (ebx, s5) = pop s4; (edi, s6) = pop s5; (esi, s7) = pop s6;
          (eip, s8) = pop s7
      in s8\<lparr>gregs := (gregs s8)\<lparr>r_ebp := ebp, r_ebx := ebx, r_edi := edi, r_esi := esi, r_eip := eip\<rparr>\<rparr>)"

section \<open>Words on the stack\<close>

fun words_at :: "mem \<Rightarrow> u32 \<Rightarrow> u32 list \<Rightarrow> bool" where
  "words_at m p [] \<longleftrightarrow> True"
| "words_at m p (w # ws) \<longleftrightarrow> load32 m p = w \<and> words_at m (p + 4) ws"

lemma region_word: "region p (4 + 4 * n) = region p 4 \<union> region (p + 4) (4 * n)"
  using region_add [of p 4 "4 * n"] by simp

lemma words_at_cong:
  "words_at m p ws \<Longrightarrow> (\<And>a. a \<in> region p (4 * length ws) \<Longrightarrow> m' a = m a) \<Longrightarrow> words_at m' p ws"
proof (induction ws arbitrary: p)
  case Nil
  then show ?case by simp
next
  case (Cons w ws)
  have "load32 m' p = load32 m p" using Cons.prems(2) by (intro load32_cong) (simp add: region_word)
  moreover have "words_at m' (p + 4) ws" using Cons by (intro Cons.IH) (simp_all add: region_word)
  ultimately show ?case using Cons.prems(1) by simp
qed

lemma words_at_append: "words_at m p (us @ ws) \<longleftrightarrow> words_at m p us \<and> words_at m (p + of_nat (4 * length us)) ws"
  by (induction us arbitrary: p) (simp_all add: add.assoc)

definition stacked :: "machine \<Rightarrow> u32 list \<Rightarrow> bool" where
  "stacked s ws \<longleftrightarrow> words_at (xmem s) (xesp s) ws"

lemma below_apart:
  assumes "4 + n \<le> 2 ^ 32"
  shows "region (p - 4) 4 \<inter> region p n = {}"
proof (rule ccontr)
  assume "region (p - 4) 4 \<inter> region p n \<noteq> {}"
  then obtain i j where ij: "i < 4" "j < n" "p - 4 + of_nat i = p + of_nat j" by (auto simp: region_def)
  then have "p - 4 + of_nat i = p - 4 + of_nat (4 + j)" by simp
  then show False using add_offset_eq_iff [of i "4 + j" "p - 4"] ij assms by simp
qed

lemma stacked_push:
  assumes "stacked s ws" and "length ws < 2 ^ 29"
  shows "stacked (push w s) (w # ws)"
proof -
  have "4 + 4 * length ws \<le> 2 ^ 32" using assms(2) by simp
  from below_apart [OF this, of "xesp s"] have "words_at (store32 (xmem s) (xesp s - 4) w) (xesp s) ws"
    using assms(1) unfolding stacked_def by (auto intro!: store32_outside elim!: words_at_cong)
  then show ?thesis by (simp add: stacked_def push_def load32_store32_same)
qed

lemma pushed_frame [simp]:
  "gregs (push w s) = gregs s" "xeflags (push w s) = xeflags s" "xesp (push w s) = xesp s - 4" "xports (push w s) = xports s"
  by (simp_all add: push_def)

lemma stacked_frame [simp]:
  "stacked (s\<lparr>gregs := g\<rparr>) ws = stacked s ws" "stacked (s\<lparr>xeflags := fl\<rparr>) ws = stacked s ws"
  "stacked (port_out port al s) ws = stacked s ws"
  by (simp_all add: stacked_def port_out_def)

lemma port_out_frame [simp]:
  "gregs (port_out port al s) = gregs s" "xeflags (port_out port al s) = xeflags s" "xesp (port_out port al s) = xesp s"
  by (simp_all add: port_out_def)

section \<open>The frame of an interrupt\<close>

text \<open>The words of a \<open>struct intr_stack\<close> (\<open>include/thread.h\<close>) above its vector number.\<close>

definition inner_words :: "intr_stack \<Rightarrow> u32 list" where
  "inner_words k = [is_edi k, is_esi k, is_ebp k, is_esp_dummy k, is_ebx k, is_edx k, is_ecx k, is_eax k,
     is_gs k, is_fs k, is_es k, is_ds k, is_err_code k, is_eip k, is_cs k, is_eflags k]"

definition frame_words :: "intr_stack \<Rightarrow> u32 list" where
  "frame_words k = inner_words k @ (if outer (is_cs k) then [is_esp k, is_ss k] else [])"

definition frame_regs :: "intr_stack \<Rightarrow> u32 \<Rightarrow> regs" where
  "frame_regs k ss = \<lparr>r_edi = is_edi k, r_esi = is_esi k, r_ebp = is_ebp k, r_ebx = is_ebx k, r_edx = is_edx k,
     r_ecx = is_ecx k, r_eax = is_eax k, r_gs = is_gs k, r_fs = is_fs k, r_es = is_es k, r_ds = is_ds k,
     r_eip = is_eip k, r_cs = is_cs k, r_ss = ss\<rparr>"

text \<open>The frame that an interrupt of \<open>s\<close> leaves.\<close>

definition saved_frame :: "u8 \<Rightarrow> u32 \<Rightarrow> u32 \<Rightarrow> machine \<Rightarrow> intr_stack" where
  "saved_frame vec err esp0 s =
     (let g = gregs s
      in \<lparr>is_vec_no = ucast vec, is_edi = r_edi g, is_esi = r_esi g, is_ebp = r_ebp g,
          is_esp_dummy = (if outer (r_cs g) then esp0 - 8 else xesp s) - 32,
          is_ebx = r_ebx g, is_edx = r_edx g, is_ecx = r_ecx g, is_eax = r_eax g,
          is_gs = r_gs g, is_fs = r_fs g, is_es = r_es g, is_ds = r_ds g,
          is_err_code = (if cpu_error_code vec then err else 0),
          is_eip = r_eip g, is_cs = r_cs g, is_eflags = xeflags s, is_esp = xesp s, is_ss = r_ss g\<rparr>)"

lemma stacked_nil [simp]: "stacked s []"
  by (simp add: stacked_def)

lemma interrupt_frame:
  assumes "vector_flag vec = 0 \<longleftrightarrow> \<not> cpu_error_code vec"
  shows "stacked (entry_stub vec (cpu_interrupt vec err esp0 s)) (ucast vec # frame_words (saved_frame vec err esp0 s))"
    and "xesp (entry_stub vec (cpu_interrupt vec err esp0 s)) = (if outer (r_cs (gregs s)) then esp0 - 8 else xesp s) - 68"
    and "r_cs (gregs (entry_stub vec (cpu_interrupt vec err esp0 s))) = 8"
    and "r_ss (gregs (entry_stub vec (cpu_interrupt vec err esp0 s))) = (if outer (r_cs (gregs s)) then 16 else r_ss (gregs s))"
  using assms
  by (cases "cpu_error_code vec"; cases "outer (r_cs (gregs s))";
      simp add: entry_stub_def cpu_interrupt_def pushad_def Let_def frame_words_def inner_words_def saved_frame_def;
      (intro stacked_push)?; simp)+

lemma pop_simps [simp]:
  "fst (pop s) = load32 (xmem s) (xesp s)" "snd (pop s) = s\<lparr>xesp := xesp s + 4\<rparr>"
  by (simp_all add: pop_def)

text \<open>\<open>intr_exit\<close> loads the registers from the frame, whatever the vector number has become.\<close>

lemma intr_exit_frame:
  assumes "words_at (xmem s) (xesp s + 4) (frame_words k)" and "r_cs (gregs s) = 8"
  shows "intr_exit_asm s = s\<lparr>gregs := frame_regs k (if outer (is_cs k) then is_ss k else r_ss (gregs s)),
    xeflags := is_eflags k, xesp := (if outer (is_cs k) then is_esp k else xesp s + 68)\<rparr>"
proof -
  have cs: "(8 :: u32) AND 3 < is_cs k AND 3 \<longleftrightarrow> outer (is_cs k)" by (simp add: outer_def word_neq_0_conv)
  show ?thesis
    using assms cs
    by (cases "outer (is_cs k)")
      (simp_all add: intr_exit_asm_def popad_def iretd_def pop_def Let_def frame_words_def inner_words_def frame_regs_def add.assoc)
qed

section \<open>The switch of stacks\<close>

text \<open>The stack of a call of \<open>switch_to\<close>; the control block of the caller is not on it.\<close>

definition at_switch :: "machine \<Rightarrow> u32 \<Rightarrow> u32 \<Rightarrow> u32 \<Rightarrow> bool" where
  "at_switch s ret cur nxt \<longleftrightarrow> stacked s [ret, cur, nxt] \<and> region cur 4 \<inter> region (xesp s - 16) 28 = {}"

definition switch_saved :: "machine \<Rightarrow> u32 \<Rightarrow> mem" where
  "switch_saved s cur = (let g = gregs s
     in store32 (xmem (push (r_ebp g) (push (r_ebx g) (push (r_edi g) (push (r_esi g) s))))) cur (xesp s - 16))"

lemma switch_saved_words:
  assumes "at_switch s ret cur nxt"
  shows "words_at (switch_saved s cur) (xesp s - 16) [r_ebp (gregs s), r_ebx (gregs s), r_edi (gregs s), r_esi (gregs s), ret, cur, nxt]"
    and "load32 (switch_saved s cur) cur = xesp s - 16"
proof -
  let ?g = "gregs s"
  let ?s1 = "push (r_ebp ?g) (push (r_ebx ?g) (push (r_edi ?g) (push (r_esi ?g) s)))"
  let ?ws = "[r_ebp ?g, r_ebx ?g, r_edi ?g, r_esi ?g, ret, cur, nxt]"
  have "stacked s [ret, cur, nxt]" and apart: "region cur 4 \<inter> region (xesp s - 16) 28 = {}"
    using assms by (simp_all only: at_switch_def)
  then have "stacked ?s1 ?ws" by (intro stacked_push) simp_all
  then have "words_at (xmem ?s1) (xesp s - 16) ?ws" unfolding stacked_def by simp
  then show "words_at (switch_saved s cur) (xesp s - 16) ?ws"
    unfolding switch_saved_def Let_def by (rule words_at_cong) (use apart in \<open>auto intro!: store32_outside\<close>)
  show "load32 (switch_saved s cur) cur = xesp s - 16" by (simp add: switch_saved_def Let_def load32_store32_same)
qed

lemma push_outside: "a \<notin> region (xesp s - 4) 4 \<Longrightarrow> xmem (push w s) a = xmem s a"
  by (simp add: push_def store32_outside)

lemma region_16: "region (p :: u32) 16 = region p 4 \<union> region (p + 4) 4 \<union> region (p + 8) 4 \<union> region (p + 12) 4"
  using region_add [of p 4 12] region_add [of "p + 4" 4 8] region_add [of "p + 8" 4 4] by (simp add: Un_assoc add.assoc)

lemma switch_saved_outside: "a \<notin> region cur 4 \<union> region (xesp s - 16) 16 \<Longrightarrow> switch_saved s cur a = xmem s a"
  unfolding region_16 switch_saved_def Let_def by (simp add: store32_outside push_outside)

lemma switch_to_asm_eq:
  assumes "at_switch s ret cur nxt"
  shows "switch_to_asm s = (let m = switch_saved s cur; p = load32 m nxt
    in s\<lparr>xmem := m, xesp := p + 20, gregs := (gregs s)\<lparr>r_eax := nxt, r_ebp := load32 m p, r_ebx := load32 m (p + 4),
         r_edi := load32 m (p + 8), r_esi := load32 m (p + 12), r_eip := load32 m (p + 16)\<rparr>\<rparr>)"
proof -
  let ?g = "gregs s"
  let ?s1 = "push (r_ebp ?g) (push (r_ebx ?g) (push (r_edi ?g) (push (r_esi ?g) s)))"
  have "stacked s [ret, cur, nxt]" using assms by (simp add: at_switch_def)
  then have "stacked ?s1 [r_ebp ?g, r_ebx ?g, r_edi ?g, r_esi ?g, ret, cur, nxt]" by (intro stacked_push) simp_all
  then have cur: "load32 (xmem ?s1) (4 + xesp s) = cur" by (simp add: stacked_def add.commute)
  moreover have "load32 (switch_saved s cur) (8 + xesp s) = nxt" using switch_saved_words(1) [OF assms] by (simp add: add.commute)
  moreover have "xesp ?s1 = xesp s - 16" by simp
  moreover have "?s1\<lparr>xmem := m, xesp := e, gregs := g\<rparr> = s\<lparr>xmem := m, xesp := e, gregs := g\<rparr>" for m e g by (simp add: push_def)
  ultimately show ?thesis
    unfolding switch_to_asm_def switch_saved_def Let_def by (simp add: pop_def add.assoc)
qed

section \<open>Properties\<close>

text \<open>
  C12: an interrupt is transparent. When the stub of a vector pushes an error code exactly where the
  processor does not, and the handler leaves the saved words and the stack pointer as they were,
  \<open>intr_exit\<close> gives back all registers, the flags, the stack pointer and the stack segment of the
  interrupted code, in the kernel and in a process; other memory stays as the handler left it.
\<close>

theorem interrupt_roundtrip:
  assumes "vector_flag vec = 0 \<longleftrightarrow> \<not> cpu_error_code vec"
    and "s1 = entry_stub vec (cpu_interrupt vec err esp0 s)"
    and "xesp s2 = xesp s1" and "r_cs (gregs s2) = r_cs (gregs s1)" and "r_ss (gregs s2) = r_ss (gregs s1)"
    and "\<forall>a \<in> region (xesp s1 + 4) (if outer (r_cs (gregs s)) then 72 else 64). xmem s2 a = xmem s1 a"
  shows "intr_exit_asm s2 = s2\<lparr>gregs := gregs s, xeflags := xeflags s, xesp := xesp s\<rparr>"
proof -
  let ?k = "saved_frame vec err esp0 s"
  note E = interrupt_frame [OF assms(1), of err esp0 s, folded assms(2)]
  have "words_at (xmem s1) (xesp s1 + 4) (frame_words ?k)" using E(1) by (simp add: stacked_def)
  moreover have "is_cs ?k = r_cs (gregs s)" by (simp add: saved_frame_def Let_def)
  then have "4 * length (frame_words ?k) = (if outer (r_cs (gregs s)) then 72 else 64)" by (simp add: frame_words_def inner_words_def)
  ultimately have "words_at (xmem s2) (xesp s2 + 4) (frame_words ?k)" using assms(6) by (auto simp: assms(3) elim!: words_at_cong)
  moreover have "r_cs (gregs s2) = 8" using E(3) assms(4) by simp
  ultimately have "intr_exit_asm s2 = s2\<lparr>gregs := frame_regs ?k (if outer (is_cs ?k) then is_ss ?k else r_ss (gregs s2)),
      xeflags := is_eflags ?k, xesp := (if outer (is_cs ?k) then is_esp ?k else xesp s2 + 68)\<rparr>"
    by (rule intr_exit_frame)
  then show ?thesis
    using E(2,4) assms(3,5) by (simp add: saved_frame_def frame_regs_def Let_def)
qed

text \<open>
  \<open>intr_exit\<close> of the machine is the one of the model. On a stack pointer with the words of a
  frame for a process, the instructions load the registers, flags and stack pointer that
  \<open>intr_exit\<close> of \<open>Process\<close> gives.
\<close>

theorem intr_exit_refines:
  fixes s :: "'a processes_scheme"
  assumes "intr_exit p s = Inr s'" and "outer (is_cs (intr_stacks s p))"
    and "xesp mc = p" and "words_at (xmem mc) (p + 4) (frame_words (intr_stacks s p))" and "r_cs (gregs mc) = 8"
  shows "gregs (intr_exit_asm mc) = cpu_regs s' \<and> xeflags (intr_exit_asm mc) = eflags s' \<and> xesp (intr_exit_asm mc) = esp s'"
proof -
  have "words_at (xmem mc) (xesp mc + 4) (frame_words (intr_stacks s p))" using assms(3,4) by simp
  from intr_exit_frame [OF this assms(5)] show ?thesis
    using assms(1,2) by (auto simp: intr_exit_def frame_regs_def Let_def)
qed

lemma iretd_loads:
  "r_eip (gregs (iretd s)) = load32 (xmem s) (xesp s)" "r_cs (gregs (iretd s)) = load32 (xmem s) (xesp s + 4)"
  "xeflags (iretd s) = load32 (xmem s) (xesp s + 8)"
  by (simp_all add: iretd_def Let_def case_prod_unfold add.assoc)

lemma intr_exit_inner:
  assumes "words_at (xmem s) (xesp s + 4) (inner_words k)"
  shows "r_eip (gregs (intr_exit_asm s)) = is_eip k \<and> r_cs (gregs (intr_exit_asm s)) = is_cs k \<and> xeflags (intr_exit_asm s) = is_eflags k"
  using assms by (simp add: intr_exit_asm_def iretd_loads popad_def Let_def case_prod_unfold inner_words_def add.assoc)

text \<open>
  C40: the frame of a stack fault is shifted. The stub of vector \<open>0x0c\<close> pushes a dummy error code below
  the one that the processor pushes, so \<open>intr_exit\<close> would return to the error code as an
  instruction pointer, with the old instruction pointer as code segment and the old code segment as
  flags.
\<close>

theorem stack_fault_shifted:
  assumes "s1 = entry_stub 0x0c (cpu_interrupt 0x0c err esp0 s)"
    and "xesp s2 = xesp s1" and "\<forall>a \<in> region (xesp s1 + 4) 64. xmem s2 a = xmem s1 a"
  shows "r_eip (gregs (intr_exit_asm s2)) = err \<and> r_cs (gregs (intr_exit_asm s2)) = r_eip (gregs s) \<and>
    xeflags (intr_exit_asm s2) = r_cs (gregs s)"
proof -
  let ?k = "(saved_frame 0x0c 0 esp0 s)\<lparr>is_esp_dummy := xesp s1 + 36, is_err_code := 0, is_eip := err, is_cs := r_eip (gregs s),
    is_eflags := r_cs (gregs s)\<rparr>"
  have "stacked s1 (0x0c # inner_words ?k)"
    unfolding assms(1)
    by (cases "outer (r_cs (gregs s))";
        simp add: entry_stub_def cpu_interrupt_def pushad_def Let_def inner_words_def saved_frame_def vector_flag_def cpu_error_code_def;
        (intro stacked_push | simp)+)
  then have "words_at (xmem s1) (xesp s1 + 4) (inner_words ?k)" by (simp add: stacked_def)
  then have "words_at (xmem s2) (xesp s2 + 4) (inner_words ?k)"
    unfolding assms(2) by (rule words_at_cong) (use assms(3) in \<open>simp add: inner_words_def\<close>)
  from intr_exit_inner [OF this] show ?thesis by simp
qed

text \<open>
  C13: a suspended thread resumes where it was. A call of \<open>switch_to\<close> by thread \<open>A\<close>, and later a call by
  another thread with \<open>A\<close> as the next one: if the word of \<open>A\<close>'s control block and the 20 bytes below
  its stack pointer have been left alone, the second call returns to the return address of the
  first, with the registers that C expects to be kept and the stack pointer behind the return address.
\<close>

theorem switch_resumes:
  assumes "at_switch s1 ret1 A B" and "at_switch s2 ret2 C A"
    and "\<forall>a \<in> region A 4 \<union> region (xesp s1 - 16) 20. xmem s2 a = xmem (switch_to_asm s1) a"
    and "(region A 4 \<union> region (xesp s1 - 16) 20) \<inter> (region C 4 \<union> region (xesp s2 - 16) 16) = {}"
  shows "r_eip (gregs (switch_to_asm s2)) = ret1 \<and> xesp (switch_to_asm s2) = xesp s1 + 4 \<and>
    r_ebp (gregs (switch_to_asm s2)) = r_ebp (gregs s1) \<and> r_ebx (gregs (switch_to_asm s2)) = r_ebx (gregs s1) \<and>
    r_edi (gregs (switch_to_asm s2)) = r_edi (gregs s1) \<and> r_esi (gregs (switch_to_asm s2)) = r_esi (gregs s1)"
proof -
  let ?m = "switch_saved s2 C" and ?ws = "[r_ebp (gregs s1), r_ebx (gregs s1), r_edi (gregs s1), r_esi (gregs s1), ret1]"
  have m1: "xmem (switch_to_asm s1) = switch_saved s1 A" using switch_to_asm_eq [OF assms(1)] by (simp add: Let_def)
  have same: "?m a = switch_saved s1 A a" if "a \<in> region A 4 \<union> region (xesp s1 - 16) 20" for a
    using that assms(3,4) switch_saved_outside [of a C s2] by (auto simp: m1)
  have "load32 ?m A = load32 (switch_saved s1 A) A" by (rule load32_cong) (simp add: same)
  then have p: "load32 ?m A = xesp s1 - 16" using switch_saved_words(2) [OF assms(1)] by simp
  have "words_at (switch_saved s1 A) (xesp s1 - 16) ?ws" using switch_saved_words(1) [OF assms(1)] by simp
  then have "words_at ?m (xesp s1 - 16) ?ws" by (rule words_at_cong) (simp add: same)
  then show ?thesis using switch_to_asm_eq [OF assms(2)] by (simp add: Let_def p)
qed

definition thread_words :: "thread_stack \<Rightarrow> u32 list" where
  "thread_words k = [ts_ebp k, ts_ebx k, ts_edi k, ts_esi k, ts_eip k, ts_unused_retaddr k, ts_function k, ts_func_arg k]"

lemma length_thread_words [simp]: "length (thread_words k) = 8"
  by (simp add: thread_words_def)

text \<open>
  C15: a new thread starts. Where the next thread's stack pointer has the words of a \<open>struct thread_stack\<close>,
  \<open>switch_to\<close> returns to the address in it (\<open>kernel_thread\<close>, as \<open>thread_create\<close> has put it there) with
  the function and its argument on the stack as for a call, above an unused return address.
\<close>

theorem new_thread_starts:
  assumes "at_switch s ret cur nxt" and "load32 (xmem s) nxt = p" and "words_at (xmem s) p (thread_words k)"
    and "(region nxt 4 \<union> region p 32) \<inter> (region cur 4 \<union> region (xesp s - 16) 16) = {}"
  shows "r_eip (gregs (switch_to_asm s)) = ts_eip k \<and> xesp (switch_to_asm s) = p + 20 \<and>
    words_at (xmem (switch_to_asm s)) (p + 20) [ts_unused_retaddr k, ts_function k, ts_func_arg k] \<and>
    load32 (xmem (switch_to_asm s)) cur = xesp s - 16"
proof -
  let ?m = "switch_saved s cur"
  have same: "?m a = xmem s a" if "a \<in> region nxt 4 \<union> region p 32" for a
    using that assms(4) switch_saved_outside [of a cur s] by auto
  have n: "load32 ?m nxt = p" using assms(2) load32_cong [of nxt ?m "xmem s"] same by simp
  have "words_at ?m p (thread_words k)" using assms(3) by (rule words_at_cong) (simp add: same thread_words_def)
  then show ?thesis
    using switch_to_asm_eq [OF assms(1)] switch_saved_words(2) [OF assms(1)] by (simp add: Let_def n thread_words_def add.assoc)
qed

text \<open>
  C14: \<open>switch_to\<close> of the machine is the one of the model. When the first word of every control block in
  \<open>T\<close> holds the thread's saved stack pointer and a call is about to be made with 4 bytes less for the
  return address, afterwards the words and the stack pointer are those of the model's \<open>switch_to\<close>.
\<close>

theorem switch_to_refines:
  fixes t :: "'a threads_scheme"
  assumes "at_switch s ret cur nxt" and "xesp s = esp t - 4" and "cur \<in> T" and "nxt \<in> T"
    and "\<forall>th \<in> T. load32 (xmem s) th = self_kstack (tasks t th)"
    and "\<forall>th \<in> T. region th 4 \<inter> region (xesp s - 16) 16 = {} \<and> (th \<noteq> cur \<longrightarrow> region th 4 \<inter> region cur 4 = {})"
  shows "xesp (switch_to_asm s) = esp (switch_to cur nxt t) \<and>
    (\<forall>th \<in> T. load32 (xmem (switch_to_asm s)) th = self_kstack (tasks (switch_to cur nxt t) th))"
proof -
  let ?m = "switch_saved s cur"
  have m: "xmem (switch_to_asm s) = ?m" "xesp (switch_to_asm s) = load32 ?m nxt + 20"
    using switch_to_asm_eq [OF assms(1)] by (simp_all add: Let_def)
  have self: "self_kstack (tasks (switch_to cur nxt t) th) = (if th = cur then esp t - 20 else self_kstack (tasks t th))" for th
    by (simp add: switch_to_def upd_task_def Let_def)
  have words: "load32 ?m th = self_kstack (tasks (switch_to cur nxt t) th)" if th: "th \<in> T" for th
  proof (cases "th = cur")
    case True
    then show ?thesis using switch_saved_words(2) [OF assms(1)] assms(2) by (simp add: self)
  next
    case False
    then have "load32 ?m th = load32 (xmem s) th"
      using assms(6) th by (intro load32_cong switch_saved_outside) blast
    then show ?thesis using False th assms(5) by (simp add: self)
  qed
  have "esp (switch_to cur nxt t) = self_kstack (tasks (switch_to cur nxt t) nxt) + 20"
    by (simp add: switch_to_def upd_task_def Let_def)
  then show ?thesis using m words assms(4) by simp
qed

section \<open>Samples\<close>

definition push_all :: "u32 list \<Rightarrow> machine \<Rightarrow> machine" where
  "push_all ws s = foldr push ws s"

lemma push_all_frame:
  "gregs (push_all ws s) = gregs s" "xesp (push_all ws s) = xesp s - of_nat (4 * length ws)"
  unfolding push_all_def by (induction ws) simp_all

lemma push_all_stacked: "length ws < 2 ^ 29 \<Longrightarrow> stacked (push_all ws s) ws"
  unfolding push_all_def by (induction ws) (simp_all add: stacked_push)

lemma push_all_outside: "a \<notin> region (xesp s - of_nat (4 * length ws)) (4 * length ws) \<Longrightarrow> xmem (push_all ws s) a = xmem s a"
proof (induction ws)
  case Nil
  then show ?case by (simp add: push_all_def)
next
  case (Cons w ws)
  let ?p = "xesp s - of_nat (4 * length (w # ws))"
  have r: "region ?p (4 * length (w # ws)) = region ?p 4 \<union> region (xesp s - of_nat (4 * length ws)) (4 * length ws)"
    using region_word [of ?p "length ws"] by simp
  have "push_all (w # ws) s = push w (push_all ws s)" by (simp add: push_all_def)
  moreover have p: "xesp (push_all ws s) - 4 = ?p" by (simp add: push_all_frame)
  have "xmem (push w (push_all ws s)) a = xmem (push_all ws s) a"
    by (rule push_outside) (use Cons.prems r in \<open>simp only: p Un_iff simp_thms de_Morgan_disj\<close>)
  ultimately show ?case using Cons r by simp
qed

definition sample_machine :: machine where
  "sample_machine = \<lparr>gregs = \<lparr>r_edi = 1, r_esi = 2, r_ebp = 3, r_ebx = 4, r_edx = 5, r_ecx = 6, r_eax = 7, r_gs = 0, r_fs = 0x33,
     r_es = 0x33, r_ds = 0x33, r_eip = 0xc0001600, r_cs = 0x2b, r_ss = 0x33\<rparr>, xesp = 0xc0000000, xeflags = 0x202,
     xmem = (\<lambda>_. 0), xports = []\<rparr>"

lemma interrupt_roundtrip_witness:
  "intr_exit_asm ((entry_stub 0x20 (cpu_interrupt 0x20 0 0xc009f000 sample_machine))\<lparr>xeflags := 0\<rparr>) =
    (entry_stub 0x20 (cpu_interrupt 0x20 0 0xc009f000 sample_machine))\<lparr>gregs := gregs sample_machine, xeflags := 0x202, xesp := 0xc0000000\<rparr>"
proof -
  have "vector_flag 0x20 = 0 \<longleftrightarrow> \<not> cpu_error_code 0x20" by (simp add: vector_flag_def cpu_error_code_def)
  from interrupt_roundtrip [OF this refl, of "(entry_stub 0x20 (cpu_interrupt 0x20 0 0xc009f000 sample_machine))\<lparr>xeflags := 0\<rparr>" 0
      "0xc009f000" sample_machine]
  show ?thesis by (simp add: sample_machine_def)
qed

lemma stack_fault_shifted_witness:
  "r_eip (gregs (intr_exit_asm (entry_stub 0x0c (cpu_interrupt 0x0c 0 0xc009f000 sample_machine)))) = 0 \<and>
    r_cs (gregs (intr_exit_asm (entry_stub 0x0c (cpu_interrupt 0x0c 0 0xc009f000 sample_machine)))) = 0xc0001600"
  using stack_fault_shifted [OF refl refl, of 0 "0xc009f000" sample_machine] by (simp add: sample_machine_def)

text \<open>Thread \<open>0x1000\<close> calls \<open>switch_to\<close> with \<open>0x2000\<close> as the next thread; later \<open>0x2000\<close> calls it the other way.\<close>

definition sample_call :: "mem \<Rightarrow> u32 \<Rightarrow> u32 \<Rightarrow> u32 \<Rightarrow> u32 \<Rightarrow> machine" where
  "sample_call m sp ret cur nxt = push_all [ret, cur, nxt] (sample_machine\<lparr>xmem := m, xesp := sp\<rparr>)"

lemma sample_call_fields:
  "xesp (sample_call m sp ret cur nxt) = sp - 12" "gregs (sample_call m sp ret cur nxt) = gregs sample_machine"
  "stacked (sample_call m sp ret cur nxt) [ret, cur, nxt]"
  "a \<notin> region (sp - 12) 12 \<Longrightarrow> xmem (sample_call m sp ret cur nxt) a = m a"
  using push_all_outside [of a "sample_machine\<lparr>xmem := m, xesp := sp\<rparr>" "[ret, cur, nxt]"]
  by (simp_all add: sample_call_def push_all_frame push_all_stacked)

lemma switch_resumes_witness:
  "\<exists>s1 s2. r_eip (gregs (switch_to_asm s2)) = 0xc0001800 \<and> xesp (switch_to_asm s2) = xesp s1 + 4 \<and>
    r_ebx (gregs (switch_to_asm s2)) = r_ebx (gregs s1) \<and> xmem s2 0x1000 = xmem (switch_to_asm s1) 0x1000"
proof -
  define s1 where "s1 = sample_call (\<lambda>_. 0) 0x1f00 0xc0001800 0x1000 0x2000"
  define s2 where "s2 = sample_call (xmem (switch_to_asm s1)) 0x2f00 0xc0001900 0x2000 0x1000"
  have x: "xesp s1 = 0x1ef4" "xesp s2 = 0x2ef4" by (simp_all add: s1_def s2_def sample_call_fields)
  have a1: "at_switch s1 0xc0001800 0x1000 0x2000"
    unfolding at_switch_def x using regions_apart by (simp add: s1_def sample_call_fields)
  have a2: "at_switch s2 0xc0001900 0x2000 0x1000"
    unfolding at_switch_def x using regions_apart by (simp add: s2_def sample_call_fields)
  have kept: "xmem s2 a = xmem (switch_to_asm s1) a" if "a \<in> region 0x1000 4 \<union> region (xesp s1 - 16) 20" for a
    unfolding s2_def by (rule sample_call_fields(4)) (use that in \<open>auto simp: x region_atLeastLessThan\<close>)
  have "(region 0x1000 4 \<union> region (xesp s1 - 16) 20) \<inter> (region 0x2000 4 \<union> region (xesp s2 - 16) 16) = {}"
    by (auto simp: x region_atLeastLessThan)
  then have "r_eip (gregs (switch_to_asm s2)) = 0xc0001800 \<and> xesp (switch_to_asm s2) = xesp s1 + 4 \<and>
    r_ebx (gregs (switch_to_asm s2)) = r_ebx (gregs s1)"
    using switch_resumes [OF a1 a2] kept by blast
  moreover have "xmem s2 0x1000 = xmem (switch_to_asm s1) 0x1000" by (rule kept) simp
  ultimately show ?thesis by blast
qed

lemma new_thread_starts_witness:
  "\<exists>s. r_eip (gregs (switch_to_asm s)) = 0xc0001700 \<and> words_at (xmem (switch_to_asm s)) 0x2e94 [0, 0xc0001600, 5]"
proof -
  define k where "k = \<lparr>ts_ebp = 0, ts_ebx = 0, ts_edi = 0, ts_esi = 0, ts_eip = 0xc0001700, ts_unused_retaddr = 0, ts_function = 0xc0001600,
    ts_func_arg = 5\<rparr>"
  define m where "m = store32 (xmem (push_all (thread_words k) (sample_machine\<lparr>xesp := 0x2ea0\<rparr>))) 0x2000 0x2e80"
  define s where "s = sample_call m 0x1f00 0xc0001800 0x1000 0x2000"
  have x: "xesp s = 0x1ef4" by (simp add: s_def sample_call_fields)
  have a: "at_switch s 0xc0001800 0x1000 0x2000"
    unfolding at_switch_def x using regions_apart by (simp add: s_def sample_call_fields)
  have kept: "xmem s b = m b" if "b \<in> region 0x2000 4 \<union> region 0x2e80 32" for b
    unfolding s_def by (rule sample_call_fields(4)) (use that in \<open>auto simp: region_atLeastLessThan\<close>)
  have "load32 (xmem s) 0x2000 = load32 m 0x2000" by (rule load32_cong) (simp add: kept)
  then have l: "load32 (xmem s) 0x2000 = 0x2e80" by (simp add: m_def load32_store32_same)
  have "stacked (push_all (thread_words k) (sample_machine\<lparr>xesp := 0x2ea0\<rparr>)) (thread_words k)"
    by (rule push_all_stacked) simp
  then have "words_at (xmem (push_all (thread_words k) (sample_machine\<lparr>xesp := 0x2ea0\<rparr>))) 0x2e80 (thread_words k)"
    by (simp add: stacked_def push_all_frame)
  then have "words_at (xmem s) 0x2e80 (thread_words k)"
    by (rule words_at_cong) (simp add: kept, simp add: m_def store32_outside region_atLeastLessThan)
  moreover have "(region 0x2000 4 \<union> region 0x2e80 32) \<inter> (region 0x1000 4 \<union> region (xesp s - 16) 16) = {}"
    by (auto simp: x region_atLeastLessThan)
  ultimately have "r_eip (gregs (switch_to_asm s)) = 0xc0001700 \<and> words_at (xmem (switch_to_asm s)) (0x2e80 + 20) [0, 0xc0001600, 5]"
    using new_thread_starts [OF a l, of k] by (simp add: k_def)
  then show ?thesis by auto
qed

lemma switch_to_refines_witness:
  "\<exists>s. xesp (switch_to_asm s) = esp (switch_to 0x1000 0x2000 sample_threads) \<and>
    load32 (xmem (switch_to_asm s)) 0x1000 = self_kstack (tasks (switch_to 0x1000 0x2000 sample_threads) 0x1000)"
proof -
  define m where "m = store32 (store32 (\<lambda>_. 0) 0x1000 0x1e50) 0x2000 0x2e50"
  define s where "s = sample_call m 0x1f88 0xc0001800 0x1000 0x2000"
  have x: "xesp s = 0x1f7c" by (simp add: s_def sample_call_fields)
  have a: "at_switch s 0xc0001800 0x1000 0x2000"
    unfolding at_switch_def x using regions_apart by (simp add: s_def sample_call_fields)
  have kept: "load32 (xmem s) th = load32 m th" if "th \<in> {0x1000, 0x2000}" for th
    unfolding s_def using that
    by (intro load32_cong sample_call_fields(4)) (auto simp: region_atLeastLessThan)
  have m: "load32 m 0x1000 = 0x1e50" "load32 m 0x2000 = 0x2e50"
    unfolding m_def using regions_apart by (simp_all add: load32_store32_other load32_store32_same)
  have "\<forall>th \<in> {0x1000, 0x2000}. load32 (xmem s) th = self_kstack (tasks sample_threads th)"
    using kept m by (simp add: sample_threads_def sample_task_def)
  moreover have "\<forall>th \<in> {0x1000, 0x2000}. region th 4 \<inter> region (xesp s - 16) 16 = {} \<and> (th \<noteq> 0x1000 \<longrightarrow> region th 4 \<inter> region 0x1000 4 = {})"
    using regions_apart by (simp add: x)
  moreover have "xesp s = esp sample_threads - 4" by (simp add: x sample_threads_def)
  ultimately show ?thesis using switch_to_refines [OF a, of sample_threads "{0x1000, 0x2000}"] by auto
qed

end
