(* ===== verification/FirstProcess.thy ===== *)
theory FirstProcess
  imports Startup StackFrames
begin

text \<open>
  The first run of a process: \<open>start_process\<close> gives it a stack page from the user pool and leaves
  the kernel through \<open>intr_exit\<close>. Where the table of descriptors is mapped it enters its program at
  the outer privilege level; where it is not, as \<open>tss_init\<close> and \<open>create_page_dir\<close> leave it, the
  first segment that \<open>intr_exit\<close> loads is a page fault.
\<close>

section \<open>Loading segments\<close>

definition table_mapped :: "'a segments_scheme \<Rightarrow> bool" where
  "table_mapped s \<longleftrightarrow> (\<forall>j < 56. PDE_IDX (gdtr_base s + of_nat j) \<noteq> 1023 \<and> mmu (phys s) (cr3 s) (gdtr_base s + of_nat j) \<noteq> None)"

lemma read_descriptor_mapped:
  assumes "table_mapped s" and "gdtr_limit s = 55" and "sel AND 0xfff8 = of_nat i" and "i \<le> 48"
  shows "read_descriptor sel s = Inr ()"
proof -
  have "unat (of_nat i :: u32) = i" using assms(4) by (intro unat_of_nat32) simp
  moreover have eq: "gdtr_base s + of_nat i + 4 = gdtr_base s + of_nat (i + 4)" by (simp add: add.assoc)
  have "mmu (phys s) (cr3 s) (gdtr_base s + of_nat j) \<noteq> None" if "j < 56" for j
    using assms(1) that by (simp add: table_mapped_def)
  from this [of i] this [of "i + 4"] obtain y z where "mmu (phys s) (cr3 s) (gdtr_base s + of_nat i) = Some y"
    "mmu (phys s) (cr3 s) (gdtr_base s + of_nat i + 4) = Some z"
    using assms(4) unfolding eq by auto
  ultimately show ?thesis
    using assms(2,4) by (simp add: read_descriptor_def assms(3) Let_def vload32_def translate_def)
qed

text \<open>The frame that \<open>start_process\<close> builds.\<close>

definition user_frame :: "u32 \<Rightarrow> intr_stack \<Rightarrow> intr_stack" where
  "user_frame filename k = k\<lparr>is_edi := 0, is_esi := 0, is_ebp := 0, is_esp_dummy := 0,
     is_ebx := 0, is_edx := 0, is_ecx := 0, is_eax := 0, is_gs := 0, is_ds := 0x33, is_es := 0x33, is_fs := 0x33,
     is_eip := filename, is_cs := 0x2b, is_eflags := 0x200, is_esp := 0xc0000000, is_ss := 0x33\<rparr>"

definition user_regs :: "u32 \<Rightarrow> regs" where
  "user_regs filename = \<lparr>r_edi = 0, r_esi = 0, r_ebp = 0, r_ebx = 0, r_edx = 0, r_ecx = 0, r_eax = 0, r_gs = 0,
     r_fs = 0x33, r_es = 0x33, r_ds = 0x33, r_eip = filename, r_cs = 0x2b, r_ss = 0x33\<rparr>"

lemma selectors:
  "(0x33 :: u32) AND 0xfffc = 0x30" "(0x2b :: u32) AND 0xfffc = 0x28"
  "(0x33 :: u32) AND 0xfff8 = of_nat 48" "(0x2b :: u32) AND 0xfff8 = of_nat 40"
  by simp_all

lemma intr_exit_mapped:
  assumes "table_mapped s" and "gdtr_limit s = 55" and "intr_stacks s p = user_frame filename k"
  shows "intr_exit p s = Inr (s\<lparr>cpu_regs := user_regs filename, eflags := 0x200, esp := 0xc0000000\<rparr>)"
proof -
  have "read_descriptor 0x33 s = Inr ()" "read_descriptor 0x2b s = Inr ()"
    by (rule read_descriptor_mapped [OF assms(1,2) selectors(3)] read_descriptor_mapped [OF assms(1,2) selectors(4)]; simp)+
  then show ?thesis
    by (simp add: intr_exit_def Let_def assms(3) user_frame_def user_regs_def load_data_segment_def load_inner_segment_def)
qed

lemma intr_exit_unmapped:
  assumes "mmu (phys s) (cr3 s) (gdtr_base s + 0x30) = None" and "gdtr_limit s = 55" and "intr_stacks s p = user_frame filename k"
  shows "intr_exit p s = Inl (PageFault (gdtr_base s + 0x30))"
  using assms by (simp add: intr_exit_def Let_def user_frame_def load_data_segment_def read_descriptor_def vload32_def translate_def)

section \<open>The call\<close>

definition stack_page :: u32 where
  "stack_page = 0xbffff000"

lemma stack_page_fields: "PDE_IDX stack_page = 767" "unat stack_page < 0xc0000000"
  by (simp_all add: stack_page_def PDE_IDX_def)

text \<open>A process that has not run yet.\<close>

definition process_fresh :: "'a memory_scheme \<Rightarrow> bool" where
  "process_fresh s \<longleftrightarrow> user_ready s \<and> addr_start (userprog_vaddr (tasks s (running_thread s))) = USER_VADDR_START \<and>
     bm_length (own_bitmap s) = user_bitmap_length \<and> mmu (phys s) (cr3 s) stack_page = None"

lemma start_process_page:
  fixes s :: "'a processes_scheme"
  assumes fresh: "process_fresh s"
  obtains m' km' k ps s' where "start_process filename s = intr_exit ps s'" and "page_given s stack_page k m' km'"
    and "intr_stacks s' ps = user_frame filename (intr_stacks s ps)"
    and "phys s' = m'" "cr3 s' = cr3 s" "gdtr_base s' = gdtr_base s" "gdtr_limit s' = gdtr_limit s"
    and "lock_available (plock (user_pool s)) s'"
proof -
  let ?cur = "running_thread s"
  define s1 where "s1 = upd_task ?cur (\<lambda>t. t\<lparr>self_kstack := self_kstack t + 4 * 32\<rparr>) s"
  define ps where "ps = self_kstack (tasks s1 ?cur)"
  define fr where "fr = (intr_stacks s1 ps)\<lparr>is_edi := 0, is_esi := 0, is_ebp := 0, is_esp_dummy := 0,
    is_ebx := 0, is_edx := 0, is_ecx := 0, is_eax := 0, is_gs := 0, is_ds := 0x33, is_es := 0x33, is_fs := 0x33,
    is_eip := filename, is_cs := 0x2b, is_eflags := 0 OR push_bit 9 1\<rparr>"
  define s2 where "s2 = s1\<lparr>intr_stacks := (intr_stacks s1)(ps := fr)\<rparr>"
  have same: "phys s2 = phys s" "cr3 s2 = cr3 s" "kmem s2 = kmem s" "kernel_pool s2 = kernel_pool s" "user_pool s2 = user_pool s"
    "running_thread s2 = ?cur" "pgdir (tasks s2 ?cur) = pgdir (tasks s ?cur)" "userprog_vaddr (tasks s2 ?cur) = userprog_vaddr (tasks s ?cur)"
    "gdtr_base s2 = gdtr_base s" "gdtr_limit s2 = gdtr_limit s" "intr_stacks s2 ps = fr" "intr_stacks s1 = intr_stacks s"
    "lock_available l s2 = lock_available l s" for l
    by (simp_all add: s2_def s1_def upd_task_def running_thread_def lock_available_def list_empty_def)
  have u: "user_free s2 = user_free s" "own_bitmap s2 = own_bitmap s" "user_index s2 = user_index s" "table_source s2 = table_source s"
    by (simp_all add: user_free_def own_bitmap_def user_index_def table_source_def same fun_eq_iff)
  have ready: "user_ready s2" using fresh by (simp add: process_fresh_def user_ready_def same u)
  have idx: "user_index s stack_page = 0xb7fb7"
    using fresh by (simp add: process_fresh_def user_index_def stack_page_def USER_VADDR_START_def PG_SIZE_def)
  have bits: "unat (user_index s stack_page) < bm_bits_count (own_bitmap s)"
    using fresh by (simp add: idx process_fresh_def bm_bits_count_def user_bitmap_length_def USER_VADDR_START_def PG_SIZE_def)
  have none: "mmu (phys s2) (cr3 s2) stack_page = None" using fresh by (simp add: process_fresh_def same)
  obtain m' km' k where G: "get_a_page USER_POOL stack_page s2 = Inr (stack_page, s2\<lparr>phys := m', kmem := km'\<rparr>)"
    "page_given s2 stack_page k m' km'"
    by (rule get_a_page_user [OF ready _ _ _ none, unfolded u]) (use bits stack_page_fields in \<open>simp_all add: idx\<close>)
  let ?s3 = "s2\<lparr>phys := m', kmem := km'\<rparr>"
  define s' where "s' = ?s3\<lparr>intr_stacks := (intr_stacks ?s3)(ps := (intr_stacks ?s3 ps)\<lparr>is_esp := stack_page + PG_SIZE, is_ss := 0x33\<rparr>)\<rparr>"
  have run: "start_process filename s = intr_exit ps s'"
    using G(1) unfolding start_process_def s1_def [symmetric] Let_def ps_def [symmetric] fr_def [symmetric] s2_def [symmetric] stack_page_def
    by (simp add: s'_def stack_page_def)
  show thesis
  proof (rule that [OF run])
    show "page_given s stack_page k m' km'" using G(2) by (simp add: page_given_def u same)
    show "intr_stacks s' ps = user_frame filename (intr_stacks s ps)"
      by (simp add: s'_def same fr_def user_frame_def stack_page_def PG_SIZE_def)
    have "lock_available l s' = lock_available l s2" for l
      by (simp add: s'_def lock_available_def running_thread_def list_empty_def)
    then show "lock_available (plock (user_pool s)) s'" using fresh by (simp add: same process_fresh_def user_ready_def)
  qed (simp_all add: s'_def same)
qed

section \<open>From the start of the machine\<close>

lemma spawned_process:
  fixes s :: "'a processes_scheme"
  assumes sp: "spawned T spc s cur rs as fn s' t f" and user: "user_fresh s"
    and low: "\<And>a. unat a < 0xc0100000 \<Longrightarrow> in_use s a" and pages: "26 \<le> card (free_pages s)"
    and x: "phys x = phys s'" "cr3 x = f" "kmem x = kmem s'" "kernel_pool x = kernel_pool s'" "user_pool x = user_pool s'"
      "running_thread x = t" "pgdir (tasks x t) = pgdir (tasks s' t)" "userprog_vaddr (tasks x t) = userprog_vaddr (tasks s' t)"
    and lock: "lock_available (plock (user_pool s)) x"
  shows "process_fresh x"
proof -
  have fs: "fresh_space s s' t f" and pools: "user_pool s' = user_pool s" "kernel_pool s' = kernel_pool s"
    and none: "\<And>v. unat v < 0xc0000000 \<Longrightarrow> mmu (phys s') f v = None" using sp by (simp_all add: spawned_def)
  note D = fresh_spaceD [OF fs]
  let ?ub = "addr_bitmap (userprog_vaddr (tasks s' t))" and ?up = "pool_bitmap (user_pool s)" and ?kp = "pool_bitmap (kernel_pool s)"
  have F: "keeps_used s (kmem s')" "bm_length ?ub = user_bitmap_length" "bitmaps_apart ?ub ?kp"
    and new: "\<And>a. a \<in> region (bm_bits ?ub) (unat (bm_length ?ub)) \<Longrightarrow> \<not> in_use s a" using fs by (simp_all add: fresh_space_def Let_def)
  have U: "pool_ok (user_pool s)" "phy_addr_start (user_pool s) \<noteq> 0" "user_free s \<noteq> {}" "bitmaps_apart ?up ?kp"
    "bitmaps_apart ?up (addr_bitmap (kernel_vaddr s))"
    and use: "\<And>a. a \<in> region (bm_bits ?up) (unat (bm_length ?up)) \<Longrightarrow> in_use s a"
    using user low by (simp_all add: user_fresh_def)
  have own: "own_bitmap x = ?ub" by (simp add: own_bitmap_def x)
  have "bitmaps_apart ?ub ?up" using new use by (auto simp: bitmaps_apart_def)
  moreover have "user_free x = user_free s"
  proof -
    have "kmem s' a = kmem s a" if a: "a \<in> region (bm_bits ?up) (unat (bm_length ?up))" for a
      using F(1) use [OF a] U(4,5) a unfolding keeps_used_def bitmaps_apart_def by blast
    then have "bit_set (kmem s') ?up i = bit_set (kmem s) ?up i" if "i < bm_bits_count ?up" for i
      using that by (intro bit_set_cong_region)
    then show ?thesis by (auto simp: user_free_def x pools)
  qed
  moreover have P: "pool_ready (s'\<lparr>cr3 := f\<rparr>)" using D(2) by (simp add: heap_ready_def)
  then have "space_ok (phys x) (cr3 x)" by (simp add: pool_ready_def kernel_tables_def x)
  moreover have "table_source x"
  proof -
    have "free_pages s' \<noteq> {}" using D(4) pages by auto
    moreover have "free_pages (s'\<lparr>cr3 := f\<rparr>) = free_pages s'" by (simp add: free_pages_def)
    ultimately show ?thesis using P unfolding pool_ready_def table_source_def by (auto simp: free_pages_def x)
  qed
  moreover have "mmu (phys x) (cr3 x) stack_page = None" using none stack_page_fields by (simp add: x)
  ultimately show ?thesis
    using U(1-4) F(2,3) D(3,5) lock unfolding process_fresh_def user_ready_def own x(6-8) by (simp add: x pools)
qed

text \<open>The wait list of a lock that was there before, after the new thread has joined and got the processor.\<close>

lemma spawned_lock:
  fixes s :: "'a processes_scheme"
  assumes sp: "spawned {p} spc s p [] [p] fn s' t f" and free: "lock_free l s"
    and use: "in_use s (head_of (waiters (semaphore_of l)))" "in_use s (tail_of (waiters (semaphore_of l)))"
    and apart: "lock_nodes l \<inter> {head_of (thread_ready_list s), tail_of (thread_ready_list s), head_of (thread_all_list s),
      tail_of (thread_all_list s), general_tag p, all_list_tag p} = {}"
    and sched: "sched_frame (list_nodes (thread_ready_list s') (map general_tag [t, p])) s' s2" "threads.more s2 = threads.more s'"
  shows "lock_free l s2"
proof -
  have S: "thread_ready_list s' = thread_ready_list s" "holder s' = holder s" "holder_repeat_nr s' = holder_repeat_nr s"
    "sem_value s' = sem_value s"
    and links: "\<And>A. (\<forall>a \<in> A. in_use s a) \<Longrightarrow> A \<inter> (list_nodes (thread_ready_list s) (map general_tag []) \<union>
      list_nodes (thread_all_list s) (map all_list_tag [p])) = {} \<Longrightarrow> same_links A s s'"
    and tag: "\<And>a. in_use s a \<Longrightarrow> a \<noteq> general_tag t"
    using sp by (simp_all add: spawned_def)
  have nodes: "list_nodes (waiters (semaphore_of l)) [] = lock_nodes l" by (auto simp: list_nodes_def lock_nodes_def)
  have "same_links (lock_nodes l) s s'"
    by (rule links) (use use apart in \<open>auto simp: lock_nodes_def list_nodes_def\<close>)
  then have wl: "is_list s' (waiters (semaphore_of l)) []"
    using free is_list_same_links unfolding nodes [symmetric] by (auto simp: lock_free_def)
  have "list_nodes (waiters (semaphore_of l)) [] \<inter> list_nodes (thread_ready_list s') (map general_tag [t, p]) = {}"
    unfolding nodes using apart tag [OF use(1)] tag [OF use(2)] by (auto simp: S(1) list_nodes_def lock_nodes_def)
  then have "is_list s2 (waiters (semaphore_of l)) []" using sched(1) wl unfolding sched_frame_def keeps_lists_def by blast
  moreover have "holder s2 = holder s'" "holder_repeat_nr s2 = holder_repeat_nr s'" "sem_value s2 = sem_value s'"
    using more_eqD [OF sched(2)] by simp_all
  ultimately show ?thesis using free by (simp add: lock_free_def S(2-4))
qed

lemma first_run:
  fixes s :: "'a kernel_scheme"
  assumes pw: "powered mem gdt s"
  obtains s1 s2 s3 t where "main s = Inr s1" and "schedule s1 = Inr s2" and "run_frame s2 = Some (Inr s3)"
    and "running_thread s3 = t" "t \<noteq> running_thread s" "intr_get_status s3 = INTR_ON" and "process_fresh s3"
    and "gdtr_base s3 = gdt" "gdtr_limit s3 = 55" "frames s1 t = [KernelThread]"
    and "ts_function (kstacks s1 (self_kstack (tasks s1 t))) = start_process_addr s"
      "ts_func_arg (kstacks s1 (self_kstack (tasks s1 t))) = u_prog_a_addr s"
    and "\<And>v. unat v < 0xc0000000 \<Longrightarrow> \<not> present (load32 (phys s3) (pde_addr (cr3 s3) v))"
    and "\<And>v. unat v < 0x100000 \<Longrightarrow> mmu (phys s3) (cr3 s3) (0xc0000000 + v) = Some v"
proof -
  let ?p = "running_thread s" and ?l = "plock (user_pool s)"
  obtain s0 s1 t f where M: "main s = Inr s1" "spawned {?p} (\<lambda>_. 0x100000) s0 ?p [] [?p] (u_prog_a_addr s) s1 t f"
    "gdtr_base s1 = gdt" "gdtr_limit s1 = 55" "settled s (s0\<lparr>eflags := eflags s\<rparr>)" "heap_fresh s0" "user_fresh s0" "lock_free ?l s0"
    "\<And>v p. PDE_IDX v \<noteq> 1023 \<Longrightarrow> mmu (phys s) (cr3 s) v = Some p \<Longrightarrow> mmu (phys s0) (cr3 s0) v = Some p"
    by (rule main_run [OF pw]) blast
  have st: "thread_ready_list s0 = thread_ready_list s" "thread_all_list s0 = thread_all_list s" "plock (user_pool s0) = ?l"
    "start_process_addr s0 = start_process_addr s" using M(5) by (simp_all add: settled_def)
  have S: "t \<noteq> ?p" "sched_inv {t, ?p} ((\<lambda>_. 0x100000)(t := f)) s1 ?p [t]" "frames s1 t = [KernelThread]" "t \<noteq> NULL" "fresh_space s0 s1 t f"
    "cr3 s1 = cr3 s0" "user_pool s1 = user_pool s0" "\<And>v. kern v \<Longrightarrow> mmu (phys s1) f v = mmu (phys s1) (cr3 s1) v"
    using M(2) by (simp_all add: spawned_def)
  obtain s2 where C: "schedule s1 = Inr s2" "sched_inv {t, ?p} ((\<lambda>_. 0x100000)(t := f)) s2 t [?p]" "cr3 s2 = f"
    "sched_frame (list_nodes (thread_ready_list s1) (map general_tag [t, ?p])) s1 s2"
    by (rule schedule_inv [OF S(2)]) simp
  have more: "threads.more s2 = threads.more s1" by (rule schedule_more [OF C(1)])
  have run2: "running_thread s2 = t" using C(2) by (simp add: sched_inv_def)
  have same2: "phys s2 = phys s1" "pgdir (tasks s2 t) = pgdir (tasks s1 t)" "userprog_vaddr (tasks s2 t) = userprog_vaddr (tasks s1 t)"
    using C(4) by (simp_all add: sched_frame_def)
  have m2: "frames s2 = frames s1" "kmem s2 = kmem s1" "kernel_pool s2 = kernel_pool s1" "user_pool s2 = user_pool s1"
    "gdtr_base s2 = gdtr_base s1" "gdtr_limit s2 = gdtr_limit s1" using more by (cases s1; cases s2; simp)+
  have low: "in_use s0 a" if "unat a < 0xc0100000" for a using M(6) that by (intro in_use_low) (simp_all add: heap_fresh_def)
  have "unat a < 0xc0100000" if "a \<in> lock_nodes ?l" for a
    using pw that unfolding powered_def link_nodes_def lock_lists_def lock_nodes_def by auto
  then have "lock_free ?l s2"
    using layoutD(1) [OF powered_layout [OF pw], of ?l]
    by (intro spawned_lock [OF M(2,8) _ _ _ C(4) more] low) (simp_all add: lock_nodes_def st)
  obtain e where e: "snd (intr_enable (s2\<lparr>frames := (frames s2)(t := [])\<rparr>)) = s2\<lparr>frames := (frames s2)(t := []), eflags := e\<rparr>" "bit e 9"
    by (rule intr_enable_same [of "s2\<lparr>frames := (frames s2)(t := [])\<rparr>"]) simp
  define s3 where "s3 = s2\<lparr>frames := (frames s2)(t := []), eflags := e\<rparr>"
  have run: "run_frame s2 = Some (Inr s3)" using S(3) e(1) by (simp add: run_frame_def run2 m2(1) s3_def)
  have run3: "running_thread s3 = t" using run2 by (simp add: s3_def running_thread_def)
  have frames3: "frames s3 t = []" by (simp add: s3_def)
  have "lock_free ?l s3" using \<open>lock_free ?l s2\<close> is_list_cong [of s3 s2] by (simp add: lock_free_def s3_def)
  then have lock: "lock_available (plock (user_pool s0)) s3"
    unfolding st(3) by (rule lock_free_available) (simp_all add: run3 S(4) frames3)
  have fresh: "process_fresh s3"
    by (rule spawned_process [OF M(2,7) low _ _ _ _ _ _ run3 _ _ lock])
      (use M(6) in \<open>simp_all add: s3_def C(3) same2 m2 heap_fresh_def\<close>)
  have absent: "\<not> present (load32 (phys s3) (pde_addr (cr3 s3) v))" if "unat v < 0xc0000000" for v
    using S(5) that by (simp add: fresh_space_def Let_def s3_def C(3) same2(1))
  have high: "mmu (phys s3) (cr3 s3) (0xc0000000 + v) = Some v" if v: "unat v < 0x100000" for v
  proof -
    have w: "unat (0xc0000000 + v) = 0xc0000000 + unat v" using v by (subst unat_add32) simp_all
    then have k: "kern (0xc0000000 + v)" using v by (simp add: kern_iff)
    have "mmu (phys s) (cr3 s) (0xc0000000 + v) = Some v" using pw loader_mmu_high [OF _ v] by (simp add: powered_def)
    then have "mmu (phys s1) (cr3 s0) (0xc0000000 + v) = Some v" by (intro fresh_spaceD(7) [OF S(5)] M(9) kern_not_window [OF k])
    then show ?thesis using S(8) [OF k] by (simp add: s3_def C(3) same2(1) S(6))
  qed
  show thesis
    by (rule that [OF M(1) C(1) run run3 S(1) _ fresh _ _ S(3) _ _ absent high])
      (use M(2-4) e(2) st(4) m2 in \<open>simp_all add: s3_def spawned_def intr_get_status_eq\<close>)
qed

section \<open>Properties\<close>

lemma page_given_keeps:
  assumes "page_given s v k m' km'"
  shows "PDE_IDX w \<noteq> 1023 \<Longrightarrow> mmu (phys s) (cr3 s) w = Some p \<Longrightarrow> mmu m' (cr3 s) w = Some p"
    and "same_page w v \<Longrightarrow> mmu m' (cr3 s) w = Some (page_frame (pool_page (user_pool s) k) + (w AND 0xfff))"
    and "PDE_IDX w \<noteq> PDE_IDX v \<Longrightarrow> \<not> present (load32 (phys s) (pde_addr (cr3 s) w)) \<Longrightarrow> mmu m' (cr3 s) w = None"
  using assms by (simp_all add: page_given_def maps_only_def mmu_def)

lemma start_process_enters:
  fixes s :: "'a processes_scheme"
  assumes fresh: "process_fresh s" and table: "table_mapped s" "gdtr_limit s = 55"
  obtains s' k where "start_process filename s = Inr s'" and "cpu_regs s' = user_regs filename" "eflags s' = 0x200" "esp s' = 0xc0000000"
    and "cr3 s' = cr3 s" and "k \<in> user_free s"
    and "\<And>w. same_page w stack_page \<Longrightarrow> mmu (phys s') (cr3 s) w = Some (page_frame (pool_page (user_pool s) k) + (w AND 0xfff))"
    and "\<And>w p. PDE_IDX w \<noteq> 1023 \<Longrightarrow> mmu (phys s) (cr3 s) w = Some p \<Longrightarrow> mmu (phys s') (cr3 s) w = Some p"
proof -
  obtain m' km' k ps s1 where P: "start_process filename s = intr_exit ps s1" "page_given s stack_page k m' km'"
    "intr_stacks s1 ps = user_frame filename (intr_stacks s ps)" "phys s1 = m'" "cr3 s1 = cr3 s" "gdtr_base s1 = gdtr_base s"
    "gdtr_limit s1 = gdtr_limit s"
    by (rule start_process_page [OF fresh])
  note K = page_given_keeps [OF P(2)]
  have "table_mapped s1"
    unfolding table_mapped_def P(4-6)
  proof (intro allI impI conjI)
    fix j :: nat assume j: "j < 56"
    show "PDE_IDX (gdtr_base s + of_nat j) \<noteq> 1023" using table(1) j by (simp add: table_mapped_def)
    obtain p where "mmu (phys s) (cr3 s) (gdtr_base s + of_nat j) = Some p" "PDE_IDX (gdtr_base s + of_nat j) \<noteq> 1023"
      using table(1) j by (auto simp: table_mapped_def)
    then show "mmu m' (cr3 s) (gdtr_base s + of_nat j) \<noteq> None" using K(1) by simp
  qed
  moreover have "gdtr_limit s1 = 55" using table(2) P(7) by simp
  ultimately have run: "start_process filename s = Inr (s1\<lparr>cpu_regs := user_regs filename, eflags := 0x200, esp := 0xc0000000\<rparr>)"
    unfolding P(1) using P(3) by (rule intr_exit_mapped)
  have k: "k \<in> user_free s" using P(2) by (simp add: page_given_def)
  show thesis by (rule that [OF run]) (simp_all add: P(4,5) k K(1,2))
qed


lemma table_offset:
  assumes "unat gdt + 56 \<le> 0x100000" and "j < 56"
  shows "unat ((gdt :: 32 word) + of_nat j) = unat gdt + j"
  using assms by (subst unat_add32) (simp_all add: unat_of_nat32)

lemma high_base:
  fixes s :: "'a processes_scheme"
  assumes fresh: "process_fresh s" and gdt: "unat gdt + 56 \<le> 0x100000"
    and high: "\<And>v. unat v < 0x100000 \<Longrightarrow> mmu (phys s) (cr3 s) (0xc0000000 + v) = Some v"
  shows "process_fresh (s\<lparr>gdtr_base := 0xc0000000 + gdt\<rparr>)" and "table_mapped (s\<lparr>gdtr_base := 0xc0000000 + gdt\<rparr>)"
proof -
  let ?h = "s\<lparr>gdtr_base := 0xc0000000 + gdt\<rparr>"
  have "process_fresh ?h = process_fresh s"
    by (simp add: process_fresh_def user_ready_def user_free_def own_bitmap_def table_source_def lock_available_def list_empty_def
        running_thread_def)
  then show "process_fresh ?h" using fresh by simp
  show "table_mapped ?h"
    unfolding table_mapped_def
  proof (intro allI impI)
    fix j :: nat assume j: "j < 56"
    have w: "gdtr_base ?h + of_nat j = 0xc0000000 + (gdt + of_nat j)" by (simp add: add.assoc)
    have b: "unat (gdt + of_nat j) < 0x100000" using table_offset [OF gdt j] gdt j by simp
    then have "unat (0xc0000000 + (gdt + of_nat j)) = 0xc0000000 + unat (gdt + of_nat j)" by (subst unat_add32) simp_all
    then have "kern (0xc0000000 + (gdt + of_nat j))" using b by (simp add: kern_iff)
    then show "PDE_IDX (gdtr_base ?h + of_nat j) \<noteq> 1023 \<and> mmu (phys ?h) (cr3 ?h) (gdtr_base ?h + of_nat j) \<noteq> None"
      unfolding w using high [OF b] kern_not_window by simp
  qed
qed




text \<open>A frame for a process in the memory of the machine, and the same frame in the model.\<close>

lemma intr_exit_refines_witness:
  "\<exists>(s :: unit kernel_scheme) s' mc. intr_exit 0x9000 s = Inr s' \<and> gregs (intr_exit_asm mc) = cpu_regs s' \<and>
    xeflags (intr_exit_asm mc) = eflags s' \<and> xesp (intr_exit_asm mc) = esp s'"
proof -
  obtain s3 :: "unit kernel_scheme" where fresh: "process_fresh s3" and limit: "gdtr_limit s3 = 55"
    and high: "\<And>v. unat v < 0x100000 \<Longrightarrow> mmu (phys s3) (cr3 s3) (0xc0000000 + v) = Some v"
    using first_run [OF sample_powered] by metis
  have gdt: "unat (0xd40 :: 32 word) + 56 \<le> 0x100000" by simp
  define k where "k = user_frame 0xc0001600 (intr_stacks s3 0)"
  define s where "s = s3\<lparr>gdtr_base := 0xc0000000 + 0xd40, intr_stacks := (\<lambda>_. k)\<rparr>"
  have "table_mapped s" using high_base(2) [OF fresh gdt high] by (simp add: s_def table_mapped_def)
  moreover have "gdtr_limit s = 55" and "intr_stacks s 0x9000 = user_frame 0xc0001600 (intr_stacks s3 0)"
    using limit by (simp_all add: s_def k_def)
  ultimately have run: "intr_exit 0x9000 s = Inr (s\<lparr>cpu_regs := user_regs 0xc0001600, eflags := 0x200, esp := 0xc0000000\<rparr>)"
    by (rule intr_exit_mapped)
  define mc where "mc = push_all (is_vec_no k # frame_words k) (sample_machine\<lparr>xesp := 0x904c,
    gregs := (gregs sample_machine)\<lparr>r_cs := 8\<rparr>\<rparr>)"
  have k: "outer (is_cs k)" by (simp add: k_def user_frame_def outer_def)
  then have len: "length (is_vec_no k # frame_words k) = 19" by (simp add: frame_words_def inner_words_def)
  have sp: "xesp mc = 0x9000" unfolding mc_def push_all_frame len by simp
  have "stacked mc (is_vec_no k # frame_words k)" unfolding mc_def by (rule push_all_stacked) (simp only: len, simp)
  then have "words_at (xmem mc) (0x9000 + 4) (frame_words k)" by (simp add: stacked_def sp)
  moreover have "intr_stacks s 0x9000 = k" by (simp add: s_def)
  moreover have "r_cs (gregs mc) = 8" by (simp add: mc_def push_all_frame)
  ultimately show ?thesis using intr_exit_refines [OF run, of mc] k sp run by metis
qed

end
