(* ===== verification/ThreadStart.thy ===== *)
theory ThreadStart
  imports Startup
begin

text \<open>
  \<open>thread_start\<close> of \<open>kernel/thread.c\<close>: the control block comes from the kernel heap, the thread joins the
  two lists and will begin in \<open>kernel_thread\<close>. The invariant that it keeps lets any number of
  threads be started one after the other.
\<close>

section \<open>One thread\<close>

text \<open>
  \<open>spawn_ready\<close>, and the list of waiters of the lock of the kernel pool has no node of the lists of
  threads.
\<close>

definition start_ready :: "u32 set \<Rightarrow> (u32 \<Rightarrow> u32) \<Rightarrow> 'a processes_scheme \<Rightarrow> u32 \<Rightarrow> u32 list \<Rightarrow> u32 list \<Rightarrow> bool" where
  "start_ready T spc s cur rs as \<longleftrightarrow> spawn_ready T spc s cur rs as \<and>
     head_of (waiters (semaphore_of (plock (kernel_pool s)))) \<notin>
       list_nodes (thread_ready_list s) (map general_tag rs) \<union> list_nodes (thread_all_list s) (map all_list_tag as)"

text \<open>The free pages of the heap.\<close>

definition heap_free :: "'a memory_scheme \<Rightarrow> nat set" where
  "heap_free s = {x. x < bm_bits_count (addr_bitmap (kernel_vaddr s)) \<and> \<not> bit_set (kmem s) (addr_bitmap (kernel_vaddr s)) x}"

lemma heap_step_free:
  assumes "heap_step s s' {h} n"
  shows "card (heap_free s) = Suc (card (heap_free s'))"
proof -
  have "heap_free s' = heap_free s - {h}" and h: "h \<in> heap_free s" using assms by (auto simp: heap_step_def heap_free_def)
  moreover have "finite (heap_free s)" by (simp add: heap_free_def)
  ultimately show ?thesis using card_Suc_Diff1 [of "heap_free s" h] by simp
qed

text \<open>Thread \<open>t\<close> has not run yet: it will begin in \<open>kernel_thread\<close> and call \<open>fn\<close> on \<open>arg\<close>.\<close>

definition thread_waits :: "'a sync_scheme \<Rightarrow> u32 \<Rightarrow> u32 \<Rightarrow> u32 \<Rightarrow> u32 \<Rightarrow> bool" where
  "thread_waits s t prio fn arg \<longleftrightarrow> frames s t = [KernelThread] \<and> pgdir (tasks s t) = NULL \<and>
     priority (tasks s t) = ucast prio \<and> ticks (tasks s t) = ucast prio \<and> page_frame (self_kstack (tasks s t)) = t \<and>
     ts_eip (kstacks s (self_kstack (tasks s t))) = kernel_thread_addr s \<and>
     ts_function (kstacks s (self_kstack (tasks s t))) = fn \<and> ts_func_arg (kstacks s (self_kstack (tasks s t))) = arg"

text \<open>Between \<open>s\<close> and \<open>s'\<close> the other threads, and the stacks in their pages, have stayed as they were.\<close>

definition others_same :: "'a sync_scheme \<Rightarrow> 'a sync_scheme \<Rightarrow> u32 \<Rightarrow> bool" where
  "others_same s s' t \<longleftrightarrow> kernel_thread_addr s' = kernel_thread_addr s \<and>
     (\<forall>u. u \<noteq> t \<longrightarrow> tasks s' u = tasks s u \<and> frames s' u = frames s u) \<and> (\<forall>p. page_frame p \<noteq> t \<longrightarrow> kstacks s' p = kstacks s p)"

lemma thread_waits_other:
  "thread_waits s u prio fn arg \<Longrightarrow> others_same s s' t \<Longrightarrow> u \<noteq> t \<Longrightarrow> thread_waits s' u prio fn arg"
  by (simp add: thread_waits_def others_same_def)

text \<open>What \<open>thread_start\<close> has done when it returns.\<close>

definition start_built :: "'a processes_scheme \<Rightarrow> 'a processes_scheme \<Rightarrow> nat \<Rightarrow> u8 list \<Rightarrow> u32 \<Rightarrow> u32 \<Rightarrow> u32 \<Rightarrow>
    u32 list \<Rightarrow> u32 list \<Rightarrow> bool" where
  "start_built s s' h name prio fn arg rs as \<longleftrightarrow> (let t = heap_page s h in
     heap_step s s' {h} 1 \<and> tasks s' t = (new_task t name prio)\<lparr>self_kstack := t + 3664\<rparr> \<and>
     (esp s' = esp s \<and> cr3 s' = cr3 s \<and> thread_ready_list s' = thread_ready_list s \<and> thread_all_list s' = thread_all_list s) \<and>
     (main_thread s' = main_thread s \<and> kernel_pool s' = kernel_pool s \<and> kernel_vaddr s' = kernel_vaddr s) \<and>
     (eflags s' = eflags s \<and> kernel_thread_addr s' = kernel_thread_addr s) \<and>
     (\<forall>u. u \<noteq> t \<longrightarrow> tasks s' u = tasks s u \<and> frames s' u = frames s u) \<and>
     is_list s' (thread_ready_list s) (map general_tag (rs @ [t])) \<and> is_list s' (thread_all_list s) (map all_list_tag (as @ [t])) \<and>
     lock_available (plock (kernel_pool s)) s' \<and> frames s' t = [KernelThread] \<and>
     kstacks s' = (kstacks s)(t + 3664 := (kstacks s (t + 3664))\<lparr>ts_ebp := 0, ts_ebx := 0, ts_esi := 0, ts_edi := 0,
       ts_eip := kernel_thread_addr s, ts_function := fn, ts_func_arg := arg\<rparr>))"

lemma new_page:
  assumes "heap_step s s' {h} n" and "heap_ready s"
  shows "page_frame (heap_page s h) = heap_page s h" "heap_page s h \<noteq> NULL"
    and "\<And>a. in_use s a \<Longrightarrow> a \<noteq> heap_page s h \<and> a \<noteq> general_tag (heap_page s h) \<and> a \<noteq> all_list_tag (heap_page s h)"
    and "\<And>a. page_frame a = heap_page s h \<Longrightarrow> in_use s' a"
proof -
  have "h < bm_bits_count (addr_bitmap (kernel_vaddr s))" using assms(1) by (simp add: heap_step_def)
  then show "page_frame (heap_page s h) = heap_page s h" "heap_page s h \<noteq> NULL" using heap_page_facts [OF assms(2)] by simp_all
  show "a \<noteq> heap_page s h \<and> a \<noteq> general_tag (heap_page s h) \<and> a \<noteq> all_list_tag (heap_page s h)" if "in_use s a" for a
    using in_use_tags [OF assms(1) _ assms(2) that] by simp
  show "in_use s' a" if "page_frame a = heap_page s h" for a using new_in_use [OF assms(1) _ assms(2) that] by simp
qed

text \<open>The parts of the precondition that the construction uses.\<close>

lemma start_readyD:
  assumes "start_ready T spc s cur rs as"
  shows "heap_ready s" "lock_available (plock (kernel_pool s)) s" "in_use s (main_thread s)"
    "in_use s (head_of (waiters (semaphore_of (plock (kernel_pool s)))))" "in_use s (running_thread s)"
    "sched_inv T spc s cur rs" "is_list s (thread_ready_list s) (map general_tag rs)" "is_list s (thread_all_list s) (map all_list_tag as)"
    "list_nodes (thread_ready_list s) (map general_tag rs) \<inter> list_nodes (thread_all_list s) (map all_list_tag as) = {}"
    "main_thread s \<in> T"
    "head_of (waiters (semaphore_of (plock (kernel_pool s)))) \<notin>
      list_nodes (thread_ready_list s) (map general_tag rs) \<union> list_nodes (thread_all_list s) (map all_list_tag as)"
    "\<And>u. u \<in> T \<Longrightarrow> pgdir (tasks s u) = NULL \<and> in_use s u"
    "\<And>a. a \<in> list_nodes (thread_ready_list s) (map general_tag rs) \<union> list_nodes (thread_all_list s) (map all_list_tag as) \<Longrightarrow> in_use s a"
    "\<And>a b. b \<in> {pool_bitmap (kernel_pool s), addr_bitmap (kernel_vaddr s)} \<Longrightarrow> a \<in> region (bm_bits b) (unat (bm_length b)) \<Longrightarrow> in_use s a"
  using assms unfolding start_ready_def spawn_ready_def sched_inv_def by auto

lemma thread_start_build:
  fixes s :: "'a processes_scheme"
  assumes ready: "start_ready T spc s cur rs as" and name: "length name < 16"
    and heap: "heap_free s \<noteq> {}" and pages: "free_pages s \<noteq> {}"
  obtains h s' where "thread_start name prio fn arg s = Inr (heap_page s h, s')" and "start_built s s' h name prio fn arg rs as"
proof -
  let ?va = "addr_bitmap (kernel_vaddr s)" and ?w = "head_of (waiters (semaphore_of (plock (kernel_pool s))))"
  let ?rl = "list_nodes (thread_ready_list s) (map general_tag rs)" and ?al = "list_nodes (thread_all_list s) (map all_list_tag as)"
  note hs = start_readyD [OF ready]
  obtain x where x: "x < bm_bits_count ?va" "\<not> bit_set (kmem s) ?va x" using heap by (auto simp: heap_free_def)
  obtain h s1 s2 where C: "malloc_kernel_pages 1 s = Inr (heap_page s h, s1)" "init_thread (heap_page s h) name prio s1 = Inr s2"
    "heap_step s s2 {h} 1" "building s s2 (heap_page s h)" "tasks s2 (heap_page s h) = new_task (heap_page s h) name prio" "h \<le> x"
    "kstacks s2 = kstacks s"
    by (rule control_block_step [OF hs(1,2) x pages name hs(3), where prio = prio]) blast
  define t where "t = heap_page s h"
  note apart = new_page(3) [OF C(3) hs(1), folded t_def] and b2 = C(4) [folded t_def]
  define s3 where "s3 = new_stack t (thread_create t fn arg s2)"
  have tk2: "tasks s2 t = new_task t name prio" using C(5) by (simp add: t_def)
  have k3: "self_kstack (tasks s2 t) - 432 = t + 3664" by (simp add: tk2 new_task_def PG_SIZE_def)
  have "building s2 s3 t" by (simp add: building_def s3_def thread_create_run)
  then have b3: "building s s3 t" by (rule building_trans [OF b2])
  then have lists: "thread_ready_list s3 = thread_ready_list s" "thread_all_list s3 = thread_all_list s" by (simp_all add: building_def)
  have fresh: "general_tag t \<notin> ?rl" "general_tag t \<notin> ?al" "all_list_tag t \<notin> ?rl" "all_list_tag t \<notin> ?al"
    using apart hs(13) by blast+
  obtain n p where J: "join_lists ''thread_start'' t s3 = Inr (s3\<lparr>lnext := n, lprev := p\<rparr>)"
    "is_list (s3\<lparr>lnext := n, lprev := p\<rparr>) (thread_ready_list s) (map general_tag (rs @ [t]))"
    "is_list (s3\<lparr>lnext := n, lprev := p\<rparr>) (thread_all_list s) (map all_list_tag (as @ [t]))"
    "\<And>A. A \<inter> ({general_tag t, all_list_tag t} \<union> ?rl \<union> ?al) = {} \<Longrightarrow> same_links A s3 (s3\<lparr>lnext := n, lprev := p\<rparr>)"
    by (rule join_run [of s3, unfolded lists, OF building_lists [OF b3 hs(7) fresh(1,3)] building_lists [OF b3 hs(8) fresh(2,4)] hs(9) fresh]) blast
  define s' where "s' = s3\<lparr>lnext := n, lprev := p\<rparr>"
  have run: "thread_start name prio fn arg s = Inr (t, s')"
    unfolding thread_start_def C(1) [folded t_def] rbind_simps prod.case C(2) [folded t_def] s3_def [symmetric] J(1) s'_def ..
  have tk: "tasks s' t = (new_task t name prio)\<lparr>self_kstack := t + 3664\<rparr>"
    using k3 by (simp add: s'_def s3_def thread_create_run tk2)
  have same: "esp s' = esp s" "cr3 s' = cr3 s" "thread_ready_list s' = thread_ready_list s" "thread_all_list s' = thread_all_list s"
    "main_thread s' = main_thread s" "kernel_pool s' = kernel_pool s" "kernel_vaddr s' = kernel_vaddr s" "eflags s' = eflags s"
    "kernel_thread_addr s' = kernel_thread_addr s" "\<And>u. u \<noteq> t \<Longrightarrow> tasks s' u = tasks s u \<and> frames s' u = frames s u"
    using b3 by (simp_all add: building_def s'_def)
  have "heap_step s s' {h} 1 = heap_step s s2 {h} 1"
    by (rule heap_step_cong) (simp_all add: s'_def s3_def thread_create_run)
  then have step: "heap_step s s' {h} 1" using C(3) by simp
  have lock3: "lock_available (plock (kernel_pool s)) s3"
    by (rule building_lock [OF b3 hs(2)]) (use apart hs(4,5) in simp_all)
  have "same_links {?w} s3 s'" unfolding s'_def by (rule J(4)) (use apart [OF hs(4)] hs(11) in auto)
  then have lock: "lock_available (plock (kernel_pool s)) s'"
    using lock3 by (simp add: lock_available_def list_empty_def same_links_def s'_def running_thread_def)
  have "kernel_thread_addr s2 = kernel_thread_addr s" using b2 by (simp add: building_def)
  then have ks: "kstacks s' = (kstacks s)(t + 3664 := (kstacks s (t + 3664))\<lparr>ts_ebp := 0, ts_ebx := 0, ts_esi := 0, ts_edi := 0,
      ts_eip := kernel_thread_addr s, ts_function := fn, ts_func_arg := arg\<rparr>)" and "frames s' t = [KernelThread]"
    using C(7) by (simp_all add: s'_def s3_def thread_create_run k3)
  then have "start_built s s' h name prio fn arg rs as"
    unfolding start_built_def Let_def t_def [symmetric] using step tk same lock J(2,3) by (simp add: s'_def [symmetric])
  then show thesis using that run by (simp add: t_def)
qed

lemma thread_start_run:
  fixes s :: "'a processes_scheme"
  assumes ready: "start_ready T spc s cur rs as" and name: "length name < 16"
    and heap: "heap_free s \<noteq> {}" and pages: "free_pages s \<noteq> {}"
  obtains t s' where "thread_start name prio fn arg s = Inr (t, s')" and "t \<notin> T"
    and "start_ready (insert t T) (spc(t := 0x100000)) s' cur (rs @ [t]) (as @ [t])" and "thread_waits s' t prio fn arg" and "others_same s s' t"
    and "card (heap_free s) = Suc (card (heap_free s'))" and "card (free_pages s) = Suc (card (free_pages s'))"
    and "eflags s' = eflags s"
proof -
  let ?w = "head_of (waiters (semaphore_of (plock (kernel_pool s))))"
  let ?rl = "list_nodes (thread_ready_list s) (map general_tag rs)" and ?al = "list_nodes (thread_all_list s) (map all_list_tag as)"
  note hs = start_readyD [OF ready]
  obtain h s' where run: "thread_start name prio fn arg s = Inr (heap_page s h, s')" and built: "start_built s s' h name prio fn arg rs as"
    by (rule thread_start_build [OF assms])
  define t where "t = heap_page s h"
  have step: "heap_step s s' {h} 1" and tk: "tasks s' t = (new_task t name prio)\<lparr>self_kstack := t + 3664\<rparr>"
    and same: "esp s' = esp s" "cr3 s' = cr3 s" "thread_ready_list s' = thread_ready_list s" "thread_all_list s' = thread_all_list s"
      "main_thread s' = main_thread s" "kernel_pool s' = kernel_pool s" "kernel_vaddr s' = kernel_vaddr s" "eflags s' = eflags s"
      "kernel_thread_addr s' = kernel_thread_addr s" "\<And>u. u \<noteq> t \<Longrightarrow> tasks s' u = tasks s u \<and> frames s' u = frames s u"
    and J: "is_list s' (thread_ready_list s) (map general_tag (rs @ [t]))" "is_list s' (thread_all_list s) (map all_list_tag (as @ [t]))"
      "lock_available (plock (kernel_pool s)) s'" "frames s' t = [KernelThread]"
      "kstacks s' = (kstacks s)(t + 3664 := (kstacks s (t + 3664))\<lparr>ts_ebp := 0, ts_ebx := 0, ts_esi := 0, ts_edi := 0,
        ts_eip := kernel_thread_addr s, ts_function := fn, ts_func_arg := arg\<rparr>)"
    using built unfolding start_built_def Let_def t_def [symmetric] by simp_all
  note t = new_page(1,2) [OF step hs(1), folded t_def] and apart = new_page(3) [OF step hs(1), folded t_def]
    and new = new_page(4) [OF step hs(1), folded t_def]
  have fresh: "general_tag t \<notin> ?rl" "general_tag t \<notin> ?al" "all_list_tag t \<notin> ?rl" "all_list_tag t \<notin> ?al"
    using apart hs(13) by blast+
  have tT: "t \<notin> T" using apart hs(12) by blast
  have nodes': "list_nodes (thread_ready_list s) (map general_tag (rs @ [t])) = insert (general_tag t) ?rl"
    "list_nodes (thread_all_list s) (map all_list_tag (as @ [t])) = insert (all_list_tag t) ?al"
    using lq.nodes_snoc by simp_all
  have sched: "sched_inv (insert t T) (spc(t := 0x100000)) s' cur (rs @ [t])"
  proof (rule spawned_sched [OF hs(6) tT t(2) fresh(1) J(1) same(1-3)])
    have "(t + of_nat 3684) AND 0xfffff000 = t" using page_frame_add(1) [of 3684 t] t(1) by (simp add: page_frame_def)
    then show "page_frame (self_kstack (tasks s' t) + 20) = t" by (simp add: tk page_frame_def add.assoc)
    have "spc u = 0x100000" if "u \<in> T" for u using hs(6,12) that by (auto simp: sched_inv_def spaces_agree_def)
    moreover have "pgdir (tasks s' u) = NULL" if "u \<in> insert t T" for u
      using that hs(12) same(10) [of u] tk by (cases "u = t") (simp_all add: new_task_def)
    ultimately show "spaces_agree (insert t T) (spc(t := 0x100000)) (phys s') (tasks s')" by (simp add: spaces_agree_def)
  qed (use same(10) tk in \<open>simp_all add: new_task_def\<close>)
  have ready': "start_ready (insert t T) (spc(t := 0x100000)) s' cur (rs @ [t]) (as @ [t])"
    unfolding start_ready_def spawn_ready_def same(3-7) nodes'
  proof (intro conjI ballI)
    show "insert (general_tag t) ?rl \<inter> insert (all_list_tag t) ?al = {}" using hs(9) fresh tags_differ [of t] by auto
    show "?w \<notin> insert (general_tag t) ?rl \<union> insert (all_list_tag t) ?al" using hs(11) apart [OF hs(4)] by auto
    show "is_list s' (thread_all_list s) (map all_list_tag (as @ [t]))" using J(2) .
    show "heap_ready s'" using step by (simp add: heap_step_def)
    show "pgdir (tasks s' u) = NULL" if "u \<in> insert t T" for u
      using that hs(12) same(10) [of u] tk by (cases "u = t") (simp_all add: new_task_def)
    show "in_use s' u" if "u \<in> insert t T" for u using that hs(12) new t(1) in_use_step [OF step] by auto
    show "in_use s' a" if "a \<in> insert (general_tag t) ?rl \<union> insert (all_list_tag t) ?al" for a
      using that hs(13) new page_tags [OF t(1)] in_use_step [OF step] by auto
  qed (use J(3) sched hs(4,10,14) in_use_step [OF step] in auto)
  have page: "page_frame (t + 3664) = t" using page_frame_add(1) [of 3664 t] t(1) by simp
  have waits: "thread_waits s' t prio fn arg"
    unfolding thread_waits_def tk by (simp add: J(4,5) page same(9) new_task_def)
  have others: "others_same s s' t" using page same(9,10) by (auto simp: others_same_def J(5))
  show thesis
    by (rule that [OF run [folded t_def] tT ready' waits others heap_step_free [OF step] _ same(8)]) (use step in \<open>simp add: heap_step_def\<close>)
qed

section \<open>Several threads\<close>

text \<open>The calls of \<open>thread_start\<close> with the given names, priorities, functions and arguments, in this order.\<close>

fun start_threads :: "(u8 list \<times> u32 \<times> u32 \<times> u32) list \<Rightarrow> 'a processes_scheme \<Rightarrow> (u32 list \<times> 'a processes_scheme) outcome" where
  "start_threads [] s = Inr ([], s)"
| "start_threads ((name, prio, fn, arg) # jobs) s =
     rbind (thread_start name prio fn arg s) (\<lambda>(t, s1). rbind (start_threads jobs s1) (\<lambda>(ts, s2). Inr (t # ts, s2)))"

definition job_waits :: "'a sync_scheme \<Rightarrow> u8 list \<times> u32 \<times> u32 \<times> u32 \<Rightarrow> u32 \<Rightarrow> bool" where
  "job_waits s job t \<longleftrightarrow> (case job of (name, prio, fn, arg) \<Rightarrow> thread_waits s t prio fn arg)"

lemma start_threads_run:
  fixes s :: "'a processes_scheme"
  assumes "start_ready T spc s cur rs as" and "\<forall>job \<in> set jobs. length (fst job) < 16"
    and "length jobs \<le> card (heap_free s)" and "length jobs \<le> card (free_pages s)"
  shows "\<exists>ts s' spc'. start_threads jobs s = Inr (ts, s') \<and> distinct ts \<and> set ts \<inter> T = {} \<and>
    start_ready (set ts \<union> T) spc' s' cur (rs @ ts) (as @ ts) \<and> list_all2 (job_waits s') jobs ts \<and> eflags s' = eflags s \<and>
    (\<forall>u \<in> T. \<forall>job. job_waits s job u \<longrightarrow> job_waits s' job u)"
  using assms
proof (induction jobs arbitrary: T spc s rs as)
  case Nil
  then show ?case by auto
next
  case (Cons job jobs)
  obtain name prio fn arg where job: "job = (name, prio, fn, arg)" by (cases job)
  have free: "length name < 16" "heap_free s \<noteq> {}" "free_pages s \<noteq> {}" using Cons.prems by (auto simp: job)
  obtain t s1 where S: "thread_start name prio fn arg s = Inr (t, s1)" "t \<notin> T"
    "start_ready (insert t T) (spc(t := 0x100000)) s1 cur (rs @ [t]) (as @ [t])" "thread_waits s1 t prio fn arg" "others_same s s1 t"
    "card (heap_free s) = Suc (card (heap_free s1))" "card (free_pages s) = Suc (card (free_pages s1))" "eflags s1 = eflags s"
    by (rule thread_start_run [OF Cons.prems(1) free])
  have rest: "\<forall>job \<in> set jobs. length (fst job) < 16" "length jobs \<le> card (heap_free s1)" "length jobs \<le> card (free_pages s1)"
    using Cons.prems(2-4) S(6,7) by simp_all
  obtain ts s' spc' where R: "start_threads jobs s1 = Inr (ts, s')" "distinct ts" "set ts \<inter> insert t T = {}"
    "start_ready (set ts \<union> insert t T) spc' s' cur ((rs @ [t]) @ ts) ((as @ [t]) @ ts)" "list_all2 (job_waits s') jobs ts"
    "eflags s' = eflags s1" "\<forall>u \<in> insert t T. \<forall>job. job_waits s1 job u \<longrightarrow> job_waits s' job u"
    using Cons.IH [OF S(3) rest] by blast
  have run: "start_threads (job # jobs) s = Inr (t # ts, s')" by (simp add: job S(1) R(1))
  have "job_waits s' job t" using R(7) S(4) by (simp add: job_waits_def job)
  moreover have "job_waits s' j u" if "u \<in> T" "job_waits s j u" for u j
    
  proof -
    have "u \<noteq> t" using that(1) S(2) by auto
    then have "job_waits s1 j u" using that(2) thread_waits_other [OF _ S(5)] by (auto simp: job_waits_def split: prod.splits)
    then show ?thesis using R(7) that(1) by blast
  qed
  ultimately show ?case
    using run R(2-6) S(2,8) by (intro exI [of _ "t # ts"] exI [of _ s'] exI [of _ spc']) simp
qed

section \<open>Properties\<close>

text \<open>
  C16: starting threads. With a free page of the heap and a free frame for each, any number of calls of
  \<open>thread_start\<close> return different new threads, which stand in the order of the calls at the end of
  the ready list and of the list of all threads, in the kernel's address space, with their
  priorities and with stacks from which they will call their functions; the scheduler's invariant holds for
  all threads.
\<close>

theorem threads_start_in_order:
  fixes s :: "'a processes_scheme"
  assumes "start_ready T spc s cur rs as" and "\<forall>job \<in> set jobs. length (fst job) < 16"
    and "length jobs \<le> card (heap_free s)" and "length jobs \<le> card (free_pages s)"
  shows "\<exists>ts s' spc'. start_threads jobs s = Inr (ts, s') \<and> distinct ts \<and> set ts \<inter> T = {} \<and> length ts = length jobs \<and>
    sched_inv (set ts \<union> T) spc' s' cur (rs @ ts) \<and> is_list s' (thread_all_list s') (map all_list_tag (as @ ts)) \<and>
    (\<forall>i < length jobs. case jobs ! i of (name, prio, fn, arg) \<Rightarrow> thread_waits s' (ts ! i) prio fn arg) \<and>
    heap_ready s' \<and> eflags s' = eflags s"
proof -
  obtain ts s' spc' where R: "start_threads jobs s = Inr (ts, s')" "distinct ts" "set ts \<inter> T = {}"
    "start_ready (set ts \<union> T) spc' s' cur (rs @ ts) (as @ ts)" "list_all2 (job_waits s') jobs ts" "eflags s' = eflags s"
    using start_threads_run [OF assms] by blast
  then show ?thesis
    by (intro exI [of _ ts] exI [of _ s'] exI [of _ spc'])
      (simp add: start_ready_def spawn_ready_def list_all2_conv_all_nth job_waits_def)
qed

lemma threads_start_in_order_witness:
  "\<exists>s1 t1 t2 s2. kernel_init sample_boot = Inr s1 \<and>
    start_threads [([0x61], 31, 0xc0001400, 0), ([0x62], 10, 0xc0001480, 5)] s1 = Inr ([t1, t2], s2) \<and> t1 \<noteq> t2 \<and>
    thread_waits s2 t2 10 0xc0001480 5"
proof -
  let ?p = "running_thread sample_boot" and ?jobs = "[([0x61 :: u8], 31 :: u32, 0xc0001400 :: u32, 0 :: u32), ([0x62], 10, 0xc0001480, 5)]"
  obtain s1 where I: "kernel_init sample_boot = Inr s1" "settled sample_boot s1" "heap_fresh s1"
    "spawn_ready {?p} (\<lambda>_. 0x100000) s1 ?p [] [?p]"
    by (rule kernel_init_run [OF sample_powered]) blast
  have a: "plock (kernel_pool s1) = 0xc0002000" "thread_ready_list s1 = 0xc0001000" "thread_all_list s1 = 0xc0001100" "?p = 0xc009e000"
    using I(2) by (simp_all add: settled_def sample_boot_def running_thread_def processes.defs kernel.defs page_frame_def)
  have "start_ready {?p} (\<lambda>_. 0x100000) s1 ?p [] [?p]"
    using I(4) unfolding start_ready_def a
    by (simp add: list_nodes_def head_of_def tail_of_def waiters_def semaphore_of_def all_list_tag_def)
  moreover have "length ?jobs \<le> card (heap_free s1)"
  proof -
    have "{0, 1} \<subseteq> heap_free s1"
      using I(3) run_clearD [of "kmem s1" "addr_bitmap (kernel_vaddr s1)" 0 25] by (auto simp: heap_fresh_def heap_free_def)
    from card_mono [OF _ this] show ?thesis by (simp add: heap_free_def)
  qed
  moreover have "length ?jobs \<le> card (free_pages s1)" using I(3) by (simp add: heap_fresh_def)
  moreover have "\<forall>job \<in> set ?jobs. length (fst job) < 16" by simp
  ultimately obtain ts s2 where R: "start_threads ?jobs s1 = Inr (ts, s2)" "distinct ts" "length ts = length ?jobs"
    "\<forall>i < length ?jobs. case ?jobs ! i of (name, prio, fn, arg) \<Rightarrow> thread_waits s2 (ts ! i) prio fn arg"
    using threads_start_in_order [of "{?p}" "\<lambda>_. 0x100000" s1 ?p "[]" "[?p]" ?jobs] by blast
  then obtain t1 t2 where ts: "ts = [t1, t2]" by (auto simp: length_Suc_conv)
  have "thread_waits s2 (ts ! 1) 10 0xc0001480 5" using spec [OF R(4), of 1] by simp
  then show ?thesis using I(1) R(1,2) ts by auto
qed

end
