(* ===== verification/Format.thy ===== *)
theory Format
  imports Vsprintf
begin

text \<open>
  What \<open>vsprintf\<close> promises: a format is a sequence of pieces (literal characters, integer
  conversions with flags, width and precision, and characters), and the output is the
  concatenation of what each piece prints, with a terminator. \<open>fmt_of\<close> spells a piece in the
  format language, \<open>args_of\<close> are the arguments it takes and \<open>text_of\<close> is what it prints.
\<close>

section \<open>Pieces of a format\<close>

datatype conv = Dec | Uns | Oct | HexLower | HexUpper | Bin

datatype piece =
    Lit u8
  | Field "u8 list" "nat option" "nat option" conv u32
  | Chr u32

fun conv_char :: "conv \<Rightarrow> u8" where
  "conv_char Dec = ascii CHR ''d''"
| "conv_char Uns = ascii CHR ''u''"
| "conv_char Oct = ascii CHR ''o''"
| "conv_char HexLower = ascii CHR ''x''"
| "conv_char HexUpper = ascii CHR ''X''"
| "conv_char Bin = ascii CHR ''b''"

fun conv_base :: "conv \<Rightarrow> u32" where
  "conv_base Dec = 10" | "conv_base Uns = 10" | "conv_base Oct = 8"
| "conv_base HexLower = 16" | "conv_base HexUpper = 16" | "conv_base Bin = 2"

fun conv_flags :: "conv \<Rightarrow> u32" where
  "conv_flags Dec = SIGN" | "conv_flags HexLower = SMALL" | "conv_flags _ = 0"

definition flag_of :: "u8 \<Rightarrow> u32" where
  "flag_of c = (if c = 45 then LEFT else if c = 43 then PLUS else if c = 32 then SPACE
     else if c = 35 then SPECIAL else ZEROPAD)"

definition flag_chars :: "u8 set" where
  "flag_chars = {45, 43, 32, 35, 48}"

definition flags_of :: "u8 list \<Rightarrow> u32" where
  "flags_of fs = foldl (\<lambda>f c. f OR flag_of c) 0 fs"

definition decimal :: "nat \<Rightarrow> u8 list" where
  "decimal n = radix (digit_table 0) 10 n"

definition opt_int :: "nat option \<Rightarrow> int" where
  "opt_int x = (case x of None \<Rightarrow> - 1 | Some n \<Rightarrow> int n)"

fun fmt_of :: "piece \<Rightarrow> u8 list" where
  "fmt_of (Lit c) = [c]"
| "fmt_of (Field fs w p cv a) = 37 # fs @ (case w of None \<Rightarrow> [] | Some n \<Rightarrow> decimal n) @
     (case p of None \<Rightarrow> [] | Some n \<Rightarrow> 46 # decimal n) @ [conv_char cv]"
| "fmt_of (Chr a) = [37, ascii CHR ''c'']"

fun args_of :: "piece \<Rightarrow> u32 list" where
  "args_of (Lit c) = []"
| "args_of (Field fs w p cv a) = [a]"
| "args_of (Chr a) = [a]"

fun text_of :: "piece \<Rightarrow> u8 list" where
  "text_of (Lit c) = [c]"
| "text_of (Field fs w p cv a) =
     integer_field a (conv_base cv) (opt_int w) (opt_int p) (flags_of fs OR conv_flags cv)"
| "text_of (Chr a) = [ucast a]"

fun piece_ok :: "piece \<Rightarrow> bool" where
  "piece_ok (Lit c) = (c \<noteq> 37)"
| "piece_ok (Field fs w p cv a) = (set fs \<subseteq> flag_chars \<and>
     (case w of None \<Rightarrow> True | Some n \<Rightarrow> 0 < n \<and> n + 48 < 2 ^ 31) \<and>
     (case p of None \<Rightarrow> True | Some n \<Rightarrow> n + 48 < 2 ^ 31))"
| "piece_ok (Chr a) = True"

section \<open>Reading numbers\<close>

lemma ascii_digit: "k < 10 \<Longrightarrow> ascii (digit_table 0 ! k) = 48 + of_nat k"
  using digit_tables [of 0] by simp

lemma digit_word: "k < 10 \<Longrightarrow> is_digit (48 + of_nat k) \<and> uint (48 + of_nat k :: u8) = 48 + int k"
proof -
  have "list_all (\<lambda>k. is_digit (48 + of_nat k) \<and> uint (48 + of_nat k :: u8) = 48 + int k) [0..<10]" by code_simp
  then show "k < 10 \<Longrightarrow> ?thesis" by (simp add: list_all_iff)
qed

lemma skip_atoi_decimal:
  "n + 48 < 2 ^ 31 \<Longrightarrow> skip_atoi_loop 0 (decimal n @ rest) = skip_atoi_loop (int n) rest"
  unfolding decimal_def
proof (induction "digit_table 0" "10 :: nat" n arbitrary: rest rule: radix.induct)
  case (1 n)
  show ?case
  proof (cases "n < 10")
    case True
    then show ?thesis using digit_word [OF True] by (subst radix.simps) (simp add: ascii_digit)
  next
    case False
    have m: "n mod 10 < 10" by simp
    have IH: "skip_atoi_loop 0 (radix (digit_table 0) 10 (n div 10) @ rest') = skip_atoi_loop (int (n div 10)) rest'" for rest'
      using "1.hyps" [of rest'] False "1.prems" by simp
    have "int (n div 10) * 10 + int (n mod 10) = int n" by presburger
    then show ?thesis using False digit_word [OF m] "1.prems"
      by (subst radix.simps) (simp add: ascii_digit IH)
  qed
qed


lemma skip_atoi_decimal_end:
  "n + 48 < 2 ^ 31 \<Longrightarrow> \<not> is_digit c \<Longrightarrow> skip_atoi (decimal n @ c # rest) = Inr (int n, c # rest)"
  by (simp add: skip_atoi_def skip_atoi_decimal)

lemma decimal_first:
  "\<exists>k ds. decimal n = (48 + of_nat k) # ds \<and> k < 10 \<and> (0 < n \<longrightarrow> 0 < k)"
  unfolding decimal_def
proof (induction "digit_table 0" "10 :: nat" n rule: radix.induct)
  case (1 n)
  show ?case
  proof (cases "n < 10")
    case True
    then show ?thesis by (subst radix.simps) (auto simp: ascii_digit)
  next
    case False
    then have "\<exists>k ds. radix (digit_table 0) 10 (n div 10) = (48 + of_nat k) # ds \<and> k < 10 \<and> (0 < n div 10 \<longrightarrow> 0 < k)"
      using "1.hyps" by simp
    then show ?thesis using False by (subst radix.simps) auto
  qed
qed

lemma decimal_cur_char: "is_digit (cur_char (decimal n @ r))"
  using decimal_first [of n] digit_word by (auto simp: cur_char_def)

lemma decimal_not_flag:
  assumes "0 < n"
  shows "cur_char (decimal n @ r) \<notin> flag_chars"
proof -
  obtain k ds where k: "decimal n = (48 + of_nat k) # ds" "0 < k" "k < 10" using decimal_first [of n] assms by blast
  have "list_all (\<lambda>k. (48 + of_nat k :: u8) \<notin> {45, 43, 32, 35, 48}) [1..<10]" by code_simp
  then have "(48 + of_nat k :: u8) \<notin> flag_chars" unfolding flag_chars_def list_all_iff using k by simp
  then show ?thesis using k by (simp add: cur_char_def)
qed

section \<open>Parsing a directive\<close>

lemma parse_flags_chars:
  "set fs \<subseteq> flag_chars \<Longrightarrow> parse_flags f (fs @ r) = parse_flags (foldl (\<lambda>f c. f OR flag_of c) f fs) r"
  by (induction fs arbitrary: f) (auto simp: flag_chars_def flag_of_def)

lemma parse_flags_stop: "cur_char r \<notin> flag_chars \<Longrightarrow> parse_flags f r = (f, r)"
  by (cases r) (auto simp: flag_chars_def cur_char_def)

lemma parse_flags_prefix:
  "set fs \<subseteq> flag_chars \<Longrightarrow> cur_char r \<notin> flag_chars \<Longrightarrow> parse_flags 0 (fs @ r) = (flags_of fs, r)"
  by (simp add: parse_flags_chars parse_flags_stop flags_of_def)

lemma cur_char_Cons [simp]: "cur_char (c # r) = c"
  by (simp add: cur_char_def)

lemma cur_char_append: "xs \<noteq> [] \<Longrightarrow> cur_char (xs @ r) = hd xs"
  by (cases xs) simp_all

lemma decimal_ne [simp]: "decimal n \<noteq> []"
  using decimal_first [of n] by auto

lemma parse_width_opt:
  assumes "case w of None \<Rightarrow> True | Some n \<Rightarrow> 0 < n \<and> n + 48 < 2 ^ 31"
    and "\<not> is_digit (cur_char r)" "cur_char r \<noteq> 42" "r \<noteq> []"
  shows "parse_width f ((case w of None \<Rightarrow> [] | Some n \<Rightarrow> decimal n) @ r) args = Inr (opt_int w, f, r, args)"
proof (cases w)
  case None
  then show ?thesis using assms by (simp add: parse_width_def opt_int_def)
next
  case (Some n)
  obtain c r' where r: "r = c # r'" using assms(4) by (cases r) auto
  show ?thesis using assms Some skip_atoi_decimal_end [of n c r'] decimal_cur_char [of n r]
    by (simp add: parse_width_def opt_int_def r)
qed

lemma parse_precision_opt:
  assumes "case p of None \<Rightarrow> True | Some n \<Rightarrow> n + 48 < 2 ^ 31"
    and "\<not> is_digit c" "c \<noteq> 46"
  shows "parse_precision ((case p of None \<Rightarrow> [] | Some n \<Rightarrow> 46 # decimal n) @ c # r) args = Inr (opt_int p, c # r, args)"
proof (cases p)
  case None
  then show ?thesis using assms by (simp add: parse_precision_def opt_int_def)
next
  case (Some n)
  then show ?thesis using assms skip_atoi_decimal_end [of n c r] decimal_cur_char [of n "c # r"]
    by (simp add: parse_precision_def opt_int_def Let_def)
qed

lemma conv_char_stop:
  "\<not> is_digit (conv_char cv)" "conv_char cv \<noteq> 46" "conv_char cv \<noteq> 42" "conv_char cv \<notin> flag_chars"
  "conv_char cv \<notin> {104, 108, 76}"
  by (cases cv; simp add: ascii_def is_digit_def flag_chars_def; code_simp)+

lemma flag_or: "flag (a OR b) f \<longleftrightarrow> flag a f \<or> flag b f"
  by (simp add: flag_def bit.conj_disj_distrib2 or_eq_0_iff)

lemma flags_of_not_double: "\<not> flag (flags_of fs) DOUBLE"
proof -
  have "\<not> flag f DOUBLE \<Longrightarrow> \<not> flag (foldl (\<lambda>f c. f OR flag_of c) f fs) DOUBLE" for f
  proof (induction fs arbitrary: f)
    case (Cons c fs)
    have "\<not> flag (flag_of c) DOUBLE" by (simp add: flag_of_def flag_def flag_defs)
    then show ?case using Cons by (simp add: flag_or)
  qed simp
  then show ?thesis by (simp add: flags_of_def flag_def)
qed

lemma field_not_double: "\<not> flag (flags_of fs OR conv_flags cv) DOUBLE"
proof -
  have "\<not> flag (conv_flags cv) DOUBLE" by (cases cv) (simp_all add: flag_def flag_defs)
  then show ?thesis using flags_of_not_double [of fs] by (simp add: flag_or)
qed

lemma conv_base_range: "2 \<le> unat (conv_base cv)" "unat (conv_base cv) \<le> 36"
  by (cases cv; simp)+


section \<open>Printing a directive\<close>

lemma put_append: "put (xs @ ys) ot = put ys (put xs ot)"
  by (simp add: put_def store_bytes_append case_prod_unfold add.assoc)

lemma put_Nil [simp]: "put [] ot = ot"
  by (simp add: put_def case_prod_unfold)

lemma convert_field:
  "convert fp buf (conv_char cv) fl w p (a # args) ot =
     Inr (args, put_number (number fp a 0 (conv_base cv) w p (fl OR conv_flags cv)) ot)"
  by (cases cv) (simp_all add: convert_def ascii_def va_arg_def)

lemma convert_chr:
  "convert fp buf (ascii CHR ''c'') 0 (- 1) (- 1) (a # args) ot = Inr (args, put [ucast a] ot)"
  by (simp add: convert_def va_arg_def put_char_def flag_def)

lemma directive_field:
  assumes "piece_ok (Field fs w p cv a)"
  shows "directive fp buf (tl (fmt_of (Field fs w p cv a)) @ fmt) (a # args) ot =
    Inr (fmt, args, put (text_of (Field fs w p cv a)) ot)"
proof -
  let ?w = "case w of None \<Rightarrow> [] | Some n \<Rightarrow> decimal n"
  let ?p = "case p of None \<Rightarrow> [] | Some n \<Rightarrow> 46 # decimal n"
  let ?rest = "?w @ ?p @ conv_char cv # fmt"
  have pfirst: "cur_char (?p @ conv_char cv # fmt) \<in> {46, conv_char cv}"
    by (simp split: option.splits)
  have not46: "\<not> is_digit 46" "(46 :: u8) \<noteq> 42" "46 \<notin> flag_chars"
    by (simp_all add: is_digit_def flag_chars_def)
  have "cur_char ?rest \<notin> flag_chars"
  proof (cases w)
    case None
    then show ?thesis using pfirst conv_char_stop(4) not46(3) by auto
  next
    case (Some n)
    then show ?thesis using assms decimal_not_flag [of n] by simp
  qed
  then have flags: "parse_flags 0 (tl (fmt_of (Field fs w p cv a)) @ fmt) = (flags_of fs, ?rest)"
    using parse_flags_prefix [of fs ?rest] assms by simp
  have width: "parse_width (flags_of fs) ?rest (a # args) = Inr (opt_int w, flags_of fs, ?p @ conv_char cv # fmt, a # args)"
    using pfirst conv_char_stop [of cv] not46 assms by (intro parse_width_opt) auto
  have prec: "parse_precision (?p @ conv_char cv # fmt) (a # args) = Inr (opt_int p, conv_char cv # fmt, a # args)"
    using conv_char_stop [of cv] assms by (intro parse_precision_opt) auto
  have qual: "parse_qualifier (conv_char cv # fmt) = conv_char cv # fmt"
    using conv_char_stop(5) [of cv] by (simp add: parse_qualifier_def)
  show ?thesis
    using number_field [OF conv_base_range field_not_double, of fp a 0 cv "opt_int w" "opt_int p" fs cv]
    unfolding directive_def flags Let_def prod.case width prec rbind_simps qual cur_char_Cons convert_field
    by (simp add: put_number_def)
qed

lemma directive_chr:
  "directive fp buf (ascii CHR ''c'' # fmt) (a # args) ot = Inr (fmt, args, put [ucast a] ot)"
proof -
  let ?c = "ascii CHR ''c''"
  have c: "?c = 99" by (simp add: ascii_def)
  have flags: "parse_flags 0 (?c # fmt) = (0, ?c # fmt)" by (simp add: c)
  have width: "parse_width 0 (?c # fmt) (a # args) = Inr (- 1, 0, ?c # fmt, a # args)"
    by (simp add: parse_width_def is_digit_def c)
  have prec: "parse_precision (?c # fmt) (a # args) = Inr (- 1, ?c # fmt, a # args)"
    by (simp add: parse_precision_def c)
  have qual: "parse_qualifier (?c # fmt) = ?c # fmt" by (simp add: parse_qualifier_def c)
  show ?thesis
    unfolding directive_def flags Let_def prod.case width prec rbind_simps qual cur_char_Cons convert_chr list.sel ..
qed

declare vsprintf_loop.simps(2) [simp del]

lemma vsprintf_loop_literal: "c \<noteq> 37 \<Longrightarrow> vsprintf_loop fp buf (c # fmt) args ot = vsprintf_loop fp buf fmt args (put [c] ot)"
  by (simp add: vsprintf_loop.simps(2))

lemma vsprintf_loop_directive:
  "directive fp buf fmt args ot = Inr (rest, args', ot') \<Longrightarrow>
   vsprintf_loop fp buf (37 # fmt) args ot = vsprintf_loop fp buf rest args' ot'"
  by (simp add: vsprintf_loop.simps(2))

lemma vsprintf_loop_piece:
  assumes "piece_ok pc"
  shows "vsprintf_loop fp buf (fmt_of pc @ fmt) (args_of pc @ args) ot = vsprintf_loop fp buf fmt args (put (text_of pc) ot)"
proof (cases pc)
  case (Lit c)
  then show ?thesis using assms by (simp add: vsprintf_loop_literal)
next
  case (Field fs w p cv a)
  have "fmt_of pc @ fmt = 37 # (tl (fmt_of pc) @ fmt)" by (simp add: Field)
  moreover have "args_of pc @ args = a # args" by (simp add: Field)
  ultimately show ?thesis
    using vsprintf_loop_directive [OF directive_field [of fs w p cv a fp buf fmt args ot]] assms
    by (simp only: Field)
next
  case (Chr a)
  then show ?thesis using vsprintf_loop_directive [OF directive_chr] by simp
qed

lemma vsprintf_loop_pieces:
  "\<forall>pc \<in> set ps. piece_ok pc \<Longrightarrow>
   vsprintf_loop fp buf (concat (map fmt_of ps)) (concat (map args_of ps) @ args) ot =
     Inr (put (concat (map text_of ps)) ot)"
  by (induction ps arbitrary: ot) (simp_all add: vsprintf_loop_piece put_append)


section \<open>Numbers that can be read back\<close>

lemma radix_value:
  "2 \<le> b \<Longrightarrow> b \<le> 36 \<Longrightarrow> numeral_value b (radix (digit_table flags) b n) = n"
proof (induction "digit_table flags" b n rule: radix.induct)
  case (1 b n)
  have "n mod b < 36" using "1.prems" by (simp add: order_less_le_trans [OF mod_less_divisor])
  then have d: "digit_value (ascii (digit_table flags ! (n mod b))) = n mod b" using digit_tables by blast
  show ?case
  proof (cases "n < b")
    case True
    then show ?thesis using d by (subst radix.simps) (simp add: numeral_value_def)
  next
    case False
    have "numeral_value b (radix (digit_table flags) b (n div b)) = n div b" using "1.hyps" "1.prems" False by simp
    then show ?thesis using d False "1.prems"
      by (subst radix.simps) (simp add: numeral_value_def)
  qed
qed

lemma radix_decimal: "radix (digit_table flags) 10 n = decimal n"
proof -
  have t: "ascii (digit_table flags ! k) = ascii (digit_table 0 ! k)" if "k < 10" for k
    using digit_tables [of flags] digit_tables [of 0] that by simp
  show ?thesis unfolding decimal_def
  proof (induction "digit_table 0" "10 :: nat" n rule: radix.induct)
    case (1 n)
    show ?case
    proof (cases "n < 10")
      case True
      then show ?thesis using t by (simp add: radix.simps [of _ 10 n])
    next
      case False
      then have "radix (digit_table flags) 10 (n div 10) = radix (digit_table 0) 10 (n div 10)" using "1.hyps" by simp
      then show ?thesis using t [of "n mod 10"] False by (simp add: radix.simps [of _ 10 n])
    qed
  qed
qed

lemma radix_length: "2 \<le> b \<Longrightarrow> n < b ^ Suc k \<Longrightarrow> length (radix t b n) \<le> Suc k"
proof (induction k arbitrary: n)
  case 0
  then show ?case by (subst radix.simps) simp
next
  case (Suc k)
  have "n div b < b ^ Suc k" using Suc.prems by (simp add: div_less_iff_less_mult mult.commute)
  then show ?case using Suc.IH [OF Suc.prems(1)] by (subst radix.simps) simp
qed

lemma pad_field_plain: "w \<le> 0 \<Longrightarrow> pad_field flags w head body = head @ body"
  by (simp add: pad_field_def)

section \<open>Strings\<close>

lemma copy_chars_put:
  "bytes_at (fst ot) s (length bs) = bs \<Longrightarrow> region s (length bs) \<inter> region (snd ot) (length bs) = {} \<Longrightarrow>
   copy_chars (length bs) s ot = put bs ot"
proof (induction bs arbitrary: s ot)
  case Nil
  then show ?case by simp
next
  case (Cons b bs)
  have head: "fst ot s = b" and tail: "bytes_at (fst ot) (s + 1) (length bs) = bs"
    using Cons.prems(1) by (simp_all add: bytes_at_Suc)
  have out: "fst (put [b] ot) = (fst ot)(snd ot := b)" "snd (put [b] ot) = snd ot + 1"
    by (simp_all add: put_def case_prod_unfold)
  have "region (s + 1) (length bs) \<inter> region (snd ot) (Suc (length bs)) = {}"
    using Cons.prems(2) by (auto simp: region_Suc [of s])
  then have disj: "region (s + 1) (length bs) \<inter> region (snd ot + 1) (length bs) = {}" "snd ot \<notin> region (s + 1) (length bs)"
    by (auto simp: region_Suc)
  have "bytes_at ((fst ot)(snd ot := b)) (s + 1) (length bs) = bytes_at (fst ot) (s + 1) (length bs)"
    using disj(2) by (intro bytes_at_cong) auto
  then have "copy_chars (length bs) (s + 1) (put [b] ot) = put bs (put [b] ot)"
    using Cons.IH [of "put [b] ot" "s + 1", unfolded out] tail disj(1) by (simp only:)
  then show ?case by (simp add: head flip: put_append)
qed

text \<open>What \<open>%s\<close> prints: at most \<open>precision\<close> characters of the string, in a field of spaces.\<close>

definition string_field :: "u8 list \<Rightarrow> int \<Rightarrow> int \<Rightarrow> u32 \<Rightarrow> u8 list" where
  "string_field cs w precision flags =
     pad_field (flags AND LEFT) w [] (if precision < 0 then cs else take (nat precision) cs)"

lemma left_only [simp]: "flag (flags AND LEFT) LEFT = flag flags LEFT" "\<not> flag (flags AND LEFT) ZEROPAD"
  by (simp_all add: flag_def flag_defs and.assoc)

lemma put_string_field:
  assumes str: "cstr (fst ot) s cs" and len: "length cs < 2 ^ 31"
    and disj: "region s (Suc (length cs)) \<inter> region (snd ot) (length (string_field cs w precision flags)) = {}"
  shows "put_string s w precision flags ot = Inr (put (string_field cs w precision flags) ot)"
proof -
  define body where "body = (if precision < 0 then cs else take (nat precision) cs)"
  define lead where "lead = (if flag flags LEFT then [] else replicate (nat (w - int (length body))) (32 :: u8))"
  define trail where "trail = (if flag flags LEFT then replicate (nat (w - int (length body))) (32 :: u8) else [])"
  have field: "string_field cs w precision flags = lead @ body @ trail"
    by (simp add: string_field_def pad_field_def body_def lead_def trail_def)
  have n: "sint (of_nat (length cs) :: u32) = int (length cs)"
  proof -
    have u: "unat (of_nat (length cs) :: u32) = length cs" using len by (intro unat_of_nat32) simp
    show ?thesis using sint_small [of "of_nat (length cs)", unfolded u] len by simp
  qed
  have blen: "(if precision < 0 then int (length cs) else if int (length cs) > precision then precision else int (length cs)) = int (length body)"
    by (simp add: body_def)
  have ble: "length body \<le> length cs" by (simp add: body_def)
  have bytes: "bytes_at (fst ot) s (length body) = body"
  proof -
    have "bytes_at (fst ot) s (length body) = take (length body) (bytes_at (fst ot) s (length cs))"
      using ble by (simp add: bytes_at_def take_map)
    also have "\<dots> = take (length body) cs" by (simp only: cstr_bytes_at [OF str])
    also have "\<dots> = body" by (simp add: body_def min_def)
    finally show ?thesis .
  qed
  have split: "region (snd ot) (length (lead @ body @ trail)) =
      region (snd ot) (length lead) \<union> region (snd ot + of_nat (length lead)) (length body + length trail)"
    by (simp add: region_add)
  have sub: "region s (length body) \<subseteq> region s (Suc (length cs))" using ble by (intro region_mono) simp
  have d1: "region s (length body) \<inter> region (snd ot) (length lead) = {}"
    and d2: "region s (length body) \<inter> region (snd ot + of_nat (length lead)) (length body) = {}"
    using disj sub unfolding field split region_add by auto
  have "bytes_at (fst (put lead ot)) s (length body) = body"
    using bytes bytes_at_store_disjoint [OF d1, of "fst ot"] by (simp add: put_def case_prod_unfold)
  then have copy: "copy_chars (length body) s (put lead ot) = put body (put lead ot)"
    using d2 by (intro copy_chars_put) (simp_all add: put_def case_prod_unfold)
  show ?thesis
    unfolding put_string_def strlen_cstr [OF str] terminates_simps rbind_simps Let_def n blen field put_append
    using copy by (cases "flag flags LEFT") (simp_all add: lead_def trail_def)
qed


lemma magnitude_bound: "magnitude flags num < 2 ^ 32"
proof (cases "sint num < 0")
  case True
  then show ?thesis using unat_neg_sint [of num] unat_bound32 [of "- num"] unat_bound32 [of num]
    by (simp add: magnitude_def abs_if)
next
  case False
  then show ?thesis using unat_sint [of num] unat_bound32 [of num] by (simp add: magnitude_def)
qed

lemma magnitude_digits:
  assumes "2 \<le> unat base"
  shows "length (radix t (unat base) (magnitude flags num)) \<le> 36"
proof -
  have "(2 :: nat) ^ 32 \<le> unat base ^ 32" by (rule power_mono [OF assms]) simp
  then have "magnitude flags num < unat base ^ 32" using magnitude_bound by (rule order_less_le_trans [rotated])
  moreover have "(32 :: nat) = Suc 31" by simp
  ultimately have "magnitude flags num < unat base ^ Suc 31" by (simp only:)
  then show ?thesis using radix_length [OF assms, of _ 31 t] by force
qed

section \<open>Properties\<close>

definition sample_fpu :: fpu where
  "sample_fpu = \<lparr>fp_negative = (\<lambda>x. bit x 63), fp_negate = (\<lambda>x. x XOR push_bit 63 1),
     fp_int = (\<lambda>_. 0), fp_millionths = (\<lambda>_. 0)\<rparr>"

definition fmt_text :: "piece list \<Rightarrow> u8 list" where
  "fmt_text ps = concat (map text_of ps)"

lemma vsprintf_pieces:
  assumes "\<forall>pc \<in> set ps. piece_ok pc" and "length (fmt_text ps) < 2 ^ 31"
  shows "vsprintf fp m buf (concat (map fmt_of ps)) (concat (map args_of ps)) =
    (if length (fmt_text ps) < 1024
     then Inr (of_nat (length (fmt_text ps)), store_bytes m buf (fmt_text ps @ [EOS]))
     else Inl (Panic ''vsprintf'' ''i < 1024''))"
proof -
  have u: "unat (of_nat (length (fmt_text ps)) :: u32) = length (fmt_text ps)" using assms(2) by (intro unat_of_nat32) simp
  have n: "sint (of_nat (length (fmt_text ps)) :: u32) = int (length (fmt_text ps))"
    using sint_small [of "of_nat (length (fmt_text ps))", unfolded u] assms(2) by simp
  show ?thesis
    using vsprintf_loop_pieces [OF assms(1), of fp buf "[]" "(m, buf)"]
    by (simp add: vsprintf_def Let_def put_def n c_assert_def store_bytes_append fun_upd_def flip: fmt_text_def)
qed

text \<open>
  C17: For every sequence of literal characters, \<open>%c\<close> conversions and integer conversions \<open>%d\<close>,
  \<open>%u\<close>, \<open>%o\<close>, \<open>%x\<close>, \<open>%X\<close>, \<open>%b\<close> with any flags, width and precision, \<open>vsprintf\<close> on the
  spelled-out format and the arguments writes the texts of the pieces one after the other and a
  terminator, touches nothing else, and returns the number of characters; when the text has 1024
  characters or more, the assertion at the end fails (after the text was written).
\<close>

theorem vsprintf_refines_pieces:
  assumes "\<forall>pc \<in> set ps. piece_ok pc" and "length (fmt_text ps) < 2 ^ 31"
  shows "vsprintf fp m buf (concat (map fmt_of ps)) (concat (map args_of ps)) =
    (if length (fmt_text ps) < 1024
     then Inr (of_nat (length (fmt_text ps)), store_bytes m buf (fmt_text ps @ [EOS]))
     else Inl (Panic ''vsprintf'' ''i < 1024''))"
  using assms by (rule vsprintf_pieces)

lemma vsprintf_refines_pieces_witness:
  "vsprintf sample_fpu (\<lambda>_. 0) 0x1000 (str8 ''n=%5d %#x'') [- 7, 255] =
     Inr (12, store_bytes (\<lambda>_. 0) 0x1000 (str8 ''n=   -7 0xff'' @ [EOS]))"
proof -
  let ?ps = "[Lit 110, Lit 61, Field [] (Some 5) None Dec (- 7), Lit 32, Field [35] None None HexLower 255]"
  have ok: "\<forall>pc \<in> set ?ps. piece_ok pc" by (simp add: flag_chars_def)
  have fmt: "concat (map fmt_of ?ps) = str8 ''n=%5d %#x''" by code_simp
  have args: "concat (map args_of ?ps) = [- 7, 255]" by simp
  have shown: "fmt_text ?ps = str8 ''n=   -7 0xff''" by code_simp
  show ?thesis
    using vsprintf_refines_pieces [OF ok, of sample_fpu "\<lambda>_. 0" "0x1000"]
    unfolding fmt args shown by (simp add: str8_def)
qed

text \<open>
  What \<open>printf\<close> hands to \<open>print_str\<close> is a C string at its static buffer whose characters are
  the texts of the pieces of the format, provided they have fewer than 1024 characters and none
  of them is a null character.
\<close>

theorem printf_prints_text:
  assumes "\<forall>pc \<in> set ps. piece_ok pc" and "length (fmt_text ps) < 1024" and "EOS \<notin> set (fmt_text ps)"
  shows "\<exists>m'. printf fp print_str buf m (concat (map fmt_of ps)) (concat (map args_of ps)) w = Inr (m', print_str m' buf w) \<and>
    cstr m' buf (fmt_text ps) \<and> (\<forall>a. a \<notin> region buf (Suc (length (fmt_text ps))) \<longrightarrow> m' a = m a)"
proof -
  have "cstr (store_bytes m buf (fmt_text ps @ [EOS])) buf (fmt_text ps)"
    using assms(2,3) by (intro cstr_store) simp_all
  moreover have "store_bytes m buf (fmt_text ps @ [EOS]) a = m a" if "a \<notin> region buf (Suc (length (fmt_text ps)))" for a
    using that by (intro store_bytes_outside) simp
  ultimately show ?thesis
    using vsprintf_pieces [OF assms(1), of fp m buf] assms(2) by (auto simp: printf_def)
qed

lemma printf_prints_text_witness:
  "\<exists>m'. printf sample_fpu (\<lambda>m p out. out @ bytes_at m p 3) 0x1000 (\<lambda>_. 0) (str8 ''[%d]'') [5] [] =
      Inr (m', bytes_at m' 0x1000 3) \<and> cstr m' 0x1000 (str8 ''[5]'')"
proof -
  let ?ps = "[Lit 91, Field [] None None Dec 5, Lit 93]"
  have fmt: "concat (map fmt_of ?ps) = str8 ''[%d]''" by code_simp
  have shown: "fmt_text ?ps = str8 ''[5]''" by code_simp
  have "EOS \<notin> set (str8 ''[5]'')" by code_simp
  then show ?thesis
    using printf_prints_text [of ?ps sample_fpu "\<lambda>m p out. out @ bytes_at m p 3" "0x1000" "\<lambda>_. 0" "[]"]
    unfolding fmt shown by (auto simp: str8_def)
qed




text \<open>
  The digits that \<open>number\<close> prints for a non-negative \<open>int\<close> in base 10 are read back by
  \<open>skip_atoi\<close> to the same number, with the format pointer on the character after them; 48 is the
  slack of the sum \<open>i * 10 + c - '0'\<close>, which must not leave the \<open>int\<close> range.
\<close>

theorem skip_atoi_reads_number:
  assumes "0 \<le> sint num" and "unat num + 48 < 2 ^ 31" and "\<not> is_digit c"
  shows "\<exists>ds. number fp num dbl 10 (- 1) (- 1) SIGN = Some ds \<and> skip_atoi (ds @ c # rest) = Inr (sint num, c # rest)"
proof -
  have u: "magnitude SIGN num = unat num" using assms(1) unat_sint [of num] by (simp add: magnitude_def)
  have s: "sint num = int (unat num)" using assms(1) unat_sint [of num] by simp
  have plain: "sign_of SIGN num = []" "prefix_of SIGN 10 t = []" "\<not> flag SIGN DOUBLE" for t
    using assms(1) by (simp_all add: sign_of_def prefix_of_def flag_def flag_defs)
  have base: "unat (10 :: u32) = 10" by simp
  have "number fp num dbl 10 (- 1) (- 1) SIGN = Some (decimal (unat num))"
    using number_field [of 10 SIGN fp num dbl "- 1" "- 1"] plain
    by (simp add: integer_field_def Let_def u pad_field_plain radix_decimal)
  then show ?thesis using skip_atoi_decimal_end [OF assms(2,3)] s by simp
qed

lemma skip_atoi_reads_number_witness:
  "\<exists>ds. number sample_fpu 1024 0 10 (- 1) (- 1) SIGN = Some ds \<and> skip_atoi (ds @ str8 ''d'') = Inr (1024, str8 ''d'')"
proof -
  have c: "\<not> is_digit 100" "str8 ''d'' = [100]" by (simp_all add: is_digit_def str8_def ascii_def)
  show ?thesis using skip_atoi_reads_number [of 1024 100 sample_fpu 0 "[]"] c(1) unfolding c(2) by simp
qed

text \<open>
  \<open>%s\<close> prints at most \<open>precision\<close> characters of the C string behind its argument, in a field
  of spaces on the right with the \<open>-\<close> flag and on the left without it, wherever the string does
  not overlap the output.
\<close>

theorem convert_string:
  assumes "cstr (fst ot) s cs" and "length cs < 2 ^ 31"
    and "region s (Suc (length cs)) \<inter> region (snd ot) (length (string_field cs w precision flags)) = {}"
  shows "convert fp buf (ascii CHR ''s'') flags w precision (s # args) ot =
    Inr (args, put (string_field cs w precision flags) ot)"
  using put_string_field [OF assms] by (simp add: convert_def va_arg_def ascii_def)

lemma convert_string_witness:
  "convert sample_fpu 0x1000 (ascii CHR ''s'') 0 4 2 [0x2000] (store_bytes (\<lambda>_. 0) 0x2000 (str8 ''abc''), 0x1000) =
     Inr ([], put (str8 ''  ab'') (store_bytes (\<lambda>_. 0) 0x2000 (str8 ''abc''), 0x1000))"
proof -
  have str: "cstr (store_bytes (\<lambda>_. 0) 0x2000 (str8 ''abc'')) 0x2000 (str8 ''abc'')"
    by (simp add: str8_def ascii_def EOS_def)
  have field: "string_field (str8 ''abc'') 4 2 0 = str8 ''  ab''"
    by (simp add: string_field_def pad_field_def str8_def flag_def ascii_def numeral_eq_Suc)
  have disj: "region 0x2000 (Suc (length (str8 ''abc''))) \<inter> region 0x1000 (length (str8 ''  ab'')) = {}"
    by (simp add: str8_def region_Suc)
  show ?thesis
    using convert_string [of "(store_bytes (\<lambda>_. 0) 0x2000 (str8 ''abc''), 0x1000)" "0x2000" "str8 ''abc''" 4 2 0
        sample_fpu "0x1000" "[]"] str disj
    by (simp add: field) (simp add: str8_def)
qed

text \<open>
  After \<open>%.*\<close> the code takes the precision from the arguments but does not step over the
  star, so the star becomes the conversion character: \<open>%*\<close> is printed and the rest of the
  directive is printed as literal text.
\<close>

theorem star_precision_prints_star:
  "vsprintf_loop fp buf (37 # 46 # 42 # fmt) (p # args) ot = vsprintf_loop fp buf fmt args (put [37, 42] ot)"
proof -
  have flags: "parse_flags 0 (46 # 42 # fmt) = (0, 46 # 42 # fmt)" by simp
  have width: "parse_width 0 (46 # 42 # fmt) (p # args) = Inr (- 1, 0, 46 # 42 # fmt, p # args)"
    by (simp add: parse_width_def is_digit_def)
  have prec: "parse_precision (46 # 42 # fmt) (p # args) = Inr (max 0 (sint p), 42 # fmt, args)"
    by (simp add: parse_precision_def is_digit_def va_arg_def Let_def max_def)
  have qual: "parse_qualifier (42 # fmt) = 42 # fmt" by (simp add: parse_qualifier_def)
  have conv: "convert fp buf 42 0 (- 1) (max 0 (sint p)) args ot = Inr (args, put [37, 42] ot)"
    by (simp add: convert_def ascii_def EOS_def)
  have "directive fp buf (46 # 42 # fmt) (p # args) ot = Inr (fmt, args, put [37, 42] ot)"
    unfolding directive_def flags Let_def prod.case width prec rbind_simps qual cur_char_Cons conv list.sel ..
  then show ?thesis by (rule vsprintf_loop_directive)
qed

end
