(* ===== verification/Screen.thy ===== *)
theory Screen
  imports Format Tss
begin

text \<open>
  \<open>src/lib/prints.asm\<close>: \<open>print_char\<close>, \<open>print_str\<close> and \<open>set_cursor\<close> on the byte memory, the two registers
  of the display controller that hold the cursor, and the segment that \<open>gs\<close> is loaded with. What
  they promise is a terminal of 25 rows and 80 columns, and \<open>printf\<close> is joined to it.
\<close>

section \<open>The machine\<close>

text \<open>
  \<open>ram\<close> is memory by linear address, \<open>crt_index\<close> and \<open>crt_regs\<close> are the display controller (port \<open>0x3d4\<close>
  selects the register that port \<open>0x3d5\<close> reads and writes), \<open>video_gdt\<close> is the base of the descriptor
  table.
\<close>

record video =
  ram :: mem
  crt_index :: u8
  crt_regs :: "u8 \<Rightarrow> u8"
  video_gdt :: u32

definition crt_out :: "u16 \<Rightarrow> u8 \<Rightarrow> video \<Rightarrow> video" where
  "crt_out dx al v =
     (if dx = 0x03d4 then v\<lparr>crt_index := al\<rparr>
      else if dx = 0x03d5 then v\<lparr>crt_regs := (crt_regs v)(crt_index v := al)\<rparr> else v)"

definition crt_in :: "u16 \<Rightarrow> video \<Rightarrow> u8" where
  "crt_in dx v = (if dx = 0x03d5 then crt_regs v (crt_index v) else 0xff)"

text \<open>A data segment: \<open>mov gs, ax\<close> reads the descriptor, and every access is checked against the limit.\<close>

record segment =
  seg_base :: u32
  seg_limit :: nat

definition read_gdt_desc :: "mem \<Rightarrow> u32 \<Rightarrow> gdt_desc" where
  "read_gdt_desc m p =
     \<lparr>limit_low_word = ucast (m p) OR push_bit 8 (ucast (m (p + 1))),
      base_low_word = ucast (m (p + 2)) OR push_bit 8 (ucast (m (p + 3))),
      base_mid_byte = m (p + 4), attr_low_byte = m (p + 5), limit_high_attr_high = m (p + 6),
      base_high_byte = m (p + 7)\<rparr>"

definition segment_fault :: fault where
  "segment_fault = Undefined ''general protection''"

definition load_segment :: "u16 \<Rightarrow> video \<Rightarrow> segment outcome" where
  "load_segment sel v =
     (let d = read_gdt_desc (ram v) (video_gdt v + ucast (sel AND 0xfff8))
      in if attr_low_byte d AND 0x9e \<noteq> 0x92 then Inl segment_fault
         else Inr \<lparr>seg_base = desc_base d,
                seg_limit = (if bit (limit_high_attr_high d) 7 then unat (desc_limit d) * 4096 + 4095
                  else unat (desc_limit d))\<rparr>)"

definition seg_store8 :: "segment \<Rightarrow> u32 \<Rightarrow> u8 \<Rightarrow> video \<Rightarrow> video outcome" where
  "seg_store8 sg off b v =
     (if seg_limit sg < unat off then Inl segment_fault
      else Inr (v\<lparr>ram := (ram v)(seg_base sg + off := b)\<rparr>))"

definition seg_store16 :: "segment \<Rightarrow> u32 \<Rightarrow> u16 \<Rightarrow> video \<Rightarrow> video outcome" where
  "seg_store16 sg off w v =
     (if seg_limit sg < unat off + 1 then Inl segment_fault
      else Inr (v\<lparr>ram := (ram v)(seg_base sg + off := ucast w, seg_base sg + off + 1 := ucast (drop_bit 8 w))\<rparr>))"

text \<open>\<open>rep movsd\<close> with the direction flag clear.\<close>

fun rep_movsd :: "nat \<Rightarrow> u32 \<Rightarrow> u32 \<Rightarrow> mem \<Rightarrow> mem" where
  "rep_movsd 0 esi edi m = m"
| "rep_movsd (Suc ecx) esi edi m = rep_movsd ecx (esi + 4) (edi + 4) (store32 m edi (load32 m esi))"

section \<open>The code\<close>

definition SELECTOR_VIDEO :: u16 where
  "SELECTOR_VIDEO = push_bit 3 3"

text \<open>The body of \<open>set_cursor\<close>, which is also the end of \<open>print_char\<close>; \<open>crt_set_cursor\<close> is the function.\<close>

definition store_cursor :: "u16 \<Rightarrow> video \<Rightarrow> video" where
  "store_cursor bx v =
     (let v1 = crt_out 0x03d4 0x0e v;
          v2 = crt_out 0x03d5 (ucast (drop_bit 8 bx)) v1;
          v3 = crt_out 0x03d4 0x0f v2
      in crt_out 0x03d5 (ucast bx) v3)"

definition crt_set_cursor :: "u32 \<Rightarrow> video \<Rightarrow> video" where
  "crt_set_cursor cursor_pos v = store_cursor (ucast cursor_pos) v"

definition load_cursor :: "video \<Rightarrow> u16 \<times> video" where
  "load_cursor v =
     (let v1 = crt_out 0x03d4 0x0e v;
          ah = crt_in 0x03d5 v1;
          v2 = crt_out 0x03d4 0x0f v1;
          al = crt_in 0x03d5 v2
      in (push_bit 8 (ucast ah) OR ucast al, v2))"

text \<open>The loop \<open>.cls\<close>, with the count of \<open>ecx\<close>.\<close>

fun cls :: "nat \<Rightarrow> segment \<Rightarrow> u32 \<Rightarrow> video \<Rightarrow> video outcome" where
  "cls 0 gs ebx v = Inr v"
| "cls (Suc ecx) gs ebx v = rbind (seg_store16 gs ebx 0x0720 v) (cls ecx gs (ebx + 2))"

definition roll_screen :: "segment \<Rightarrow> video \<Rightarrow> video outcome" where
  "roll_screen gs v =
     rbind (cls 80 gs 3840 (v\<lparr>ram := rep_movsd 960 0xc00b80a0 0xc00b8000 (ram v)\<rparr>)) (\<lambda>v'. Inr (store_cursor 1920 v'))"

text \<open>\<open>jl\<close> compares signed.\<close>

definition cursor_or_roll :: "segment \<Rightarrow> u16 \<Rightarrow> video \<Rightarrow> video outcome" where
  "cursor_or_roll gs bx v = (if sint bx < 2000 then Inr (store_cursor bx v) else roll_screen gs v)"

definition carriage_return :: "segment \<Rightarrow> u16 \<Rightarrow> video \<Rightarrow> video outcome" where
  "carriage_return gs bx v = cursor_or_roll gs (bx - bx mod 80) v"

text \<open>A character and its colour, with the byte address of the colour in \<open>bx\<close> afterwards.\<close>

definition put_cell :: "segment \<Rightarrow> u16 \<Rightarrow> u8 \<Rightarrow> video \<Rightarrow> (u16 \<times> video) outcome" where
  "put_cell gs bx c v =
     (let bx1 = push_bit 1 bx
      in rbind (seg_store8 gs (ucast bx1) c v) (\<lambda>v1.
         rbind (seg_store8 gs (ucast (bx1 + 1)) 0x07 v1) (\<lambda>v2.
         Inr (drop_bit 1 (bx1 + 1), v2))))"

definition backspace :: "segment \<Rightarrow> u16 \<Rightarrow> video \<Rightarrow> video outcome" where
  "backspace gs bx v = rbind (put_cell gs (bx - 1) 0x20 v) (\<lambda>(bx', v'). Inr (store_cursor bx' v'))"

definition put_other :: "segment \<Rightarrow> u16 \<Rightarrow> u8 \<Rightarrow> video \<Rightarrow> video outcome" where
  "put_other gs bx cl v = rbind (put_cell gs bx cl v) (\<lambda>(bx', v'). cursor_or_roll gs (bx' + 1) v')"

definition print_char :: "u8 \<Rightarrow> video \<Rightarrow> video outcome" where
  "print_char cl v =
     rbind (load_segment SELECTOR_VIDEO v) (\<lambda>gs.
       let (bx, v1) = load_cursor v
       in if cl = 0xa then carriage_return gs (bx + 80) v1
          else if cl = 0xd then carriage_return gs bx v1
          else if cl = 0x8 then backspace gs bx v1
          else put_other gs bx cl v1)"

partial_function (option) print_loop :: "u32 \<Rightarrow> video \<Rightarrow> video outcome option" where
  "print_loop ebx v =
     (if ram v ebx = 0 then Some (Inr v)
      else case print_char (ram v ebx) v of Inl e \<Rightarrow> Some (Inl e) | Inr v' \<Rightarrow> print_loop (ebx + 1) v')"

definition print_str :: "u32 \<Rightarrow> video \<Rightarrow> video outcome" where
  "print_str str v = (case print_loop str v of None \<Rightarrow> Inl (Diverges ''print_str'') | Some r \<Rightarrow> r)"

section \<open>A terminal\<close>

text \<open>Cells in reading order, each a character and a colour, and the position of the cursor.\<close>

record terminal =
  cells :: "(u8 \<times> u8) list"
  pos :: nat

definition blank_cell :: "u8 \<times> u8" where
  "blank_cell = (0x20, 0x07)"

text \<open>Past the last row, all rows move up by one.\<close>

definition settle :: "terminal \<Rightarrow> terminal" where
  "settle t = (if pos t < 2000 then t else \<lparr>cells = drop 80 (cells t) @ replicate 80 blank_cell, pos = 1920\<rparr>)"

text \<open>A backspace in the first cell has no meaning.\<close>

definition term_put :: "u8 \<Rightarrow> terminal \<Rightarrow> terminal option" where
  "term_put c t =
     (if c = 10 then Some (settle (t\<lparr>pos := (pos t div 80 + 1) * 80\<rparr>))
      else if c = 13 then Some (t\<lparr>pos := pos t div 80 * 80\<rparr>)
      else if c = 8 then
        (if pos t = 0 then None else Some \<lparr>cells = (cells t)[pos t - 1 := blank_cell], pos = pos t - 1\<rparr>)
      else Some (settle \<lparr>cells = (cells t)[pos t := (c, 0x07)], pos = pos t + 1\<rparr>))"

fun term_text :: "u8 list \<Rightarrow> terminal \<Rightarrow> terminal option" where
  "term_text [] t = Some t"
| "term_text (c # cs) t = Option.bind (term_put c t) (term_text cs)"

section \<open>Cursor and cells\<close>

abbreviation VIDEO :: u32 where
  "VIDEO \<equiv> 0xc00b8000"

definition cursor_of :: "video \<Rightarrow> u16" where
  "cursor_of v = push_bit 8 (ucast (crt_regs v 0x0e)) OR ucast (crt_regs v 0x0f)"

definition vid :: "nat \<Rightarrow> u32" where
  "vid i = VIDEO + of_nat i"

definition screen_cells :: "mem \<Rightarrow> (u8 \<times> u8) list" where
  "screen_cells m = map (\<lambda>i. (m (vid (2 * i)), m (vid (2 * i + 1)))) [0..<2000]"

definition terminal_of :: "video \<Rightarrow> terminal" where
  "terminal_of v = \<lparr>cells = screen_cells (ram v), pos = unat (cursor_of v)\<rparr>"

lemma length_screen_cells [simp]: "length (screen_cells m) = 2000"
  by (simp add: screen_cells_def)

lemma load_cursor_eq:
  "fst (load_cursor v) = cursor_of v" "ram (snd (load_cursor v)) = ram v" "video_gdt (snd (load_cursor v)) = video_gdt v"
  "crt_regs (snd (load_cursor v)) = crt_regs v"
  by (simp_all add: load_cursor_def crt_out_def crt_in_def cursor_of_def Let_def)

lemma store_cursor_frame [simp]:
  "ram (store_cursor bx v) = ram v" "video_gdt (store_cursor bx v) = video_gdt v"
  by (simp_all add: store_cursor_def crt_out_def Let_def)

lemma cursor_store [simp]: "cursor_of (store_cursor bx v) = bx"
proof (rule bit_word_eqI)
  fix n :: nat
  assume n: "n < LENGTH(16)"
  have "cursor_of (store_cursor bx v) = push_bit 8 (ucast (ucast (drop_bit 8 bx) :: u8)) OR ucast (ucast bx :: u8)"
    by (simp add: cursor_of_def store_cursor_def crt_out_def Let_def)
  then show "bit (cursor_of (store_cursor bx v)) n = bit bx n"
    using n by (cases "n < 8") (auto simp: bit_simps)
qed

lemma terminal_store_cursor: "terminal_of (store_cursor bx v) = \<lparr>cells = screen_cells (ram v), pos = unat bx\<rparr>"
  by (simp add: terminal_of_def)

lemma vid_eq_iff [simp]: "i < 2 ^ 32 \<Longrightarrow> j < 2 ^ 32 \<Longrightarrow> vid i = vid j \<longleftrightarrow> i = j"
  unfolding vid_def by (rule add_offset_eq_iff)

lemma screen_cells_update:
  assumes "k < 2000"
  shows "screen_cells (m(vid (2 * k) := c, vid (2 * k + 1) := a)) = (screen_cells m)[k := (c, a)]"
proof (rule nth_equalityI)
  fix i assume "i < length (screen_cells (m(vid (2 * k) := c, vid (2 * k + 1) := a)))"
  then have i: "i < 2000" by simp
  have "2 * i \<noteq> 2 * k + 1" and "2 * i + 1 \<noteq> 2 * k" by presburger+
  then show "screen_cells (m(vid (2 * k) := c, vid (2 * k + 1) := a)) ! i = (screen_cells m)[k := (c, a)] ! i"
    using i assms by (simp add: screen_cells_def nth_list_update)
qed simp

section \<open>Scrolling\<close>

lemma store32_load32:
  "store32 m p (load32 m q) = m(p := m q, p + 1 := m (q + 1), p + 2 := m (q + 2), p + 3 := m (q + 3))"
proof -
  have "(ucast (load32 m q) :: u8) = m q" "(ucast (drop_bit 8 (load32 m q)) :: u8) = m (q + 1)"
    "(ucast (drop_bit 16 (load32 m q)) :: u8) = m (q + 2)" "(ucast (drop_bit 24 (load32 m q)) :: u8) = m (q + 3)"
    by (rule bit_word_eqI; auto simp: load32_def bit_simps dest: bit_imp_le_length)+
  then show ?thesis by (simp add: store32_def)
qed

lemma move_word:
  assumes "j < 2 ^ 32"
  shows "store32 m p (load32 m q) (p + of_nat j) = (if j < 4 then m (q + of_nat j) else m (p + of_nat j))"
proof -
  have "p + of_nat j = p + of_nat k \<longleftrightarrow> j = k" if "k < 4" for k
    using add_offset_eq_iff [OF assms, of k p] that by simp
  from this [of 0] this [of 1] this [of 2] this [of 3] show ?thesis
    unfolding store32_load32 by (auto simp: numeral_eq_Suc less_Suc_eq)
qed

lemma rep_movsd_outside: "a \<notin> region p (4 * n) \<Longrightarrow> rep_movsd n q p m a = m a"
proof (induction n arbitrary: p q m)
  case 0
  then show ?case by simp
next
  case (Suc n)
  have "region p (4 * Suc n) = region p 4 \<union> region (p + 4) (4 * n)" using region_add [of p 4 "4 * n"] by simp
  with Suc show ?case by (simp add: store32_outside)
qed

text \<open>Moving downwards by at least a word, the forward copy reads every byte before it is overwritten.\<close>

lemma rep_movsd_down:
  assumes "4 \<le> d" and "d + 4 * n < 2 ^ 32" and "j < 4 * n"
  shows "rep_movsd n (p + of_nat d) p m (p + of_nat j) = m (p + of_nat (d + j))"
  using assms
proof (induction n arbitrary: p m j)
  case 0
  then show ?case by simp
next
  case (Suc n)
  let ?m = "store32 m p (load32 m (p + of_nat d))"
  have step: "rep_movsd (Suc n) (p + of_nat d) p m = rep_movsd n ((p + 4) + of_nat d) (p + 4) ?m" by (simp add: ac_simps)
  show ?case
  proof (cases "4 \<le> j")
    case True
    then have j: "p + of_nat j = (p + 4) + of_nat (j - 4)" by (simp add: of_nat_diff)
    have "rep_movsd n ((p + 4) + of_nat d) (p + 4) ?m ((p + 4) + of_nat (j - 4)) = ?m ((p + 4) + of_nat (d + (j - 4)))"
      using Suc.prems True by (intro Suc.IH) auto
    also have "(p + 4) + of_nat (d + (j - 4)) = p + of_nat (d + j)" using True by (simp add: of_nat_diff)
    also have "?m (p + of_nat (d + j)) = m (p + of_nat (d + j))" using Suc.prems by (subst move_word) simp_all
    finally show ?thesis unfolding step j .
  next
    case False
    have "p + of_nat j \<notin> region (p + 4) (4 * n)"
    proof
      assume "p + of_nat j \<in> region (p + 4) (4 * n)"
      then obtain i where i: "i < 4 * n" "p + of_nat j = p + 4 + of_nat i" by (auto simp: region_def)
      then have "p + of_nat j = p + of_nat (4 + i)" by (simp add: add.assoc)
      then show False using add_offset_eq_iff [of j "4 + i" p] i(1) False Suc.prems by simp
    qed
    then show ?thesis unfolding step using False Suc.prems by (simp add: rep_movsd_outside move_word add.assoc)
  qed
qed

lemma cells_after_move: "take 1920 (screen_cells (rep_movsd 960 0xc00b80a0 0xc00b8000 m)) = drop 80 (screen_cells m)"
proof (rule nth_equalityI)
  fix i assume "i < length (take 1920 (screen_cells (rep_movsd 960 0xc00b80a0 0xc00b8000 m)))"
  then have i: "i < 1920" by simp
  have "rep_movsd 960 0xc00b80a0 0xc00b8000 m (vid j) = m (vid (160 + j))" if "j < 3840" for j
    using rep_movsd_down [of 160 960 j VIDEO m] that by (simp add: vid_def)
  from this [of "2 * i"] this [of "2 * i + 1"] i
  show "take 1920 (screen_cells (rep_movsd 960 0xc00b80a0 0xc00b8000 m)) ! i = drop 80 (screen_cells m) ! i"
    by (simp add: screen_cells_def)
qed simp

definition put_at :: "nat \<Rightarrow> u8 \<Rightarrow> mem \<Rightarrow> mem" where
  "put_at k c m = m(vid (2 * k) := c, vid (2 * k + 1) := 0x07)"

lemma put_at_cells: "k < 2000 \<Longrightarrow> screen_cells (put_at k c m) = (screen_cells m)[k := (c, 0x07)]"
  unfolding put_at_def by (rule screen_cells_update)

fun blanks :: "nat \<Rightarrow> nat \<Rightarrow> mem \<Rightarrow> mem" where
  "blanks 0 j m = m"
| "blanks (Suc n) j m = blanks n (j + 1) (put_at j 0x20 m)"

lemma blanks_cells:
  "j + n \<le> 2000 \<Longrightarrow>
   screen_cells (blanks n j m) = take j (screen_cells m) @ replicate n blank_cell @ drop (j + n) (screen_cells m)"
proof (induction n arbitrary: j m)
  case 0
  then show ?case by simp
next
  case (Suc n)
  then have "take (j + 1) (screen_cells (put_at j 0x20 m)) = take j (screen_cells m) @ [blank_cell]"
    by (simp add: put_at_cells blank_cell_def take_Suc_conv_app_nth take_update_cancel)
  then show ?case using Suc by (simp add: put_at_cells drop_update_cancel)
qed

section \<open>The segment of the video memory\<close>

text \<open>The descriptor \<open>gdt_video\<close> of \<open>boot/loader.asm\<close>, after the \<open>or\<close> that moves its base to the kernel's half.\<close>

definition gdt_video :: gdt_desc where
  "gdt_video = \<lparr>limit_low_word = 0x7, base_low_word = 0x8000, base_mid_byte = 0x0b, attr_low_byte = 0x92,
     limit_high_attr_high = 0xc0, base_high_byte = 0x00 OR 0xc0\<rparr>"

definition video_table :: "video \<Rightarrow> bool" where
  "video_table v \<longleftrightarrow> bytes_at (ram v) (video_gdt v + 0x18) 8 = desc_bytes gdt_video \<and>
     region (video_gdt v + 0x18) 8 \<inter> region VIDEO 4000 = {}"

definition video_segment :: segment where
  "video_segment = \<lparr>seg_base = VIDEO, seg_limit = 0x7fff\<rparr>"

lemma bytes_at_8: "bytes_at m p 8 = [m p, m (p + 1), m (p + 2), m (p + 3), m (p + 4), m (p + 5), m (p + 6), m (p + 7)]"
  by (simp add: bytes_at_def upt_rec)

lemma load_segment_video:
  assumes "video_table v"
  shows "load_segment SELECTOR_VIDEO v = Inr video_segment"
proof -
  have "bytes_at (ram v) (video_gdt v + 0x18) 8 = desc_bytes gdt_video" using assms by (simp add: video_table_def)
  then have "read_gdt_desc (ram v) (video_gdt v + 0x18) = gdt_video"
    unfolding bytes_at_8 by (simp add: desc_bytes_def gdt_video_def read_gdt_desc_def add.assoc)
  then show ?thesis
    by (simp add: load_segment_def SELECTOR_VIDEO_def gdt_video_def desc_base_def desc_limit_def video_segment_def)
qed

text \<open>Only the cells change.\<close>

definition only_cells :: "mem \<Rightarrow> mem \<Rightarrow> bool" where
  "only_cells m m' \<longleftrightarrow> (\<forall>a. a \<notin> region VIDEO 4000 \<longrightarrow> m' a = m a)"

lemma only_cells_refl [simp]: "only_cells m m"
  by (simp add: only_cells_def)

lemma only_cells_trans: "only_cells m m1 \<Longrightarrow> only_cells m1 m2 \<Longrightarrow> only_cells m m2"
  by (simp add: only_cells_def)

lemma vid_in_region: "i < 4000 \<Longrightarrow> vid i \<in> region VIDEO 4000"
  unfolding vid_def by (rule in_regionI)

lemma only_cells_put_at: "k < 2000 \<Longrightarrow> only_cells m (put_at k c m)"
  using vid_in_region [of "2 * k"] vid_in_region [of "2 * k + 1"] by (auto simp: only_cells_def put_at_def)

lemma only_cells_blanks: "j + n \<le> 2000 \<Longrightarrow> only_cells m (blanks n j m)"
proof (induction n arbitrary: j m)
  case 0
  then show ?case by simp
next
  case (Suc n)
  then have "only_cells m (put_at j 0x20 m)" by (intro only_cells_put_at) simp
  moreover have "only_cells (put_at j 0x20 m) (blanks n (j + 1) (put_at j 0x20 m))" using Suc by simp
  ultimately show ?case by (simp add: only_cells_trans)
qed

lemma only_cells_move: "only_cells m (rep_movsd 960 0xc00b80a0 0xc00b8000 m)"
proof -
  have "region VIDEO (4 * 960) \<subseteq> region VIDEO 4000" by (rule region_mono) simp
  then show ?thesis by (auto simp: only_cells_def intro!: rep_movsd_outside)
qed

lemma video_table_cells: "video_table v \<Longrightarrow> only_cells (ram v) (ram v') \<Longrightarrow> video_gdt v' = video_gdt v \<Longrightarrow> video_table v'"
  unfolding video_table_def only_cells_def
  by (metis (no_types, lifting) IntI bytes_at_cong emptyE)

section \<open>The routines on the screen\<close>

lemma unat_push1: "unat (bx :: u16) < 2000 \<Longrightarrow> unat (push_bit 1 bx) = 2 * unat bx"
  by (simp add: push_bit_eq_mult unat_word_ariths)

lemma unat_up: "unat (ucast (x :: u16) :: u32) = unat x"
  by (simp add: unsigned_ucast_eq take_bit_word_eq_self unsigned_take_bit_eq take_bit_nat_eq_self order_less_trans [OF unsigned_less])

lemma put_cell_video:
  assumes "unat bx < 2000"
  shows "put_cell video_segment bx c v = Inr (bx, v\<lparr>ram := put_at (unat bx) c (ram v)\<rparr>)"
proof -
  let ?b = "push_bit 1 bx"
  have u: "unat ?b = 2 * unat bx" using assms by (rule unat_push1)
  have u1: "unat (?b + 1) = 2 * unat bx + 1" using u assms by (simp add: unat_word_ariths)
  have "VIDEO + ucast w = vid n" if "unat w = n" "n < 2 ^ 32" for w :: u16 and n
    using that word32_eqI [of "ucast w" "of_nat n"] by (simp add: vid_def unat_up unat_of_nat32)
  from this [OF u] this [OF u1] have a: "VIDEO + ucast ?b = vid (2 * unat bx)" "VIDEO + ucast (?b + 1) = vid (2 * unat bx + 1)"
    using assms by simp_all
  have "drop_bit 1 (?b + 1) = bx" 
    by (rule word_unat_eq_iff [THEN iffD2]) (subst unat_drop_bit_eq, subst u1, simp add: drop_bit_eq_div)
  then show ?thesis
    using assms u u1 a by (simp add: put_cell_def seg_store8_def video_segment_def put_at_def Let_def unat_up)
qed

lemma put_cell_home: "put_cell video_segment 0xffff c v = Inl segment_fault"
  by (simp add: put_cell_def seg_store8_def video_segment_def Let_def)

lemma cls_video:
  "j + n \<le> 2000 \<Longrightarrow> cls n video_segment (of_nat (2 * j)) v = Inr (v\<lparr>ram := blanks n j (ram v)\<rparr>)"
proof (induction n arbitrary: j v)
  case 0
  then show ?case by simp
next
  case (Suc n)
  have u: "unat (of_nat (2 * j) :: u32) = 2 * j" using Suc.prems by (intro unat_of_nat32) simp
  have word: "(1824 :: u8) = 32" by simp
  have "seg_store16 video_segment (of_nat (2 * j)) 0x0720 v = Inr (v\<lparr>ram := put_at j 0x20 (ram v)\<rparr>)"
    using Suc.prems unfolding seg_store16_def u by (simp add: video_segment_def put_at_def vid_def word)
  moreover have "cls n video_segment (of_nat (2 * j) + 2) w = Inr (w\<lparr>ram := blanks n (j + 1) (ram w)\<rparr>)" for w
    using Suc.IH [of "j + 1" w] Suc.prems by (simp add: add.commute)
  ultimately show ?case by simp
qed

definition video_ready :: "video \<Rightarrow> bool" where
  "video_ready v \<longleftrightarrow> video_table v \<and> unat (cursor_of v) < 2000"

text \<open>A step of the screen: the terminal becomes \<open>t\<close>, nothing else in memory changes.\<close>

definition shows_terminal :: "video \<Rightarrow> terminal \<Rightarrow> video outcome \<Rightarrow> bool" where
  "shows_terminal v t r \<longleftrightarrow> (\<exists>v'. r = Inr v' \<and> terminal_of v' = t \<and> video_gdt v' = video_gdt v \<and> only_cells (ram v) (ram v'))"

lemma shows_terminal_from:
  "shows_terminal v1 t r \<Longrightarrow> only_cells (ram v) (ram v1) \<Longrightarrow> video_gdt v1 = video_gdt v \<Longrightarrow> shows_terminal v t r"
  unfolding shows_terminal_def by (elim exE conjE, intro exI conjI) (assumption | simp add: only_cells_trans)+

lemma next_row: "(n + 80) div 80 * 80 = (n div 80 + 1) * (80 :: nat)"
proof -
  have "(n + 80) div 80 = n div 80 + 1" by simp
  then show ?thesis by (simp only:)
qed

lemma roll_screen_video:
  "shows_terminal v \<lparr>cells = drop 80 (screen_cells (ram v)) @ replicate 80 blank_cell, pos = 1920\<rparr> (roll_screen video_segment v)"
proof -
  let ?m = "rep_movsd 960 0xc00b80a0 0xc00b8000 (ram v)"
  have "cls 80 video_segment 3840 w = Inr (w\<lparr>ram := blanks 80 1920 (ram w)\<rparr>)" for w
    using cls_video [of 1920 80 w] by simp
  moreover have "screen_cells (blanks 80 1920 ?m) = drop 80 (screen_cells (ram v)) @ replicate 80 blank_cell"
    using blanks_cells [of 1920 80 ?m] cells_after_move [of "ram v"] by simp
  moreover have "only_cells (ram v) (blanks 80 1920 ?m)"
    by (rule only_cells_trans [OF only_cells_move only_cells_blanks]) simp
  ultimately show ?thesis
    by (simp add: shows_terminal_def roll_screen_def terminal_store_cursor del: blanks.simps)
qed

lemma settle_video:
  assumes "unat bx \<le> 2000"
  shows "shows_terminal v (settle \<lparr>cells = screen_cells (ram v), pos = unat bx\<rparr>) (cursor_or_roll video_segment bx v)"
proof -
  have "int (unat bx) \<le> int 2000" using assms by (simp only: of_nat_le_iff)
  then have "uint bx < 2 ^ 15" by simp
  moreover have "- (2 ^ 15) \<le> uint bx" by (rule order_trans [OF _ uint_nonnegative]) simp
  ultimately have "signed_take_bit 15 (uint bx) = uint bx" by (intro signed_take_bit_int_eq_self)
  moreover have "int (unat bx) < int 2000 \<longleftrightarrow> unat bx < 2000" by (simp only: of_nat_less_iff)
  ultimately have "sint bx < 2000 \<longleftrightarrow> unat bx < 2000" by (simp add: sint_uint)
  then show ?thesis
    using roll_screen_video [of v] assms
    by (auto simp: cursor_or_roll_def settle_def shows_terminal_def terminal_store_cursor)
qed

text \<open>
  One character on the screen of the machine and on the terminal. A backspace in the first cell makes
  the offset \<open>0xfffe\<close>, past the limit of the segment.
\<close>

definition screen_step :: "terminal option \<Rightarrow> video \<Rightarrow> video outcome \<Rightarrow> bool" where
  "screen_step t v r \<longleftrightarrow> (case t of None \<Rightarrow> r = Inl segment_fault | Some t' \<Rightarrow> shows_terminal v t' r)"

lemma print_char_step:
  assumes "video_ready v"
  shows "screen_step (term_put c (terminal_of v)) v (print_char c v)"
proof -
  let ?bx = "cursor_of v" and ?v1 = "snd (load_cursor v)"
  have gs: "load_segment SELECTOR_VIDEO v = Inr video_segment" and p: "unat ?bx < 2000"
    using assms by (simp_all add: video_ready_def load_segment_video)
  have line: "shows_terminal v (settle \<lparr>cells = screen_cells (ram v), pos = unat bx div 80 * 80\<rparr>) (carriage_return video_segment bx ?v1)"
    if "unat bx < 2080" for bx :: u16
  proof -
    have "bx mod 80 \<le> bx" by (simp add: word_le_nat_alt unat_mod)
    then have "unat (bx - bx mod 80) = unat bx div 80 * 80"
      by (subst unat_sub) (simp_all only: unat_mod minus_mod_eq_div_mult, simp add: minus_mod_eq_div_mult)
    moreover have "unat bx div 80 \<le> 2079 div 80" using that by (intro div_le_mono) simp
    ultimately show ?thesis
      using settle_video [of "bx - bx mod 80" ?v1] by (simp add: carriage_return_def shows_terminal_def load_cursor_eq)
  qed
  have v1: "ram ?v1 = ram v" "video_gdt ?v1 = video_gdt v" by (simp_all add: load_cursor_eq)
  have cell: "put_cell video_segment ?bx c ?v1 = Inr (?bx, ?v1\<lparr>ram := put_at (unat ?bx) c (ram v)\<rparr>)"
    using put_cell_video [OF p] by (simp add: v1)
  have run: "print_char c v = (if c = 0xa then carriage_return video_segment (?bx + 80) ?v1
      else if c = 0xd then carriage_return video_segment ?bx ?v1
      else if c = 0x8 then backspace video_segment ?bx ?v1 else put_other video_segment ?bx c ?v1)"
    by (simp add: print_char_def gs case_prod_unfold Let_def load_cursor_eq)
  consider (lf) "c = 10" | (cr) "c = 13" | (home) "c = 8" "unat ?bx = 0" | (bs) "c = 8" "unat ?bx \<noteq> 0" | (other) "c \<noteq> 10" "c \<noteq> 13" "c \<noteq> 8"
    by blast
  then show ?thesis
  proof cases
    case lf
    have "unat (?bx + 80) = unat ?bx + 80" using p by (simp add: unat_word_ariths)
    moreover have "(unat ?bx + 80) div 80 * 80 = (unat ?bx div 80 + 1) * 80" by (rule next_row)
    ultimately show ?thesis unfolding run using line [of "?bx + 80"] p lf
      by (simp add: screen_step_def term_put_def terminal_of_def)
  next
    case cr
    have "unat ?bx div 80 * 80 < 2000" using p by (simp add: order_le_less_trans [OF div_times_less_eq_dividend])
    then show ?thesis unfolding run using line [of ?bx] p cr
      by (simp add: screen_step_def term_put_def terminal_of_def settle_def)
  next
    case home
    then have "?bx - 1 = 0xffff" by (simp add: unat_eq_0)
    then show ?thesis unfolding run using home by (simp add: screen_step_def term_put_def terminal_of_def backspace_def put_cell_home)
  next
    case bs
    have "unat (?bx - 1) = unat ?bx - 1" using bs by (simp add: unat_minus_one unat_eq_0)
    then have "put_cell video_segment (?bx - 1) 0x20 ?v1 = Inr (?bx - 1, ?v1\<lparr>ram := put_at (unat ?bx - 1) 0x20 (ram v)\<rparr>)"
      and "unat ?bx - 1 < 2000"
      using put_cell_video [of "?bx - 1" "0x20" ?v1] p by (simp_all add: v1)
    then show ?thesis unfolding run using bs \<open>unat (?bx - 1) = _\<close>
      by (simp add: screen_step_def term_put_def terminal_of_def backspace_def shows_terminal_def put_at_cells blank_cell_def
          only_cells_put_at v1)
  next
    case other
    have "unat (?bx + 1) = unat ?bx + 1" using p by (simp add: unat_word_ariths)
    then have "settle \<lparr>cells = screen_cells (put_at (unat ?bx) c (ram v)), pos = unat (?bx + 1)\<rparr> =
        settle \<lparr>cells = (screen_cells (ram v))[unat ?bx := (c, 0x07)], pos = unat ?bx + 1\<rparr>"
      using p by (simp add: put_at_cells)
    moreover have "unat (?bx + 1) \<le> 2000" using \<open>unat (?bx + 1) = _\<close> p by simp
    moreover have "term_put c (terminal_of v) = Some (settle \<lparr>cells = (screen_cells (ram v))[unat ?bx := (c, 0x07)], pos = unat ?bx + 1\<rparr>)"
      using other by (simp add: term_put_def terminal_of_def)
    moreover have "only_cells (ram v) (ram (?v1\<lparr>ram := put_at (unat ?bx) c (ram v)\<rparr>))" using only_cells_put_at [OF p] by simp
    ultimately show ?thesis
      unfolding run using shows_terminal_from [OF settle_video [of "?bx + 1" "?v1\<lparr>ram := put_at (unat ?bx) c (ram v)\<rparr>"]] other
      by (simp add: screen_step_def put_other_def cell v1)
  qed
qed

section \<open>Strings on the screen\<close>

lemma settle_bounds: "length (cells t) = 2000 \<Longrightarrow> length (cells (settle t)) = 2000 \<and> pos (settle t) < 2000"
  by (simp add: settle_def)

lemma term_put_bounds:
  assumes "term_put c t = Some t'" and "length (cells t) = 2000" and "pos t < 2000"
  shows "length (cells t') = 2000 \<and> pos t' < 2000"
proof -
  have "pos t div 80 * 80 < 2000" using assms(3) by (simp add: order_le_less_trans [OF div_times_less_eq_dividend])
  then show ?thesis
    using assms settle_bounds [of "t\<lparr>pos := (pos t div 80 + 1) * 80\<rparr>"]
      settle_bounds [of "\<lparr>cells = (cells t)[pos t := (c, 0x07)], pos = pos t + 1\<rparr>"]
    by (auto simp: term_put_def split: if_splits)
qed

lemma term_text_total:
  assumes "8 \<notin> set cs"
  shows "\<exists>t'. term_text cs t = Some t'"
  using assms
proof (induction cs arbitrary: t)
  case Nil
  then show ?case by simp
next
  case (Cons c cs)
  then have "\<exists>t1. term_put c t = Some t1" by (simp add: term_put_def)
  with Cons show ?case by auto
qed

lemma print_char_cases:
  assumes "video_ready v"
  obtains (home) "term_put c (terminal_of v) = None" "print_char c v = Inl segment_fault"
  | (shown) v' where "term_put c (terminal_of v) = Some (terminal_of v')" "print_char c v = Inr v'" "video_ready v'"
      "only_cells (ram v) (ram v')" "video_gdt v' = video_gdt v"
proof (cases "term_put c (terminal_of v)")
  case None
  then show thesis using print_char_step [OF assms, of c] home by (simp add: screen_step_def)
next
  case (Some t)
  then obtain v' where v': "print_char c v = Inr v'" "terminal_of v' = t" "video_gdt v' = video_gdt v" "only_cells (ram v) (ram v')"
    using print_char_step [OF assms, of c] by (auto simp: screen_step_def shows_terminal_def)
  have "pos t < 2000" using term_put_bounds [OF Some] assms by (simp add: terminal_of_def video_ready_def)
  then have "video_ready v'" using v' assms video_table_cells [of v v'] by (auto simp: video_ready_def terminal_of_def)
  then show thesis using shown [of v'] Some v' by simp
qed

lemma print_str_step:
  "ram v p = 0 \<Longrightarrow> print_str p v = Inr v"
  "ram v p \<noteq> 0 \<Longrightarrow> print_str p v = rbind (print_char (ram v p) v) (print_str (p + 1))"
  by (simp_all add: print_str_def print_loop.simps [of p v] rbind_def split: sum.split)

definition prints :: "u8 list \<Rightarrow> video \<Rightarrow> video outcome \<Rightarrow> bool" where
  "prints cs v r \<longleftrightarrow> (case term_text cs (terminal_of v) of None \<Rightarrow> r = Inl segment_fault
     | Some t \<Rightarrow> \<exists>v'. r = Inr v' \<and> terminal_of v' = t \<and> video_ready v' \<and> only_cells (ram v) (ram v') \<and> video_gdt v' = video_gdt v)"

lemma print_str_prints:
  assumes "video_ready v" and "cstr (ram v) p cs" and "region p (Suc (length cs)) \<inter> region VIDEO 4000 = {}"
  shows "prints cs v (print_str p v)"
  using assms
proof (induction cs arbitrary: v p)
  case Nil
  then show ?case by (simp add: prints_def print_str_step EOS_def)
next
  case (Cons c cs)
  from Cons.prems(2) have c: "ram v p = c" "c \<noteq> 0" and rest: "cstr (ram v) (p + 1) cs" by (simp_all add: EOS_def)
  have disj: "region (p + 1) (Suc (length cs)) \<inter> region VIDEO 4000 = {}"
    using Cons.prems(3) by (auto simp: region_Suc)
  have run: "print_str p v = rbind (print_char c v) (print_str (p + 1))" using c by (simp add: print_str_step)
  show ?case
  proof (rule print_char_cases [OF Cons.prems(1), of c])
    assume "term_put c (terminal_of v) = None" "print_char c v = Inl segment_fault"
    then show ?thesis by (simp add: prints_def run)
  next
    fix v' assume v': "term_put c (terminal_of v) = Some (terminal_of v')" "print_char c v = Inr v'" "video_ready v'"
      "only_cells (ram v) (ram v')" "video_gdt v' = video_gdt v"
    have "cstr (ram v') (p + 1) cs" using rest by (rule cstr_cong) (use v'(4) disj in \<open>auto simp: only_cells_def\<close>)
    then have "prints cs v' (print_str (p + 1) v')" using v'(3) disj by (intro Cons.IH)
    then show ?thesis using v' only_cells_trans [OF v'(4)]
      by (auto simp: prints_def run split: option.splits)
  qed
qed

lemma backspace_home_faults: "video_ready v \<Longrightarrow> cursor_of v = 0 \<Longrightarrow> print_char 8 v = Inl (Undefined ''general protection'')"
  using print_char_step [of v 8] by (simp add: screen_step_def term_put_def terminal_of_def segment_fault_def)

section \<open>Properties\<close>

text \<open>
  C18: the screen is a terminal. For a string outside the video memory, \<open>print_str\<close> puts on the screen
  what the terminal shows after the same characters (line feeds, carriage returns, backspaces and
  scrolling included), changes no other memory and leaves the cursor on the screen; it
  faults, exactly where a backspace comes in the first cell.
\<close>

theorem print_str_refines:
  assumes "video_ready v" and "cstr (ram v) p cs" and "region p (Suc (length cs)) \<inter> region VIDEO 4000 = {}"
  shows "case term_text cs (terminal_of v) of
      None \<Rightarrow> print_str p v = Inl (Undefined ''general protection'')
    | Some t \<Rightarrow> \<exists>v'. print_str p v = Inr v' \<and> terminal_of v' = t \<and> video_ready v' \<and>
        (\<forall>a. a \<notin> region VIDEO 4000 \<longrightarrow> ram v' a = ram v a)"
  using print_str_prints [OF assms] unfolding prints_def segment_fault_def only_cells_def by (auto split: option.splits)

text \<open>The memory of \<open>printf\<close> is that of the screen.\<close>

definition print_from :: "mem \<Rightarrow> u32 \<Rightarrow> video outcome \<Rightarrow> video outcome" where
  "print_from m p w = rbind w (\<lambda>v. print_str p (v\<lparr>ram := m\<rparr>))"

text \<open>
  C19: \<open>printf\<close> on the screen. When its buffer lies outside the video memory and the descriptor of the
  video segment, \<open>printf\<close> leaves on the screen what the terminal shows after the texts of the pieces
  of the format, with the cursor on the screen, and writes only the buffer and the video memory.
\<close>

theorem printf_on_screen:
  assumes "\<forall>pc \<in> set ps. piece_ok pc" and "length (fmt_text ps) < 1024" and "EOS \<notin> set (fmt_text ps)" and "8 \<notin> set (fmt_text ps)"
    and "video_ready v" and "region buf 1024 \<inter> region VIDEO 4000 = {}" and "region buf 1024 \<inter> region (video_gdt v + 0x18) 8 = {}"
  shows "\<exists>m v'. printf fp print_from buf (ram v) (concat (map fmt_of ps)) (concat (map args_of ps)) (Inr v) = Inr (m, Inr v') \<and>
    term_text (fmt_text ps) (terminal_of v) = Some (terminal_of v') \<and> video_ready v' \<and>
    (\<forall>a. a \<notin> region VIDEO 4000 \<union> region buf 1024 \<longrightarrow> ram v' a = ram v a)"
proof -
  let ?text = "fmt_text ps" and ?n = "Suc (length (fmt_text ps))"
  let ?m = "store_bytes (ram v) buf (?text @ [EOS])"
  let ?v = "v\<lparr>ram := ?m\<rparr>"
  have sub: "region buf ?n \<subseteq> region buf 1024" using assms(2) by (intro region_mono) simp
  then have out: "?m a = ram v a" if "a \<notin> region buf 1024" for a
    using that by (intro store_bytes_outside) auto
  have "cstr ?m buf ?text" using assms(2,3) by (intro cstr_store) simp_all
  then have str: "cstr (ram ?v) buf ?text" by simp
  have kept: "?m (vid i) = ram v (vid i)" if "i < 4000" for i
    using vid_in_region [OF that] assms(6) by (intro out) blast
  have same: "screen_cells ?m = screen_cells (ram v)"
    unfolding screen_cells_def by (intro map_cong refl) (simp add: kept)
  then have t: "terminal_of ?v = terminal_of v" by (simp add: terminal_of_def cursor_of_def)
  have "bytes_at ?m (video_gdt v + 0x18) 8 = bytes_at (ram v) (video_gdt v + 0x18) 8"
    using out assms(7) by (intro bytes_at_cong) (auto simp: disjoint_iff)
  then have ready: "video_ready ?v" using assms(5) by (simp add: video_ready_def video_table_def cursor_of_def)
  have "region buf ?n \<inter> region VIDEO 4000 = {}" using sub assms(6) by blast
  with ready str have p: "prints ?text ?v (print_str buf ?v)" by (rule print_str_prints)
  obtain t' where t': "term_text ?text (terminal_of v) = Some t'" using term_text_total [OF assms(4)] by blast
  with p obtain v' where v': "print_str buf ?v = Inr v'" "terminal_of v' = t'" "video_ready v'" "only_cells ?m (ram v')"
    by (auto simp: prints_def t)
  have "printf fp print_from buf (ram v) (concat (map fmt_of ps)) (concat (map args_of ps)) (Inr v) = Inr (?m, Inr v')"
    using vsprintf_pieces [OF assms(1), of fp "ram v" buf] assms(2) v'(1) by (simp add: printf_def print_from_def)
  then show ?thesis using v' t' out by (auto simp: only_cells_def)
qed

lemma term_text_append: "term_text (cs @ ds) t = Option.bind (term_text cs t) (term_text ds)"
proof (induction cs arbitrary: t)
  case Nil
  then show ?case by simp
next
  case (Cons c cs)
  then show ?case by (cases "term_put c t") simp_all
qed

lemma term_text_line:
  assumes "set line \<inter> {8, 10, 13} = {}" and "pos t + length line < 2000" and "length (cells t) = 2000"
  shows "term_text line t = Some \<lparr>cells = take (pos t) (cells t) @ map (\<lambda>c. (c, 0x07)) line @ drop (pos t + length line) (cells t),
    pos = pos t + length line\<rparr>"
  using assms
proof (induction line arbitrary: t)
  case Nil
  then show ?case by simp
next
  case (Cons c line)
  let ?t = "\<lparr>cells = (cells t)[pos t := (c, 0x07)], pos = pos t + 1\<rparr>"
  have "term_put c t = Some ?t" using Cons.prems by (simp add: term_put_def settle_def)
  moreover have "take (pos t + 1) (cells ?t) = take (pos t) (cells t) @ [(c, 0x07)]"
    using Cons.prems by (simp add: take_Suc_conv_app_nth take_update_cancel)
  ultimately show ?case using Cons.IH [of ?t] Cons.prems by (simp add: drop_update_cancel)
qed

text \<open>
  What has been printed stays readable. A line of fewer than 80 printable characters that is printed
  at the start of a row stands, with its end of line, in the row above the cursor, also when the
  screen has scrolled.
\<close>

theorem printed_line_visible:
  assumes "length (cells t) = 2000" and "pos t < 2000" and "80 dvd pos t" and "length line < 80" and "set line \<inter> {8, 10, 13} = {}"
  shows "\<exists>t'. term_text (line @ [10]) t = Some t' \<and> pos t' = min (pos t + 80) 1920 \<and>
    take (length line) (drop (pos t' - 80) (cells t')) = map (\<lambda>c. (c, 0x07)) line"
proof -
  let ?p = "pos t" and ?n = "length line"
  obtain k where k: "?p = k * 80" using assms(3) by (auto elim: dvdE)
  then have k25: "k \<le> 24" and room: "?p + ?n < 2000" using assms(2,4) by simp_all
  let ?cs = "take ?p (cells t) @ map (\<lambda>c. (c, 0x07)) line @ drop (?p + ?n) (cells t)"
  have "term_text line t = Some \<lparr>cells = ?cs, pos = ?p + ?n\<rparr>" using assms(1,5) room by (intro term_text_line)
  moreover have "((?p + ?n) div 80 + 1) * 80 = ?p + 80" using assms(4) by (simp add: k)
  ultimately have run: "term_text (line @ [10]) t = Some (settle \<lparr>cells = ?cs, pos = ?p + 80\<rparr>)"
    by (simp add: term_text_append term_put_def add.commute)
  have "take ?n (drop ?p ?cs) = map (\<lambda>c. (c, 0x07)) line" using assms(1) room by simp
  then show ?thesis
    unfolding run using room k25 k assms(1,4) by (cases "k = 24") (auto simp: settle_def)
qed

text \<open>A screen as the loader leaves it, with a string in memory.\<close>

definition sample_video :: "u8 list \<Rightarrow> video" where
  "sample_video cs = \<lparr>ram = store_bytes (store_bytes (\<lambda>_. 0) 0xc0000d58 (desc_bytes gdt_video)) 0xc0003000 (cs @ [EOS]),
     crt_index = 0, crt_regs = (\<lambda>_. 0), video_gdt = 0xc0000d40\<rparr>"

lemma sample_video_ready:
  assumes "EOS \<notin> set cs" and "length cs < 1000"
  shows "video_ready (sample_video cs)" and "cstr (ram (sample_video cs)) 0xc0003000 cs"
    and "region 0xc0003000 (Suc (length cs)) \<inter> region VIDEO 4000 = {}"
    and "cursor_of (sample_video cs) = 0"
proof -
  have "region (0xc0000d58 :: u32) 8 \<inter> region 0xc0003000 (length (cs @ [EOS])) = {}" using regions_apart assms(2) by simp
  then have "bytes_at (ram (sample_video cs)) 0xc0000d58 8 = bytes_at (store_bytes (\<lambda>_. 0) 0xc0000d58 (desc_bytes gdt_video)) 0xc0000d58 8"
    unfolding sample_video_def video.select_convs by (rule bytes_at_store_disjoint)
  also have "\<dots> = desc_bytes gdt_video" using bytes_at_store [of "desc_bytes gdt_video"] by simp
  finally have d: "bytes_at (ram (sample_video cs)) 0xc0000d58 8 = desc_bytes gdt_video" .
  have g: "video_gdt (sample_video cs) + 0x18 = 0xc0000d58" by (simp add: sample_video_def)
  show c: "cursor_of (sample_video cs) = 0" by (simp add: cursor_of_def sample_video_def)
  show "video_ready (sample_video cs)"
    using regions_apart by (simp add: video_ready_def video_table_def g d c)
  show "cstr (ram (sample_video cs)) 0xc0003000 cs" using assms by (simp add: sample_video_def cstr_store)
  show "region 0xc0003000 (Suc (length cs)) \<inter> region VIDEO 4000 = {}" using regions_apart assms(2) by simp
qed

lemma print_str_refines_witness:
  "\<exists>v' t. print_str 0xc0003000 (sample_video (str8 ''Lizi'' @ [10])) = Inr v' \<and>
    term_text (str8 ''Lizi'' @ [10]) (terminal_of (sample_video (str8 ''Lizi'' @ [10]))) = Some (terminal_of v')"
proof -
  let ?cs = "str8 ''Lizi'' @ [10 :: u8]"
  have "EOS \<notin> set ?cs" and "8 \<notin> set ?cs" and "length ?cs < 1000" by code_simp+
  then show ?thesis
    using print_str_refines [OF sample_video_ready(1-3), of ?cs] term_text_total [of ?cs "terminal_of (sample_video ?cs)"] by auto
qed

lemma printf_on_screen_witness:
  "\<exists>m v'. printf sample_fpu print_from 0xc0003000 (ram (sample_video [])) (str8 ''[%d]'') [5] (Inr (sample_video [])) = Inr (m, Inr v') \<and>
    term_text (str8 ''[5]'') (terminal_of (sample_video [])) = Some (terminal_of v')"
proof -
  let ?ps = "[Lit 91, Field [] None None Dec 5, Lit 93]"
  have fmt: "concat (map fmt_of ?ps) = str8 ''[%d]''" by code_simp
  have args: "concat (map args_of ?ps) = [5]" by simp
  have ok: "\<forall>pc \<in> set ?ps. piece_ok pc" by (simp add: flag_chars_def)
  have shown: "fmt_text ?ps = str8 ''[5]''" by code_simp
  have shown_ok: "length (str8 ''[5]'') < 1024" "EOS \<notin> set (str8 ''[5]'')" "8 \<notin> set (str8 ''[5]'')" by code_simp+
  have ready: "video_ready (sample_video [])" by (rule sample_video_ready) simp_all
  have "region (0xc0003000 :: u32) 1024 \<inter> region VIDEO 4000 = {}" using regions_apart by simp
  moreover have "region (0xc0003000 :: u32) 1024 \<inter> region (video_gdt (sample_video []) + 0x18) 8 = {}"
    using regions_apart by (simp add: sample_video_def)
  ultimately show ?thesis
    using printf_on_screen [OF ok, unfolded shown, OF shown_ok ready, of "0xc0003000" sample_fpu] unfolding fmt args by blast
qed

lemma printed_line_visible_witness:
  "\<exists>t'. term_text (str8 ''ready'' @ [10]) \<lparr>cells = replicate 2000 blank_cell, pos = 1920\<rparr> = Some t' \<and> pos t' = 1920 \<and>
    take 5 (drop 1840 (cells t')) = map (\<lambda>c. (c, 0x07)) (str8 ''ready'')"
proof -
  have "set (str8 ''ready'') \<inter> {8, 10, 13} = {}" and "length (str8 ''ready'') = 5" by code_simp+
  then show ?thesis
    using printed_line_visible [of "\<lparr>cells = replicate 2000 blank_cell, pos = 1920\<rparr>" "str8 ''ready''"] by auto
qed

end
