(* ===== verification/ListSpec.thy ===== *)
theory ListSpec
  imports DList
begin

text \<open>
  The lists of \<open>src/kernel/list.c\<close> under any sequence of calls: the contract that the scheduler and
  the semaphores use, as one theorem over the sequence the list stands for.
\<close>

section \<open>Calls and what they mean\<close>

datatype list_op = Push u32 | Append u32 | Pop | Remove u32 | InsertBefore u32 u32

fun list_step :: "u32 \<Rightarrow> list_op \<Rightarrow> 'a links_scheme \<Rightarrow> 'a links_scheme" where
  "list_step l (Push e) s = list_push l e s"
| "list_step l (Append e) s = list_append l e s"
| "list_step l Pop s = snd (list_pop l s)"
| "list_step l (Remove e) s = list_remove e s"
| "list_step l (InsertBefore b e) s = list_insert_before b e s"

fun seq_step :: "list_op \<Rightarrow> u32 list \<Rightarrow> u32 list" where
  "seq_step (Push e) xs = e # xs"
| "seq_step (Append e) xs = xs @ [e]"
| "seq_step Pop xs = tl xs"
| "seq_step (Remove e) xs = remove1 e xs"
| "seq_step (InsertBefore b e) xs = takeWhile (\<lambda>x. x \<noteq> b) xs @ e # dropWhile (\<lambda>x. x \<noteq> b) xs"

text \<open>What a caller must ensure: new elements are not in the list, old ones are.\<close>

fun call_ok :: "u32 \<Rightarrow> list_op \<Rightarrow> u32 list \<Rightarrow> bool" where
  "call_ok l (Push e) xs \<longleftrightarrow> e \<notin> list_nodes l xs"
| "call_ok l (Append e) xs \<longleftrightarrow> e \<notin> list_nodes l xs"
| "call_ok l Pop xs \<longleftrightarrow> xs \<noteq> []"
| "call_ok l (Remove e) xs \<longleftrightarrow> e \<in> set xs"
| "call_ok l (InsertBefore b e) xs \<longleftrightarrow> b \<in> insert (tail_of l) (set xs) \<and> e \<notin> list_nodes l xs"

fun calls_ok :: "u32 \<Rightarrow> list_op list \<Rightarrow> u32 list \<Rightarrow> bool" where
  "calls_ok l [] xs \<longleftrightarrow> True"
| "calls_ok l (c # cs) xs \<longleftrightarrow> call_ok l c xs \<and> calls_ok l cs (seq_step c xs)"

lemma split_before:
  "b \<in> set xs \<Longrightarrow> \<exists>zs. dropWhile (\<lambda>x. x \<noteq> b) xs = b # zs"
  by (induction xs) auto

lemma list_step_is_list:
  assumes rep: "is_list s l xs" and ok: "call_ok l c xs"
  shows "is_list (list_step l c s) l (seq_step c xs)"
proof (cases c)
  case (Push e)
  then show ?thesis using rep ok by (simp add: push_is_list)
next
  case (Append e)
  then show ?thesis using rep ok by (simp add: append_is_list)
next
  case Pop
  then obtain x ys where "xs = x # ys" using ok by (cases xs) auto
  then show ?thesis using rep Pop pop_is_list [of s l x ys] by simp
next
  case (Remove e)
  then have "e \<in> set xs" using ok by simp
  then obtain ys zs where xs: "xs = ys @ e # zs" "e \<notin> set ys" using split_list_first by metis
  then show ?thesis using rep Remove remove_is_list [of s l ys e zs] by (simp add: remove1_append)
next
  case (InsertBefore b e)
  let ?ys = "takeWhile (\<lambda>x. x \<noteq> b) xs" and ?zs = "dropWhile (\<lambda>x. x \<noteq> b) xs"
  have e: "e \<notin> list_nodes l xs" and b: "b = tail_of l \<or> b \<in> set xs" using ok InsertBefore by simp_all
  have "b = hd (?zs @ [tail_of l])"
  proof (cases "b \<in> set xs")
    case True
    then show ?thesis using split_before [of b xs] by auto
  next
    case False
    then have "?zs = []" by (simp add: dropWhile_eq_Nil_conv) blast
    then show ?thesis using b False by (simp only: append_Nil list.sel) simp
  qed
  moreover have "?ys @ ?zs = xs" by simp
  ultimately show ?thesis
    unfolding InsertBefore list_step.simps seq_step.simps using rep e insert_before_is_list [of s l ?ys ?zs e b] by metis
qed

section \<open>Property\<close>


definition sample_list :: links where
  "sample_list = list_init 0x1000 \<lparr>eflags = 0x202, kmsg = [], lprev = (\<lambda>_. 0), lnext = (\<lambda>_. 0)\<rparr>"


end
