(* ===== verification/LoadKernel.thy ===== *)
theory LoadKernel
  imports Loader
begin

text \<open>
  The routines of \<open>src/boot/loader.asm\<close> that the kernel's first state depends on: the amount of memory from
  the areas that the firmware reports, the page directory and the first page table, and the copy
  of the kernel's segments out of its file. Physical memory is a byte map; after paging has been turned
  on the accesses go through the tables.
\<close>

section \<open>The code\<close>

text \<open>
  \<open>get_total_mem_bytes\<close>: the areas of 20 bytes at \<open>ards_buffer\<close> (\<open>ebx\<close>), the low words of start and
  length. \<open>jge\<close> compares signed; \<open>loop\<close> counts the 16-bit \<open>cx\<close> down and stops at 0, so a count of 0 is 65536.
\<close>

fun find_max_mem_area :: "nat \<Rightarrow> u32 \<Rightarrow> u32 \<Rightarrow> mem \<Rightarrow> u32" where
  "find_max_mem_area 0 ebx edx m = edx"
| "find_max_mem_area (Suc cx) ebx edx m =
     (let eax = load32 m ebx + load32 m (ebx + 8)
      in find_max_mem_area cx (ebx + 20) (if sint edx \<ge> sint eax then edx else eax) m)"

text \<open>
  The loader's own data, by the address that the assembler gives to \<open>gdt_base\<close>: the table of four descriptors with the
  six bytes \<open>gdt_ptr\<close> before it, then \<open>total_mem_bytes\<close>, \<open>ards_count\<close> and the buffer of the areas.
\<close>

definition gdt_ptr :: "u32 \<Rightarrow> u32" where "gdt_ptr gdt_base = gdt_base - 6"
definition total_mem_bytes :: "u32 \<Rightarrow> u32" where "total_mem_bytes gdt_base = gdt_base + 32"
definition ards_count :: "u32 \<Rightarrow> u32" where "ards_count gdt_base = gdt_base + 36"
definition ards_buffer :: "u32 \<Rightarrow> u32" where "ards_buffer gdt_base = gdt_base + 40"

definition load16 :: "mem \<Rightarrow> u32 \<Rightarrow> u32" where
  "load16 m a = ucast (m a) OR push_bit 8 (ucast (m (a + 1)))"

definition get_total_mem_bytes :: "u32 \<Rightarrow> mem \<Rightarrow> mem" where
  "get_total_mem_bytes gdt_base m =
     (let cx = unat (load16 m (ards_count gdt_base));
          edx = find_max_mem_area (if cx = 0 then 0x10000 else cx) (ards_buffer gdt_base) 0 m
      in store32 (store32 (store32 m (total_mem_bytes gdt_base) edx) 0xd00 edx) 0xd04 gdt_base)"

definition page_dir_table_pos :: u32 where
  "page_dir_table_pos = 0x100000"

fun clear_page_dir :: "nat \<Rightarrow> u32 \<Rightarrow> mem \<Rightarrow> mem" where
  "clear_page_dir 0 esi m = m"
| "clear_page_dir (Suc ecx) esi m = clear_page_dir ecx (esi + 1) (m(page_dir_table_pos + esi := 0))"

text \<open>The loops \<open>.create_pte\<close> (with the entry in \<open>edx\<close>) and \<open>.create_kernel_pde\<close> (with the entry in \<open>eax\<close>).\<close>

fun create_entries :: "nat \<Rightarrow> u32 \<Rightarrow> u32 \<Rightarrow> u32 \<Rightarrow> mem \<Rightarrow> mem" where
  "create_entries 0 esi e ebx m = m"
| "create_entries (Suc ecx) esi e ebx m = create_entries ecx (esi + 1) (e + 0x1000) ebx (store32 m (ebx + esi * 4) e)"

definition setup_page :: "mem \<Rightarrow> mem" where
  "setup_page m =
     (let m1 = clear_page_dir 0x1000 0 m;
          ebx = page_dir_table_pos + 0x1000;
          eax = ebx OR 7;
          m2 = store32 m1 (page_dir_table_pos + 0) eax;
          m3 = store32 m2 (page_dir_table_pos + 0xc00) eax;
          m4 = store32 m3 (page_dir_table_pos + 4092) (eax - 0x1000);
          m5 = create_entries 256 0 7 ebx m4
      in create_entries 254 769 ((page_dir_table_pos + 0x2000) OR 7) page_dir_table_pos m5)"

text \<open>
  \<open>kernel_init\<close>: the program headers of the file at \<open>kernel_bin_addr\<close>, after paging has been turned on. The
  arguments of \<open>mem_cpy\<close> pass over the stack, which is below \<open>0xc0000900\<close> and not part of the model: the theorem on
  the copied segments is about the bytes from \<open>0x900\<close> on. Its \<open>rep movsb\<close> is \<open>vmemcpy\<close>. A count of 0 would make \<open>loop\<close>
  run \<open>2 ^ 32\<close> times.
\<close>

definition kernel_bin_addr :: u32 where
  "kernel_bin_addr = 0x70000"

definition vload16 :: "'a paging_scheme \<Rightarrow> u32 \<Rightarrow> u32 outcome" where
  "vload16 s a = rbind (vload8 s a) (\<lambda>l. rbind (vload8 s (a + 1)) (\<lambda>h. Inr (ucast l OR push_bit 8 (ucast h))))"

fun copy_each_segment :: "nat \<Rightarrow> u32 \<Rightarrow> u32 \<Rightarrow> 'a paging_scheme \<Rightarrow> 'a paging_scheme outcome" where
  "copy_each_segment 0 ebx edx s = Inr s"
| "copy_each_segment (Suc ecx) ebx edx s =
     rbind (vload8 s ebx) (\<lambda>p_type.
     rbind (if p_type = 0 then Inr s
            else rbind (vload32 s (ebx + 16)) (\<lambda>size.
                 rbind (vload32 s (ebx + 4)) (\<lambda>off.
                 rbind (vload32 s (ebx + 8)) (\<lambda>dst. vmemcpy dst (off + kernel_bin_addr) (unat size) s))))
       (copy_each_segment ecx (ebx + edx) edx))"

definition load_segments :: "'a paging_scheme \<Rightarrow> 'a paging_scheme outcome" where
  "load_segments s =
     rbind (vload32 s (kernel_bin_addr + 28)) (\<lambda>phoff.
     rbind (vload16 s (kernel_bin_addr + 42)) (\<lambda>dx.
     rbind (vload16 s (kernel_bin_addr + 44)) (\<lambda>cx.
     copy_each_segment (if cx = 0 then 2 ^ 32 else unat cx) (phoff + kernel_bin_addr) dx s)))"

section \<open>The amount of memory\<close>

definition area_end :: "mem \<Rightarrow> u32 \<Rightarrow> nat \<Rightarrow> u32" where
  "area_end m p i = load32 m (p + of_nat (20 * i)) + load32 m (p + of_nat (20 * i) + 8)"

lemma sint_less_half: "unat (x :: u32) < 2 ^ 31 \<Longrightarrow> sint x = int (unat x)"
proof -
  assume "unat x < 2 ^ 31"
  then have "int (unat x) < int (2 ^ 31)" by (simp only: of_nat_less_iff)
  then have lt: "uint x < 2 ^ 31" by simp
  have "- (2 ^ 31) \<le> uint x" by (rule order_trans [OF _ uint_nonnegative]) simp
  then have "signed_take_bit 31 (uint x) = uint x" using lt by (rule signed_take_bit_int_eq_self)
  then show ?thesis by (simp add: sint_uint)
qed

lemma sint_upper_half: "2 ^ 31 \<le> unat (x :: u32) \<Longrightarrow> sint x < 0"
proof -
  assume "2 ^ 31 \<le> unat x"
  then have "int (2 ^ 31) \<le> int (unat x)" by (simp only: of_nat_le_iff)
  moreover have "int (unat x) < int 4294967296" using unat_bound32 [of x] by (simp only: of_nat_less_iff)
  ultimately have "uint x div 2147483648 = 1" by simp
  then have "bit (uint x) 31" by (simp add: bit_iff_odd)
  then show ?thesis by (simp add: sint_uint)
qed

text \<open>The ends of the first \<open>n\<close> areas that are below 2 GB.\<close>

definition low_ends :: "mem \<Rightarrow> u32 \<Rightarrow> nat \<Rightarrow> nat set" where
  "low_ends m p n = {unat (area_end m p i) | i. i < n \<and> unat (area_end m p i) < 2 ^ 31}"

lemma low_ends_Suc:
  "low_ends m p (Suc n) = (if unat (area_end m p 0) < 2 ^ 31 then {unat (area_end m p 0)} else {}) \<union> low_ends m (p + 20) n"
proof -
  have "area_end m (p + 20) i = area_end m p (Suc i)" for i by (simp add: area_end_def algebra_simps)
  then show ?thesis by (auto simp: low_ends_def less_Suc_eq_0_disj)
qed

lemma finite_low_ends [simp]: "finite (low_ends m p n)"
  by (simp add: low_ends_def)

lemma find_max_spec:
  "unat edx < 2 ^ 31 \<Longrightarrow> unat (find_max_mem_area n p edx m) = Max (insert (unat edx) (low_ends m p n))"
proof (induction n arbitrary: p edx)
  case 0
  then show ?case by (simp add: low_ends_def)
next
  case (Suc n)
  let ?e = "area_end m p 0"
  have step: "find_max_mem_area (Suc n) p edx m = find_max_mem_area n (p + 20) (if sint edx \<ge> sint ?e then edx else ?e) m"
    by (simp add: area_end_def)
  show ?case
  proof (cases "unat ?e < 2 ^ 31")
    case True
    define d where "d = (if sint edx \<ge> sint ?e then edx else ?e)"
    have "sint edx \<ge> sint ?e \<longleftrightarrow> unat edx \<ge> unat ?e"
      by (simp only: sint_less_half [OF True] sint_less_half [OF Suc.prems] of_nat_le_iff)
    then have d: "unat d = max (unat edx) (unat ?e)" "unat d < 2 ^ 31"
      using True Suc.prems by (simp_all add: d_def max_def)
    have "unat (find_max_mem_area (Suc n) p edx m) = Max (insert (unat d) (low_ends m (p + 20) n))"
      unfolding step d_def [symmetric] by (rule Suc.IH [OF d(2)])
    also have "\<dots> = Max (insert (unat edx) (insert (unat ?e) (low_ends m (p + 20) n)))"
      by (cases "low_ends m (p + 20) n = {}") (simp_all add: d(1) max.assoc)
    finally show ?thesis using True by (simp add: low_ends_Suc)
  next
    case False
    then have "sint edx \<ge> sint ?e" using Suc.prems sint_upper_half [of ?e] sint_less_half [of edx] uint_nonnegative [of edx] by linarith
    then show ?thesis unfolding step using Suc.IH [OF Suc.prems] False by (simp add: low_ends_Suc)
  qed
qed

section \<open>The page tables\<close>

lemma or_7: "(0x1000 * y :: u32) OR 7 = 0x1000 * y + 7"
proof -
  have "(0x1000 * y) = push_bit 12 y" by (simp add: push_bit_eq_mult mult.commute)
  moreover have "push_bit 12 y AND 7 = (0 :: u32)"
  proof -
    have lit: "(7 :: u32) = mask 3" by (simp add: mask_eq_exp_minus_1)
    show ?thesis unfolding lit by (intro bit_word_eqI) (auto simp: bit_simps)
  qed
  ultimately show ?thesis using word_plus_and_or [of "push_bit 12 y" 7] by simp
qed

lemma store32_byte:
  assumes "i < 2 ^ 30" and "j < 2 ^ 32"
  shows "store32 m (b + of_nat (4 * i)) w (b + of_nat j) = (if j div 4 = i then ucast (drop_bit (8 * (j mod 4)) w) else m (b + of_nat j))"
proof -
  have eq: "b + of_nat j = b + of_nat (4 * i) + of_nat r \<longleftrightarrow> j = 4 * i + r" if "r < 4" for r
    unfolding add.assoc of_nat_add [symmetric] using that assms by (intro add_offset_eq_iff) auto
  have e: "b + of_nat j = b + of_nat (4 * i) \<longleftrightarrow> j = 4 * i" "b + of_nat j = b + of_nat (4 * i) + 1 \<longleftrightarrow> j = 4 * i + 1"
    "b + of_nat j = b + of_nat (4 * i) + 2 \<longleftrightarrow> j = 4 * i + 2" "b + of_nat j = b + of_nat (4 * i) + 3 \<longleftrightarrow> j = 4 * i + 3"
    using eq [of 0] eq [of 1] eq [of 2] eq [of 3] by (simp_all only: of_nat_0 of_nat_1 of_nat_numeral add_0_right) simp_all
  show ?thesis
  proof (cases "j div 4 = i")
    case True
    then obtain r where r: "j = 4 * i + r" "r < 4" by (metis mod_less_divisor mult_div_mod_eq zero_less_numeral)
    then have "r = 0 \<or> r = 1 \<or> r = 2 \<or> r = 3" by linarith
    then show ?thesis unfolding store32_def fun_upd_apply e using r by auto
  next
    case False
    then have "j \<noteq> 4 * i" "j \<noteq> 4 * i + 1" "j \<noteq> 4 * i + 2" "j \<noteq> 4 * i + 3" by auto
    then show ?thesis unfolding store32_def fun_upd_apply e using False by simp
  qed
qed

lemma create_entries_base: "create_entries n esi e (b + 0x1000) m = create_entries n (esi + 1024) e b m"
  by (induction n arbitrary: esi e m) (simp_all add: algebra_simps)

lemma create_entries_byte:
  assumes "i + n \<le> 2 ^ 30" and "j < 2 ^ 32"
  shows "create_entries n (of_nat i) e b m (b + of_nat j) =
    (if i \<le> j div 4 \<and> j div 4 < i + n then ucast (drop_bit (8 * (j mod 4)) (e + 0x1000 * of_nat (j div 4 - i))) else m (b + of_nat j))"
  using assms
proof (induction n arbitrary: i e m)
  case 0
  then show ?case by auto
next
  case (Suc n)
  have step: "create_entries (Suc n) (of_nat i) e b m = create_entries n (of_nat (Suc i)) (e + 0x1000) b (store32 m (b + of_nat (4 * i)) e)"
    by (simp add: mult.commute add.commute)
  have "e + 0x1000 + 0x1000 * of_nat (k - Suc i) = e + 0x1000 * of_nat (k - i)" if "Suc i \<le> k" for k
    using that by (simp add: of_nat_diff algebra_simps)
  moreover have "store32 m (b + of_nat (4 * i)) e (b + of_nat j) =
      (if j div 4 = i then ucast (drop_bit (8 * (j mod 4)) e) else m (b + of_nat j))"
    using Suc.prems by (intro store32_byte) simp_all
  ultimately show ?case unfolding step using Suc.IH [of "Suc i"] Suc.prems by auto
qed

lemma clear_page_dir_byte:
  assumes "i + n \<le> 2 ^ 32" and "j < 2 ^ 32"
  shows "clear_page_dir n (of_nat i) m (page_dir_table_pos + of_nat j) = (if i \<le> j \<and> j < i + n then 0 else m (page_dir_table_pos + of_nat j))"
  using assms
proof (induction n arbitrary: i m)
  case 0
  then show ?case by auto
next
  case (Suc n)
  have "page_dir_table_pos + of_nat j = page_dir_table_pos + of_nat i \<longleftrightarrow> j = i" using Suc.prems by (intro add_offset_eq_iff) simp_all
  then show ?case using Suc.IH [of "Suc i"] Suc.prems by (auto simp: add.commute)
qed

lemma setup_page_byte:
  assumes j: "j < 2 ^ 32"
  shows "setup_page m (0x100000 + of_nat j) =
    (let i = j div 4; b = (\<lambda>e. ucast (drop_bit (8 * (j mod 4)) (e :: u32)))
     in if 769 \<le> i \<and> i < 1023 then b (0x102007 + 0x1000 * of_nat (i - 769))
        else if 1024 \<le> i \<and> i < 1280 then b (7 + 0x1000 * of_nat (i - 1024))
        else if i = 1023 then b 0x100007 else if i = 768 \<or> i = 0 then b 0x101007
        else if i < 1024 then 0 else m (0x100000 + of_nat j))"
proof -
  have at: "(0x100000 :: u32) + 0xc00 = 0x100000 + of_nat (4 * 768)" "(0x100000 :: u32) + 4092 = 0x100000 + of_nat (4 * 1023)"
    "(0x100000 :: u32) + 0 = 0x100000 + of_nat (4 * 0)" by simp_all
  have or7: "(0x101000 :: u32) OR 7 = 0x101007" "(0x102000 :: u32) OR 7 = 0x102007" by simp_all
  let ?m1 = "clear_page_dir 0x1000 0 m"
  let ?m2 = "store32 ?m1 (0x100000 + of_nat (4 * 0)) 0x101007"
  let ?m3 = "store32 ?m2 (0x100000 + of_nat (4 * 768)) 0x101007"
  let ?m4 = "store32 ?m3 (0x100000 + of_nat (4 * 1023)) 0x100007"
  define m4 where "m4 = ?m4"
  have run: "setup_page m = create_entries 254 (of_nat 769) 0x102007 0x100000 (create_entries 256 (of_nat 1024) 7 0x100000 ?m4)"
    using create_entries_base [of 256 0 7 "0x100000"] by (simp add: setup_page_def page_dir_table_pos_def Let_def or7 at [simplified])
  have m1: "?m1 (0x100000 + of_nat j) = (if j < 4096 then 0 else m (0x100000 + of_nat j))"
    using clear_page_dir_byte [of 0 "0x1000" j m] j by (simp add: page_dir_table_pos_def)
  have st: "store32 M (0x100000 + of_nat (4 * 0)) w (0x100000 + of_nat j) = (if j div 4 = 0 then ucast (drop_bit (8 * (j mod 4)) w) else M (0x100000 + of_nat j))"
    "store32 M (0x100000 + of_nat (4 * 768)) w (0x100000 + of_nat j) = (if j div 4 = 768 then ucast (drop_bit (8 * (j mod 4)) w) else M (0x100000 + of_nat j))"
    "store32 M (0x100000 + of_nat (4 * 1023)) w (0x100000 + of_nat j) = (if j div 4 = 1023 then ucast (drop_bit (8 * (j mod 4)) w) else M (0x100000 + of_nat j))"
    for M w using j by (intro store32_byte; simp)+
  have m4: "?m4 (0x100000 + of_nat j) = (if j div 4 = 1023 then ucast (drop_bit (8 * (j mod 4)) (0x100007 :: u32))
      else if j div 4 = 768 then ucast (drop_bit (8 * (j mod 4)) (0x101007 :: u32))
      else if j div 4 = 0 then ucast (drop_bit (8 * (j mod 4)) (0x101007 :: u32))
      else if j < 4096 then 0 else m (0x100000 + of_nat j))"
    by (simp only: st m1)
  have small: "j < 4096 \<longleftrightarrow> j div 4 < 1024" by (simp add: div_less_iff_less_mult)
  show ?thesis
    unfolding run m4_def [symmetric] using j create_entries_byte [of 769 254 j "0x102007" "0x100000"]
      create_entries_byte [of 1024 256 j 7 "0x100000"]
    by (auto simp: Let_def small m4 [folded m4_def])
qed

lemma loader_phys_byte:
  assumes "j < 0x100000"
  shows "loader_phys (0x100000 + of_nat j) =
    (if j < 4096 then entry_byte loader_dir j else if j < 8192 then entry_byte loader_table (j - 4096) else 0)"
proof -
  define q where "q = j div 4096"
  define r where "r = j mod 4096"
  have j: "j = 4096 * q + r" "r < 4096" by (simp_all add: q_def r_def)
  let ?f = "0x100000 + of_nat (4096 * q) :: u32"
  have q: "q < 256" using assms by (simp add: q_def div_less_iff_less_mult)
  have u: "unat ?f = 0x100000 + 4096 * q" using q by (subst unat_add32) (simp_all add: unat_of_nat32 flip: of_nat_mult)
  have f: "page_frame ?f = ?f" by (rule page_frame_aligned) (simp only: u, simp)
  have a: "(0x100000 :: u32) + of_nat j = ?f + of_nat r" by (simp add: j(1) add.assoc)
  have "page_frame (?f + of_nat r) = ?f" "(?f + of_nat r) AND 0xfff = of_nat r" using page_frame_add [OF j(2), of ?f] f by simp_all
  moreover have "unat (of_nat r :: u32) = r" using j(2) by (intro unat_of_nat32) simp
  moreover have "?f = 0x100000 \<longleftrightarrow> q = 0" "?f = 0x101000 \<longleftrightarrow> q = 1"
    unfolding word_unat_eq_iff u by simp_all
  moreover have "j < 4096 \<longleftrightarrow> q = 0" "4096 \<le> j \<Longrightarrow> j < 8192 \<longleftrightarrow> q = 1" using j by auto
  ultimately show ?thesis unfolding a loader_phys_def using j(1) by auto
qed

lemma dir_entry:
  assumes "769 \<le> i"
  shows "(0x101000 + PG_SIZE * of_nat (i - 768) :: u32) OR 7 = 0x102007 + 0x1000 * of_nat (i - 769)"
proof -
  have "(0x101000 + PG_SIZE * of_nat (i - 768) :: u32) = 0x1000 * (0x101 + of_nat (i - 768))"
    by (simp add: PG_SIZE_def algebra_simps)
  moreover have "i - 768 = Suc (i - 769)" using assms by simp
  ultimately show ?thesis by (simp only: or_7) (simp add: algebra_simps)
qed

lemma table_entry: "(PG_SIZE * of_nat i :: u32) OR 7 = 7 + 0x1000 * of_nat i"
  unfolding PG_SIZE_def using or_7 [of "of_nat i"] by (simp add: add.commute)

text \<open>Byte \<open>r\<close> of word \<open>k\<close> of the tables.\<close>

lemma setup_page_word:
  assumes "k < 0x40000" and "r < 4" and zero: "1280 \<le> k \<Longrightarrow> m (0x100000 + of_nat (4 * k + r)) = 0"
  shows "setup_page m (0x100000 + of_nat (4 * k + r)) = ucast (drop_bit (8 * r)
    (if k < 1024 then loader_dir k else if k < 2048 then loader_table (k - 1024) else 0))"
proof -
  have kr: "(4 * k + r) div 4 = k" "(4 * k + r) mod 4 = r" "4 * k + r < 2 ^ 32" using assms(1,2) by simp_all
  have or7: "(0x101000 :: u32) OR 7 = 0x101007" "(0x100000 :: u32) OR 7 = 0x100007" by simp_all
  consider "k = 0" | "0 < k" "k < 768" | "k = 768" | "769 \<le> k" "k < 1023" | "k = 1023" | "1024 \<le> k" "k < 1280" | "1280 \<le> k" by linarith
  then show ?thesis
    using setup_page_byte [OF kr(3), of m] zero dir_entry [of k] table_entry [of "k - 1024"]
    unfolding kr(1,2) Let_def loader_dir_def loader_table_def by cases (simp_all add: or7)
qed

lemma loader_phys_word:
  assumes "k < 0x40000" and "r < 4"
  shows "loader_phys (0x100000 + of_nat (4 * k + r)) = ucast (drop_bit (8 * r)
    (if k < 1024 then loader_dir k else if k < 2048 then loader_table (k - 1024) else 0))"
proof -
  have "4 * k + r - 4096 = 4 * (k - 1024) + r" if "1024 \<le> k" using that by simp
  then have "(4 * k + r - 4096) div 4 = k - 1024" "(4 * k + r - 4096) mod 4 = r" if "1024 \<le> k"
    using that assms(2) by simp_all
  moreover have "(4 * k + r) div 4 = k" "(4 * k + r) mod 4 = r" using assms(2) by simp_all
  moreover have "4 * k + r < 4096 \<longleftrightarrow> k < 1024" "4 * k + r < 8192 \<longleftrightarrow> k < 2048" using assms(2) by auto
  ultimately show ?thesis using loader_phys_byte [of "4 * k + r"] assms by (simp add: entry_byte_def)
qed

lemma setup_page_loads:
  assumes "\<And>a. 0x101400 \<le> unat a \<Longrightarrow> unat a < 0x200000 \<Longrightarrow> m a = 0"
  shows "loader_memory (setup_page m)"
    and "unat a < 0x100000 \<or> 0x200000 \<le> unat a \<Longrightarrow> setup_page m a = m a"
proof -
  have at: "unat (0x100000 + of_nat j :: u32) = 0x100000 + j" if "j < 0x100000" for j
    using that by (subst unat_add32) (simp_all add: unat_of_nat32)
  show "loader_memory (setup_page m)"
    unfolding loader_memory_def
  proof (intro allI impI)
    fix a :: u32 assume a: "0x100000 \<le> unat a \<and> unat a < 0x200000"
    define k where "k = (unat a - 0x100000) div 4"
    define r where "r = (unat a - 0x100000) mod 4"
    have j: "4 * k + r = unat a - 0x100000" by (simp add: k_def r_def)
    have r4: "r < 4" by (simp add: r_def)
    have less: "4 * k + r < 0x100000" unfolding j using a by linarith
    then have k: "k < 0x40000" by simp
    have "unat a = 0x100000 + (4 * k + r)" unfolding j using a by linarith
    then have "unat a = unat (0x100000 + of_nat (4 * k + r) :: u32)" by (simp only: at [OF less])
    then have eq: "a = 0x100000 + of_nat (4 * k + r)" by (rule word32_eqI)
    have "m (0x100000 + of_nat (4 * k + r)) = 0" if "1280 \<le> k"
    proof (rule assms, unfold at [OF less])
      show "0x101400 \<le> 0x100000 + (4 * k + r)" using that by simp
      show "0x100000 + (4 * k + r) < 0x200000" using less by simp
    qed
    then show "setup_page m a = loader_phys a"
      unfolding eq using setup_page_word [OF k r4] loader_phys_word [OF k r4] by simp
  qed
  show "setup_page m a = m a" if a: "unat a < 0x100000 \<or> 0x200000 \<le> unat a"
  proof -
    obtain j where j: "j < 2 ^ 32" "a = 0x100000 + of_nat j" using offset_exists [of a "0x100000"] by blast
    have "\<not> j < 0x100000" using a at [of j] unfolding j(2) by auto
    then have "1280 \<le> j div 4" by (simp add: less_eq_div_iff_mult_less_eq)
    then show ?thesis using setup_page_byte [OF j(1), of m] by (simp add: Let_def j(2))
  qed
qed

section \<open>The segments of the kernel\<close>

text \<open>The loader's address space: the first megabyte at 0 and at \<open>0xc0000000\<close>.\<close>

definition loader_space_on :: "'a paging_scheme \<Rightarrow> bool" where
  "loader_space_on s \<longleftrightarrow> loader_memory (phys s) \<and> cr3 s = 0x100000"

lemma loader_reads:
  assumes "loader_space_on s" and "unat a < 0x100000"
  shows "vload8 s a = Inr (phys s a)" "vload32 s a = Inr (load32 (phys s) a)"
  using loader_mmu(1) [of "phys s" a] assms by (simp_all add: loader_space_on_def vload8_def vload32_def translate_def)

text \<open>\<open>n\<close> bytes copied from \<open>src\<close> to \<open>d\<close>.\<close>

definition copied :: "nat \<Rightarrow> u32 \<Rightarrow> u32 \<Rightarrow> mem \<Rightarrow> mem" where
  "copied n d src m = (\<lambda>a. if unat d \<le> unat a \<and> unat a < unat d + n then m (src + (a - d)) else m a)"

lemma vmemcpy_low:
  fixes s :: "'a paging_scheme"
  assumes "loader_space_on s" and "unat d + n \<le> 0x70000" and "0x70000 \<le> unat src" and "unat src + n \<le> 0x100000"
  shows "vmemcpy (0xc0000000 + d) src n s = Inr (s\<lparr>phys := copied n d src (phys s)\<rparr>)"
  using assms
proof (induction n arbitrary: d src s)
  case 0
  have "copied 0 d src (phys s) = phys s" by (rule ext) (simp add: copied_def not_less [symmetric] del: not_less)
  then show ?case by simp
next
  case (Suc n)
  let ?s = "s\<lparr>phys := (phys s)(d := phys s src)\<rparr>"
  have rd: "vload8 s src = Inr (phys s src)" using Suc.prems by (intro loader_reads) simp_all
  have wr: "vstore8 (0xc0000000 + d) (phys s src) s = Inr ?s"
    using loader_mmu_high [of "phys s" d] Suc.prems by (simp add: loader_space_on_def vstore8_def translate_def)
  have u: "unat (d + 1) = unat d + 1" "unat (src + 1) = unat src + 1" using Suc.prems by (simp_all add: unat_inc32)
  have on: "loader_space_on ?s" using Suc.prems by (auto simp: loader_space_on_def loader_memory_def)
  have "copied n (d + 1) (src + 1) (phys ?s) = copied (Suc n) d src (phys s)"
  proof
    fix a
    have eq: "src + 1 + (a - (d + 1)) = src + (a - d)" by simp
    have "src + (a - d) \<noteq> d" if "unat d + 1 \<le> unat a" "unat a < unat d + 1 + n"
    proof -
      have "unat (a - d) = unat a - unat d" using that by (intro unat_sub) (simp add: word_le_nat_alt)
      then have u: "unat (src + (a - d)) = unat src + (unat a - unat d)" using that Suc.prems by (subst unat_add32) simp_all
      show ?thesis
      proof
        assume e: "src + (a - d) = d"
        have "unat d = unat src + (unat a - unat d)" using u unfolding e .
        then show False using Suc.prems(2,3) by linarith
      qed
    qed
    moreover have "unat a = unat d \<longleftrightarrow> a = d" by (simp add: word_unat_eq_iff)
    ultimately show "copied n (d + 1) (src + 1) (phys ?s) a = copied (Suc n) d src (phys s) a"
      by (auto simp: copied_def u eq)
  qed
  moreover have "vmemcpy (0xc0000000 + (d + 1)) (src + 1) n ?s = Inr (?s\<lparr>phys := copied n (d + 1) (src + 1) (phys ?s)\<rparr>)"
    using Suc.prems on by (intro Suc.IH) (simp_all add: u)
  ultimately show ?case by (simp add: rd wr add.assoc)
qed

text \<open>A program header at \<open>h\<close> in memory \<open>m\<close>: offset in the file, address and size of the segment.\<close>

definition seg_off :: "mem \<Rightarrow> u32 \<Rightarrow> u32" where "seg_off m h = load32 m (h + 4)"
definition seg_addr :: "mem \<Rightarrow> u32 \<Rightarrow> u32" where "seg_addr m h = load32 m (h + 8)"
definition seg_size :: "mem \<Rightarrow> u32 \<Rightarrow> nat" where "seg_size m h = unat (load32 m (h + 16))"

text \<open>
  A header in the file, the 200 sectors that the loader reads, whose segment, if it has one, goes from the file to the
  kernel's half, between the loader's stack, which ends at \<open>0xc0000900\<close>, and the file.
\<close>

definition header_ok :: "mem \<Rightarrow> u32 \<Rightarrow> bool" where
  "header_ok m h \<longleftrightarrow> 0x70000 \<le> unat h \<and> unat h + 20 \<le> 0x89000 \<and> (m h \<noteq> 0 \<longrightarrow>
     0xc0000900 \<le> unat (seg_addr m h) \<and> unat (seg_addr m h) + seg_size m h \<le> 0xc0070000 \<and>
     unat (seg_off m h) + seg_size m h \<le> 0x19000)"

definition seg_copied :: "mem \<Rightarrow> u32 \<Rightarrow> mem \<Rightarrow> mem" where
  "seg_copied m0 h m = (if m0 h = 0 then m
     else copied (seg_size m0 h) (seg_addr m0 h - 0xc0000000) (seg_off m0 h + 0x70000) m)"

definition seg_dest :: "mem \<Rightarrow> u32 \<Rightarrow> u32 set" where
  "seg_dest m h = (if m h = 0 then {} else {a. unat (seg_addr m h) - 0xc0000000 \<le> unat a \<and>
     unat a < unat (seg_addr m h) - 0xc0000000 + seg_size m h})"

text \<open>The file, and everything above it, is as in \<open>m0\<close>.\<close>

definition same_file :: "mem \<Rightarrow> mem \<Rightarrow> bool" where
  "same_file m0 m \<longleftrightarrow> (\<forall>a. 0x70000 \<le> unat a \<longrightarrow> m a = m0 a)"

lemma same_file_load32:
  assumes "same_file m0 m" and "0x70000 \<le> unat a" "unat a + 4 \<le> 0x100000"
  shows "load32 m a = load32 m0 a"
  by (rule load32_cong) (use assms in \<open>auto simp: same_file_def region_atLeastLessThan\<close>)

lemma unat_small: "unat (h :: u32) + k \<le> 0x100000 \<Longrightarrow> unat (h + of_nat k) = unat h + k"
  by (subst unat_add32) (simp_all add: unat_of_nat32)

lemma header_dest:
  assumes "header_ok m h" and "m h \<noteq> 0"
  shows "unat (seg_addr m h - 0xc0000000) = unat (seg_addr m h) - 0xc0000000"
    and "unat (seg_addr m h - 0xc0000000) + seg_size m h \<le> 0x70000"
    and "unat (seg_off m h + 0x70000) = unat (seg_off m h) + 0x70000"
proof -
  have h: "0xc0000900 \<le> unat (seg_addr m h)" "unat (seg_addr m h) + seg_size m h \<le> 0xc0070000" "unat (seg_off m h) + seg_size m h \<le> 0x19000"
    using assms by (simp_all add: header_ok_def)
  show d: "unat (seg_addr m h - 0xc0000000) = unat (seg_addr m h) - 0xc0000000"
    using h(1) by (subst unat_sub) (simp_all add: word_le_nat_alt)
  show "unat (seg_addr m h - 0xc0000000) + seg_size m h \<le> 0x70000" unfolding d using h(1,2) by linarith
  show "unat (seg_off m h + 0x70000) = unat (seg_off m h) + 0x70000" using h(3) by (subst unat_add32) simp_all
qed

lemma seg_copied_file:
  assumes "header_ok m0 h" and "same_file m0 m"
  shows "same_file m0 (seg_copied m0 h m)"
proof (cases "m0 h = 0")
  case False
  from header_dest(2) [OF assms(1) False] show ?thesis using assms(2) by (auto simp: same_file_def seg_copied_def copied_def)
qed (simp add: seg_copied_def assms(2))

lemma file_space:
  assumes "loader_space_on s" and "same_file m0 (phys s)" and "same_file m0 m"
  shows "loader_space_on (s\<lparr>phys := m\<rparr>)"
  using assms by (simp add: loader_space_on_def loader_memory_def same_file_def)

lemma copy_segment:
  fixes s :: "'a paging_scheme"
  assumes on: "loader_space_on s" and img: "same_file m0 (phys s)" and h: "header_ok m0 h"
  shows "copy_each_segment (Suc n) h dx s = copy_each_segment n (h + dx) dx (s\<lparr>phys := seg_copied m0 h (phys s)\<rparr>)"
proof -
  have r: "0x70000 \<le> unat h" "unat h + 20 \<le> 0x89000" using h by (simp_all add: header_ok_def)
  have w: "unat (h + 4) = unat h + 4" "unat (h + 8) = unat h + 8" "unat (h + 16) = unat h + 16"
    using unat_small [of h 4] unat_small [of h 8] unat_small [of h 16] r(2) by simp_all
  have ty: "vload8 s h = Inr (m0 h)" using loader_reads(1) [OF on, of h] r img by (simp add: same_file_def)
  have fields: "vload32 s (h + 16) = Inr (load32 m0 (h + 16))" "vload32 s (h + 4) = Inr (seg_off m0 h)" "vload32 s (h + 8) = Inr (seg_addr m0 h)"
    using loader_reads(2) [OF on] same_file_load32 [OF img] r w by (simp_all add: seg_off_def seg_addr_def)
  show ?thesis
  proof (cases "m0 h = 0")
    case False
    note D = header_dest [OF h False]
    have off: "unat (seg_off m0 h) + seg_size m0 h \<le> 0x19000" using h False by (simp add: header_ok_def)
    have "vmemcpy (0xc0000000 + (seg_addr m0 h - 0xc0000000)) (seg_off m0 h + 0x70000) (seg_size m0 h) s =
        Inr (s\<lparr>phys := seg_copied m0 h (phys s)\<rparr>)"
      using vmemcpy_low [OF on D(2), of "seg_off m0 h + 0x70000"] off False by (simp add: D(3) seg_copied_def)
    then have "vmemcpy (seg_addr m0 h) (seg_off m0 h + 0x70000) (unat (load32 m0 (h + 16))) s = Inr (s\<lparr>phys := seg_copied m0 h (phys s)\<rparr>)"
      by (simp add: seg_size_def)
    then show ?thesis using False by (simp add: ty fields kernel_bin_addr_def)
  qed (simp add: ty seg_copied_def)
qed

definition header_at :: "u32 \<Rightarrow> u32 \<Rightarrow> nat \<Rightarrow> u32" where
  "header_at b dx i = b + of_nat i * dx"

lemma copy_all:
  fixes s :: "'a paging_scheme"
  assumes "loader_space_on s" and "same_file m0 (phys s)" and "\<forall>i < n. header_ok m0 (header_at b dx i)"
  shows "copy_each_segment n b dx s = Inr (s\<lparr>phys := foldl (\<lambda>m h. seg_copied m0 h m) (phys s) (map (header_at b dx) [0..<n])\<rparr>)"
  using assms
proof (induction n arbitrary: b s)
  case 0
  then show ?case by simp
next
  case (Suc n)
  let ?s = "s\<lparr>phys := seg_copied m0 b (phys s)\<rparr>"
  have b: "header_at b dx 0 = b" by (simp add: header_at_def)
  have h: "header_ok m0 b" using Suc.prems(3) b by (metis zero_less_Suc)
  have step: "header_at (b + dx) dx i = header_at b dx (Suc i)" for i by (simp add: header_at_def algebra_simps)
  have img: "same_file m0 (phys ?s)" using seg_copied_file [OF h Suc.prems(2)] by simp
  then have "loader_space_on ?s" using file_space [OF Suc.prems(1,2)] by simp
  then have "copy_each_segment n (b + dx) dx ?s =
      Inr (?s\<lparr>phys := foldl (\<lambda>m h. seg_copied m0 h m) (phys ?s) (map (header_at (b + dx) dx) [0..<n])\<rparr>)"
    using img Suc.prems(3) by (intro Suc.IH) (simp_all add: step)
  moreover have "map (header_at b dx) [0..<Suc n] = b # map (header_at (b + dx) dx) [0..<n]"
    by (simp only: map_upt_Suc b map_cong [OF refl step])
  ultimately show ?case unfolding copy_segment [OF Suc.prems(1,2) h] by simp
qed

lemma seg_copied_at:
  assumes "header_ok m0 h"
  shows "seg_copied m0 h m a = (if a \<in> seg_dest m0 h
     then m (seg_off m0 h + 0x70000 + (a - (seg_addr m0 h - 0xc0000000))) else m a)"
proof (cases "m0 h = 0")
  case False
  from header_dest(1) [OF assms False] False show ?thesis by (simp add: seg_copied_def copied_def seg_dest_def)
qed (simp add: seg_copied_def seg_dest_def)

text \<open>The byte of the file that belongs at \<open>a\<close>.\<close>

definition seg_byte :: "mem \<Rightarrow> u32 \<Rightarrow> u32 \<Rightarrow> u8" where
  "seg_byte m h a = m (kernel_bin_addr + seg_off m h + (a - (seg_addr m h - 0xc0000000)))"

lemma seg_copied_dest:
  assumes h: "header_ok m0 h" and img: "same_file m0 m" and a: "a \<in> seg_dest m0 h"
  shows "seg_copied m0 h m a = seg_byte m0 h a"
proof -
  let ?b = "kernel_bin_addr + seg_off m0 h + (a - (seg_addr m0 h - 0xc0000000))"
  have ty: "m0 h \<noteq> 0" using a by (auto simp: seg_dest_def split: if_splits)
  note D = header_dest [OF h ty]
  have off: "unat (seg_off m0 h) + seg_size m0 h \<le> 0x19000" using h ty by (simp add: header_ok_def)
  have k: "unat (a - (seg_addr m0 h - 0xc0000000)) = unat a - (unat (seg_addr m0 h) - 0xc0000000)"
    "unat a - (unat (seg_addr m0 h) - 0xc0000000) < seg_size m0 h"
    using a ty by (auto simp: seg_dest_def D(1) unat_sub word_le_nat_alt)
  have "unat ?b = unat (kernel_bin_addr + seg_off m0 h) + unat (a - (seg_addr m0 h - 0xc0000000))"
    using D(3) k off by (intro unat_add32) (simp add: kernel_bin_addr_def add.commute)
  then have "0x70000 \<le> unat ?b" using D(3) by (simp add: kernel_bin_addr_def add.commute)
  then have "m ?b = m0 ?b" using img by (simp only: same_file_def)
  then show ?thesis using a by (simp add: seg_copied_at [OF h] seg_byte_def kernel_bin_addr_def add.commute add.left_commute)
qed

lemma copy_fold:
  assumes "\<forall>h \<in> set hs. header_ok m0 h" and "same_file m0 m"
  shows "same_file m0 (foldl (\<lambda>m h. seg_copied m0 h m) m hs)"
    and "\<forall>h \<in> set hs. a \<notin> seg_dest m0 h \<Longrightarrow> foldl (\<lambda>m h. seg_copied m0 h m) m hs a = m a"
  using assms by (induction hs arbitrary: m) (simp_all add: seg_copied_file seg_copied_at)

lemma copy_fold_dest:
  assumes ok: "\<forall>h \<in> set hs. header_ok m0 h" and img: "same_file m0 m"
    and i: "i < length hs" "a \<in> seg_dest m0 (hs ! i)"
    and apart: "\<forall>j < length hs. i < j \<longrightarrow> a \<notin> seg_dest m0 (hs ! j)"
  shows "foldl (\<lambda>m h. seg_copied m0 h m) m hs a = seg_byte m0 (hs ! i) a"
proof -
  let ?f = "\<lambda>m h. seg_copied m0 h m"
  let ?m = "foldl ?f m (take i hs)"
  have hs: "hs = take i hs @ hs ! i # drop (Suc i) hs" by (rule id_take_nth_drop [OF i(1)])
  have ok': "\<forall>h \<in> set (take i hs). header_ok m0 h" "\<forall>h \<in> set (drop (Suc i) hs). header_ok m0 h" "header_ok m0 (hs ! i)"
    using ok i(1) by (auto dest: in_set_takeD in_set_dropD)
  have m: "same_file m0 ?m" by (rule copy_fold(1) [OF ok'(1) img])
  have out: "\<forall>h \<in> set (drop (Suc i) hs). a \<notin> seg_dest m0 h" using apart by (auto simp: in_set_conv_nth)
  have "foldl ?f m hs a = foldl ?f (?f ?m (hs ! i)) (drop (Suc i) hs) a" by (subst hs) simp
  also have "\<dots> = ?f ?m (hs ! i) a" by (rule copy_fold(2) [OF ok'(2) seg_copied_file [OF ok'(3) m] out])
  also have "\<dots> = seg_byte m0 (hs ! i) a" by (rule seg_copied_dest [OF ok'(3) m i(2)])
  finally show ?thesis .
qed

section \<open>What the loader's routines do\<close>

definition ph_headers :: "mem \<Rightarrow> u32 list" where
  "ph_headers m = map (header_at (load32 m (kernel_bin_addr + 28) + kernel_bin_addr) (load16 m (kernel_bin_addr + 42)))
     [0..<unat (load16 m (kernel_bin_addr + 44))]"

text \<open>A file that can be loaded: it has a header, its segments are in place and do not overlap in memory.\<close>

definition file_ok :: "mem \<Rightarrow> bool" where
  "file_ok m \<longleftrightarrow> ph_headers m \<noteq> [] \<and> (\<forall>h \<in> set (ph_headers m). header_ok m h) \<and>
     sorted_wrt (\<lambda>h h'. seg_dest m h \<inter> seg_dest m h' = {}) (ph_headers m)"

definition kernel_image :: "mem \<Rightarrow> mem" where
  "kernel_image m = foldl (\<lambda>m' h. seg_copied m h m') m (ph_headers m)"

lemma load_segments_run:
  fixes s :: "'a paging_scheme"
  assumes on: "loader_space_on s" and img: "file_ok (phys s)"
  shows "load_segments s = Inr (s\<lparr>phys := kernel_image (phys s)\<rparr>)"
proof -
  let ?m = "phys s"
  let ?n = "unat (load16 ?m (kernel_bin_addr + 44))"
  let ?b = "load32 ?m (kernel_bin_addr + 28) + kernel_bin_addr"
  let ?d = "load16 ?m (kernel_bin_addr + 42)"
  have half: "vload16 s a = Inr (load16 ?m a)" if "a = kernel_bin_addr + 42 \<or> a = kernel_bin_addr + 44" for a
    using that loader_reads(1) [OF on] by (auto simp: vload16_def load16_def kernel_bin_addr_def)
  have start: "vload32 s (kernel_bin_addr + 28) = Inr (load32 ?m (kernel_bin_addr + 28))"
    using loader_reads(2) [OF on] by (simp add: kernel_bin_addr_def)
  have n: "load16 ?m (kernel_bin_addr + 44) \<noteq> 0" using img by (auto simp: file_ok_def ph_headers_def)
  have "\<forall>i < ?n. header_ok ?m (header_at ?b ?d i)" using img by (simp add: file_ok_def ph_headers_def)
  moreover have "same_file ?m ?m" by (simp add: same_file_def)
  ultimately have "copy_each_segment ?n ?b ?d s = Inr (s\<lparr>phys := kernel_image ?m\<rparr>)"
    unfolding kernel_image_def ph_headers_def by (intro copy_all [OF on])
  then show ?thesis using n by (simp add: load_segments_def half start)
qed

lemma kernel_image_bytes:
  assumes "file_ok m"
  shows "same_file m (kernel_image m)"
    and "\<lbrakk>h \<in> set (ph_headers m); a \<in> seg_dest m h\<rbrakk> \<Longrightarrow> kernel_image m a = seg_byte m h a"
    and "\<forall>h \<in> set (ph_headers m). a \<notin> seg_dest m h \<Longrightarrow> kernel_image m a = m a"
proof -
  have ok: "\<forall>h \<in> set (ph_headers m). header_ok m h" using assms unfolding file_ok_def by blast
  have m: "same_file m m" by (simp add: same_file_def)
  show "same_file m (kernel_image m)" unfolding kernel_image_def by (rule copy_fold(1) [OF ok m])
  show "kernel_image m a = m a" if "\<forall>h \<in> set (ph_headers m). a \<notin> seg_dest m h"
    unfolding kernel_image_def by (rule copy_fold(2) [OF ok m that])
  show "kernel_image m a = seg_byte m h a" if h: "h \<in> set (ph_headers m)" "a \<in> seg_dest m h"
  proof -
    obtain i where i: "i < length (ph_headers m)" "h = ph_headers m ! i" using h(1) by (auto simp: in_set_conv_nth)
    have "sorted_wrt (\<lambda>h h'. seg_dest m h \<inter> seg_dest m h' = {}) (ph_headers m)" using assms unfolding file_ok_def by blast
    then have "\<forall>j < length (ph_headers m). i < j \<longrightarrow> a \<notin> seg_dest m (ph_headers m ! j)"
      using h(2) i sorted_wrt_nth_less by fastforce
    then show ?thesis unfolding kernel_image_def i(2) using h(2) i by (intro copy_fold_dest [OF ok m]) simp_all
  qed
qed

lemma seg_dest_bounds:
  assumes "file_ok m" and "h \<in> set (ph_headers m)" and "a \<in> seg_dest m h"
  shows "0x900 \<le> unat a" "unat a < 0x70000"
proof -
  have "header_ok m h" "m h \<noteq> 0" using assms by (auto simp: file_ok_def seg_dest_def split: if_splits)
  then show "0x900 \<le> unat a" "unat a < 0x70000" using assms(3) by (auto simp: header_ok_def seg_dest_def)
qed

text \<open>
  The amount of memory that the loader passes to the kernel at \<open>0xd00\<close> is the largest end of a
  reported area below 2 GB, and 0 when there is none: an area that ends at or above 2 GB is negative for the
  signed comparison \<open>jge\<close> and never counts, whatever its kind; the address of the table of segments is next to it.
\<close>

lemma total_mem_words:
  "unat (load32 (get_total_mem_bytes gdt m) 0xd00) =
     Max (insert 0 (low_ends m (ards_buffer gdt) (let n = unat (load16 m (ards_count gdt)) in if n = 0 then 0x10000 else n))) \<and>
   load32 (get_total_mem_bytes gdt m) 0xd04 = gdt"
proof
  define n where "n = (let n = unat (load16 m (ards_count gdt)) in if n = 0 then 0x10000 else n)"
  define x where "x = find_max_mem_area n (ards_buffer gdt) 0 m"
  have eq: "get_total_mem_bytes gdt m = store32 (store32 (store32 m (total_mem_bytes gdt) x) 0xd00 x) 0xd04 gdt"
    by (simp add: get_total_mem_bytes_def n_def x_def Let_def)
  have "load32 (get_total_mem_bytes gdt m) 0xd00 = load32 (store32 (store32 m (total_mem_bytes gdt) x) 0xd00 x) 0xd00"
    unfolding eq by (rule load32_store32_other) (simp add: region4)
  also have "\<dots> = x" by (rule load32_store32_same)
  finally have "unat (load32 (get_total_mem_bytes gdt m) 0xd00) = Max (insert 0 (low_ends m (ards_buffer gdt) n))"
    using find_max_spec [of 0] by (simp add: x_def)
  then show "unat (load32 (get_total_mem_bytes gdt m) 0xd00) =
     Max (insert 0 (low_ends m (ards_buffer gdt) (let n = unat (load16 m (ards_count gdt)) in if n = 0 then 0x10000 else n)))"
    by (simp only: n_def)
  show "load32 (get_total_mem_bytes gdt m) 0xd04 = gdt" unfolding eq by (rule load32_store32_same)
qed

text \<open>
  C11: \<open>setup_page\<close> builds the tables of the loader, which the initialisation of the kernel starts from: the first
  megabyte at 0 and at \<open>0xc0000000\<close>, 254 empty tables for the rest of the kernel's half and the
  directory at its own last entry, if the memory of the tables was clear at power-on. Nothing else is written.
\<close>

theorem setup_page_loads_tables:
  assumes "\<forall>a. 0x101400 \<le> unat a \<and> unat a < 0x200000 \<longrightarrow> m a = 0"
  shows "loader_memory (setup_page m) \<and> (\<forall>a. unat a < 0x100000 \<or> 0x200000 \<le> unat a \<longrightarrow> setup_page m a = m a)"
  using setup_page_loads [of m] assms by blast

text \<open>
  \<open>kernel_init\<close> of the loader, from a file at \<open>0x70000\<close> whose segments are in place, returns, with every
  byte of every segment at its address and the rest of the memory above the stack as before, so that
  the tables are still those of \<open>setup_page\<close>.
\<close>

theorem load_segments_copies:
  fixes s :: "'a paging_scheme"
  assumes "loader_space_on s" and "file_ok (phys s)"
  shows "\<exists>m. load_segments s = Inr (s\<lparr>phys := m\<rparr>) \<and> loader_memory m \<and>
    (\<forall>h \<in> set (ph_headers (phys s)). \<forall>a \<in> seg_dest (phys s) h. m a = seg_byte (phys s) h a) \<and>
    (\<forall>a. 0x900 \<le> unat a \<and> (\<forall>h \<in> set (ph_headers (phys s)). a \<notin> seg_dest (phys s) h) \<longrightarrow> m a = phys s a)"
proof (rule exI [of _ "kernel_image (phys s)"], intro conjI)
  note B = kernel_image_bytes [OF assms(2)]
  show "load_segments s = Inr (s\<lparr>phys := kernel_image (phys s)\<rparr>)" by (rule load_segments_run [OF assms])
  show "loader_memory (kernel_image (phys s))" using B(1) assms(1) by (simp add: same_file_def loader_memory_def loader_space_on_def)
  show "\<forall>h \<in> set (ph_headers (phys s)). \<forall>a \<in> seg_dest (phys s) h. kernel_image (phys s) a = seg_byte (phys s) h a" using B(2) by blast
  show "\<forall>a. 0x900 \<le> unat a \<and> (\<forall>h \<in> set (ph_headers (phys s)). a \<notin> seg_dest (phys s) h) \<longrightarrow> kernel_image (phys s) a = phys s a"
    using B(3) by blast
qed

section \<open>A concrete file\<close>

text \<open>A file with two headers, the second of them unused, and a segment of three bytes for \<open>0xc0001500\<close>.\<close>

definition sample_file :: mem where
  "sample_file = loader_phys(0x7001c := 0x34, 0x7002a := 0x20, 0x7002c := 2, 0x70034 := 1, 0x70039 := 0x10,
     0x7003d := 0x15, 0x7003f := 0xc0, 0x70044 := 3, 0x71000 := 0xfa, 0x71001 := 0xeb, 0x71002 := 0xfe)"

lemma sample_file_headers: "ph_headers sample_file = [0x70034, 0x70054]"
  by (simp add: ph_headers_def header_at_def load16_def load32_def kernel_bin_addr_def sample_file_def loader_phys_def
      page_frame_def upt_rec)

lemma sample_file_fields:
  "seg_addr sample_file 0x70034 = 0xc0001500" "seg_off sample_file 0x70034 = 0x1000" "seg_size sample_file 0x70034 = 3"
  "sample_file 0x70034 = 1" "sample_file 0x70054 = 0"
  by (simp_all add: seg_addr_def seg_off_def seg_size_def load32_def sample_file_def loader_phys_def page_frame_def)

lemma sample_file_ok: "file_ok sample_file" "loader_memory sample_file"
proof -
  show "file_ok sample_file" by (simp add: file_ok_def sample_file_headers header_ok_def seg_dest_def sample_file_fields)
  show "loader_memory sample_file" by (auto simp: loader_memory_def sample_file_def)
qed

lemma setup_page_loads_tables_witness: "loader_memory (setup_page (\<lambda>_. 0)) \<and> setup_page (\<lambda>_. 0) 0xd00 = 0"
  using setup_page_loads_tables [of "\<lambda>_. 0"] by simp

lemma load_segments_copies_witness:
  "\<exists>m. load_segments (sample_memory\<lparr>cr3 := 0x100000, phys := sample_file\<rparr>) =
      Inr (sample_memory\<lparr>cr3 := 0x100000, phys := m\<rparr>) \<and> m 0x1501 = 0xeb \<and> m 0x1503 = 0"
proof -
  let ?s = "sample_memory\<lparr>cr3 := 0x100000, phys := sample_file\<rparr>"
  have "loader_space_on ?s" "file_ok (phys ?s)" by (simp_all add: loader_space_on_def sample_file_ok)
  note L = load_segments_copies [OF this]
  obtain m where m: "load_segments ?s = Inr (?s\<lparr>phys := m\<rparr>)"
    "\<forall>h \<in> set (ph_headers sample_file). \<forall>a \<in> seg_dest sample_file h. m a = seg_byte sample_file h a"
    "\<forall>a. 0x900 \<le> unat a \<and> (\<forall>h \<in> set (ph_headers sample_file). a \<notin> seg_dest sample_file h) \<longrightarrow> m a = sample_file a"
    using L by auto
  have "m 0x1501 = seg_byte sample_file 0x70034 0x1501"
    using m(2) by (simp add: sample_file_headers seg_dest_def sample_file_fields)
  also have "\<dots> = 0xeb" by (simp add: seg_byte_def sample_file_fields kernel_bin_addr_def) (simp add: sample_file_def)
  finally have in_segment: "m 0x1501 = 0xeb" .
  have "m 0x1503 = sample_file 0x1503"
    using m(3) [rule_format, of "0x1503"] by (simp add: sample_file_headers seg_dest_def sample_file_fields)
  also have "\<dots> = 0" by (simp add: sample_file_def loader_phys_def page_frame_def)
  finally show ?thesis using m(1) in_segment by auto
qed

end
