(* ===== verification/LoaderRun.thy ===== *)
theory LoaderRun
  imports LoadKernel Startup
begin

text \<open>
  The whole way from the firmware to \<open>main\<close>: \<open>src/boot/boot.asm\<close> reads the loader from the disk, the loader
  (\<open>src/boot/loader.asm\<close>) asks the firmware for the areas of memory, reads the file of the kernel, turns on paging
  and copies the segments. The firmware and the drive are parameters. Two predicates state what they do as
  documented: \<open>bios_lists\<close>, that the calls of service \<open>0xe820\<close> list the areas, and \<open>ata_drive\<close>, that the
  drive delivers the sectors that its registers name. The wait for the drive, the messages through the firmware
  and the stacks of the boot sector and the loader, which no later step reads, are left out.
\<close>

section \<open>The drive\<close>

text \<open>What the drive delivers at its data port after writes to its other ports: the words in order.\<close>

type_synonym drive = "(u16 \<times> u8) list \<Rightarrow> nat \<Rightarrow> u16"

definition store16 :: "mem \<Rightarrow> u32 \<Rightarrow> u16 \<Rightarrow> mem" where
  "store16 m a w = m(a := ucast w, a + 1 := ucast (drop_bit 8 w))"

text \<open>The ports that \<open>read_disk_32\<close> writes, with the first sector in \<open>ecx\<close> and the count in \<open>bl\<close>.\<close>

definition ata_commands :: "u32 \<Rightarrow> u8 \<Rightarrow> (u16 \<times> u8) list" where
  "ata_commands ecx bl = [(0x1f2, bl), (0x1f3, ucast ecx), (0x1f4, ucast (drop_bit 8 ecx)),
     (0x1f5, ucast (drop_bit 16 ecx)), (0x1f6, 0xe0 OR (ucast (drop_bit 24 ecx) AND 0xf)), (0x1f7, 0x20)]"

text \<open>\<open>.reads\<close>: 256 words at \<open>edi\<close>; \<open>k\<close> words have been read. \<open>.read\<close>: \<open>cx\<close> sectors.\<close>

fun readw :: "nat \<Rightarrow> (nat \<Rightarrow> u16) \<Rightarrow> nat \<Rightarrow> u32 \<Rightarrow> mem \<Rightarrow> mem" where
  "readw 0 port k edi m = m"
| "readw (Suc cx) port k edi m = readw cx port (k + 1) (edi + 2) (store16 m edi (port k))"

fun read_sectors :: "nat \<Rightarrow> (nat \<Rightarrow> u16) \<Rightarrow> nat \<Rightarrow> u32 \<Rightarrow> mem \<Rightarrow> mem" where
  "read_sectors 0 port k edi m = m"
| "read_sectors (Suc cx) port k edi m = read_sectors cx port (k + 256) (edi + 512) (readw 256 port k edi m)"

text \<open>The count is not 0 in the loader; with 0 the loops would not stop at the end of the memory.\<close>

definition read_disk_32 :: "drive \<Rightarrow> u32 \<Rightarrow> u8 \<Rightarrow> u32 \<Rightarrow> mem \<Rightarrow> mem" where
  "read_disk_32 dev ecx bl edi m = read_sectors (unat bl) (dev (ata_commands ecx bl)) 0 edi m"

text \<open>
  \<open>read_disk_16\<close> of \<open>boot.asm\<close>: the registers are written the same way, from \<open>ebx\<close> and \<open>cl\<close>, but the words of
  all sectors are read in one loop, counted by the low half of \<open>256 * cx\<close>, at the 16-bit address in \<open>bx\<close>.
\<close>

fun read_data :: "nat \<Rightarrow> (nat \<Rightarrow> u16) \<Rightarrow> nat \<Rightarrow> u16 \<Rightarrow> mem \<Rightarrow> mem" where
  "read_data 0 port k bx m = m"
| "read_data (Suc cx) port k bx m = read_data cx port (k + 1) (bx + 2) (store16 m (ucast bx) (port k))"

definition read_disk_16 :: "drive \<Rightarrow> u32 \<Rightarrow> u16 \<Rightarrow> u16 \<Rightarrow> mem \<Rightarrow> mem" where
  "read_disk_16 dev ebx cx di m =
     (let n = cx * 256 in read_data (if n = 0 then 0x10000 else unat n) (dev (ata_commands ebx (ucast cx))) 0 di m)"

definition loader_base_addr :: u32 where
  "loader_base_addr = 0x900"

text \<open>\<open>boot.asm\<close>: two sectors from sector 2 on.\<close>

definition boot_sector :: "drive \<Rightarrow> mem \<Rightarrow> mem" where
  "boot_sector dev m = read_disk_16 dev 2 2 (ucast loader_base_addr) m"

section \<open>The firmware and the loader\<close>

text \<open>
  Service \<open>0xe820\<close>: the area that the continuation value \<open>ebx\<close> names, with the next value, or none with the carry flag
  set. The firmware writes the area to the buffer and its length into \<open>cx\<close>.
\<close>

type_synonym bios = "u32 \<Rightarrow> (u8 list \<times> u32) option"

definition add_di :: "u32 \<Rightarrow> u16 \<Rightarrow> u32" where
  "add_di edi cx = (edi AND 0xffff0000) OR ucast ((ucast edi :: u16) + cx)"

text \<open>\<open>detect_memory\<close> from its label \<open>.next\<close> on, with the address of \<open>ards_count\<close> in \<open>cnt\<close>; after \<open>.error\<close> it halts for ever.\<close>

partial_function (option) detect_memory :: "bios \<Rightarrow> u32 \<Rightarrow> u32 \<Rightarrow> u32 \<Rightarrow> mem \<Rightarrow> mem outcome option" where
  "detect_memory bios cnt ebx edi m =
     (case bios ebx of
        None \<Rightarrow> Some (Inl (Diverges ''detect_memory''))
      | Some (area, ebx') \<Rightarrow>
          let m1 = store_bytes m edi area;
              m2 = store32 m1 cnt (load32 m1 cnt + 1)
          in if ebx' = 0 then Some (Inr m2)
             else detect_memory bios cnt ebx' (add_di edi (of_nat (length area))) m2)"

text \<open>The letters of a message in every second byte, first without and then with paging.\<close>

fun put_message :: "u32 \<Rightarrow> u8 list \<Rightarrow> mem \<Rightarrow> mem" where
  "put_message a [] m = m"
| "put_message a (c # cs) m = put_message (a + 2) cs (m(a := c))"

fun put_message_paged :: "u32 \<Rightarrow> u8 list \<Rightarrow> 'a paging_scheme \<Rightarrow> 'a paging_scheme outcome" where
  "put_message_paged a [] s = Inr s"
| "put_message_paged a (c # cs) s = rbind (vstore8 a c s) (put_message_paged (a + 2) cs)"

text \<open>
  From \<open>p_mode_start\<close> to \<open>lgdt\<close>: the message, the file of the kernel, the tables, and the addresses of the
  descriptor table and of the video memory moved into the kernel's half.
\<close>

definition p_mode_start :: "u32 \<Rightarrow> drive \<Rightarrow> mem \<Rightarrow> mem" where
  "p_mode_start gdt dev m =
     (let m1 = put_message 0xb8140 (str8 ''Segmenting opened.'') m;
          m2 = setup_page (read_disk_32 dev 9 200 kernel_bin_addr m1);
          m3 = store32 (store16 m2 (gdt_ptr gdt) 0x1f) (gdt_ptr gdt + 2) gdt;
          m4 = store32 m3 (gdt + 0x18 + 4) (load32 m3 (gdt + 0x18 + 4) OR 0xc0000000)
      in store32 m4 (gdt_ptr gdt + 2) (load32 m4 (gdt_ptr gdt + 2) + 0xc0000000))"

text \<open>
  The loader. \<open>main\<close> is entered by a call with the stack pointer at \<open>0xc009f000\<close>.
\<close>

definition loader :: "u32 \<Rightarrow> bios \<Rightarrow> drive \<Rightarrow> 'a threads_scheme \<Rightarrow> 'a threads_scheme outcome option" where
  "loader gdt bios dev s =
     (case detect_memory bios (ards_count gdt) 0 (ards_buffer gdt) (phys s) of
        None \<Rightarrow> None
      | Some r \<Rightarrow> Some (rbind r (\<lambda>m.
          let m1 = get_total_mem_bytes gdt m;
              s1 = s\<lparr>phys := p_mode_start gdt dev m1, cr3 := page_dir_table_pos\<rparr>
          in rbind (put_message_paged 0xb81e0 (str8 ''Paging opened.'') s1) (\<lambda>s2.
             rbind (load_segments s2) (\<lambda>s3.
             Inr (s3\<lparr>esp := 0xc009f000 - 4\<rparr>))))))"

section \<open>Reading the disk\<close>

text \<open>The bytes that the words at the data port stand for.\<close>

definition port_byte :: "(nat \<Rightarrow> u16) \<Rightarrow> nat \<Rightarrow> u8" where
  "port_byte port j = (if even j then ucast (port (j div 2)) else ucast (drop_bit 8 (port (j div 2))))"

lemma store16_at:
  assumes "unat p + 2 \<le> 2 ^ 32"
  shows "store16 m p w a = (if unat a = unat p then ucast w else if unat a = unat p + 1 then ucast (drop_bit 8 w) else m a)"
proof -
  have "unat (p + 1) = unat p + 1" using assms by (simp add: unat_inc32)
  moreover have "a = p + 1 \<longleftrightarrow> unat a = unat (p + 1)" "a = p \<longleftrightarrow> unat a = unat p" by (simp_all add: word_unat_eq_iff)
  ultimately show ?thesis by (simp add: store16_def)
qed

lemma readw_byte:
  assumes "unat edi + 2 * cx \<le> 2 ^ 31"
  shows "readw cx port k edi m a =
    (if unat edi \<le> unat a \<and> unat a < unat edi + 2 * cx then port_byte port (2 * k + (unat a - unat edi)) else m a)"
  using assms
proof (induction cx arbitrary: k edi m)
  case 0
  then show ?case by auto
next
  case (Suc cx)
  have u: "unat (edi + 2) = unat edi + 2" using Suc.prems by (subst unat_add32) simp_all
  have IH: "readw cx port (k + 1) (edi + 2) (store16 m edi (port k)) a =
    (if unat edi + 2 \<le> unat a \<and> unat a < unat edi + 2 + 2 * cx then port_byte port (2 * (k + 1) + (unat a - (unat edi + 2)))
     else store16 m edi (port k) a)"
    using Suc.prems by (subst Suc.IH) (simp_all add: u)
  have st: "store16 m edi (port k) a =
      (if unat a = unat edi then ucast (port k) else if unat a = unat edi + 1 then ucast (drop_bit 8 (port k)) else m a)"
    using Suc.prems by (intro store16_at) simp
  consider "unat a < unat edi" | "unat a = unat edi" | "unat a = unat edi + 1" | "unat edi + 2 \<le> unat a" by linarith
  then show ?case
  proof cases
    case 4
    then have "2 * (k + 1) + (unat a - (unat edi + 2)) = 2 * k + (unat a - unat edi)" by simp
    then show ?thesis using 4 IH st by simp
  qed (use IH st in \<open>simp_all add: port_byte_def\<close>)
qed

lemma read_sectors_byte:
  assumes "unat edi + 512 * cx \<le> 2 ^ 31"
  shows "read_sectors cx port k edi m a =
    (if unat edi \<le> unat a \<and> unat a < unat edi + 512 * cx then port_byte port (2 * k + (unat a - unat edi)) else m a)"
  using assms
proof (induction cx arbitrary: k edi m)
  case 0
  then show ?case by auto
next
  case (Suc cx)
  have u: "unat (edi + 512) = unat edi + 512" using Suc.prems by (subst unat_add32) simp_all
  have one: "readw 256 port k edi m a =
    (if unat edi \<le> unat a \<and> unat a < unat edi + 512 then port_byte port (2 * k + (unat a - unat edi)) else m a)"
    using readw_byte [of edi 256] Suc.prems by simp
  have IH: "read_sectors cx port (k + 256) (edi + 512) (readw 256 port k edi m) a =
    (if unat edi + 512 \<le> unat a \<and> unat a < unat edi + 512 + 512 * cx then port_byte port (2 * (k + 256) + (unat a - (unat edi + 512)))
     else readw 256 port k edi m a)"
    using Suc.prems by (subst Suc.IH) (simp_all add: u)
  show ?case
  proof (cases "unat edi + 512 \<le> unat a")
    case True
    then have "2 * (k + 256) + (unat a - (unat edi + 512)) = 2 * k + (unat a - unat edi)" by simp
    then show ?thesis using True IH one by simp
  qed (use IH one in simp)
qed

lemma read_data_is_readw: "unat bx + 2 * cx < 2 ^ 16 \<Longrightarrow> read_data cx port k bx m = readw cx port k (ucast bx) m"
proof (induction cx arbitrary: k bx m)
  case (Suc cx)
  have "unat (bx + 2) = unat bx + 2" using Suc.prems by (subst unat_add_lem [THEN iffD1]) simp_all
  moreover have "unat (ucast (bx + 2) :: u32) = unat (ucast bx + 2 :: u32)"
    using Suc.prems calculation by (subst unat_add32) (simp_all add: unsigned_ucast_eq take_bit_eq_mod)
  then have "(ucast (bx + 2) :: u32) = ucast bx + 2" by (rule word32_eqI)
  ultimately show ?case using Suc by simp
qed simp

text \<open>
  The drive of the documentation: after its six registers have been written it delivers the words of the sectors from the
  one that the three bytes and the low half of the device register name.
\<close>

definition ata_drive :: "(nat \<Rightarrow> u8) \<Rightarrow> drive \<Rightarrow> bool" where
  "ata_drive disk dev \<longleftrightarrow> (\<forall>n a b c d k. d AND 0xf = d \<and> k < 256 * unat n \<longrightarrow>
     dev [(0x1f2, n), (0x1f3, a), (0x1f4, b), (0x1f5, c), (0x1f6, 0xe0 OR d), (0x1f7, 0x20)] k =
       (let i = 512 * (unat a + 0x100 * unat b + 0x10000 * unat c + 0x1000000 * unat d) + 2 * k
        in ucast (disk i) OR push_bit 8 (ucast (disk (i + 1)))))"

lemma ata_sectors:
  assumes "ata_drive disk dev" and "lba < 256" and "j < 512 * unat n"
  shows "port_byte (dev (ata_commands (of_nat lba) n)) j = disk (512 * lba + j)"
proof -
  have w: "unat (of_nat lba :: u32) = lba" using assms(2) by (intro unat_of_nat32) simp
  have z: "drop_bit 8 (of_nat lba :: u32) = 0" "drop_bit 16 (of_nat lba :: u32) = 0" "drop_bit 24 (of_nat lba :: u32) = 0"
    using assms(2) w by (simp_all add: word_unat_eq_iff drop_bit_eq_div unat_div)
  have "unat (ucast (of_nat lba :: u32) :: u8) = lba" using assms(2) by (simp add: unsigned_ucast_eq w take_bit_eq_mod)
  then have "dev (ata_commands (of_nat lba) n) (j div 2) =
      (let i = 512 * lba + 2 * (j div 2) in ucast (disk i) OR push_bit 8 (ucast (disk (i + 1))))"
    using assms(1) [unfolded ata_drive_def, rule_format, of 0 "j div 2" n "ucast (of_nat lba :: u32)" 0 0] assms(3)
    by (simp add: ata_commands_def z)
  moreover have "(ucast (ucast l OR push_bit 8 (ucast h) :: u16) :: u8) = l" "(ucast (drop_bit 8 (ucast l OR push_bit 8 (ucast h) :: u16)) :: u8) = h"
    for l h :: u8 by (rule bit_word_eqI; auto simp: bit_simps dest: bit_imp_le_length)+
  moreover have "odd j \<Longrightarrow> Suc (512 * lba + (j - Suc 0)) = 512 * lba + j" by (cases j) simp_all
  ultimately show ?thesis by (cases "even j") (simp_all add: port_byte_def Let_def)
qed

lemma kernel_sectors:
  assumes "ata_drive disk dev"
  shows "read_disk_32 dev 9 200 kernel_bin_addr m a =
    (if 0x70000 \<le> unat a \<and> unat a < 0x89000 then disk (512 * 9 + (unat a - 0x70000)) else m a)"
proof -
  have "unat kernel_bin_addr = 0x70000" by (simp add: kernel_bin_addr_def)
  moreover have "port_byte (dev (ata_commands 9 200)) j = disk (512 * 9 + j)" if "j < 102400" for j
    using ata_sectors [OF assms, of 9 j 200] that by simp
  ultimately show ?thesis using read_sectors_byte [of kernel_bin_addr 200 "dev (ata_commands 9 200)" 0 m a] by (auto simp: read_disk_32_def)
qed

lemma boot_sectors:
  assumes "ata_drive disk dev"
  shows "boot_sector dev m a =
    (if 0x900 \<le> unat a \<and> unat a < 0xd00 then disk (512 * 2 + (unat a - 0x900)) else m a)"
proof -
  let ?port = "dev (ata_commands 2 2)"
  have "boot_sector dev m = readw 512 ?port 0 0x900 m"
    using read_data_is_readw [of "0x900" 512] by (simp add: boot_sector_def read_disk_16_def loader_base_addr_def)
  moreover have "port_byte ?port j = disk (512 * 2 + j)" if "j < 1024" for j
    using ata_sectors [OF assms, of 2 j 2] that by simp
  ultimately show ?thesis using readw_byte [of "0x900" 512 ?port 0 m a] by auto
qed

section \<open>The areas of memory\<close>

text \<open>The calls of the service, from continuation value \<open>ebx\<close> on, list the areas, 20 bytes each.\<close>

fun bios_lists :: "bios \<Rightarrow> u32 \<Rightarrow> u8 list list \<Rightarrow> bool" where
  "bios_lists bios ebx [] = False"
| "bios_lists bios ebx (a # as) = (length a = 20 \<and>
     (case bios ebx of None \<Rightarrow> False
      | Some (b, ebx') \<Rightarrow> b = a \<and> (if as = [] then ebx' = 0 else ebx' \<noteq> 0 \<and> bios_lists bios ebx' as)))"

text \<open>The low words of start and length of an area, added.\<close>

definition le32 :: "u8 list \<Rightarrow> u32" where
  "le32 bs = ucast (bs ! 0) OR push_bit 8 (ucast (bs ! 1)) OR push_bit 16 (ucast (bs ! 2)) OR push_bit 24 (ucast (bs ! 3))"

definition area_top :: "u8 list \<Rightarrow> u32" where
  "area_top a = le32 (take 4 a) + le32 (take 4 (drop 8 a))"

lemma load32_bytes: "load32 m p = le32 (bytes_at m p 4)"
  by (simp add: load32_def le32_def bytes_at_def upt_rec)

lemma bytes_at_slice: "k + n \<le> N \<Longrightarrow> bytes_at m (p + of_nat k) n = take n (drop k (bytes_at m p N))"
  by (rule nth_equalityI) (simp_all add: bytes_at_def add.assoc)

lemma area_end_top:
  assumes "bytes_at m (p + of_nat (20 * i)) 20 = a"
  shows "area_end m p i = area_top a"
  using bytes_at_slice [of 0 4 20 m "p + of_nat (20 * i)"] bytes_at_slice [of 8 4 20 m "p + of_nat (20 * i)"] assms
  by (simp add: area_end_def area_top_def load32_bytes)

lemma low_and_high: "(ucast (x :: u16) :: u32) AND push_bit 16 y = 0"
  by (rule bit_word_eqI) (auto simp: bit_simps dest: bit_imp_le_length)

lemma add_di_small:
  assumes "unat edi + unat cx < 0x10000"
  shows "add_di edi cx = edi + ucast cx"
proof -
  have edi: "edi = ucast (ucast edi :: u16)" using assms by (intro word32_eqI) (simp add: unsigned_ucast_eq take_bit_eq_mod unat_mod)
  have "(ucast (ucast edi :: u16) :: u32) AND 0xffff0000 = 0"
    using low_and_high [of "ucast edi" "0xffff"] by simp
  then have hi: "edi AND 0xffff0000 = 0" using edi by simp
  have "unat ((ucast edi :: u16) + cx) = unat edi + unat cx"
    using assms by (subst unat_add_lem [THEN iffD1]) (simp_all add: unsigned_ucast_eq take_bit_eq_mod)
  moreover have "unat (edi + ucast cx) = unat edi + unat cx"
    using assms by (subst unat_add32) (simp_all add: unsigned_ucast_eq take_bit_eq_mod)
  ultimately have "(ucast ((ucast edi :: u16) + cx) :: u32) = edi + ucast cx"
    using assms by (intro word32_eqI) (simp add: unsigned_ucast_eq take_bit_eq_mod)
  then show ?thesis by (simp add: add_di_def hi)
qed

text \<open>One area: written to the buffer and counted.\<close>

definition area_recorded :: "u32 \<Rightarrow> u32 \<Rightarrow> u8 list \<Rightarrow> mem \<Rightarrow> mem" where
  "area_recorded cnt edi area m = (let m1 = store_bytes m edi area in store32 m1 cnt (load32 m1 cnt + 1))"

lemma area_recorded:
  assumes len: "length area = 20" and fit: "unat edi + 20 \<le> 2 ^ 32" and before: "unat cnt + 4 \<le> unat edi"
  shows "load32 (area_recorded cnt edi area m) cnt = load32 m cnt + 1"
    and "bytes_at (area_recorded cnt edi area m) edi 20 = area"
    and "a \<notin> region cnt 4 \<Longrightarrow> unat a < unat edi \<or> unat edi + 20 \<le> unat a \<Longrightarrow> area_recorded cnt edi area m a = m a"
proof -
  have "unat cnt + 4 \<le> 2 ^ 32" using fit before by simp
  then have apart: "b \<in> region cnt 4 \<Longrightarrow> b \<notin> region edi 20" for b
    using before unfolding region_atLeastLessThan [OF fit] by (simp add: region_atLeastLessThan)
  have "load32 (store_bytes m edi area) cnt = load32 m cnt"
    by (rule load32_cong, rule store_bytes_outside) (simp add: len apart)
  then show "load32 (area_recorded cnt edi area m) cnt = load32 m cnt + 1"
    by (simp add: area_recorded_def load32_store32_same)
  have "bytes_at (area_recorded cnt edi area m) edi 20 = bytes_at (store_bytes m edi area) edi 20"
    unfolding area_recorded_def Let_def by (rule bytes_at_cong, rule store32_outside) (use apart in blast)
  then show "bytes_at (area_recorded cnt edi area m) edi 20 = area" using bytes_at_store [of area m edi] len by simp
  show "area_recorded cnt edi area m a = m a" if "a \<notin> region cnt 4" "unat a < unat edi \<or> unat edi + 20 \<le> unat a"
  proof -
    have "a \<notin> region edi (length area)" using that(2) unfolding len region_atLeastLessThan [OF fit] by linarith
    then show ?thesis using that(1) by (simp add: area_recorded_def Let_def store32_outside store_bytes_outside)
  qed
qed

lemma detect_memory_run:
  assumes "bios_lists bios ebx areas" and "unat edi + 20 * length areas < 0x10000" and "unat cnt + 4 \<le> unat edi"
  shows "\<exists>m'. detect_memory bios cnt ebx edi m = Some (Inr m') \<and> load32 m' cnt = load32 m cnt + of_nat (length areas) \<and>
    (\<forall>i < length areas. bytes_at m' (edi + of_nat (20 * i)) 20 = areas ! i) \<and>
    (\<forall>a. a \<notin> region cnt 4 \<and> (unat a < unat edi \<or> unat edi + 20 * length areas \<le> unat a) \<longrightarrow> m' a = m a)"
  using assms
proof (induction areas arbitrary: ebx edi m)
  case Nil
  then show ?case by simp
next
  case (Cons ar as)
  from Cons.prems(1) obtain ebx' where len: "length ar = 20" and bios: "bios ebx = Some (ar, ebx')"
    and more: "if as = [] then ebx' = 0 else ebx' \<noteq> 0 \<and> bios_lists bios ebx' as"
    by (auto split: option.splits)
  define m2 where "m2 = area_recorded cnt edi ar m"
  have cn: "a \<in> region cnt 4 \<Longrightarrow> unat a < unat edi" for a
    using Cons.prems(2,3) by (subst (asm) region_atLeastLessThan) simp_all
  have fit: "unat edi + 20 \<le> 2 ^ 32" using Cons.prems(2) by simp
  note rec = area_recorded [OF len fit Cons.prems(3), where m = m, folded m2_def]
  have out2: "m2 a = m a" if "a \<notin> region cnt 4" "unat a < unat edi \<or> unat edi + 20 \<le> unat a" for a
    by (rule rec(3) [OF that])
  show ?case
  proof (cases "as = []")
    case True
    then have "detect_memory bios cnt ebx edi m = Some (Inr m2)"
      using more by (subst detect_memory.simps) (simp add: bios m2_def area_recorded_def Let_def)
    then show ?thesis using True rec(1,2) out2 by (intro exI [of _ m2]) simp
  next
    case False
    have e: "unat (edi + 20) = unat edi + 20" using Cons.prems(2) by (subst unat_add32) simp_all
    have "add_di edi 20 = edi + 20" using add_di_small [of edi 20] Cons.prems(2) by simp
    then have step: "detect_memory bios cnt ebx edi m = detect_memory bios cnt ebx' (edi + 20) m2"
      using more False by (subst detect_memory.simps) (simp add: bios len m2_def area_recorded_def Let_def)
    obtain m' where m': "detect_memory bios cnt ebx' (edi + 20) m2 = Some (Inr m')" "load32 m' cnt = load32 m2 cnt + of_nat (length as)"
      "\<forall>i < length as. bytes_at m' (edi + 20 + of_nat (20 * i)) 20 = as ! i"
      "\<forall>a. a \<notin> region cnt 4 \<and> (unat a < unat (edi + 20) \<or> unat (edi + 20) + 20 * length as \<le> unat a) \<longrightarrow> m' a = m2 a"
    proof -
      have "bios_lists bios ebx' as" using more False by simp
      moreover have "unat (edi + 20) + 20 * length as < 0x10000" "unat cnt + 4 \<le> unat (edi + 20)" using Cons.prems(2,3) by (simp_all add: e)
      ultimately show ?thesis using Cons.IH that by blast
    qed
    have "bytes_at m' edi 20 = bytes_at m2 edi 20"
    proof (rule bytes_at_cong)
      fix b assume "b \<in> region edi 20"
      then have "unat edi \<le> unat b" "unat b < unat (edi + 20)" unfolding e by (simp_all add: region_atLeastLessThan [OF fit])
      then have "b \<notin> region cnt 4" "unat b < unat (edi + 20)" using cn [of b] by auto
      then show "m' b = m2 b" using m'(4) by blast
    qed
    then have "bytes_at m' (edi + of_nat (20 * i)) 20 = (ar # as) ! i" if "i < Suc (length as)" for i
      using that m'(3) rec(2) by (cases i) (simp_all add: add.assoc)
    moreover have "m' a = m a" if "a \<notin> region cnt 4" "unat a < unat edi \<or> unat edi + (20 + 20 * length as) \<le> unat a" for a
    proof -
      have "unat a < unat (edi + 20) \<or> unat (edi + 20) + 20 * length as \<le> unat a" "unat a < unat edi \<or> unat edi + 20 \<le> unat a"
        using that(2) unfolding e by linarith+
      then show ?thesis using that(1) m'(4) out2 [of a] by simp
    qed
    ultimately show ?thesis unfolding step using m'(1,2) rec(1) by (intro exI [of _ m']) (simp add: add.assoc)
  qed
qed

section \<open>The loader\<close>

lemma put_message_outside:
  "unat p + 2 * length cs \<le> 2 ^ 31 \<Longrightarrow> unat a < unat p \<or> unat p + 2 * length cs \<le> unat a \<Longrightarrow> put_message p cs m a = m a"
proof (induction cs arbitrary: p m)
  case (Cons c cs)
  have u: "unat (p + 2) = unat p + 2" using Cons.prems(1) by (subst unat_add32) simp_all
  have "put_message (p + 2) cs (m(p := c)) a = (m(p := c)) a"
    using Cons.prems by (intro Cons.IH) (auto simp: u)
  moreover have "a \<noteq> p" using Cons.prems(2) by auto
  ultimately show ?case by simp
qed simp

lemma put_message_paged_run:
  fixes s :: "'a paging_scheme"
  shows "loader_space_on s \<Longrightarrow> unat p + 2 * length cs < 0x100000 \<Longrightarrow> put_message_paged p cs s = Inr (s\<lparr>phys := put_message p cs (phys s)\<rparr>)"
proof (induction cs arbitrary: p s)
  case (Cons c cs)
  let ?s = "s\<lparr>phys := (phys s)(p := c)\<rparr>"
  have "unat (p + 2) = unat p + 2" using Cons.prems(2) by (subst unat_add32) simp_all
  moreover have "vstore8 p c s = Inr ?s"
    using loader_mmu(1) [of "phys s" p] Cons.prems by (simp add: loader_space_on_def vstore8_def translate_def)
  moreover have "loader_space_on ?s" using Cons.prems by (auto simp: loader_space_on_def loader_memory_def)
  ultimately show ?case using Cons.IH [of ?s "p + 2"] Cons.prems(2) by (simp add: fun_upd_def)
qed simp

lemma store32_apart:
  assumes "unat p + 4 \<le> 2 ^ 32" and "unat a < unat p \<or> unat p + 4 \<le> unat a"
  shows "store32 m p w a = m a"
  using assms(2) region_atLeastLessThan [OF assms(1)] by (intro store32_outside) auto

lemma store16_apart:
  assumes "unat p + 2 \<le> 2 ^ 32" and "unat a < unat p \<or> unat p + 2 \<le> unat a"
  shows "store16 m p w a = m a"
  using assms(2) store16_at [OF assms(1)] by auto

text \<open>The loader's data are within its two sectors, and the buffer of the areas behind them in 16-bit reach.\<close>

definition loader_fits :: "u32 \<Rightarrow> nat \<Rightarrow> bool" where
  "loader_fits gdt n \<longleftrightarrow> 0x906 \<le> unat gdt \<and> unat gdt + 40 \<le> 0xd00 \<and> unat gdt + 40 + 20 * n < 0x10000"

lemma loader_addresses:
  assumes "loader_fits gdt n"
  shows "unat (gdt_ptr gdt) = unat gdt - 6" "unat (gdt_ptr gdt + 2) = unat gdt - 4" "unat (gdt + 0x18 + 4) = unat gdt + 28"
    "unat (total_mem_bytes gdt) = unat gdt + 32" "unat (ards_count gdt) = unat gdt + 36" "unat (ards_buffer gdt) = unat gdt + 40"
proof -
  have g: "0x906 \<le> unat gdt" "unat gdt + 40 \<le> 0xd00" using assms by (simp_all add: loader_fits_def)
  show p: "unat (gdt_ptr gdt) = unat gdt - 6" unfolding gdt_ptr_def using g by (subst unat_sub) (simp_all add: word_le_nat_alt)
  show "unat (gdt_ptr gdt + 2) = unat gdt - 4" using g p by (subst unat_add32) simp_all
  have "unat (gdt + 28) = unat gdt + 28" using g by (subst unat_add32) simp_all
  then show "unat (gdt + 0x18 + 4) = unat gdt + 28" by (simp add: add.assoc)
  show "unat (total_mem_bytes gdt) = unat gdt + 32" "unat (ards_count gdt) = unat gdt + 36" "unat (ards_buffer gdt) = unat gdt + 40"
    unfolding total_mem_bytes_def ards_count_def ards_buffer_def using g by (subst unat_add32; simp)+
qed

lemma total_mem_outside:
  assumes "loader_fits gdt n" and "0xd08 \<le> unat a"
  shows "get_total_mem_bytes gdt m a = m a"
proof -
  note A = loader_addresses [OF assms(1)]
  have "unat gdt + 40 \<le> 0xd00" using assms(1) by (simp add: loader_fits_def)
  then show ?thesis using assms(2) by (simp add: get_total_mem_bytes_def Let_def store32_apart A)
qed

lemma p_mode_start_memory:
  assumes fits: "loader_fits gdt n" and drive: "ata_drive disk dev"
    and clear: "\<And>a. 0x101400 \<le> unat a \<Longrightarrow> unat a < 0x200000 \<Longrightarrow> m a = 0"
  shows "loader_memory (p_mode_start gdt dev m)"
    and "0x70000 \<le> unat a \<Longrightarrow> unat a < 0x89000 \<Longrightarrow> p_mode_start gdt dev m a = disk (512 * 9 + (unat a - 0x70000))"
    and "0xd00 \<le> unat a \<Longrightarrow> unat a < 0x70000 \<Longrightarrow> p_mode_start gdt dev m a = m a"
proof -
  note A = loader_addresses [OF fits]
  have g: "0x906 \<le> unat gdt" "unat gdt + 40 \<le> 0xd00" using fits by (simp_all add: loader_fits_def)
  have video: "unat (28 + gdt) = unat gdt + 28" using A(3) by (simp add: add.commute)
  define m1 where "m1 = put_message 0xb8140 (str8 ''Segmenting opened.'') m"
  define m2 where "m2 = read_disk_32 dev 9 200 kernel_bin_addr m1"
  have m1: "m1 b = m b" if "unat b < 0xb8140 \<or> 0xb8170 \<le> unat b" for b
    unfolding m1_def using that by (intro put_message_outside) (auto simp: str8_def)
  have m2: "m2 b = (if 0x70000 \<le> unat b \<and> unat b < 0x89000 then disk (512 * 9 + (unat b - 0x70000)) else m1 b)" for b
    unfolding m2_def by (rule kernel_sectors [OF drive])
  have limit: "store16 x (gdt_ptr gdt) w b = x b" if "0xd00 \<le> unat b" for x w b
  proof (rule store16_apart)
    have "unat (gdt_ptr gdt) + 2 \<le> 0xd00" using g A(1) by linarith
    then show "unat (gdt_ptr gdt) + 2 \<le> 2 ^ 32" "unat b < unat (gdt_ptr gdt) \<or> unat (gdt_ptr gdt) + 2 \<le> unat b"
      using that by simp_all
  qed
  have top: "p_mode_start gdt dev m b = setup_page m2 b" if "0xd00 \<le> unat b" for b
    using that g by (simp add: p_mode_start_def Let_def m1_def [symmetric] m2_def [symmetric] store32_apart limit A video)
  have zero: "m2 b = 0" if "0x101400 \<le> unat b" "unat b < 0x200000" for b using that clear m1 m2 by simp
  note P = setup_page_loads [of m2, OF zero]
  show "loader_memory (p_mode_start gdt dev m)" using P(1) top by (auto simp: loader_memory_def)
  show "p_mode_start gdt dev m a = disk (512 * 9 + (unat a - 0x70000))" if "0x70000 \<le> unat a" "unat a < 0x89000"
    using that P(2) top m2 by simp
  show "p_mode_start gdt dev m a = m a" if "0xd00 \<le> unat a" "unat a < 0x70000"
    using that P(2) top m1 m2 by simp
qed

section \<open>The file on the disk\<close>

text \<open>The file of the kernel, at sector 9 of the disk, as memory.\<close>

definition kernel_file :: "(nat \<Rightarrow> u8) \<Rightarrow> mem" where
  "kernel_file disk = (\<lambda>a. disk (512 * 9 + (unat a - 0x70000)))"

definition file_agrees :: "mem \<Rightarrow> mem \<Rightarrow> bool" where
  "file_agrees m m' \<longleftrightarrow> (\<forall>a. 0x70000 \<le> unat a \<and> unat a < 0x89000 \<longrightarrow> m a = m' a)"

lemma file_agrees_load32:
  assumes "file_agrees m m'" and "0x70000 \<le> unat a" and "unat a + 4 \<le> 0x89000"
  shows "load32 m a = load32 m' a"
  by (rule load32_cong) (use assms in \<open>auto simp: file_agrees_def region_atLeastLessThan\<close>)

lemma file_agrees_headers:
  assumes "file_agrees m m'"
  shows "ph_headers m = ph_headers m'"
proof -
  have "load16 m a = load16 m' a" if "a = kernel_bin_addr + 42 \<or> a = kernel_bin_addr + 44" for a
    using that assms by (auto simp: load16_def file_agrees_def kernel_bin_addr_def)
  moreover have "load32 m (kernel_bin_addr + 28) = load32 m' (kernel_bin_addr + 28)"
    using assms by (rule file_agrees_load32) (simp_all add: kernel_bin_addr_def)
  ultimately show ?thesis by (simp add: ph_headers_def)
qed

lemma file_agrees_header:
  assumes "file_agrees m m'" and "0x70000 \<le> unat h" and "unat h + 20 \<le> 0x89000"
  shows "m h = m' h" "seg_off m h = seg_off m' h" "seg_addr m h = seg_addr m' h" "seg_size m h = seg_size m' h"
proof -
  have w: "unat (h + 4) = unat h + 4" "unat (h + 8) = unat h + 8" "unat (h + 16) = unat h + 16"
    using unat_small [of h 4] unat_small [of h 8] unat_small [of h 16] assms(3) by simp_all
  show "m h = m' h" using assms by (simp add: file_agrees_def)
  show "seg_off m h = seg_off m' h" "seg_addr m h = seg_addr m' h" "seg_size m h = seg_size m' h"
    using assms w file_agrees_load32 [OF assms(1)] by (simp_all add: seg_off_def seg_addr_def seg_size_def)
qed

lemma file_agrees_ok:
  assumes img: "file_agrees m m'" and ok: "file_ok m"
  shows "file_ok m'"
    and "h \<in> set (ph_headers m) \<Longrightarrow> seg_dest m' h = seg_dest m h"
    and "h \<in> set (ph_headers m) \<Longrightarrow> a \<in> seg_dest m h \<Longrightarrow> seg_byte m' h a = seg_byte m h a"
proof -
  have hs: "\<forall>h \<in> set (ph_headers m). header_ok m h" using ok unfolding file_ok_def by blast
  have r: "0x70000 \<le> unat h" "unat h + 20 \<le> 0x89000" if "h \<in> set (ph_headers m)" for h
    using hs that by (simp_all add: header_ok_def)
  note H = file_agrees_header [OF img r]
  have dest: "seg_dest m' h = seg_dest m h" if "h \<in> set (ph_headers m)" for h
    using H that by (simp add: seg_dest_def)
  show "seg_dest m' h = seg_dest m h" if "h \<in> set (ph_headers m)" by (rule dest [OF that])
  have ok': "header_ok m' h" if "h \<in> set (ph_headers m)" for h
    using hs H that by (simp add: header_ok_def)
  show "file_ok m'"
    unfolding file_ok_def file_agrees_headers [OF img, symmetric]
  proof (intro conjI ballI)
    show "ph_headers m \<noteq> []" using ok by (simp add: file_ok_def)
    have "sorted_wrt (\<lambda>h h'. seg_dest m h \<inter> seg_dest m h' = {}) (ph_headers m)" using ok unfolding file_ok_def by blast
    then show "sorted_wrt (\<lambda>h h'. seg_dest m' h \<inter> seg_dest m' h' = {}) (ph_headers m)"
      by (rule sorted_wrt_mono_rel [rotated]) (simp add: dest)
  qed (rule ok')
  show "seg_byte m' h a = seg_byte m h a" if h: "h \<in> set (ph_headers m)" and a: "a \<in> seg_dest m h"
  proof -
    have ty: "m h \<noteq> 0" using a by (auto simp: seg_dest_def split: if_splits)
    have oh: "header_ok m h" using hs h by blast
    note D = header_dest [OF oh ty]
    let ?k = "a - (seg_addr m h - 0xc0000000)"
    have off: "unat (seg_off m h) + seg_size m h \<le> 0x19000" using oh ty by (simp add: header_ok_def)
    have k: "unat ?k < seg_size m h"
      using a ty by (auto simp: seg_dest_def D(1) unat_sub word_le_nat_alt)
    have "unat (kernel_bin_addr + seg_off m h) = 0x70000 + unat (seg_off m h)" using D(3) by (simp add: kernel_bin_addr_def add.commute)
    then have "unat (kernel_bin_addr + seg_off m h + ?k) = 0x70000 + unat (seg_off m h) + unat ?k"
      using k off by (subst unat_add32) simp_all
    then have "m' (kernel_bin_addr + seg_off m h + ?k) = m (kernel_bin_addr + seg_off m h + ?k)"
      using img k off by (simp add: file_agrees_def)
    then show ?thesis using H [OF h h] by (simp add: seg_byte_def)
  qed
qed

section \<open>From the firmware to the kernel\<close>

text \<open>
  What the loader starts from: the areas of the firmware, a drive with the disk, a file of the kernel on it with the
  segments above the loader, no areas counted yet, and clear memory where the page tables will be.
\<close>

definition loader_media :: "u32 \<Rightarrow> bios \<Rightarrow> u8 list list \<Rightarrow> drive \<Rightarrow> (nat \<Rightarrow> u8) \<Rightarrow> mem \<Rightarrow> bool" where
  "loader_media gdt bios areas dev disk m \<longleftrightarrow>
     bios_lists bios 0 areas \<and> ata_drive disk dev \<and> loader_fits gdt (length areas) \<and> load32 m (ards_count gdt) = 0 \<and>
     (\<forall>a. 0x101400 \<le> unat a \<and> unat a < 0x200000 \<longrightarrow> m a = 0) \<and> file_ok (kernel_file disk) \<and>
     (\<forall>h \<in> set (ph_headers (kernel_file disk)). \<forall>a \<in> seg_dest (kernel_file disk) h. 0x1000 \<le> unat a)"

text \<open>The same from power-on: the loader, with a count of 0, is on the disk from sector 2 on.\<close>

definition boot_media :: "u32 \<Rightarrow> bios \<Rightarrow> u8 list list \<Rightarrow> drive \<Rightarrow> (nat \<Rightarrow> u8) \<Rightarrow> mem \<Rightarrow> bool" where
  "boot_media gdt bios areas dev disk m \<longleftrightarrow>
     bios_lists bios 0 areas \<and> ata_drive disk dev \<and> loader_fits gdt (length areas) \<and>
     (\<forall>j < 4. disk (512 * 2 + (unat gdt + 36 - 0x900) + j) = 0) \<and>
     (\<forall>a. 0x101400 \<le> unat a \<and> unat a < 0x200000 \<longrightarrow> m a = 0) \<and> file_ok (kernel_file disk) \<and>
     (\<forall>h \<in> set (ph_headers (kernel_file disk)). \<forall>a \<in> seg_dest (kernel_file disk) h. 0x1000 \<le> unat a)"

lemma boot_sector_media:
  assumes "boot_media gdt bios areas dev disk m"
  shows "loader_media gdt bios areas dev disk (boot_sector dev m)"
proof -
  have drive: "ata_drive disk dev" and fits: "loader_fits gdt (length areas)"
    and count: "\<forall>j < 4. disk (512 * 2 + (unat gdt + 36 - 0x900) + j) = 0"
    and clear: "\<forall>a. 0x101400 \<le> unat a \<and> unat a < 0x200000 \<longrightarrow> m a = 0"
    using assms unfolding boot_media_def by blast+
  note B = boot_sectors [OF drive]
  note A = loader_addresses(5) [OF fits]
  have "load32 (boot_sector dev m) (ards_count gdt) = 0"
  proof (rule load32_zero)
    fix j :: nat assume j: "j < 4"
    have g: "0x906 \<le> unat gdt" "unat gdt + 40 \<le> 0xd00" using fits by (simp_all add: loader_fits_def)
    have "unat (ards_count gdt + of_nat j) = unat gdt + 36 + j" using j g by (subst unat_add32) (simp_all add: A unat_of_nat32)
    moreover have "unat gdt + 36 + j - 0x900 = unat gdt + 36 - 0x900 + j" using g by simp
    ultimately show "boot_sector dev m (ards_count gdt + of_nat j) = 0" using count j g by (simp add: B)
  qed
  moreover have "\<forall>a. 0x101400 \<le> unat a \<and> unat a < 0x200000 \<longrightarrow> boot_sector dev m a = 0" using clear by (simp add: B)
  ultimately show ?thesis using assms unfolding loader_media_def boot_media_def by blast
qed

definition memory_top :: "u8 list list \<Rightarrow> nat" where
  "memory_top areas = Max (insert 0 {unat (area_top a) | a. a \<in> set areas \<and> unat (area_top a) < 2 ^ 31})"

text \<open>What it leaves in the memory: the tables, the two words for the kernel and the segments.\<close>

definition kernel_loaded :: "u32 \<Rightarrow> nat \<Rightarrow> mem \<Rightarrow> mem \<Rightarrow> bool" where
  "kernel_loaded gdt n img m \<longleftrightarrow> loader_memory m \<and> unat (load32 m 0xd00) = n \<and> load32 m 0xd04 = gdt \<and>
     (\<forall>h \<in> set (ph_headers img). \<forall>a \<in> seg_dest img h. m a = seg_byte img h a)"

lemma load16_load32: "load16 m a = take_bit 16 (load32 m a)"
  by (rule bit_word_eqI) (auto simp: load16_def load32_def bit_simps dest: bit_imp_le_length)

lemma low_ends_areas:
  assumes "\<forall>i < length areas. bytes_at m (p + of_nat (20 * i)) 20 = areas ! i"
  shows "low_ends m p (length areas) = {unat (area_top a) | a. a \<in> set areas \<and> unat (area_top a) < 2 ^ 31}"
proof -
  have top: "area_end m p i = area_top (areas ! i)" if "i < length areas" for i
    using that assms by (intro area_end_top) simp
  have "low_ends m p (length areas) = {unat (area_top (areas ! i)) | i. i < length areas \<and> unat (area_top (areas ! i)) < 2 ^ 31}"
    unfolding low_ends_def using top by (intro Collect_cong ex_cong1) auto
  also have "\<dots> = {unat (area_top a) | a. a \<in> set areas \<and> unat (area_top a) < 2 ^ 31}" by (auto simp: in_set_conv_nth)
  finally show ?thesis .
qed

text \<open>The first half, in real mode: the areas, and what the kernel is told about them.\<close>

lemma loader_areas:
  assumes media: "loader_media gdt bios areas dev disk m"
  shows "\<exists>m0. detect_memory bios (ards_count gdt) 0 (ards_buffer gdt) m = Some (Inr m0) \<and>
    unat (load32 (get_total_mem_bytes gdt m0) 0xd00) = memory_top areas \<and> load32 (get_total_mem_bytes gdt m0) 0xd04 = gdt \<and>
    (\<forall>a. 0x101400 \<le> unat a \<and> unat a < 0x200000 \<longrightarrow> get_total_mem_bytes gdt m0 a = 0)"
proof -
  have fits: "loader_fits gdt (length areas)" and bios: "bios_lists bios 0 areas" and zero: "load32 m (ards_count gdt) = 0"
    and clear: "\<forall>a. 0x101400 \<le> unat a \<and> unat a < 0x200000 \<longrightarrow> m a = 0"
    using media unfolding loader_media_def by blast+
  note A = loader_addresses [OF fits]
  have room: "unat (ards_buffer gdt) + 20 * length areas < 0x10000" "unat (ards_count gdt) + 4 \<le> unat (ards_buffer gdt)"
    using fits by (simp_all add: A loader_fits_def)
  obtain m0 where m0: "detect_memory bios (ards_count gdt) 0 (ards_buffer gdt) m = Some (Inr m0)"
    "load32 m0 (ards_count gdt) = of_nat (length areas)"
    "\<forall>i < length areas. bytes_at m0 (ards_buffer gdt + of_nat (20 * i)) 20 = areas ! i"
    "\<forall>a. a \<notin> region (ards_count gdt) 4 \<and>
       (unat a < unat (ards_buffer gdt) \<or> unat (ards_buffer gdt) + 20 * length areas \<le> unat a) \<longrightarrow> m0 a = m a"
    using detect_memory_run [OF bios room, of m] zero by auto
  have len: "length areas < 0x10000" "length areas \<noteq> 0" using room(1) bios by auto
  have "unat (load32 m0 (ards_count gdt)) = length areas"
    unfolding m0(2) by (rule unat_of_nat32) (use len(1) in simp)
  then have n: "unat (load16 m0 (ards_count gdt)) = length areas"
    using len(1) by (simp add: load16_load32 unsigned_take_bit_eq take_bit_eq_mod unat_mod)
  have "m0 a = m a" if "0x10000 \<le> unat a" for a
  proof -
    have "a \<notin> region (ards_count gdt) 4" using that A fits by (subst region_atLeastLessThan) (simp_all add: loader_fits_def)
    then show ?thesis using m0(4) that room(1) by simp
  qed
  then have "get_total_mem_bytes gdt m0 a = 0" if "0x101400 \<le> unat a" "unat a < 0x200000" for a
    using that clear total_mem_outside [OF fits] by simp
  moreover have "unat (load32 (get_total_mem_bytes gdt m0) 0xd00) = memory_top areas" "load32 (get_total_mem_bytes gdt m0) 0xd04 = gdt"
    using total_mem_words [of gdt m0] n len(2) low_ends_areas [OF m0(3)] by (simp_all add: memory_top_def)
  ultimately show ?thesis using m0(1) by blast
qed

text \<open>The second half, in protected mode.\<close>

lemma loader_protected:
  fixes s :: "'a threads_scheme"
  assumes media: "loader_media gdt bios areas dev disk m"
    and clear: "\<And>a. 0x101400 \<le> unat a \<Longrightarrow> unat a < 0x200000 \<Longrightarrow> m1 a = 0"
    and gdt: "load32 m1 0xd04 = gdt"
  defines "s1 \<equiv> s\<lparr>phys := p_mode_start gdt dev m1, cr3 := page_dir_table_pos\<rparr>"
  shows "\<exists>m2. rbind (put_message_paged 0xb81e0 (str8 ''Paging opened.'') s1) load_segments = Inr (s1\<lparr>phys := m2\<rparr>) \<and>
    kernel_loaded gdt (unat (load32 m1 0xd00)) (kernel_file disk) m2"
proof -
  let ?k = "kernel_file disk"
  have fits: "loader_fits gdt (length areas)" and drive: "ata_drive disk dev" and ok: "file_ok ?k"
    and above: "\<forall>h \<in> set (ph_headers ?k). \<forall>a \<in> seg_dest ?k h. 0x1000 \<le> unat a"
    using media unfolding loader_media_def by blast+
  note P = p_mode_start_memory [OF fits drive, of m1, OF clear]
  have on: "loader_space_on s1" using P(1) by (simp add: s1_def loader_space_on_def page_dir_table_pos_def)
  define m3 where "m3 = put_message 0xb81e0 (str8 ''Paging opened.'') (phys s1)"
  have msg: "put_message_paged 0xb81e0 (str8 ''Paging opened.'') s1 = Inr (s1\<lparr>phys := m3\<rparr>)"
    unfolding m3_def by (rule put_message_paged_run [OF on]) (simp add: str8_def)
  have m3: "m3 a = p_mode_start gdt dev m1 a" if "unat a < 0xb81e0 \<or> 0xb8200 \<le> unat a" for a
    unfolding m3_def using that by (subst put_message_outside) (auto simp: str8_def s1_def)
  have img: "file_agrees ?k m3" using P(2) m3 by (simp add: file_agrees_def kernel_file_def)
  note F = file_agrees_ok [OF img ok]
  have hs: "ph_headers m3 = ph_headers ?k" using file_agrees_headers [OF img] by simp
  have lm: "loader_memory m3" using P(1) m3 by (simp add: loader_memory_def)
  have on3: "loader_space_on (s1\<lparr>phys := m3\<rparr>)" using lm on by (simp add: loader_space_on_def)
  have run: "load_segments (s1\<lparr>phys := m3\<rparr>) = Inr (s1\<lparr>phys := kernel_image m3\<rparr>)"
    using load_segments_run [OF on3] F(1) by simp
  note B = kernel_image_bytes [OF F(1)]
  have low: "kernel_image m3 a = m1 a" if "0xd00 \<le> unat a" "unat a < 0x1000" for a
  proof -
    have "a \<notin> seg_dest m3 h" if "h \<in> set (ph_headers m3)" for h using that above F(2) \<open>unat a < 0x1000\<close> unfolding hs by fastforce
    then have "kernel_image m3 a = m3 a" using B(3) by blast
    also have "\<dots> = m1 a" using m3 P(3) that by simp
    finally show ?thesis .
  qed
  have words: "load32 (kernel_image m3) p = load32 m1 p" if "p = 0xd00 \<or> p = 0xd04" for p
    by (rule load32_cong, rule low) (use that in \<open>auto simp: region_atLeastLessThan\<close>)
  have "loader_memory (kernel_image m3)" using B(1) lm by (simp add: same_file_def loader_memory_def)
  moreover have "kernel_image m3 a = seg_byte ?k h a" if h: "h \<in> set (ph_headers ?k)" and a: "a \<in> seg_dest ?k h" for h a
    using B(2) [of h a] F(2,3) [OF h] h a by (simp add: hs)
  ultimately have "kernel_loaded gdt (unat (load32 m1 0xd00)) ?k (kernel_image m3)"
    using words gdt by (simp add: kernel_loaded_def)
  then show ?thesis using msg run by (intro exI [of _ "kernel_image m3"]) simp
qed

lemma loader_run:
  fixes s :: "'a threads_scheme"
  assumes "loader_media gdt bios areas dev disk (phys s)"
  shows "\<exists>m. loader gdt bios dev s = Some (Inr (s\<lparr>phys := m, cr3 := 0x100000, esp := 0xc009effc\<rparr>)) \<and>
    kernel_loaded gdt (memory_top areas) (kernel_file disk) m"
proof -
  obtain m0 where m0: "detect_memory bios (ards_count gdt) 0 (ards_buffer gdt) (phys s) = Some (Inr m0)"
    and m1: "unat (load32 (get_total_mem_bytes gdt m0) 0xd00) = memory_top areas" "load32 (get_total_mem_bytes gdt m0) 0xd04 = gdt"
      "\<forall>a. 0x101400 \<le> unat a \<and> unat a < 0x200000 \<longrightarrow> get_total_mem_bytes gdt m0 a = 0"
    using loader_areas [OF assms] by blast
  let ?s1 = "s\<lparr>phys := p_mode_start gdt dev (get_total_mem_bytes gdt m0), cr3 := page_dir_table_pos\<rparr>"
  obtain m2 where run: "rbind (put_message_paged 0xb81e0 (str8 ''Paging opened.'') ?s1) load_segments = Inr (?s1\<lparr>phys := m2\<rparr>)"
    and loaded: "kernel_loaded gdt (memory_top areas) (kernel_file disk) m2"
    using loader_protected [OF assms _ m1(2), of s] m1(1,3) by auto
  have bind: "rbind r (\<lambda>x. rbind (f x) g) = rbind (rbind r f) g" for r f g by (simp add: rbind_def split: sum.splits)
  have "loader gdt bios dev s = Some (rbind (rbind (put_message_paged 0xb81e0 (str8 ''Paging opened.'') ?s1) load_segments)
      (\<lambda>s3. Inr (s3\<lparr>esp := 0xc009f000 - 4\<rparr>)))"
    unfolding loader_def m0 by (simp add: bind Let_def)
  then show ?thesis unfolding run using loaded by (intro exI [of _ m2]) (simp add: page_dir_table_pos_def)
qed

text \<open>
  \<open>boot.asm\<close> reads the loader and jumps to it.
\<close>

definition boot :: "u32 \<Rightarrow> bios \<Rightarrow> drive \<Rightarrow> 'a threads_scheme \<Rightarrow> 'a threads_scheme outcome option" where
  "boot gdt bios dev s = loader gdt bios dev (s\<lparr>phys := boot_sector dev (phys s)\<rparr>)"

lemma boot_run:
  fixes s :: "'a threads_scheme"
  assumes "boot_media gdt bios areas dev disk (phys s)"
  shows "\<exists>m. boot gdt bios dev s = Some (Inr (s\<lparr>phys := m, cr3 := 0x100000, esp := 0xc009effc\<rparr>)) \<and>
    kernel_loaded gdt (memory_top areas) (kernel_file disk) m"
  using loader_run [of gdt bios areas dev disk "s\<lparr>phys := boot_sector dev (phys s)\<rparr>"] boot_sector_media [OF assms]
  by (simp add: boot_def)


text \<open>The addresses that the linker gives to the objects of the kernel, and that no thread has a call pending.\<close>

definition kernel_placed :: "'a kernel_scheme \<Rightarrow> bool" where
  "kernel_placed s \<longleftrightarrow> frames s 0xc009e000 = [] \<and>
     distinct [plock (user_pool s), plock (kernel_pool s), console_lock s, kbd_buf s] \<and>
     distinct (link_nodes (s\<lparr>esp := 0xc009effc\<rparr>)) \<and> (\<forall>a \<in> set (link_nodes (s\<lparr>esp := 0xc009effc\<rparr>)). unat a < 0xc0100000)"

lemma loaded_powered:
  fixes s :: "'a kernel_scheme"
  assumes media: "boot_media gdt bios areas dev disk (phys s)" and placed: "kernel_placed s"
    and size: "mem_size_ok (of_nat (memory_top areas))" "64 \<le> total_pages (of_nat (memory_top areas))"
    and loaded: "kernel_loaded gdt (memory_top areas) (kernel_file disk) m"
  shows "powered (of_nat (memory_top areas)) gdt (s\<lparr>phys := m, cr3 := 0x100000, esp := 0xc009effc\<rparr>)"
proof -
  let ?s = "s\<lparr>phys := m, cr3 := 0x100000, esp := 0xc009effc\<rparr>"
  have g: "unat gdt + 40 \<le> 0xd00" using media by (simp add: boot_media_def loader_fits_def)
  have "link_nodes ?s = link_nodes (s\<lparr>esp := 0xc009effc\<rparr>)" by (simp add: link_nodes_def lock_lists_def running_thread_def)
  moreover have "running_thread ?s = 0xc009e000" by (simp add: running_thread_def)
  moreover have "unat (load32 m 0xd00) = memory_top areas" using loaded by (simp add: kernel_loaded_def)
  then have "of_nat (unat (load32 m 0xd00)) = (of_nat (memory_top areas) :: u32)" by (rule arg_cong)
  then have "load32 m 0xd00 = of_nat (memory_top areas)" by simp
  ultimately show ?thesis using placed size loaded g by (simp add: powered_def kernel_placed_def kernel_loaded_def)
qed


section \<open>A concrete machine\<close>

text \<open>A drive that decodes its registers, the file of \<open>LoadKernel\<close> from sector 9 on, and two areas up to 32 MB.\<close>

definition sample_drive :: "(nat \<Rightarrow> u8) \<Rightarrow> drive" where
  "sample_drive disk cmds k = (case cmds of
     [(_, n), (_, a), (_, b), (_, c), (_, d), _] \<Rightarrow>
       (let i = 512 * (unat a + 0x100 * unat b + 0x10000 * unat c + 0x1000000 * unat (d AND 0xf)) + 2 * k
        in ucast (disk i) OR push_bit 8 (ucast (disk (i + 1)))) | _ \<Rightarrow> 0)"

definition sample_disk :: "nat \<Rightarrow> u8" where
  "sample_disk j = (if j < 512 * 9 then 0 else sample_file (0x70000 + of_nat (j - 512 * 9)))"

definition sample_areas :: "u8 list list" where
  "sample_areas =
     [[0, 0, 0, 0, 0, 0, 0, 0, 0, 0xfc, 9, 0, 0, 0, 0, 0, 1, 0, 0, 0],
      [0, 0, 0x10, 0, 0, 0, 0, 0, 0, 0, 0xf0, 1, 0, 0, 0, 0, 1, 0, 0, 0]]"

definition sample_bios :: bios where
  "sample_bios ebx = (if ebx = 0 then Some (sample_areas ! 0, 1) else if ebx = 1 then Some (sample_areas ! 1, 0) else None)"

definition sample_start :: kernel where
  "sample_start = sample_boot\<lparr>phys := \<lambda>_. 0\<rparr>"

lemma sample_drive: "ata_drive disk (sample_drive disk)"
proof -
  have "(0xe0 OR d) AND 0xf = d" if "d AND 0xf = d" for d :: u8
    using that by (simp add: bit.conj_disj_distrib2)
  then show ?thesis by (simp add: ata_drive_def sample_drive_def)
qed

lemma sample_kernel_file: "file_agrees sample_file (kernel_file sample_disk)"
proof -
  have "0x70000 + (of_nat (unat a - 0x70000) :: u32) = a" if "0x70000 \<le> unat a" for a
    using that by (simp add: of_nat_diff)
  then show ?thesis by (simp add: file_agrees_def kernel_file_def sample_disk_def)
qed

lemma sample_top: "memory_top sample_areas = 0x2000000"
proof -
  have top: "unat (area_top (sample_areas ! 0)) = 0x9fc00" "unat (area_top (sample_areas ! 1)) = 0x2000000"
    by (simp_all add: sample_areas_def area_top_def le32_def)
  have "sample_areas = [sample_areas ! 0, sample_areas ! 1]" by (simp add: sample_areas_def)
  then have "set sample_areas = {sample_areas ! 0, sample_areas ! 1}" by (metis list.simps(15) set_empty empty_set)
  then have "{unat (area_top a) | a. a \<in> set sample_areas \<and> unat (area_top a) < 2 ^ 31} = {0x9fc00, 0x2000000}"
    using top by auto
  then show ?thesis by (simp add: memory_top_def)
qed

lemma sample_media: "boot_media 0xc00 sample_bios sample_areas (sample_drive sample_disk) sample_disk (phys sample_start)"
proof -
  note F = file_agrees_ok [OF sample_kernel_file sample_file_ok(1)]
  have hs: "ph_headers (kernel_file sample_disk) = [0x70034, 0x70054]"
    using file_agrees_headers [OF sample_kernel_file] sample_file_headers by simp
  have "\<forall>h \<in> set (ph_headers (kernel_file sample_disk)). \<forall>a \<in> seg_dest (kernel_file sample_disk) h. 0x1000 \<le> unat a"
    unfolding hs using F(2) by (simp add: sample_file_headers) (simp add: seg_dest_def sample_file_fields)
  moreover have "bios_lists sample_bios 0 sample_areas" by (simp add: sample_areas_def sample_bios_def)
  moreover have "phys sample_start = (\<lambda>_. 0)" by (simp add: sample_start_def)
  ultimately show ?thesis
    using F(1) sample_drive by (simp add: boot_media_def loader_fits_def sample_areas_def sample_disk_def)
qed

lemma sample_placed: "kernel_placed sample_start"
proof -
  have f: "frames sample_start = (\<lambda>_. [])" "plock (kernel_pool sample_start) = 0xc0002000" "plock (user_pool sample_start) = 0xc0002100"
    "console_lock sample_start = 0xc0002300" "kbd_buf sample_start = 0xc0002200"
    "thread_ready_list sample_start = 0xc0001000" "thread_all_list sample_start = 0xc0001100"
    by (simp_all add: sample_start_def sample_boot_def)
  have m: "running_thread (sample_start\<lparr>esp := 0xc009effc\<rparr>) = 0xc009e000" by (simp add: running_thread_def)
  show ?thesis
    unfolding kernel_placed_def link_nodes_def lock_lists_def m
    by (simp add: f head_of_def tail_of_def waiters_def semaphore_of_def general_tag_def all_list_tag_def)
qed



end
